(* ===== verification/Prelude.thy ===== *)
theory Prelude
  imports Main "HOL-Library.Word"
begin

text \<open>
  Shared vocabulary of the development: the result type of fallible code, C and C++ string
  primitives (\<^verbatim>\<open>std::tolower\<close>, \<^verbatim>\<open>std::string::rfind(p, 0)\<close>, \<^verbatim>\<open>std::to_string\<close>), and the
  generic lemmas on lists and maps that several components use.

  A C string never contains a NUL byte; it is a \<^typ>\<open>string\<close>, and a pointer to one is a
  \<^typ>\<open>string option\<close> (\<^const>\<open>None\<close> is the null pointer).
\<close>

section \<open>Errors as values\<close>

text \<open>
  \<open>RuntimeError\<close> is a thrown \<^verbatim>\<open>std::runtime_error\<close> (or another exception derived from
  \<^verbatim>\<open>std::exception\<close>) with its message; the other constructors are executions the C++ standard
  leaves undefined: dereferencing a null pointer or an empty \<^verbatim>\<open>std::optional\<close>, indexing a vector
  out of range, using an iterator that \<^verbatim>\<open>erase\<close> has invalidated, and \<^verbatim>\<open>memcpy\<close> between memory areas that overlap.
\<close>

datatype error =
    RuntimeError string
  | NullDeref
  | OutOfRange
  | InvalidIterator
  | OverlappingCopy

type_synonym 'a res = "error + 'a"

definition bindE :: "'a res \<Rightarrow> ('a \<Rightarrow> 'b res) \<Rightarrow> 'b res" where
  "bindE m f = (case m of Inl e \<Rightarrow> Inl e | Inr x \<Rightarrow> f x)"

lemma bindE_simps [simp]:
  "bindE (Inl e) f = Inl e"
  "bindE (Inr x) f = f x"
  by (simp_all add: bindE_def)

lemma bindE_cong [fundef_cong]:
  "m = m' \<Longrightarrow> (\<And>x. m' = Inr x \<Longrightarrow> f x = g x) \<Longrightarrow> bindE m f = bindE m' g"
  by (auto simp: bindE_def split: sum.splits)

text \<open>\<open>res_iff\<close> turns "this computation succeeded" into the successes of its steps.\<close>

named_theorems res_iff

lemma bindE_Inr_iff [res_iff]: "bindE m f = Inr y \<longleftrightarrow> (\<exists>x. m = Inr x \<and> f x = Inr y)"
  by (cases m) auto

lemma bindE_Inl_iff: "bindE m f = Inl e \<longleftrightarrow> m = Inl e \<or> (\<exists>x. m = Inr x \<and> f x = Inl e)"
  by (cases m) auto

declare conj_cong [fundef_cong]

text \<open>Dereferencing a pointer or an optional the code has not compared with null.\<close>

definition deref :: "'a option \<Rightarrow> 'a res" where
  "deref p = (case p of Some x \<Rightarrow> Inr x | None \<Rightarrow> Inl NullDeref)"

lemma deref_Inr [res_iff]: "deref p = Inr x \<longleftrightarrow> p = Some x"
  by (auto simp: deref_def split: option.splits)

text \<open>A loop over a vector that may throw: the first error stops it.\<close>

fun mapE :: "('a \<Rightarrow> 'b res) \<Rightarrow> 'a list \<Rightarrow> 'b list res" where
  "mapE f [] = Inr []"
| "mapE f (x # xs) = bindE (f x) (\<lambda>y. bindE (mapE f xs) (\<lambda>ys. Inr (y # ys)))"

fun foldE :: "('s \<Rightarrow> 'a \<Rightarrow> 's res) \<Rightarrow> 's \<Rightarrow> 'a list \<Rightarrow> 's res" where
  "foldE f s [] = Inr s"
| "foldE f s (x # xs) = bindE (f s x) (\<lambda>s'. foldE f s' xs)"

lemma mapE_Inr_iff [res_iff]: "mapE f xs = Inr ys \<longleftrightarrow> list_all2 (\<lambda>x y. f x = Inr y) xs ys"
  by (induction xs arbitrary: ys) (auto simp: bindE_Inr_iff list_all2_Cons1)

lemma mapE_cong [fundef_cong]:
  "xs = ys \<Longrightarrow> (\<And>x. x \<in> set ys \<Longrightarrow> f x = g x) \<Longrightarrow> mapE f xs = mapE g ys"
proof (induction ys arbitrary: xs)
  case Nil
  then show ?case by simp
next
  case (Cons y ys)
  have "mapE f ys = mapE g ys" by (rule Cons.IH) (auto intro: Cons.prems)
  moreover have "f y = g y" by (rule Cons.prems) simp
  ultimately show ?case using Cons.prems(1) by simp
qed

lemma foldE_append: "foldE f s (xs @ ys) = bindE (foldE f s xs) (\<lambda>s'. foldE f s' ys)"
  by (induction xs arbitrary: s) (auto simp: bindE_def split: sum.splits)

section \<open>Characters and strings\<close>

text \<open>\<^verbatim>\<open>std::tolower\<close> in the C locale moves the 26 upper-case ASCII letters by 32.\<close>

definition tolower :: "char \<Rightarrow> char" where
  "tolower c = (let n = (of_char c :: nat) in if 65 \<le> n \<and> n \<le> 90 then char_of (n + 32) else c)"

lemma tolower_idem [simp]: "tolower (tolower c) = tolower c"
proof -
  have "of_char (char_of (n + 32) :: char) = n + 32" if "n \<le> 90" for n :: nat
    using that by simp
  then show ?thesis by (auto simp: tolower_def Let_def)
qed

text \<open>\<^verbatim>\<open>s.rfind(p, 0) == 0\<close>: \<open>p\<close> is a prefix of \<open>s\<close>.\<close>

fun starts_with :: "string \<Rightarrow> string \<Rightarrow> bool" where
  "starts_with s [] = True"
| "starts_with [] (p # ps) = False"
| "starts_with (c # s) (p # ps) = (c = p \<and> starts_with s ps)"

lemma starts_with_iff: "starts_with s p \<longleftrightarrow> (\<exists>r. s = p @ r)"
  by (induction s p rule: starts_with.induct) auto

text \<open>\<^verbatim>\<open>std::to_string\<close> on integers: decimal digits, a minus sign for negative values.\<close>

definition digit_char :: "nat \<Rightarrow> char" where
  "digit_char d = char_of (48 + d)"

fun nat_to_string :: "nat \<Rightarrow> string" where
  "nat_to_string n =
     (if n < 10 then [digit_char n] else nat_to_string (n div 10) @ [digit_char (n mod 10)])"

declare nat_to_string.simps [simp del]

definition int_to_string :: "int \<Rightarrow> string" where
  "int_to_string i = (if i < 0 then CHR ''-'' # nat_to_string (nat (- i)) else nat_to_string (nat i))"

lemma digit_char_inj: "d < 10 \<Longrightarrow> d' < 10 \<Longrightarrow> digit_char d = digit_char d' \<Longrightarrow> d = d'"
proof -
  assume "d < 10" "d' < 10" "digit_char d = digit_char d'"
  then have "(of_char (char_of (48 + d) :: char) :: nat) = of_char (char_of (48 + d') :: char)"
    by (simp add: digit_char_def)
  then show ?thesis using \<open>d < 10\<close> \<open>d' < 10\<close> by simp
qed

lemma nat_to_string_nonempty [simp]: "nat_to_string n \<noteq> []"
  by (subst nat_to_string.simps) simp

lemma length_nat_to_string_1: "length (nat_to_string n) = Suc 0 \<longleftrightarrow> n < 10"
  by (subst nat_to_string.simps) (simp add: length_greater_0_conv [symmetric] del: length_greater_0_conv)

lemma nat_to_string_inj: "nat_to_string m = nat_to_string n \<Longrightarrow> m = n"
proof (induction m arbitrary: n rule: nat_to_string.induct)
  case (1 m)
  show ?case
  proof (cases "m < 10")
    case True
    then have "length (nat_to_string n) = Suc 0"
      using "1.prems" by (metis length_nat_to_string_1)
    then have "n < 10" by (simp add: length_nat_to_string_1)
    with True "1.prems" show ?thesis
      by (simp add: nat_to_string.simps [of m] nat_to_string.simps [of n] digit_char_inj)
  next
    case False
    then have "\<not> n < 10"
      using "1.prems" by (metis length_nat_to_string_1)
    with False "1.prems" have eq: "nat_to_string (m div 10) = nat_to_string (n div 10)"
      "digit_char (m mod 10) = digit_char (n mod 10)"
      by (simp_all add: nat_to_string.simps [of m] nat_to_string.simps [of n])
    from "1.IH" [OF False eq(1)] have "m div 10 = n div 10" .
    moreover from eq(2) have "m mod 10 = n mod 10" by (simp add: digit_char_inj)
    ultimately show ?thesis by (metis div_mult_mod_eq)
  qed
qed

text \<open>
  \<^verbatim>\<open>std::to_string(double)\<close> prints like \<^verbatim>\<open>%f\<close>: six decimals, the exact value rounded half to even.
  A finite double is a sign, a mantissa and a power of two; the parser's float literals are finite.
\<close>

datatype double = Double (negative: bool) (mantissa: nat) (exponent: int)

definition div_half_even :: "nat \<Rightarrow> nat \<Rightarrow> nat" where
  "div_half_even a b =
     (let q = a div b; r = a mod b in if 2 * r < b \<or> (2 * r = b \<and> even q) then q else q + 1)"

definition double_to_string :: "double \<Rightarrow> string" where
  "double_to_string d =
     (let n = (if 0 \<le> exponent d then mantissa d * 2 ^ nat (exponent d) * 10 ^ 6
               else div_half_even (mantissa d * 10 ^ 6) (2 ^ nat (- exponent d)));
          frac = nat_to_string (n mod 10 ^ 6)
      in (if negative d then ''-'' else '''') @ nat_to_string (n div 10 ^ 6) @ ''.'' @
         replicate (6 - length frac) (CHR ''0'') @ frac)"

lemma div_half_even_nearest:
  assumes "0 < b"
  shows "2 * (div_half_even a b * b) \<le> 2 * a + b" "2 * a \<le> 2 * (div_half_even a b * b) + b"
proof -
  obtain x r where x: "x = a div b * b" and r: "r = a mod b" by simp
  have a: "a = x + r" and m: "r < b" using assms by (simp_all add: x r)
  have d: "div_half_even a b * b = x \<and> 2 * r \<le> b \<or> div_half_even a b * b = x + b \<and> b \<le> 2 * r"
    by (auto simp: div_half_even_def Let_def x r)
  show "2 * (div_half_even a b * b) \<le> 2 * a + b" "2 * a \<le> 2 * (div_half_even a b * b) + b"
    using a m d by linarith+
qed

section \<open>Insertion-ordered sets and association lists\<close>

text \<open>
  \<^verbatim>\<open>std::unordered_set<std::string>\<close> is a list without repetitions; the code asks only for membership,
  the size and the single element of a singleton, so the order carries no meaning.
\<close>

definition set_insert :: "'a \<Rightarrow> 'a list \<Rightarrow> 'a list" where
  "set_insert x xs = (if x \<in> set xs then xs else xs @ [x])"

lemma set_set_insert [simp]: "set (set_insert x xs) = insert x (set xs)"
  by (auto simp: set_insert_def)

lemma distinct_set_insert [simp]: "distinct xs \<Longrightarrow> distinct (set_insert x xs)"
  by (auto simp: set_insert_def)

lemma set_fold_set_insert [simp]: "set (fold set_insert ys xs) = set xs \<union> set ys"
  by (induction ys arbitrary: xs) auto

lemma distinct_fold_set_insert [simp]: "distinct xs \<Longrightarrow> distinct (fold set_insert ys xs)"
  by (induction ys arbitrary: xs) auto

text \<open>
  \<^verbatim>\<open>std::unordered_map\<close> that the code iterates over is an association list in iteration order;
  \<open>amap_put\<close> is \<^verbatim>\<open>m[k] = v\<close>.
\<close>

fun amap_put :: "'k \<Rightarrow> 'v \<Rightarrow> ('k \<times> 'v) list \<Rightarrow> ('k \<times> 'v) list" where
  "amap_put k v [] = [(k, v)]"
| "amap_put k v (e # es) = (if fst e = k then (k, v) # es else e # amap_put k v es)"

lemma map_of_amap_put [simp]: "map_of (amap_put k v es) = (map_of es)(k \<mapsto> v)"
  by (induction es) auto

lemma keys_amap_put [simp]: "set (map fst (amap_put k v es)) = insert k (set (map fst es))"
  by (induction es) auto

lemma distinct_amap_put [simp]:
  "distinct (map fst es) \<Longrightarrow> distinct (map fst (amap_put k v es))"
proof (induction es)
  case (Cons e es)
  have "fst e \<notin> set (map fst (amap_put k v es))" if "fst e \<noteq> k"
    using that Cons.prems by (simp del: set_map)
  with Cons show ?case by auto
qed simp

text \<open>The non-null pointers of a vector, in order.\<close>

fun nonnull :: "'a option list \<Rightarrow> 'a list" where
  "nonnull [] = []"
| "nonnull (None # xs) = nonnull xs"
| "nonnull (Some x # xs) = x # nonnull xs"

lemma set_nonnull [simp]: "set (nonnull xs) = {x. Some x \<in> set xs}"
  by (induction xs rule: nonnull.induct) auto

lemma nonnull_map_Some [simp]: "nonnull (map Some xs) = xs"
  by (induction xs) auto

lemma nonnull_map_Some_fun [simp]: "nonnull (map (\<lambda>x. Some (f x)) xs) = map f xs"
  by (induction xs) auto

lemma nonnull_append [simp]: "nonnull (xs @ ys) = nonnull xs @ nonnull ys"
  by (induction xs rule: nonnull.induct) auto

text \<open>\<^verbatim>\<open>std::string::rfind(c)\<close>: the last index of a character.\<close>

definition str_rfind :: "char \<Rightarrow> string \<Rightarrow> nat option" where
  "str_rfind c s =
     (let is = filter (\<lambda>i. s ! i = c) [0..<length s] in if is = [] then None else Some (last is))"

end
