(* ===== verification/LogicalPlan.thy ===== *)
theory LogicalPlan
  imports Prelude
begin

text \<open>
  The logical plan (\<^verbatim>\<open>include/LogicalPlanNode.hpp\<close>): the operator enumerations, \<open>Column\<close>,
  \<open>AggSpec\<close>, \<open>Expression\<close> and the plan node. A \<^verbatim>\<open>std::shared_ptr<LogicalPlanNode>\<close> in a children
  vector is an \<open>option\<close>, because the join builder can leave a null child behind. The enumerators
  carry a prefix per enumeration, since C++ scopes them by their \<^verbatim>\<open>enum class\<close>.
\<close>

datatype LogicalNodeType =
  L_SCAN | L_FILTER | L_PROJECTION | L_JOIN | L_AGGREGATE | L_MAP | L_SETOPERATION | L_SORT

datatype PlanStringOp = S_UPPER | S_LOWER

datatype PlanCompType =
  C_LT | C_LE | C_EQ | C_GE | C_GT | C_NE | C_BETWEEN | C_IN | C_LIKE

datatype PlanAggFunc = A_COUNT | A_SUM | A_MIN | A_MAX | A_AVG

datatype PlanLogicalRelOp = R_UNION | R_INTERSECTION | R_NEGATION

datatype PlanArithOp = O_ADD | O_SUB | O_MUL | O_DIV | O_MOD

datatype PlanColumnType =
  T_INTEGER | T_FLOAT | T_STRING | T_BITMASK | T_POSLIST | T_PAIR_POSLIST

record Column =
  table_name :: string
  column_name :: string
  col_type :: PlanColumnType
  col_alias :: "string option"
  col_base_table :: "string option"
  is_base :: "bool option"

text \<open>
  The constructor \<^verbatim>\<open>Column(t, c, ty, alias, base)\<close> leaves \<open>is_base\<close> unset. The defaulted constructor
  \<^verbatim>\<open>Column()\<close> leaves \<open>type\<close> indeterminate; the model takes the first enumerator.
\<close>

definition mkColumn ::
  "string \<Rightarrow> string \<Rightarrow> PlanColumnType \<Rightarrow> string option \<Rightarrow> string option \<Rightarrow> Column" where
  "mkColumn t c ty al bt =
     \<lparr>table_name = t, column_name = c, col_type = ty, col_alias = al, col_base_table = bt, is_base = None\<rparr>"

definition Column_default :: Column where
  "Column_default = mkColumn '''' '''' T_INTEGER None None"

definition getBaseTableName :: "Column \<Rightarrow> string" where
  "getBaseTableName c = (case col_base_table c of Some b \<Rightarrow> b | None \<Rightarrow> table_name c)"

record AggSpec =
  agg_func :: PlanAggFunc
  agg_input :: "Column option"
  result_alias :: "string option"
  agg_is_star :: bool

record Expression =
  comp_type :: "PlanCompType option"
  agg_specs :: "AggSpec list"
  logical_rel_op :: "PlanLogicalRelOp option"
  arith_op :: "PlanArithOp option"
  sort_order :: "bool list option"
  literals :: "string list"
  limit_count :: "32 word option"
  limit_offset :: "32 word option"
  string_op :: "PlanStringOp option"

definition Expression_default :: Expression where
  "Expression_default =
     \<lparr>comp_type = None, agg_specs = [], logical_rel_op = None, arith_op = None, sort_order = None,
      literals = [], limit_count = None, limit_offset = None, string_op = None\<rparr>"

record LogicalNodeData =
  node_type :: LogicalNodeType
  base_table :: string
  base_columns :: "Column list"
  expression :: Expression
  projected_columns :: "Column list"

datatype LogicalPlanNode =
  LNode (node: LogicalNodeData) (children: "LogicalPlanNode option list")

text \<open>\<^verbatim>\<open>std::make_shared<LogicalPlanNode>()\<close> with its \<open>node_type\<close> assigned.\<close>

definition new_node :: "LogicalNodeType \<Rightarrow> LogicalNodeData" where
  "new_node ty =
     \<lparr>node_type = ty, base_table = '''', base_columns = [], expression = Expression_default,
      projected_columns = []\<rparr>"

lemma new_node_simps [simp]:
  "node_type (new_node ty) = ty"
  "base_table (new_node ty) = ''''"
  "base_columns (new_node ty) = []"
  "expression (new_node ty) = Expression_default"
  "projected_columns (new_node ty) = []"
  by (simp_all add: new_node_def)

lemma Expression_default_simps [simp]:
  "comp_type Expression_default = None"
  "agg_specs Expression_default = []"
  "logical_rel_op Expression_default = None"
  "arith_op Expression_default = None"
  "sort_order Expression_default = None"
  "literals Expression_default = []"
  "limit_count Expression_default = None"
  "limit_offset Expression_default = None"
  "string_op Expression_default = None"
  by (simp_all add: Expression_default_def)

lemma mkColumn_simps [simp]:
  "table_name (mkColumn t c ty al bt) = t"
  "column_name (mkColumn t c ty al bt) = c"
  "col_type (mkColumn t c ty al bt) = ty"
  "col_alias (mkColumn t c ty al bt) = al"
  "col_base_table (mkColumn t c ty al bt) = bt"
  "is_base (mkColumn t c ty al bt) = None"
  by (simp_all add: mkColumn_def)

text \<open>A data UNION node: the guard the translator tests in two places.\<close>

definition is_union :: "LogicalNodeData \<Rightarrow> bool" where
  "is_union d \<longleftrightarrow> node_type d = L_SETOPERATION \<and> logical_rel_op (expression d) = Some R_UNION"

end
