(* ===== verification/PhysicalPlan.thy ===== *)
theory PhysicalPlan
  imports LogicalPlan
begin

text \<open>
  The physical plan (\<^verbatim>\<open>include/PhysicalPlanNode.hpp\<close>) and the state the physical optimizer threads
  through its handlers (\<^verbatim>\<open>include/optimizer/PhysicalOptimizer.hpp\<close>).

  A physical plan is a directed acyclic graph: nodes are shared, and the post-processing pass compares
  pointers and changes nodes in place. Nodes therefore live in an explicit store, a list; a
  \<^verbatim>\<open>std::shared_ptr<PhysicalPlanNode>\<close> is the index of its node, or \<^const>\<open>None\<close>. A node is stored when
  the code has finished writing its fields, so that its pointer is never used before.
\<close>

section \<open>Nodes\<close>

datatype PhysicalNodeType =
    P_FILTER | P_IDXSCAN | P_NLJ | P_HASHJOIN | P_MERGEJOIN | P_AGGREGATE | P_SETOPERATION | P_SORT
  | P_MAP | P_MATERIALIZE | P_GROUPBY | P_INTERMEDIATE | P_RESULT

type_synonym ptr = "nat option"

record PhysicalPlanNode =
  p_type :: PhysicalNodeType
  node_id :: int
  p_base_columns :: "Column list"
  aggregationColumn :: "Column option"
  clusterColumn :: "Column option"
  p_expression :: Expression
  result_columns :: "Column list"
  p_children :: "ptr list"
  resultName :: "string option"
  p_index :: "Column option"

type_synonym heap = "PhysicalPlanNode list"

text \<open>\<^verbatim>\<open>std::make_shared<PhysicalPlanNode>()\<close> with its \<open>node_type\<close> and \<open>node_id\<close> assigned.\<close>

definition new_phys :: "PhysicalNodeType \<Rightarrow> int \<Rightarrow> PhysicalPlanNode" where
  "new_phys ty i =
     \<lparr>p_type = ty, node_id = i, p_base_columns = [], aggregationColumn = None, clusterColumn = None,
      p_expression = Expression_default, result_columns = [], p_children = [], resultName = None,
      p_index = None\<rparr>"

lemma new_phys_simps [simp]:
  "p_type (new_phys ty i) = ty"
  "node_id (new_phys ty i) = i"
  "p_base_columns (new_phys ty i) = []"
  "aggregationColumn (new_phys ty i) = None"
  "clusterColumn (new_phys ty i) = None"
  "p_expression (new_phys ty i) = Expression_default"
  "result_columns (new_phys ty i) = []"
  "p_children (new_phys ty i) = []"
  "resultName (new_phys ty i) = None"
  "p_index (new_phys ty i) = None"
  by (simp_all add: new_phys_def)

section \<open>Transformation state\<close>

record PosListInfo =
  poslist_col :: Column
  pos_producer :: ptr

text \<open>\<open>chain_index\<close> is a 32-bit \<^verbatim>\<open>int\<close>: -1 for a base column, \<^verbatim>\<open>INT_MAX\<close> for derived values.\<close>

record MaterializedInfo =
  mat_col :: Column
  mat_producer :: ptr
  chain_index :: "32 word"

definition int_max :: "32 word" where
  "int_max = 0x7FFFFFFF"

text \<open>
  \<open>table_poslist_chain\<close> is a total function: the code treats a missing entry and an empty chain alike.
\<close>

record TransformContext =
  available_poslists :: "string \<rightharpoonup> Column"
  ctx_table_name :: string
  poslist_provenance :: "string \<rightharpoonup> string"
  filter_nodes :: "string \<rightharpoonup> nat"
  table_poslist_chain :: "string \<Rightarrow> PosListInfo list"
  materialized_columns :: "string \<rightharpoonup> MaterializedInfo"
  intermediate_results :: "string \<rightharpoonup> MaterializedInfo"
  ctx_projected :: "MaterializedInfo list"
  ctx_limit_count :: "64 word option"
  ctx_limit_offset :: "64 word option"
  optimize_chains :: bool
  optimize_join_outputs :: bool

definition TransformContext_default :: TransformContext where
  "TransformContext_default =
     \<lparr>available_poslists = Map.empty, ctx_table_name = ''intermediate'', poslist_provenance = Map.empty,
      filter_nodes = Map.empty, table_poslist_chain = (\<lambda>_. []), materialized_columns = Map.empty,
      intermediate_results = Map.empty, ctx_projected = [], ctx_limit_count = None,
      ctx_limit_offset = None, optimize_chains = True, optimize_join_outputs = False\<rparr>"

datatype TransformResultType =
  X_UNKNOWN | X_SCAN | X_POSLIST | X_JOINED | X_MATERIALIZED | X_AGGREGATE | X_GROUPBY

record TransformResult =
  physical_root :: ptr
  output_column :: Column
  secondary_output :: "Column option"
  source_table :: string
  tables_involved :: "string set"
  result_type :: TransformResultType

definition TransformResult_default :: TransformResult where
  "TransformResult_default =
     \<lparr>physical_root = None, output_column = Column_default, secondary_output = None, source_table = '''',
      tables_involved = {}, result_type = X_UNKNOWN\<rparr>"

text \<open>
  The state: the node store, the context, and the numbers the random generator behind
  \<^verbatim>\<open>nextIntermediateName\<close> is still going to draw.
\<close>

record opt_state =
  heap :: heap
  ctx :: TransformContext
  draws :: "nat \<Rightarrow> int"

section \<open>Stateful code that may throw\<close>

type_synonym 'a opt = "opt_state \<Rightarrow> ('a \<times> opt_state) res"

definition retP :: "'a \<Rightarrow> 'a opt" where
  "retP x s = Inr (x, s)"

definition failP :: "error \<Rightarrow> 'a opt" where
  "failP e s = Inl e"

definition bindP :: "'a opt \<Rightarrow> ('a \<Rightarrow> 'b opt) \<Rightarrow> 'b opt" where
  "bindP m f s = bindE (m s) (\<lambda>(x, s'). f x s')"

fun mapP :: "('a \<Rightarrow> 'b opt) \<Rightarrow> 'a list \<Rightarrow> 'b list opt" where
  "mapP f [] = retP []"
| "mapP f (x # xs) = bindP (f x) (\<lambda>y. bindP (mapP f xs) (\<lambda>ys. retP (y # ys)))"

definition getP :: "(opt_state \<Rightarrow> 'a) \<Rightarrow> 'a opt" where
  "getP f s = Inr (f s, s)"

definition modP :: "(TransformContext \<Rightarrow> TransformContext) \<Rightarrow> unit opt" where
  "modP f s = Inr ((), s\<lparr>ctx := f (ctx s)\<rparr>)"

text \<open>Storing a finished node yields its pointer; \<open>nextIntermediateName\<close> takes the next random number.\<close>

definition alloc :: "PhysicalPlanNode \<Rightarrow> nat opt" where
  "alloc n s = Inr (length (heap s), s\<lparr>heap := heap s @ [n]\<rparr>)"

definition nextIntermediateName :: "int opt" where
  "nextIntermediateName s = Inr (draws s 0, s\<lparr>draws := (\<lambda>k. draws s (Suc k))\<rparr>)"

definition iname :: "int \<Rightarrow> string" where
  "iname i = ''i'' @ int_to_string i"

text \<open>A column of the intermediate table.\<close>

definition icol :: "string \<Rightarrow> PlanColumnType \<Rightarrow> Column opt" where
  "icol name ty = getP (\<lambda>s. mkColumn (ctx_table_name (ctx s)) name ty None None)"

definition node_of :: "nat \<Rightarrow> PhysicalPlanNode opt" where
  "node_of a = getP (\<lambda>s. heap s ! a)"

text \<open>\<^verbatim>\<open>root && root->node_type == ty\<close>.\<close>

definition root_is :: "PhysicalNodeType \<Rightarrow> ptr \<Rightarrow> bool opt" where
  "root_is ty p = getP (\<lambda>s. case p of Some a \<Rightarrow> p_type (heap s ! a) = ty | None \<Rightarrow> False)"

lemma bindP_cong [fundef_cong]:
  "m = m' \<Longrightarrow> (\<And>x. f x = g x) \<Longrightarrow> bindP m f = bindP m' g"
proof -
  assume "m = m'" "\<And>x. f x = g x"
  moreover from this(2) have "f = g" by (rule ext)
  ultimately show ?thesis by simp
qed

lemma mapP_cong [fundef_cong]:
  "xs = ys \<Longrightarrow> (\<And>x. x \<in> set ys \<Longrightarrow> f x = g x) \<Longrightarrow> mapP f xs = mapP g ys"
  by (induction ys arbitrary: xs) auto

lemma monad_simps [simp]:
  "retP x s = Inr (x, s)"
  "failP e s = Inl e"
  "getP h s = Inr (h s, s)"
  "modP g s = Inr ((), s\<lparr>ctx := g (ctx s)\<rparr>)"
  "alloc n s = Inr (length (heap s), s\<lparr>heap := heap s @ [n]\<rparr>)"
  "nextIntermediateName s = Inr (draws s 0, s\<lparr>draws := (\<lambda>k. draws s (Suc k))\<rparr>)"
  by (simp_all add: retP_def failP_def getP_def modP_def alloc_def nextIntermediateName_def)

section \<open>The store invariant\<close>

text \<open>
  Every child pointer of a stored node is null or leads to a node stored earlier: the plan is a finite
  acyclic graph.
\<close>

definition ptr_ok :: "nat \<Rightarrow> ptr \<Rightarrow> bool" where
  "ptr_ok n p \<longleftrightarrow> (case p of None \<Rightarrow> True | Some a \<Rightarrow> a < n)"

definition heap_ok :: "heap \<Rightarrow> bool" where
  "heap_ok h \<longleftrightarrow> (\<forall>a < length h. \<forall>p \<in> set (p_children (h ! a)). ptr_ok a p)"

lemma ptr_ok_simps [simp]: "ptr_ok n None" "ptr_ok n (Some a) \<longleftrightarrow> a < n"
  by (simp_all add: ptr_ok_def)

lemma ptr_ok_mono: "ptr_ok n p \<Longrightarrow> n \<le> m \<Longrightarrow> ptr_ok m p"
  by (auto simp: ptr_ok_def split: option.splits)

lemma heap_ok_child: "heap_ok h \<Longrightarrow> a < length h \<Longrightarrow> Some c \<in> set (p_children (h ! a)) \<Longrightarrow> c < a"
  unfolding heap_ok_def by (metis ptr_ok_simps(2))

lemma heap_ok_snoc:
  "heap_ok h \<Longrightarrow> (\<And>p. p \<in> set (p_children n) \<Longrightarrow> ptr_ok (length h) p) \<Longrightarrow> heap_ok (h @ [n])"
  by (auto simp: heap_ok_def nth_append less_Suc_eq)

end
