(* ===== verification/Materialization.thy ===== *)
theory Materialization
  imports PhysicalPlan
begin

text \<open>
  \<^verbatim>\<open>PhysicalOptimizerMaterialization.cpp\<close>: resolving a base column to values by following the chain of
  position lists of its table, with the cache of already materialized columns. A column passed by
  reference whose \<open>is_base\<close> flag the code sets is returned next to the result.
\<close>

section \<open>Helpers\<close>

definition isBaseTableChainMaterialization :: "heap \<Rightarrow> MaterializedInfo \<Rightarrow> bool" where
  "isBaseTableChainMaterialization h info =
     (case mat_producer info of
        None \<Rightarrow> False
      | Some a \<Rightarrow>
          if p_type (h ! a) \<noteq> P_MATERIALIZE then False
          else (case p_base_columns (h ! a) of
              [] \<Rightarrow> False
            | c # _ \<Rightarrow> (case is_base c of Some b \<Rightarrow> b | None \<Rightarrow> False)))"

definition lookupIntermediateResult :: "Column \<Rightarrow> TransformContext \<Rightarrow> MaterializedInfo option" where
  "lookupIntermediateResult col c =
     (case (case col_alias col of
              Some a \<Rightarrow> if a \<noteq> '''' then intermediate_results c a else None
            | None \<Rightarrow> None) of
        Some i \<Rightarrow> Some i
      | None \<Rightarrow> intermediate_results c (column_name col))"

definition createMaterializeNode :: "Column \<Rightarrow> Column \<Rightarrow> ptr list \<Rightarrow> (Column \<times> nat) opt" where
  "createMaterializeNode column_to_materialize poslist ps =
     bindP nextIntermediateName (\<lambda>i.
     bindP (icol (iname i) (col_type column_to_materialize)) (\<lambda>output_col.
     bindP (alloc ((new_phys P_MATERIALIZE i)\<lparr>
              p_base_columns := [column_to_materialize],
              p_index := Some poslist,
              p_children := map Some (nonnull ps),
              result_columns := [output_col]\<rparr>)) (\<lambda>a.
       retP (output_col, a))))"

definition col_key :: "Column \<Rightarrow> string" where
  "col_key c = table_name c @ ''.'' @ column_name c"

section \<open>Optimized variant\<close>

text \<open>One step of the loop that composes a position list with its predecessor in the chain.\<close>

definition compose_step :: "string \<Rightarrow> PosListInfo \<Rightarrow> PosListInfo \<Rightarrow> PosListInfo opt" where
  "compose_step tab prev cur =
     bindP (root_is P_HASHJOIN (pos_producer cur)) (\<lambda>j.
     bindP (root_is P_FILTER (pos_producer cur)) (\<lambda>f.
       if j \<or> f then
         bindP nextIntermediateName (\<lambda>mid.
         bindP (icol (iname mid) T_POSLIST) (\<lambda>mapped_col.
         bindP (alloc ((new_phys P_MATERIALIZE mid)\<lparr>
                  p_base_columns := [poslist_col prev],
                  p_index := Some (poslist_col cur),
                  p_children := map Some (nonnull [pos_producer prev, pos_producer cur]),
                  result_columns := [mapped_col]\<rparr>)) (\<lambda>a.
         bindP (modP (\<lambda>c. c\<lparr>poslist_provenance := (poslist_provenance c)(iname mid \<mapsto> tab)\<rparr>)) (\<lambda>_.
           retP \<lparr>poslist_col = mapped_col, pos_producer = Some a\<rparr>))))
       else retP cur))"

fun compose_chain :: "string \<Rightarrow> PosListInfo \<Rightarrow> PosListInfo list \<Rightarrow> PosListInfo list opt" where
  "compose_chain tab prev [] = retP []"
| "compose_chain tab prev (cur # rest) =
     bindP (compose_step tab prev cur) (\<lambda>cur'.
     bindP (compose_chain tab cur' rest) (\<lambda>rest'. retP (cur' # rest')))"

definition ensureMaterializedOptimized :: "Column \<Rightarrow> (MaterializedInfo \<times> Column) opt" where
  "ensureMaterializedOptimized base_col =
     bindP (getP (\<lambda>s. lookupIntermediateResult base_col (ctx s))) (\<lambda>found.
     case found of
       Some info \<Rightarrow> retP (info, base_col)
     | None \<Rightarrow>
         let tab = table_name base_col; key = col_key base_col; based = base_col\<lparr>is_base := Some True\<rparr> in
         bindP (getP (\<lambda>s. table_poslist_chain (ctx s) tab)) (\<lambda>chain.
         case chain of
           [] \<Rightarrow> retP (\<lparr>mat_col = based, mat_producer = None, chain_index = - 1\<rparr>, based)
         | first # rest \<Rightarrow>
             bindP (compose_chain tab first rest) (\<lambda>rest'.
             let chain' = first # rest'; target_chain_index = of_nat (length chain') - 1; final_pos = last chain' in
             bindP (modP (\<lambda>c. c\<lparr>table_poslist_chain := (table_poslist_chain c)(tab := chain')\<rparr>)) (\<lambda>_.
             bindP (getP (\<lambda>s. case materialized_columns (ctx s) key of
                       Some cached \<Rightarrow>
                         if \<not> isBaseTableChainMaterialization (heap s) cached \<or> chain_index cached = target_chain_index
                         then Some cached else None
                     | None \<Rightarrow> None)) (\<lambda>reuse.
             case reuse of
               Some cached \<Rightarrow> retP (cached, base_col)
             | None \<Rightarrow>
                 bindP (createMaterializeNode based (poslist_col final_pos) [pos_producer final_pos]) (\<lambda>(out_col, a).
                 let out_info = \<lparr>mat_col = out_col, mat_producer = Some a, chain_index = target_chain_index\<rparr> in
                 bindP (modP (\<lambda>c. c\<lparr>materialized_columns := (materialized_columns c)(key \<mapsto> out_info)\<rparr>)) (\<lambda>_.
                   retP (out_info, based))))))))"

section \<open>Chained variant\<close>

text \<open>The loop over the chain from index \<open>i\<close> on; \<^verbatim>\<open>chain_index = i\<close> narrows to \<^verbatim>\<open>int\<close>.\<close>

fun chain_loop :: "MaterializedInfo \<Rightarrow> nat \<Rightarrow> PosListInfo list \<Rightarrow> MaterializedInfo opt" where
  "chain_loop current i [] = retP current"
| "chain_loop current i (pos # rest) =
     bindP (createMaterializeNode (mat_col current) (poslist_col pos) [mat_producer current, pos_producer pos])
       (\<lambda>(c, a). chain_loop \<lparr>mat_col = c, mat_producer = Some a, chain_index = of_nat i\<rparr> (i + 1) rest)"

text \<open>
  The first index visited: \<^verbatim>\<open>size_t i = current_info.chain_index + 1\<close>. The addition is on \<^verbatim>\<open>int\<close> and the
  sum is converted to 64 bits; for the sentinel \<^verbatim>\<open>INT_MAX\<close> it overflows, which the model resolves as
  two's complement wrap-around, so that the loop is not entered.
\<close>

definition chain_start :: "32 word \<Rightarrow> nat" where
  "chain_start ci = unat (scast (ci + 1) :: 64 word)"

definition ensureMaterialized :: "Column \<Rightarrow> (MaterializedInfo \<times> Column) opt" where
  "ensureMaterialized base_col =
     bindP (getP (\<lambda>s. optimize_chains (ctx s))) (\<lambda>optimized.
     if optimized then ensureMaterializedOptimized base_col
     else
       bindP (getP (\<lambda>s. lookupIntermediateResult base_col (ctx s))) (\<lambda>found.
       case found of
         Some info \<Rightarrow> retP (info, base_col)
       | None \<Rightarrow>
           let key = col_key base_col in
           bindP (getP (\<lambda>s. case materialized_columns (ctx s) key of
                     Some cached \<Rightarrow> cached
                   | None \<Rightarrow> \<lparr>mat_col = base_col\<lparr>is_base := Some True\<rparr>, mat_producer = None, chain_index = - 1\<rparr>)) (\<lambda>start.
           bindP (getP (\<lambda>s. table_poslist_chain (ctx s) (table_name base_col))) (\<lambda>chain.
           let i = chain_start (chain_index start) in
           bindP (chain_loop start i (drop i chain)) (\<lambda>info.
           bindP (modP (\<lambda>c. c\<lparr>materialized_columns := (materialized_columns c)(key \<mapsto> info)\<rparr>)) (\<lambda>_.
             retP (info, base_col)))))))"

section \<open>Intermediate results and grouped keys\<close>

definition registerIntermediateResult :: "string \<Rightarrow> Column \<Rightarrow> nat \<Rightarrow> unit opt" where
  "registerIntermediateResult name col producer =
     (let info = \<lparr>mat_col = col, mat_producer = Some producer, chain_index = int_max\<rparr> in
      modP (\<lambda>c. c\<lparr>intermediate_results :=
        (let m = (intermediate_results c)(name \<mapsto> info) in
         case col_alias col of Some a \<Rightarrow> if a \<noteq> '''' then m(a \<mapsto> info) else m | None \<Rightarrow> m)\<rparr>))"

definition resolveAggregateInput :: "AggSpec \<Rightarrow> TransformResult \<Rightarrow> (Column \<times> ptr) opt" where
  "resolveAggregateInput spec child_result =
     (case agg_input spec of
        Some c \<Rightarrow> bindP (ensureMaterialized c) (\<lambda>(info, _). retP (mat_col info, mat_producer info))
      | None \<Rightarrow> retP (output_column child_result, physical_root child_result))"

text \<open>The loop runs over the logical columns; indexing the materialized ones past their end is an error.\<close>

fun materializeGroupedKeys :: "MaterializedInfo list \<Rightarrow> Column list \<Rightarrow> Column \<Rightarrow> nat \<Rightarrow> unit opt" where
  "materializeGroupedKeys mats [] idx groupby = retP ()"
| "materializeGroupedKeys [] (c # cs) idx groupby = failP OutOfRange"
| "materializeGroupedKeys (m # mats) (c # cs) idx groupby =
     bindP (createMaterializeNode (mat_col m) idx [Some groupby, mat_producer m]) (\<lambda>(out_col, a).
     bindP (modP (\<lambda>x. x\<lparr>materialized_columns := (materialized_columns x)
              (col_key c \<mapsto> \<lparr>mat_col = out_col, mat_producer = Some a, chain_index = int_max\<rparr>)\<rparr>)) (\<lambda>_.
       materializeGroupedKeys mats cs idx groupby))"

end
