(* ===== verification/PhysicalHandlers.thy ===== *)
theory PhysicalHandlers
  imports Materialization
begin

text \<open>
  The node handlers of \<^verbatim>\<open>PhysicalOptimizer.cpp\<close> and the cardinality table of
  \<^verbatim>\<open>PhysicalOptimizerCardinality.cpp\<close>. A handler that transforms children takes the recursive call
  \<^verbatim>\<open>transformNode\<close> as an argument; the congruence rule next to it records that it calls it on the node's
  children only, which is what the recursion of \<^verbatim>\<open>transformNode\<close> needs. Indexing a vector past its end
  is the error \<^const>\<open>OutOfRange\<close>, reading through a null pointer \<^const>\<open>NullDeref\<close>: undefined behaviour in
  the code, as opposed to the exceptions \<^const>\<open>RuntimeError\<close>.
\<close>

type_synonym transform = "LogicalPlanNode option \<Rightarrow> TransformResult opt"

section \<open>Cardinalities\<close>

definition getSSBCardinality :: "string \<Rightarrow> 64 word" where
  "getSSBCardinality t =
     (if t = ''lineorder'' then 6000000
      else if t = ''customer'' then 30000
      else if t = ''part'' then 200000
      else if t = ''supplier'' then 2000
      else if t = ''date'' \<or> t = ''ddate'' then 2556
      else 1000)"

definition getCardinality :: "string \<Rightarrow> 64 word" where
  "getCardinality t = getSSBCardinality t"

section \<open>Context updates\<close>

definition set_provenance :: "string \<Rightarrow> string \<Rightarrow> unit opt" where
  "set_provenance name tab = modP (\<lambda>c. c\<lparr>poslist_provenance := (poslist_provenance c)(name \<mapsto> tab)\<rparr>)"

text \<open>\<^verbatim>\<open>filter_nodes[tab + "_filter"] = a; available_poslists[tab + "_filter"] = col\<close>.\<close>

definition set_filter :: "string \<Rightarrow> nat \<Rightarrow> Column \<Rightarrow> unit opt" where
  "set_filter tab a col = modP (\<lambda>c. c\<lparr>
     filter_nodes := (filter_nodes c)(tab @ ''_filter'' \<mapsto> a),
     available_poslists := (available_poslists c)(tab @ ''_filter'' \<mapsto> col)\<rparr>)"

text \<open>The loop that appends one position list to the chains of a set of tables.\<close>

definition push_chains :: "string set \<Rightarrow> PosListInfo \<Rightarrow> unit opt" where
  "push_chains tabs info = modP (\<lambda>c. c\<lparr>table_poslist_chain :=
     (\<lambda>t. table_poslist_chain c t @ (if t \<in> tabs then [info] else []))\<rparr>)"

text \<open>Cached materializations whose key starts with the name of an involved table are erased.\<close>

definition invalidate :: "string set \<Rightarrow> unit opt" where
  "invalidate tabs = modP (\<lambda>c. c\<lparr>materialized_columns :=
     (\<lambda>k. if \<exists>t \<in> tabs. starts_with k (t @ ''.'') then None else materialized_columns c k)\<rparr>)"

section \<open>Scan, set operation, filter\<close>

definition handleScan :: "LogicalNodeData \<Rightarrow> TransformResult opt" where
  "handleScan d = retP (TransformResult_default\<lparr>
     source_table := base_table d, tables_involved := {base_table d}, result_type := X_SCAN\<rparr>)"

definition createSetOperationNode :: "TransformResult list \<Rightarrow> PlanLogicalRelOp \<Rightarrow> TransformResult opt" where
  "createSetOperationNode child_results op_type =
     (if length child_results < 2 then failP (RuntimeError ''SETOPERATION requires at least 2 inputs'')
      else
        bindP nextIntermediateName (\<lambda>i.
        bindP (icol (iname i) T_POSLIST) (\<lambda>output_col.
        bindP (alloc ((new_phys P_SETOPERATION i)\<lparr>
                 p_base_columns := map output_column child_results,
                 p_expression := Expression_default\<lparr>logical_rel_op := Some op_type\<rparr>,
                 result_columns := [output_col],
                 p_children := map physical_root child_results\<rparr>)) (\<lambda>a.
        let src = source_table (hd child_results) in
        bindP (set_provenance (iname i) src) (\<lambda>_.
        bindP (if src \<noteq> '''' then
                 bindP (modP (\<lambda>c. c\<lparr>table_poslist_chain :=
                   (table_poslist_chain c)(src := [\<lparr>poslist_col = output_col, pos_producer = Some a\<rparr>])\<rparr>)) (\<lambda>_.
                 set_filter src a output_col)
               else retP ()) (\<lambda>_.
          retP (TransformResult_default\<lparr>
            physical_root := Some a, output_column := output_col, source_table := src,
            tables_involved := \<Union> (set (map tables_involved child_results)), result_type := X_POSLIST\<rparr>)))))))"

definition handleCrossTableFilter ::
  "LogicalNodeData \<Rightarrow> Column \<Rightarrow> Column \<Rightarrow> TransformResult \<Rightarrow> string \<Rightarrow> TransformResult opt" where
  "handleCrossTableFilter d left_col right_col child_result src =
     bindP (ensureMaterialized left_col) (\<lambda>(left_mat, _).
     bindP (ensureMaterialized right_col) (\<lambda>(right_mat, _).
     bindP nextIntermediateName (\<lambda>i.
     bindP (icol (iname i) T_POSLIST) (\<lambda>output_col.
     bindP (alloc ((new_phys P_FILTER i)\<lparr>
              p_base_columns := [mat_col left_mat, mat_col right_mat],
              p_expression := expression d,
              p_children := map Some (nonnull [mat_producer left_mat, mat_producer right_mat]),
              result_columns := [output_col]\<rparr>)) (\<lambda>a.
     bindP (set_provenance (iname i) (table_name left_col)) (\<lambda>_.
     bindP (push_chains (tables_involved child_result) \<lparr>poslist_col = output_col, pos_producer = Some a\<rparr>) (\<lambda>_.
     bindP (invalidate (tables_involved child_result)) (\<lambda>_.
       retP (TransformResult_default\<lparr>
         physical_root := Some a, output_column := output_col, source_table := src, result_type := X_POSLIST,
         tables_involved := tables_involved child_result \<union> {table_name left_col, table_name right_col}\<rparr>)))))))))"

text \<open>
  The part of the FILTER handler after the child: a predicate over two tables, or a filter on one table,
  which is intersected with the child when the child is a FILTER node on the same table.
\<close>

definition singleTableFilter :: "LogicalNodeData \<Rightarrow> TransformResult \<Rightarrow> TransformResult opt" where
  "singleTableFilter d child_result =
     (case base_columns d of
        [] \<Rightarrow> failP OutOfRange
      | c # cs \<Rightarrow>
          let src = table_name c in
          bindP nextIntermediateName (\<lambda>i.
          bindP (icol (iname i) T_POSLIST) (\<lambda>output_col.
          bindP (set_provenance (iname i) src) (\<lambda>_.
          bindP (alloc ((new_phys P_FILTER i)\<lparr>
                   p_base_columns := c\<lparr>is_base := Some True\<rparr> # cs,
                   p_expression := expression d,
                   result_columns := [output_col]\<rparr>)) (\<lambda>a.
          let tabs = tables_involved child_result \<union> (if src \<noteq> '''' then {src} else {});
              this_result = TransformResult_default\<lparr>
                physical_root := Some a, output_column := output_col, source_table := src,
                tables_involved := tabs, result_type := X_POSLIST\<rparr> in
          bindP (root_is P_FILTER (physical_root child_result)) (\<lambda>f.
          if f \<and> source_table child_result = src
          then createSetOperationNode [child_result, this_result] R_INTERSECTION
          else
            bindP (set_filter src a output_col) (\<lambda>_.
            bindP (push_chains {src} \<lparr>poslist_col = output_col, pos_producer = Some a\<rparr>) (\<lambda>_.
              retP this_result))))))))"

definition handleFilter :: "transform \<Rightarrow> LogicalNodeData \<Rightarrow> LogicalPlanNode option list \<Rightarrow> TransformResult opt" where
  "handleFilter transform d ch =
     (case ch of
        [] \<Rightarrow> failP (RuntimeError ''FILTER node must have a child'')
      | child # _ \<Rightarrow>
          bindP (transform child) (\<lambda>child_result.
          case base_columns d of
            c1 # c2 # _ \<Rightarrow>
              if table_name c1 \<noteq> '''' \<and> table_name c2 \<noteq> '''' \<and> table_name c1 \<noteq> table_name c2
              then handleCrossTableFilter d c1 c2 child_result (table_name c1)
              else singleTableFilter d child_result
          | _ \<Rightarrow> singleTableFilter d child_result))"

definition handleSetOperation ::
  "transform \<Rightarrow> LogicalNodeData \<Rightarrow> LogicalPlanNode option list \<Rightarrow> TransformResult opt" where
  "handleSetOperation transform d ch =
     (if length ch < 2 then failP (RuntimeError ''SETOPERATION node must have at least 2 children'')
      else
        bindP (mapP transform ch) (\<lambda>child_results.
        createSetOperationNode child_results
          (case logical_rel_op (expression d) of Some op \<Rightarrow> op | None \<Rightarrow> R_INTERSECTION)))"

section \<open>Join\<close>

definition createHashJoin ::
  "LogicalNodeData \<Rightarrow> Column \<Rightarrow> Column \<Rightarrow> TransformResult \<Rightarrow> TransformResult \<Rightarrow> TransformResult opt" where
  "createHashJoin d left_col right_col left_result right_result =
     bindP (ensureMaterialized left_col) (\<lambda>(left_mat, _).
     bindP (ensureMaterialized right_col) (\<lambda>(right_mat, _).
     let swap_inputs = (getCardinality (table_name left_col) > getCardinality (table_name right_col));
         (inner_mat, outer_mat) = (if swap_inputs then (right_mat, left_mat) else (left_mat, right_mat));
         (inner_table, outer_table) =
           (if swap_inputs then (table_name right_col, table_name left_col)
            else (table_name left_col, table_name right_col));
         (inner_tables, outer_tables) =
           (if swap_inputs then (tables_involved right_result, tables_involved left_result)
            else (tables_involved left_result, tables_involved right_result)) in
     bindP nextIntermediateName (\<lambda>i.
     let inner_name = iname i @ ''_i''; outer_name = iname i @ ''_o'' in
     bindP (icol inner_name T_POSLIST) (\<lambda>inner_col.
     bindP (icol outer_name T_POSLIST) (\<lambda>outer_col.
     bindP (alloc ((new_phys P_HASHJOIN i)\<lparr>
              p_base_columns := [mat_col inner_mat, mat_col outer_mat],
              p_expression := expression d,
              p_children := map Some (nonnull [mat_producer inner_mat, mat_producer outer_mat]),
              result_columns := [inner_col, outer_col]\<rparr>)) (\<lambda>a.
     bindP (set_provenance inner_name inner_table) (\<lambda>_.
     bindP (set_provenance outer_name outer_table) (\<lambda>_.
     bindP (push_chains inner_tables \<lparr>poslist_col = inner_col, pos_producer = Some a\<rparr>) (\<lambda>_.
     bindP (push_chains outer_tables \<lparr>poslist_col = outer_col, pos_producer = Some a\<rparr>) (\<lambda>_.
       retP (TransformResult_default\<lparr>
         physical_root := Some a, output_column := inner_col, secondary_output := Some outer_col,
         result_type := X_JOINED,
         tables_involved := tables_involved left_result \<union> tables_involved right_result\<rparr>)))))))))))"

definition handleJoin :: "transform \<Rightarrow> LogicalNodeData \<Rightarrow> LogicalPlanNode option list \<Rightarrow> TransformResult opt" where
  "handleJoin transform d ch =
     (case ch of
        [] \<Rightarrow> failP (RuntimeError ''JOIN node must have at least one child'')
      | [l] \<Rightarrow> bindP (transform l) (\<lambda>_. failP OutOfRange)
      | l # r # _ \<Rightarrow>
          bindP (transform l) (\<lambda>left_result.
          bindP (transform r) (\<lambda>right_result.
          case base_columns d of
            left_col # right_col # _ \<Rightarrow> createHashJoin d left_col right_col left_result right_result
          | _ \<Rightarrow> failP OutOfRange)))"

section \<open>Map\<close>

definition handleMap :: "transform \<Rightarrow> LogicalNodeData \<Rightarrow> LogicalPlanNode option list \<Rightarrow> TransformResult opt" where
  "handleMap transform d ch =
     (case ch of
        [] \<Rightarrow> failP (RuntimeError ''MAP node must have a child'')
      | child # _ \<Rightarrow>
          bindP (transform child) (\<lambda>child_result.
          bindP (mapP ensureMaterialized (base_columns d)) (\<lambda>mats.
          bindP nextIntermediateName (\<lambda>i.
          bindP (icol (iname i) T_INTEGER) (\<lambda>output_col.
          bindP (alloc ((new_phys P_MAP i)\<lparr>
                   p_base_columns := map (mat_col \<circ> fst) mats,
                   p_children := map Some (nonnull (map (mat_producer \<circ> fst) mats)),
                   p_expression := expression d,
                   result_columns := [output_col]\<rparr>)) (\<lambda>a.
          bindP (registerIntermediateResult (iname i) output_col a) (\<lambda>_.
            retP (TransformResult_default\<lparr>
              physical_root := Some a, output_column := output_col, result_type := X_MATERIALIZED,
              tables_involved := tables_involved child_result\<rparr>))))))))"

section \<open>Aggregation without grouping\<close>

text \<open>An output column takes the alias of the aggregate, when it has one.\<close>

definition with_alias :: "AggSpec option \<Rightarrow> Column \<Rightarrow> Column" where
  "with_alias spec c =
     (case Option.bind spec result_alias of Some a \<Rightarrow> c\<lparr>col_alias := Some a\<rparr> | None \<Rightarrow> c)"

definition parallelAggregate :: "TransformResult \<Rightarrow> AggSpec \<Rightarrow> (nat \<times> Column) opt" where
  "parallelAggregate child_result spec =
     bindP (resolveAggregateInput spec child_result) (\<lambda>(in_col, in_node).
     bindP nextIntermediateName (\<lambda>i.
     bindP (icol (iname i) T_INTEGER) (\<lambda>c.
     let output_col = with_alias (Some spec) c in
     bindP (alloc ((new_phys P_AGGREGATE i)\<lparr>
              p_base_columns := [in_col],
              p_expression := Expression_default\<lparr>agg_specs := [spec]\<rparr>,
              result_columns := [output_col],
              p_children := map Some (nonnull [in_node])\<rparr>)) (\<lambda>a.
     bindP (registerIntermediateResult (iname i) output_col a) (\<lambda>_.
       retP (a, output_col))))))"

definition createParallelAggregateNodes :: "AggSpec list \<Rightarrow> TransformResult \<Rightarrow> TransformResult opt" where
  "createParallelAggregateNodes specs child_result =
     bindP (mapP (parallelAggregate child_result) specs) (\<lambda>agg_nodes.
       retP (TransformResult_default\<lparr>
         physical_root := (case agg_nodes of [] \<Rightarrow> None | (a, _) # _ \<Rightarrow> Some a),
         output_column := (case agg_nodes of [] \<Rightarrow> Column_default | (_, c) # _ \<Rightarrow> c),
         result_type := X_AGGREGATE,
         tables_involved := tables_involved child_result\<rparr>))"

definition first_agg :: "LogicalNodeData \<Rightarrow> AggSpec option" where
  "first_agg d = (case agg_specs (expression d) of [] \<Rightarrow> None | s # _ \<Rightarrow> Some s)"

definition createSingleAggregateNode :: "LogicalNodeData \<Rightarrow> TransformResult \<Rightarrow> TransformResult opt" where
  "createSingleAggregateNode d child_result =
     bindP (case (result_type child_result, Option.bind (first_agg d) agg_input) of
              (X_JOINED, Some base_col) \<Rightarrow>
                bindP (ensureMaterialized base_col) (\<lambda>(info, _). retP (mat_col info, mat_producer info))
            | _ \<Rightarrow> retP (output_column child_result, physical_root child_result)) (\<lambda>(in_col, in_node).
     bindP nextIntermediateName (\<lambda>i.
     bindP (icol (iname i) T_INTEGER) (\<lambda>c.
     let output_col = with_alias (first_agg d) c in
     bindP (alloc ((new_phys P_AGGREGATE i)\<lparr>
              p_base_columns := [in_col],
              p_expression := expression d,
              result_columns := [output_col],
              p_children := map Some (nonnull [in_node])\<rparr>)) (\<lambda>a.
     bindP (registerIntermediateResult (iname i) output_col a) (\<lambda>_.
       retP (TransformResult_default\<lparr>
         physical_root := Some a, output_column := output_col, result_type := X_AGGREGATE,
         tables_involved := tables_involved child_result\<rparr>))))))"

section \<open>Grouping\<close>

text \<open>
  \<^verbatim>\<open>root && root->node_type == MAP\<close>, with the first result column the code then reads.
\<close>

definition map_output :: "ptr \<Rightarrow> (nat \<times> Column) option opt" where
  "map_output p =
     (case p of
        None \<Rightarrow> retP None
      | Some a \<Rightarrow> bindP (node_of a) (\<lambda>n.
          if p_type n \<noteq> P_MAP then retP None
          else (case result_columns n of [] \<Rightarrow> failP OutOfRange | c # _ \<Rightarrow> retP (Some (a, c)))))"

text \<open>
  One AGGREGATE node of a grouped query. \<open>ensureMaterialized\<close> gets a reference into the specification, so
  that the specification stored in the node carries the flag it sets.
\<close>

definition groupedAggregate ::
  "nat \<Rightarrow> Column \<Rightarrow> Column \<Rightarrow> TransformResult \<Rightarrow> AggSpec \<Rightarrow> (nat \<times> Column) opt" where
  "groupedAggregate groupby idx_col cluster_col child_result spec =
     bindP (case agg_input spec of
              Some c \<Rightarrow> bindP (ensureMaterialized c) (\<lambda>(info, c').
                retP ([mat_col info], nonnull [mat_producer info], spec\<lparr>agg_input := Some c'\<rparr>))
            | None \<Rightarrow> bindP (map_output (physical_root child_result)) (\<lambda>m.
                case m of
                  Some (b, c) \<Rightarrow> retP ([c], [b], spec)
                | None \<Rightarrow> retP ([], [], spec))) (\<lambda>(cols, producers, spec').
     bindP nextIntermediateName (\<lambda>i.
     bindP (icol (iname i) T_INTEGER) (\<lambda>c.
     let agg_output_col = with_alias (Some spec') c in
     bindP (alloc ((new_phys P_AGGREGATE i)\<lparr>
              p_index := Some idx_col,
              clusterColumn := Some cluster_col,
              p_base_columns := cols,
              p_children := map Some (producers @ [groupby]),
              p_expression := Expression_default\<lparr>agg_specs := [spec']\<rparr>,
              result_columns := [agg_output_col]\<rparr>)) (\<lambda>a.
     bindP (icol (iname i @ ''_agg'') T_INTEGER) (\<lambda>rc.
     bindP (registerIntermediateResult (iname i) (with_alias (Some spec') rc) a) (\<lambda>_.
       retP (a, agg_output_col)))))))"

definition handleGroupByMultiAgg ::
  "LogicalNodeData \<Rightarrow> PhysicalPlanNode \<Rightarrow> MaterializedInfo list \<Rightarrow> Column list \<Rightarrow> Column \<Rightarrow> Column \<Rightarrow>
   TransformResult \<Rightarrow> TransformResult opt" where
  "handleGroupByMultiAgg d groupby_node group_mats group_cols idx_col cluster_col child_result =
     bindP (alloc (groupby_node\<lparr>
              result_columns := [idx_col, cluster_col],
              p_expression := (expression d)\<lparr>agg_specs := []\<rparr>\<rparr>)) (\<lambda>g.
     bindP (map_output (physical_root child_result)) (\<lambda>m.
     bindP (case m of
              Some (b, c) \<Rightarrow> registerIntermediateResult (column_name c) c b
            | None \<Rightarrow> retP ()) (\<lambda>_.
     bindP (mapP (groupedAggregate g idx_col cluster_col child_result) (agg_specs (expression d))) (\<lambda>agg_nodes.
     bindP (materializeGroupedKeys group_mats group_cols idx_col g) (\<lambda>_.
       retP (TransformResult_default\<lparr>
         physical_root := (case agg_nodes of [] \<Rightarrow> Some g | (a, _) # _ \<Rightarrow> Some a),
         output_column := (case agg_nodes of [] \<Rightarrow> idx_col | (_, c) # _ \<Rightarrow> c),
         result_type := X_GROUPBY,
         tables_involved := tables_involved child_result\<rparr>))))))"

definition handleGroupBySingleAgg ::
  "LogicalNodeData \<Rightarrow> PhysicalPlanNode \<Rightarrow> AggSpec option \<Rightarrow> MaterializedInfo list \<Rightarrow> Column list \<Rightarrow> string \<Rightarrow>
   Column \<Rightarrow> TransformResult \<Rightarrow> TransformResult opt" where
  "handleGroupBySingleAgg d groupby_node agg group_mats group_cols res_name idx_ext_col child_result =
     bindP (map_output (physical_root child_result)) (\<lambda>m.
     let node1 = (case m of
           Some (b, c) \<Rightarrow> groupby_node\<lparr>p_children := p_children groupby_node @ [Some b], aggregationColumn := Some c\<rparr>
         | None \<Rightarrow> groupby_node) in
     bindP (case agg of
              None \<Rightarrow> failP NullDeref
            | Some spec \<Rightarrow>
                (case agg_input spec of
                   Some c \<Rightarrow> bindP (ensureMaterialized c) (\<lambda>(info, c').
                     retP (node1\<lparr>aggregationColumn := Some (mat_col info),
                             p_children := p_children node1 @ map Some (nonnull [mat_producer info])\<rparr>,
                           (expression d)\<lparr>agg_specs := spec\<lparr>agg_input := Some c'\<rparr> # tl (agg_specs (expression d))\<rparr>))
                 | None \<Rightarrow>
                     if agg_is_star spec \<and> agg_func spec = A_COUNT
                     then (case p_base_columns node1 of
                             [] \<Rightarrow> failP OutOfRange
                           | k # _ \<Rightarrow> retP (node1\<lparr>aggregationColumn := Some k\<rparr>, expression d))
                     else retP (node1, expression d))) (\<lambda>(node2, expr).
     bindP (icol res_name T_INTEGER) (\<lambda>rc.
     let res_col = with_alias agg rc in
     bindP (alloc (node2\<lparr>result_columns := [res_col], p_expression := expr\<rparr>)) (\<lambda>g.
     bindP (icol (res_name @ ''_agg'') T_INTEGER) (\<lambda>ac.
     bindP (registerIntermediateResult res_name (with_alias agg ac) g) (\<lambda>_.
     bindP (materializeGroupedKeys group_mats group_cols idx_ext_col g) (\<lambda>_.
       retP (TransformResult_default\<lparr>
         physical_root := Some g, output_column := res_col, result_type := X_GROUPBY,
         tables_involved := tables_involved child_result\<rparr>))))))))"

definition handleGroupBy :: "LogicalNodeData \<Rightarrow> TransformResult \<Rightarrow> TransformResult opt" where
  "handleGroupBy d child_result =
     bindP (mapP ensureMaterialized (base_columns d)) (\<lambda>mats.
     let group_mats = map fst mats; group_cols = map snd mats in
     bindP nextIntermediateName (\<lambda>i.
     let groupby_node = (new_phys P_GROUPBY i)\<lparr>
           p_base_columns := map mat_col group_mats,
           p_children := map Some (nonnull (map mat_producer group_mats))\<rparr> in
     bindP (icol (iname i @ ''_idx_ext'') T_POSLIST) (\<lambda>idx_ext_col.
     bindP (icol (iname i @ ''_idx'') T_POSLIST) (\<lambda>idx_col.
     bindP (icol (iname i @ ''_cluster'') T_POSLIST) (\<lambda>cluster_col.
     if length (agg_specs (expression d)) > 1
     then handleGroupByMultiAgg d groupby_node group_mats group_cols idx_col cluster_col child_result
     else handleGroupBySingleAgg d groupby_node (first_agg d) group_mats group_cols (iname i) idx_ext_col child_result)))))"

definition handleAggregate :: "transform \<Rightarrow> LogicalNodeData \<Rightarrow> LogicalPlanNode option list \<Rightarrow> TransformResult opt" where
  "handleAggregate transform d ch =
     (case ch of
        [] \<Rightarrow> failP (RuntimeError ''AGGREGATE node must have a child'')
      | child # _ \<Rightarrow>
          bindP (transform child) (\<lambda>child_result.
          if base_columns d \<noteq> [] then handleGroupBy d child_result
          else if length (agg_specs (expression d)) > 1
          then createParallelAggregateNodes (agg_specs (expression d)) child_result
          else createSingleAggregateNode d child_result))"

section \<open>Projection and sort\<close>

definition project_column :: "Column \<Rightarrow> MaterializedInfo opt" where
  "project_column col =
     bindP (ensureMaterialized col) (\<lambda>(info, _).
     let display = (case col_alias col of Some a \<Rightarrow> if a \<noteq> '''' then a else column_name col | None \<Rightarrow> column_name col);
         named = (mat_col info)\<lparr>col_alias := Some display\<rparr>;
         based = (case col_base_table col of
             Some b \<Rightarrow> if b \<noteq> '''' then named\<lparr>col_base_table := Some b\<rparr> else named
           | None \<Rightarrow> named) in
     retP (info\<lparr>mat_col := based\<rparr>))"

definition handleProjection :: "transform \<Rightarrow> LogicalNodeData \<Rightarrow> LogicalPlanNode option list \<Rightarrow> TransformResult opt" where
  "handleProjection transform d ch =
     (case ch of
        [] \<Rightarrow> failP (RuntimeError ''PROJECTION node must have a child'')
      | child # _ \<Rightarrow>
          bindP (transform child) (\<lambda>child_result.
          bindP (mapP project_column (projected_columns d)) (\<lambda>infos.
          bindP (modP (\<lambda>c. c\<lparr>ctx_projected := infos\<rparr>)) (\<lambda>_.
            retP child_result))))"

text \<open>\<^verbatim>\<open>logical_node->children[0]->children[0]->base_columns\<close>, read when the child produced a grouping.\<close>

definition grandchild_columns :: "LogicalPlanNode option \<Rightarrow> Column list opt" where
  "grandchild_columns child =
     (case child of
        None \<Rightarrow> failP NullDeref
      | Some n \<Rightarrow>
          (case children n of
             [] \<Rightarrow> failP OutOfRange
           | None # _ \<Rightarrow> failP NullDeref
           | Some g # _ \<Rightarrow> retP (base_columns (node g))))"

definition same_column :: "Column \<Rightarrow> Column \<Rightarrow> bool" where
  "same_column a b \<longleftrightarrow> table_name a = table_name b \<and> column_name a = column_name b \<and> col_type a = col_type b"

definition sort_elided :: "LogicalNodeData \<Rightarrow> LogicalPlanNode option \<Rightarrow> TransformResult \<Rightarrow> bool opt" where
  "sort_elided d child child_result =
     (if result_type child_result \<noteq> X_GROUPBY then retP False
      else bindP (grandchild_columns child) (\<lambda>keys. retP (list_all2 same_column (base_columns d) keys)))"

definition isAggregateRef :: "string \<Rightarrow> bool" where
  "isAggregateRef name \<longleftrightarrow>
     starts_with name ''count'' \<or> starts_with name ''sum'' \<or> starts_with name ''avg'' \<or>
     starts_with name ''min'' \<or> starts_with name ''max''"

text \<open>The column a sort key is read from and the node that produces it.\<close>

definition sort_key :: "TransformResult \<Rightarrow> Column \<Rightarrow> (Column \<times> ptr) opt" where
  "sort_key child_result col =
     bindP (case physical_root child_result of
              None \<Rightarrow> retP None
            | Some a \<Rightarrow> bindP (node_of a) (\<lambda>n.
                retP (if table_name col = '''' \<and> isAggregateRef (column_name col) \<and> p_type n = P_GROUPBY
                      then (case result_columns n of [] \<Rightarrow> None | c # _ \<Rightarrow> Some c) else None))) (\<lambda>grouped.
     case grouped of
       Some c \<Rightarrow> retP (c\<lparr>column_name := column_name c @ ''_cluster''\<rparr>, physical_root child_result)
     | None \<Rightarrow> bindP (ensureMaterialized col) (\<lambda>(info, _). retP (mat_col info, mat_producer info)))"

definition handleSort :: "transform \<Rightarrow> LogicalNodeData \<Rightarrow> LogicalPlanNode option list \<Rightarrow> TransformResult opt" where
  "handleSort transform d ch =
     (case ch of
        [] \<Rightarrow> failP (RuntimeError ''SORT node must have a child'')
      | child # _ \<Rightarrow>
          bindP (transform child) (\<lambda>child_result.
          bindP (sort_elided d child child_result) (\<lambda>elided.
          if elided then retP child_result
          else
            bindP (mapP (sort_key child_result) (base_columns d)) (\<lambda>keys.
            bindP nextIntermediateName (\<lambda>i.
            bindP (icol (iname i @ ''_idx'') T_POSLIST) (\<lambda>output_col.
            bindP (alloc ((new_phys P_SORT i)\<lparr>
                     p_base_columns := map fst keys,
                     p_children := map Some (nonnull (map snd keys)),
                     p_expression := Expression_default\<lparr>sort_order := sort_order (expression d)\<rparr>,
                     result_columns := [output_col]\<rparr>)) (\<lambda>a.
              retP (TransformResult_default\<lparr>
                physical_root := Some a, output_column := output_col, result_type := X_POSLIST,
                tables_involved := tables_involved child_result\<rparr>))))))))"

end
