(* ===== verification/PostProcess.thy ===== *)
theory PostProcess
  imports PhysicalPlan
begin

text \<open>
  \<^verbatim>\<open>PhysicalOptimizerPostProcess.cpp\<close>: collecting the columns consumed anywhere in the plan graph, and
  dropping the join outputs nobody consumes. Both passes are depth-first searches over shared nodes
  with a visited set. The model gives each a depth bound (fuel); on a store where children precede
  their parents the bound is never reached when it exceeds the address of the root, which is proved.
\<close>

section \<open>The passes\<close>

fun foldO :: "('a \<Rightarrow> 's \<Rightarrow> 's option) \<Rightarrow> 'a list \<Rightarrow> 's \<Rightarrow> 's option" where
  "foldO f [] s = Some s"
| "foldO f (x # xs) s = Option.bind (f x s) (foldO f xs)"

lemma foldO_cong [fundef_cong]:
  "xs = ys \<Longrightarrow> s = t \<Longrightarrow> (\<And>x u. x \<in> set ys \<Longrightarrow> f x u = g x u) \<Longrightarrow> foldO f xs s = foldO g ys t"
proof (induction ys arbitrary: xs s t)
  case (Cons y ys)
  have "f y t = g y t" by (rule Cons.prems) simp
  moreover have "foldO f ys = foldO g ys" by (rule ext, rule Cons.IH) (auto intro: Cons.prems)
  ultimately show ?case using Cons.prems(1,2) by simp
qed simp

definition colref :: "Column \<Rightarrow> string" where
  "colref c = table_name c @ ''.'' @ column_name c"

text \<open>The columns a node consumes, as \<open>addCol\<close> records them.\<close>

definition consumed :: "PhysicalPlanNode \<Rightarrow> string set" where
  "consumed n = colref ` {c \<in> set (p_base_columns n) \<union> set_option (p_index n) \<union> set_option (aggregationColumn n) \<union>
     set_option (clusterColumn n). table_name c \<noteq> '''' \<or> column_name c \<noteq> ''''}"

fun collectReferencedColumns ::
  "nat \<Rightarrow> heap \<Rightarrow> ptr \<Rightarrow> nat set \<times> string set \<Rightarrow> (nat set \<times> string set) option" where
  "collectReferencedColumns fuel h None st = Some st"
| "collectReferencedColumns 0 h (Some a) st = None"
| "collectReferencedColumns (Suc fuel) h (Some a) (visited, referenced) =
     (if a \<in> visited then Some (visited, referenced)
      else foldO (collectReferencedColumns fuel h) (p_children (h ! a))
             (insert a visited, referenced \<union> consumed (h ! a)))"

text \<open>What happens to one node after its children.\<close>

definition trim_join :: "string set \<Rightarrow> PhysicalPlanNode \<Rightarrow> PhysicalPlanNode res" where
  "trim_join referenced n =
     (if p_type n \<noteq> P_HASHJOIN then Inr n
      else (case result_columns n of
          [inner, outer] \<Rightarrow>
            let inner_used = (colref inner \<in> referenced); outer_used = (colref outer \<in> referenced) in
            if inner_used \<and> outer_used then Inr n
            else if \<not> inner_used \<and> \<not> outer_used
            then Inl (RuntimeError ''Post-processing pass: Neither join column referenced (should not happen)'')
            else Inr (n\<lparr>result_columns := (if inner_used then [inner] else [outer])\<rparr>)
        | _ \<Rightarrow> Inr n))"

text \<open>The loop over the children stops at the first exception.\<close>

fun foldRO :: "('a \<Rightarrow> 's \<Rightarrow> 's res option) \<Rightarrow> 'a list \<Rightarrow> 's \<Rightarrow> 's res option" where
  "foldRO f [] s = Some (Inr s)"
| "foldRO f (x # xs) s =
     Option.bind (f x s) (\<lambda>r. case r of Inl e \<Rightarrow> Some (Inl e) | Inr s' \<Rightarrow> foldRO f xs s')"

lemma foldRO_cong [fundef_cong]:
  "xs = ys \<Longrightarrow> s = t \<Longrightarrow> (\<And>x u. x \<in> set ys \<Longrightarrow> f x u = g x u) \<Longrightarrow> foldRO f xs s = foldRO g ys t"
proof (induction ys arbitrary: xs s t)
  case (Cons y ys)
  have "f y t = g y t" by (rule Cons.prems) simp
  moreover have "foldRO f ys = foldRO g ys" by (rule ext, rule Cons.IH) (auto intro: Cons.prems)
  ultimately show ?case using Cons.prems(1,2) by simp
qed simp

fun optimizeJoinOutputs ::
  "nat \<Rightarrow> string set \<Rightarrow> ptr \<Rightarrow> heap \<times> nat set \<Rightarrow> (heap \<times> nat set) res option" where
  "optimizeJoinOutputs fuel referenced None st = Some (Inr st)"
| "optimizeJoinOutputs 0 referenced (Some a) st = None"
| "optimizeJoinOutputs (Suc fuel) referenced (Some a) (h, visited) =
     (if a \<in> visited then Some (Inr (h, visited))
      else map_option (\<lambda>r. bindE r (\<lambda>(h', visited').
             bindE (trim_join referenced (h' ! a)) (\<lambda>n. Inr (h'[a := n], visited'))))
           (foldRO (optimizeJoinOutputs fuel referenced) (p_children (h ! a)) (h, insert a visited)))"

text \<open>
  The call sequence of \<^verbatim>\<open>ConvertToPhys\<close>: collect from the root, clear the visited set, trim. The number
  of stored nodes is the depth bound of both searches.
\<close>

definition post_process :: "heap \<Rightarrow> ptr \<Rightarrow> heap res option" where
  "post_process h root =
     Option.bind (collectReferencedColumns (length h) h root ({}, {})) (\<lambda>(_, referenced).
       map_option (map_sum id fst) (optimizeJoinOutputs (length h) referenced root (h, {})))"

section \<open>Reachability\<close>

inductive reach :: "heap \<Rightarrow> nat \<Rightarrow> nat \<Rightarrow> bool" for h :: heap where
  self: "reach h a a"
| child: "Some c \<in> set (p_children (h ! a)) \<Longrightarrow> reach h c b \<Longrightarrow> reach h a b"

definition reach_set :: "heap \<Rightarrow> nat \<Rightarrow> nat set" where
  "reach_set h a = {b. reach h a b}"

lemma reach_set_unfold: "reach_set h a = insert a (\<Union>c \<in> {c. Some c \<in> set (p_children (h ! a))}. reach_set h c)"
  by (auto simp: reach_set_def intro: reach.intros elim: reach.cases)

lemma reach_le: "reach h a b \<Longrightarrow> heap_ok h \<Longrightarrow> a < length h \<Longrightarrow> b \<le> a"
proof (induction rule: reach.induct)
  case (child c a b)
  then have "c < a" using heap_ok_child by blast
  with child show ?case by simp
qed simp

text \<open>The visited set is closed under children, except for the nodes still on the search path.\<close>

definition closed_below :: "heap \<Rightarrow> nat \<Rightarrow> nat set \<Rightarrow> bool" where
  "closed_below h n V \<longleftrightarrow> (\<forall>v \<in> V. v < n \<longrightarrow> (\<forall>c. Some c \<in> set (p_children (h ! v)) \<longrightarrow> c \<in> V))"

lemma closed_below_mono: "closed_below h n V \<Longrightarrow> m \<le> n \<Longrightarrow> closed_below h m V"
  by (auto simp: closed_below_def)

lemma closed_below_reach:
  assumes "closed_below h (Suc a) V" "heap_ok h" "a < length h" "a \<in> V" "reach h a b"
  shows "b \<in> V"
  using assms(5,1-4)
proof (induction rule: reach.induct)
  case (child c a b)
  then have "c < a" using heap_ok_child by blast
  have cV: "c \<in> V" using child.prems(1,4) child.hyps(1) unfolding closed_below_def by blast
  have "closed_below h (Suc c) V" using closed_below_mono [OF child.prems(1)] \<open>c < a\<close> by simp
  then show ?case using child.IH [OF _ child.prems(2) _ cV] \<open>c < a\<close> child.prems(3) by simp
qed

lemma reach_closed: "reach h a b \<Longrightarrow> Some c \<in> set (p_children (h ! b)) \<Longrightarrow> reach h a c"
  by (induction rule: reach.induct) (auto intro: reach.intros)

lemma closed_below_union: "closed_below h n V \<Longrightarrow> closed_below h n (V \<union> reach_set h c)"
  by (auto simp: closed_below_def reach_set_def dest: reach_closed)

section \<open>Collecting references\<close>

definition refs_of :: "heap \<Rightarrow> nat set \<Rightarrow> string set" where
  "refs_of h V = (\<Union>a \<in> V. consumed (h ! a))"

lemma collect_children:
  assumes "\<And>c V. c < a \<Longrightarrow> Some c \<in> set cs \<Longrightarrow> closed_below h (Suc c) V \<Longrightarrow>
      collectReferencedColumns fuel h (Some c) (V, refs_of h V) = Some (V \<union> reach_set h c, refs_of h (V \<union> reach_set h c))"
    and "\<forall>p \<in> set cs. ptr_ok a p" "closed_below h a V"
  defines "V' \<equiv> V \<union> (\<Union>c \<in> {c. Some c \<in> set cs}. reach_set h c)"
  shows "foldO (collectReferencedColumns fuel h) cs (V, refs_of h V) = Some (V', refs_of h V') \<and> closed_below h a V'"
  using assms(1-3) unfolding V'_def
proof (induction cs arbitrary: V)
  case (Cons p cs)
  show ?case
  proof (cases p)
    case None
    with Cons.IH [of V] Cons.prems show ?thesis by simp
  next
    case (Some c)
    with Cons.prems(2) have c: "c < a" by simp
    let ?V = "V \<union> reach_set h c"
    have "collectReferencedColumns fuel h (Some c) (V, refs_of h V) = Some (?V, refs_of h ?V)"
      using c Some Cons.prems(3) by (intro Cons.prems(1)) (auto intro: closed_below_mono)
    moreover have "closed_below h a ?V" using Cons.prems(3) by (rule closed_below_union)
    moreover have "{d. Some d \<in> set (p # cs)} = insert c {d. Some d \<in> set cs}" using Some by auto
    ultimately show ?thesis using Cons.IH [of ?V] Cons.prems(1,2) Some by (simp add: Un_assoc)
  qed
qed simp

lemma collect_node:
  assumes "heap_ok h" "a < length h" "a < fuel" "closed_below h (Suc a) V"
  shows "collectReferencedColumns fuel h (Some a) (V, refs_of h V) = Some (V \<union> reach_set h a, refs_of h (V \<union> reach_set h a))"
  using assms
proof (induction a arbitrary: fuel V rule: less_induct)
  case (less a)
  then obtain k where k: "fuel = Suc k" by (cases fuel) auto
  show ?case
  proof (cases "a \<in> V")
    case True
    then have "V \<union> reach_set h a = V"
      using closed_below_reach [OF less.prems(4,1,2) True] by (auto simp: reach_set_def)
    with True k show ?thesis by simp
  next
    case False
    have "closed_below h a (insert a V)" using less.prems(4) by (auto simp: closed_below_def)
    moreover have "\<forall>p \<in> set (p_children (h ! a)). ptr_ok a p" using less.prems(1,2) by (auto simp: heap_ok_def)
    moreover have "collectReferencedColumns k h (Some c) (W, refs_of h W) = Some (W \<union> reach_set h c, refs_of h (W \<union> reach_set h c))"
      if "c < a" "closed_below h (Suc c) W" for c W
      using that less.prems k by (intro less.IH) auto
    ultimately have "foldO (collectReferencedColumns k h) (p_children (h ! a)) (insert a V, refs_of h (insert a V)) =
        Some (V \<union> reach_set h a, refs_of h (V \<union> reach_set h a))"
      using collect_children [of a "p_children (h ! a)" h k "insert a V"] by (simp add: reach_set_unfold [of h a])
    moreover have "refs_of h (insert a V) = refs_of h V \<union> consumed (h ! a)" by (auto simp: refs_of_def)
    ultimately show ?thesis using False k by simp
  qed
qed

section \<open>Trimming join outputs\<close>

text \<open>
  \<open>trimmed R V V' h h'\<close>: exactly the nodes that became visited were trimmed; nothing else changed.
\<close>

definition trimmed :: "string set \<Rightarrow> nat set \<Rightarrow> nat set \<Rightarrow> heap \<Rightarrow> heap \<Rightarrow> bool" where
  "trimmed R V V' h h' \<longleftrightarrow>
     length h' = length h \<and> V \<subseteq> V' \<and>
     (\<forall>b < length h. if b \<in> V' \<and> b \<notin> V then trim_join R (h ! b) = Inr (h' ! b) else h' ! b = h ! b)"

lemma trim_join_keeps:
  assumes "trim_join R n = Inr n'"
  shows "n' = n\<lparr>result_columns := result_columns n'\<rparr>" "set (result_columns n') \<subseteq> set (result_columns n)"
    "\<forall>c \<in> set (result_columns n). colref c \<in> R \<longrightarrow> c \<in> set (result_columns n')"
  using assms by (auto simp: trim_join_def Let_def split: if_split_asm list.split_asm)

lemma trim_join_children: "trim_join R n = Inr n' \<Longrightarrow> p_children n' = p_children n"
  by (auto simp: trim_join_def Let_def split: if_split_asm list.split_asm)

lemma trim_join_idem: "trim_join R n = Inr n' \<Longrightarrow> trim_join R n' = Inr n'"
  by (auto simp: trim_join_def Let_def split: if_split_asm list.split_asm)

lemma trimmed_err:
  "trimmed R V V' h h' \<Longrightarrow> b < length h \<Longrightarrow> trim_join R (h' ! b) = Inl e \<Longrightarrow> trim_join R (h ! b) = Inl e"
  unfolding trimmed_def using trim_join_idem by (metis Inl_Inr_False)

lemma trimmed_children: "trimmed R V V' h h' \<Longrightarrow> a < length h \<Longrightarrow> p_children (h' ! a) = p_children (h ! a)"
  unfolding trimmed_def by (metis trim_join_children)

lemma trimmed_length: "trimmed R V V' h h' \<Longrightarrow> length h' = length h"
  by (simp add: trimmed_def)

lemma trimmed_heap_ok: "trimmed R V V' h h' \<Longrightarrow> heap_ok h \<Longrightarrow> heap_ok h'"
  by (simp add: heap_ok_def trimmed_length trimmed_children)

lemma reach_same_children:
  assumes "heap_ok h" "a < length h" "\<And>a. a < length h \<Longrightarrow> p_children (h' ! a) = p_children (h ! a)"
  shows "reach h' a b = reach h a b"
proof
  assume "reach h' a b"
  then show "reach h a b" using assms(2)
  proof (induction rule: reach.induct)
    case (child c a b)
    then have "Some c \<in> set (p_children (h ! a))" using assms(3) by simp
    with child heap_ok_child [OF assms(1)] show ?case by (metis order.strict_trans reach.child)
  qed (rule reach.self)
next
  assume "reach h a b"
  then show "reach h' a b" using assms(2)
  proof (induction rule: reach.induct)
    case (child c a b)
    then have "Some c \<in> set (p_children (h' ! a))" using assms(3) by simp
    with child heap_ok_child [OF assms(1)] show ?case by (metis order.strict_trans reach.child)
  qed (rule reach.self)
qed

lemma trimmed_reach:
  "trimmed R V V' h h' \<Longrightarrow> heap_ok h \<Longrightarrow> a < length h \<Longrightarrow> reach_set h' a = reach_set h a"
  unfolding reach_set_def using reach_same_children trimmed_children by blast

lemma trimmed_closed: "trimmed R V V' h h' \<Longrightarrow> n \<le> length h \<Longrightarrow> closed_below h n W \<Longrightarrow> closed_below h' n W"
  by (simp add: closed_below_def trimmed_children [of R V V' h h'])

lemma trimmed_refl: "trimmed R V V h h"
  by (simp add: trimmed_def)

lemma trimmed_trans: "trimmed R U V h1 h2 \<Longrightarrow> trimmed R V W h2 h3 \<Longrightarrow> trimmed R U W h1 h3"
  unfolding trimmed_def by (metis subsetD subset_trans)

lemma optimize_children:
  assumes "\<And>h c V. heap_ok h \<Longrightarrow> c < a \<Longrightarrow> a \<le> length h \<Longrightarrow> closed_below h (Suc c) V \<Longrightarrow>
      \<exists>r. optimizeJoinOutputs fuel R (Some c) (h, V) = Some r \<and>
        (\<forall>h' V'. r = Inr (h', V') \<longrightarrow> V' = V \<union> reach_set h c \<and> trimmed R V V' h h') \<and>
        (\<forall>e. r = Inl e \<longrightarrow> (\<exists>b \<in> reach_set h c. trim_join R (h ! b) = Inl e))"
    and "\<forall>p \<in> set cs. ptr_ok a p" "closed_below h a V" "heap_ok h" "a \<le> length h"
  shows "\<exists>r. foldRO (optimizeJoinOutputs fuel R) cs (h, V) = Some r \<and>
    (\<forall>h' V'. r = Inr (h', V') \<longrightarrow> V' = V \<union> (\<Union>c \<in> {c. Some c \<in> set cs}. reach_set h c) \<and> trimmed R V V' h h') \<and>
    (\<forall>e. r = Inl e \<longrightarrow> (\<exists>c. Some c \<in> set cs \<and> (\<exists>b \<in> reach_set h c. trim_join R (h ! b) = Inl e)))"
  using assms(2-)
proof (induction cs arbitrary: h V)
  case Nil
  then show ?case by (simp add: trimmed_refl)
next
  case (Cons p cs)
  show ?case
  proof (cases p)
    case None
    with Cons.IH [of h V] Cons.prems show ?thesis by simp
  next
    case (Some c)
    with Cons.prems(1) have c: "c < a" by simp
    from assms(1) [OF Cons.prems(3) c Cons.prems(4) closed_below_mono [OF Cons.prems(2)]] c obtain r where
      r: "optimizeJoinOutputs fuel R (Some c) (h, V) = Some r"
      "\<And>h' V'. r = Inr (h', V') \<Longrightarrow> V' = V \<union> reach_set h c \<and> trimmed R V V' h h'"
      "\<And>e. r = Inl e \<Longrightarrow> \<exists>b \<in> reach_set h c. trim_join R (h ! b) = Inl e" by auto
    show ?thesis
    proof (cases r)
      case (Inl e)
      with r(1) r(3) [OF Inl] Some show ?thesis by auto
    next
      case (Inr st)
      obtain h1 V1 where st: "st = (h1, V1)" by force
      with r(2) Inr have s: "V1 = V \<union> reach_set h c" "trimmed R V V1 h h1" by auto
      have len: "length h1 = length h" using s(2) by (simp add: trimmed_def)
      have "closed_below h1 a V1"
        using trimmed_closed [OF s(2) Cons.prems(4) closed_below_union [OF Cons.prems(2), of c]] s(1) by simp
      from Cons.IH [OF _ this trimmed_heap_ok [OF s(2) Cons.prems(3)]] Cons.prems(1,4) len obtain q where
        q: "foldRO (optimizeJoinOutputs fuel R) cs (h1, V1) = Some q"
        "\<And>h' V'. q = Inr (h', V') \<Longrightarrow> V' = V1 \<union> (\<Union>c \<in> {c. Some c \<in> set cs}. reach_set h1 c) \<and> trimmed R V1 V' h1 h'"
        "\<And>e. q = Inl e \<Longrightarrow> \<exists>c. Some c \<in> set cs \<and> (\<exists>b \<in> reach_set h1 c. trim_join R (h1 ! b) = Inl e)"
        by auto
      have err: "\<exists>d. Some d \<in> set (p # cs) \<and> (\<exists>b \<in> reach_set h d. trim_join R (h ! b) = Inl e)" if "q = Inl e" for e
      proof -
        from q(3) [OF that] obtain d b where d: "Some d \<in> set cs" "b \<in> reach_set h1 d" "trim_join R (h1 ! b) = Inl e" by auto
        with Cons.prems(1,4) have "d < length h" by (auto dest!: bspec [where P = "ptr_ok a"])
        then have "b \<in> reach_set h d" using d(2) trimmed_reach [OF s(2) Cons.prems(3)] by simp
        moreover have "b < length h" using \<open>d < length h\<close> calculation reach_le [OF _ Cons.prems(3)]
          by (force simp: reach_set_def)
        ultimately show ?thesis using d trimmed_err [OF s(2) _ d(3)] by auto
      qed
      have "(\<Union>d \<in> {d. Some d \<in> set cs}. reach_set h1 d) = (\<Union>d \<in> {d. Some d \<in> set cs}. reach_set h d)"
        using Cons.prems(1,4) trimmed_reach [OF s(2) Cons.prems(3)]
        by (intro SUP_cong refl) (auto dest!: bspec [where P = "ptr_ok a"])
      moreover have "{d. Some d \<in> set (p # cs)} = insert c {d. Some d \<in> set cs}" using Some by auto
      ultimately show ?thesis using q(1,2) err r(1) Inr st s Some trimmed_trans [OF s(2)] by (auto simp: Un_assoc)
    qed
  qed
qed

lemma optimize_node:
  assumes "heap_ok h" "a < length h" "a < fuel" "closed_below h (Suc a) V"
  shows "\<exists>r. optimizeJoinOutputs fuel R (Some a) (h, V) = Some r \<and>
    (\<forall>h' V'. r = Inr (h', V') \<longrightarrow> V' = V \<union> reach_set h a \<and> trimmed R V V' h h') \<and>
    (\<forall>e. r = Inl e \<longrightarrow> (\<exists>b \<in> reach_set h a. trim_join R (h ! b) = Inl e))"
  using assms
proof (induction a arbitrary: fuel h V rule: less_induct)
  case (less a)
  then obtain k where k: "fuel = Suc k" by (cases fuel) auto
  show ?case
  proof (cases "a \<in> V")
    case True
    then have "V \<union> reach_set h a = V"
      using closed_below_reach [OF less.prems(4,1,2) True] by (auto simp: reach_set_def)
    with True k show ?thesis by (simp add: trimmed_refl)
  next
    case False
    have "closed_below h a (insert a V)" using less.prems(4) by (auto simp: closed_below_def)
    moreover have "\<forall>p \<in> set (p_children (h ! a)). ptr_ok a p" using less.prems(1,2) by (auto simp: heap_ok_def)
    ultimately obtain r where
      r: "foldRO (optimizeJoinOutputs k R) (p_children (h ! a)) (h, insert a V) = Some r"
      "\<And>h' V'. r = Inr (h', V') \<Longrightarrow> V' = V \<union> reach_set h a \<and> trimmed R (insert a V) V' h h'"
      "\<And>e. r = Inl e \<Longrightarrow> \<exists>b \<in> reach_set h a. trim_join R (h ! b) = Inl e"
      using optimize_children [of a k R "p_children (h ! a)" h "insert a V"] less.IH less.prems k
      by (auto simp: reach_set_unfold [of h a])
    have "trimmed R V V' h (h'[a := n])"
      if "trimmed R (insert a V) V' h h'" "trim_join R (h' ! a) = Inr n" for h' V' n
    proof -
      have "h' ! a = h ! a" using that(1) less.prems(2) by (auto simp: trimmed_def)
      with that False less.prems(2) show ?thesis by (auto simp: trimmed_def nth_list_update)
    qed
    moreover have "h' ! a = h ! a" if "trimmed R (insert a V) V' h h'" for h' V'
      using that less.prems(2) by (auto simp: trimmed_def)
    moreover have "a \<in> reach_set h a" by (simp add: reach_set_unfold [of h a])
    ultimately show ?thesis using r False k
      by (cases r) (auto simp: bindE_def split: sum.split_asm)
  qed
qed

section \<open>The two passes together\<close>

text \<open>A column some node of the plan reads.\<close>

definition read_in_plan :: "heap \<Rightarrow> nat \<Rightarrow> Column \<Rightarrow> bool" where
  "read_in_plan h root c \<longleftrightarrow> (\<exists>a. reach h root a \<and> colref c \<in> consumed (h ! a))"

lemma refs_of_reach: "colref c \<in> refs_of h (reach_set h root) \<longleftrightarrow> read_in_plan h root c"
  by (auto simp: refs_of_def reach_set_def read_in_plan_def)

lemma post_process_trims:
  assumes "heap_ok h" "root < length h"
  defines "R \<equiv> refs_of h (reach_set h root)"
  shows "(\<exists>h'. post_process h (Some root) = Some (Inr h') \<and> trimmed R {} (reach_set h root) h h') \<or>
    (\<exists>e. post_process h (Some root) = Some (Inl e) \<and> (\<exists>b \<in> reach_set h root. trim_join R (h ! b) = Inl e))"
proof -
  have "closed_below h (Suc root) {}" by (simp add: closed_below_def)
  from collect_node [OF assms(1,2,2) this] have
    c: "collectReferencedColumns (length h) h (Some root) ({}, {}) = Some (reach_set h root, R)"
    by (simp add: refs_of_def R_def)
  from optimize_node [OF assms(1,2,2) \<open>closed_below h (Suc root) {}\<close>, of R] obtain r where
    r: "optimizeJoinOutputs (length h) R (Some root) (h, {}) = Some r"
    "\<And>h' V'. r = Inr (h', V') \<Longrightarrow> V' = reach_set h root \<and> trimmed R {} V' h h'"
    "\<And>e. r = Inl e \<Longrightarrow> \<exists>b \<in> reach_set h root. trim_join R (h ! b) = Inl e" by auto
  show ?thesis
  proof (cases r)
    case (Inl e)
    with c r show ?thesis by (simp add: post_process_def)
  next
    case (Inr st)
    then show ?thesis using c r(1) r(2) [of "fst st" "snd st"] by (cases st) (simp add: post_process_def)
  qed
qed

lemma trim_join_Inl_iff:
  "trim_join R n = Inl e \<longleftrightarrow>
     p_type n = P_HASHJOIN \<and> length (result_columns n) = 2 \<and> (\<forall>c \<in> set (result_columns n). colref c \<notin> R) \<and>
     e = RuntimeError ''Post-processing pass: Neither join column referenced (should not happen)''"
  by (auto simp: trim_join_def Let_def split: list.split)

lemma trim_join_shape:
  assumes "trim_join R n = Inr n'"
  shows "if p_type n = P_HASHJOIN \<and> length (result_columns n) = 2
    then result_columns n' \<noteq> [] \<and> set (result_columns n') = {c \<in> set (result_columns n). colref c \<in> R}
    else n' = n"
  using assms by (auto simp: trim_join_def Let_def split: if_split_asm list.split_asm)

text \<open>
  C15. Post-processing of the join outputs (\<open>collectReferencedColumns\<close>, then \<open>optimizeJoinOutputs\<close>)
  always terminates on an acyclic plan. It throws exactly when some join of the plan with two outputs has
  neither of them read. Otherwise the store keeps its shape: nodes outside the plan are untouched, nodes of
  the plan change at most in their result columns, and each two-output join keeps exactly those outputs
  that some node of the plan reads.
\<close>

theorem post_process_correct:
  assumes "heap_ok h" "root < length h"
  shows "(case post_process h (Some root) of
      None \<Rightarrow> False
    | Some (Inl e) \<Rightarrow> \<exists>b. reach h root b \<and> p_type (h ! b) = P_HASHJOIN \<and> length (result_columns (h ! b)) = 2 \<and>
        (\<forall>c \<in> set (result_columns (h ! b)). \<not> read_in_plan h root c)
    | Some (Inr h') \<Rightarrow> length h' = length h \<and> (\<forall>b < length h.
        h' ! b = (h ! b)\<lparr>result_columns := result_columns (h' ! b)\<rparr> \<and>
        (if reach h root b \<and> p_type (h ! b) = P_HASHJOIN \<and> length (result_columns (h ! b)) = 2
         then result_columns (h' ! b) \<noteq> [] \<and>
              set (result_columns (h' ! b)) = {c \<in> set (result_columns (h ! b)). read_in_plan h root c}
         else h' ! b = h ! b)))"
proof -
  let ?R = "refs_of h (reach_set h root)"
  consider (ok) h' where "post_process h (Some root) = Some (Inr h')" "trimmed ?R {} (reach_set h root) h h'"
    | (err) e b where "post_process h (Some root) = Some (Inl e)" "b \<in> reach_set h root" "trim_join ?R (h ! b) = Inl e"
    using post_process_trims [OF assms] by blast
  then show ?thesis
  proof cases
    case err
    then have "reach h root b \<and> p_type (h ! b) = P_HASHJOIN \<and> length (result_columns (h ! b)) = 2 \<and>
        (\<forall>c \<in> set (result_columns (h ! b)). \<not> read_in_plan h root c)"
      by (simp add: trim_join_Inl_iff refs_of_reach) (simp add: reach_set_def)
    then show ?thesis using err(1) by auto
  next
    case ok
    have t: "if reach h root b then trim_join ?R (h ! b) = Inr (h' ! b) else h' ! b = h ! b" if "b < length h" for b
      using ok(2) that by (simp add: trimmed_def reach_set_def)
    have "h' ! b = (h ! b)\<lparr>result_columns := result_columns (h' ! b)\<rparr>" if "b < length h" for b
      using t [OF that] trim_join_keeps(1) [of ?R "h ! b" "h' ! b"] by (cases "reach h root b") simp_all
    moreover have "if reach h root b \<and> p_type (h ! b) = P_HASHJOIN \<and> length (result_columns (h ! b)) = 2
        then result_columns (h' ! b) \<noteq> [] \<and>
          set (result_columns (h' ! b)) = {c \<in> set (result_columns (h ! b)). read_in_plan h root c}
        else h' ! b = h ! b" if "b < length h" for b
      using t [OF that] trim_join_shape [of ?R "h ! b" "h' ! b"]
      by (cases "reach h root b") (simp_all add: refs_of_reach)
    ultimately show ?thesis using ok trimmed_length [OF ok(2)] by simp
  qed
qed

text \<open>A join of two base columns below a materialization that reads only its inner position list.\<close>

definition demo_heap :: heap where
  "demo_heap =
     [(new_phys P_HASHJOIN 7)\<lparr>
        p_base_columns := [mkColumn ''a'' ''x'' T_INTEGER None None, mkColumn ''b'' ''y'' T_INTEGER None None],
        result_columns := [mkColumn ''t'' ''i7_i'' T_POSLIST None None, mkColumn ''t'' ''i7_o'' T_POSLIST None None]\<rparr>,
      (new_phys P_MATERIALIZE 8)\<lparr>
        p_base_columns := [mkColumn ''a'' ''z'' T_INTEGER None None],
        p_index := Some (mkColumn ''t'' ''i7_i'' T_POSLIST None None),
        p_children := [Some 0],
        result_columns := [mkColumn ''t'' ''i8'' T_INTEGER None None]\<rparr>]"

lemma demo_heap_ok: "heap_ok demo_heap"
  by (simp add: heap_ok_def demo_heap_def nth_Cons split: nat.split)

theorem post_process_correct_witness:
  "heap_ok demo_heap \<and> 1 < length demo_heap \<and>
   map_option (map_sum id (map result_columns)) (post_process demo_heap (Some 1)) =
     Some (Inr [[mkColumn ''t'' ''i7_i'' T_POSLIST None None], [mkColumn ''t'' ''i8'' T_INTEGER None None]]) \<and>
   (case post_process demo_heap (Some 1) of
      Some (Inr h') \<Rightarrow> p_children (h' ! 1) = [Some 0]
    | _ \<Rightarrow> False)"
proof -
  have len: "1 < length demo_heap" by (simp add: demo_heap_def)
  have p: "map_option (map_sum id (map result_columns)) (post_process demo_heap (Some 1)) =
     Some (Inr [[mkColumn ''t'' ''i7_i'' T_POSLIST None None], [mkColumn ''t'' ''i8'' T_INTEGER None None]])"
    by code_simp
  then obtain h' where h': "post_process demo_heap (Some 1) = Some (Inr h')"
    by (cases "post_process demo_heap (Some 1)") (auto simp: map_sum_def split: sum.split_asm)
  have "h' ! 1 = (demo_heap ! 1)\<lparr>result_columns := result_columns (h' ! 1)\<rparr>"
    using post_process_correct [OF demo_heap_ok len] h' len by simp
  from arg_cong [where f = p_children, OF this] have "p_children (h' ! 1) = p_children (demo_heap ! 1)"
    by simp
  then have "p_children (h' ! 1) = [Some 0]" by (simp add: demo_heap_def)
  then show ?thesis using demo_heap_ok len p h' by simp
qed

end
