(* ===== verification/PhysicalOptimizer.thy ===== *)
theory PhysicalOptimizer
  imports PhysicalHandlers PostProcess
begin

text \<open>
  \<^verbatim>\<open>PhysicalOptimizer.cpp\<close>: the recursive transformation of a logical plan (\<open>transformNode\<close>), the RESULT
  node, and the entry points. The demo branch of \<^verbatim>\<open>ConvertToPhys\<close> (rendering the plan with Graphviz) is
  output only and is left out.
\<close>

section \<open>The recursion\<close>

lemma handleFilter_cong [fundef_cong]:
  "d = d' \<Longrightarrow> ch = ch' \<Longrightarrow> (\<And>c. c \<in> set ch' \<Longrightarrow> tr c = tr' c) \<Longrightarrow> handleFilter tr d ch = handleFilter tr' d' ch'"
  by (cases ch') (simp_all add: handleFilter_def)

lemma handleJoin_cong [fundef_cong]:
  "d = d' \<Longrightarrow> ch = ch' \<Longrightarrow> (\<And>c. c \<in> set ch' \<Longrightarrow> tr c = tr' c) \<Longrightarrow> handleJoin tr d ch = handleJoin tr' d' ch'"
  by (cases ch'; cases "tl ch'") (simp_all add: handleJoin_def)

lemma handleMap_cong [fundef_cong]:
  "d = d' \<Longrightarrow> ch = ch' \<Longrightarrow> (\<And>c. c \<in> set ch' \<Longrightarrow> tr c = tr' c) \<Longrightarrow> handleMap tr d ch = handleMap tr' d' ch'"
  by (cases ch') (simp_all add: handleMap_def)

lemma handleAggregate_cong [fundef_cong]:
  "d = d' \<Longrightarrow> ch = ch' \<Longrightarrow> (\<And>c. c \<in> set ch' \<Longrightarrow> tr c = tr' c) \<Longrightarrow> handleAggregate tr d ch = handleAggregate tr' d' ch'"
  by (cases ch') (simp_all add: handleAggregate_def)

lemma handleProjection_cong [fundef_cong]:
  "d = d' \<Longrightarrow> ch = ch' \<Longrightarrow> (\<And>c. c \<in> set ch' \<Longrightarrow> tr c = tr' c) \<Longrightarrow> handleProjection tr d ch = handleProjection tr' d' ch'"
  by (cases ch') (simp_all add: handleProjection_def)

lemma handleSetOperation_cong [fundef_cong]:
  "d = d' \<Longrightarrow> ch = ch' \<Longrightarrow> (\<And>c. c \<in> set ch' \<Longrightarrow> tr c = tr' c) \<Longrightarrow> handleSetOperation tr d ch = handleSetOperation tr' d' ch'"
  by (simp add: handleSetOperation_def cong: mapP_cong)

lemma handleSort_cong [fundef_cong]:
  "d = d' \<Longrightarrow> ch = ch' \<Longrightarrow> (\<And>c. c \<in> set ch' \<Longrightarrow> tr c = tr' c) \<Longrightarrow> handleSort tr d ch = handleSort tr' d' ch'"
  by (cases ch') (simp_all add: handleSort_def)

text \<open>LIMIT and OFFSET of a node: the \<^verbatim>\<open>int\<close> is converted to \<^verbatim>\<open>int64_t\<close>, which extends the sign.\<close>

definition note_limits :: "LogicalNodeData \<Rightarrow> TransformContext \<Rightarrow> TransformContext" where
  "note_limits d c =
     c\<lparr>ctx_limit_count := (case limit_count (expression d) of Some n \<Rightarrow> Some (scast n) | None \<Rightarrow> ctx_limit_count c),
       ctx_limit_offset := (case limit_offset (expression d) of Some n \<Rightarrow> Some (scast n) | None \<Rightarrow> ctx_limit_offset c)\<rparr>"

function transformNode :: "LogicalPlanNode option \<Rightarrow> TransformResult opt" where
  "transformNode None = failP (RuntimeError ''Null logical node encountered'')"
| "transformNode (Some (LNode d ch)) =
     bindP (modP (note_limits d)) (\<lambda>_.
     case node_type d of
       L_SCAN \<Rightarrow> handleScan d
     | L_FILTER \<Rightarrow> handleFilter transformNode d ch
     | L_JOIN \<Rightarrow> handleJoin transformNode d ch
     | L_MAP \<Rightarrow> handleMap transformNode d ch
     | L_AGGREGATE \<Rightarrow> handleAggregate transformNode d ch
     | L_PROJECTION \<Rightarrow> handleProjection transformNode d ch
     | L_SETOPERATION \<Rightarrow> handleSetOperation transformNode d ch
     | L_SORT \<Rightarrow> handleSort transformNode d ch)"
  by pat_completeness auto

lemma size_logical_child: "c \<in> set ch \<Longrightarrow> size_option size c \<le> Suc (size_list (size_option size) ch)"
  by (induction ch) auto

termination transformNode
  by (relation "measure (size_option size)") (auto simp: less_Suc_eq_le intro: size_logical_child)

section \<open>The result node\<close>

text \<open>The sorted case adds a producer only if it is not yet a child.\<close>

definition add_child :: "ptr list \<Rightarrow> ptr \<Rightarrow> ptr list" where
  "add_child ps p = (if p = None \<or> p \<in> set ps then ps else ps @ [p])"

definition buildResultNode :: "TransformResult \<Rightarrow> nat opt" where
  "buildResultNode result =
     bindP nextIntermediateName (\<lambda>i.
     bindP (root_is P_SORT (physical_root result)) (\<lambda>has_sort.
     bindP (getP ctx) (\<lambda>c.
     let cols = map mat_col (ctx_projected c); producers = map mat_producer (ctx_projected c) in
     alloc ((new_phys P_RESULT i)\<lparr>
       resultName := Some (if ctx_table_name c = ''intermediate'' then ''result'' else ''result_'' @ ctx_table_name c),
       p_expression := Expression_default\<lparr>
         limit_count := map_option ucast (ctx_limit_count c),
         limit_offset := map_option ucast (ctx_limit_offset c)\<rparr>,
       p_base_columns := cols,
       result_columns := cols,
       p_index := (if has_sort then Some (output_column result) else None),
       p_children :=
         (if has_sort then foldl add_child [physical_root result] producers
          else map Some (nonnull producers))\<rparr>))))"

section \<open>Entry points\<close>

text \<open>
  \<^verbatim>\<open>ConvertToPhys\<close> returns false for a null plan and for every exception thrown below it. The outer
  option is \<^const>\<open>None\<close> when a post-processing search would exceed its depth bound. The inner result is an
  error for undefined behaviour, \<^term>\<open>Inr None\<close> for the return value false, and otherwise the plan
  with the node store. \<open>ids\<close> is the sequence of random numbers drawn for node identifiers.
\<close>

definition build_plan :: "LogicalPlanNode option \<Rightarrow> ptr opt" where
  "build_plan root =
     bindP (transformNode root) (\<lambda>result.
     bindP (getP (\<lambda>s. ctx_projected (ctx s))) (\<lambda>projected.
     if projected \<noteq> [] then bindP (buildResultNode result) (\<lambda>a. retP (Some a))
     else retP (physical_root result)))"

definition caught :: "'a res \<Rightarrow> 'a option res" where
  "caught r = (case r of Inr x \<Rightarrow> Inr (Some x) | Inl (RuntimeError _) \<Rightarrow> Inr None | Inl e \<Rightarrow> Inl e)"

definition initial_state :: "bool \<Rightarrow> bool \<Rightarrow> string \<Rightarrow> (nat \<Rightarrow> int) \<Rightarrow> opt_state" where
  "initial_state opt_chains opt_joins tab ids =
     \<lparr>heap = [],
      ctx = TransformContext_default\<lparr>ctx_table_name := tab, optimize_chains := opt_chains, optimize_join_outputs := opt_joins\<rparr>,
      draws = ids\<rparr>"

definition ConvertToPhys ::
  "LogicalPlanNode option \<Rightarrow> bool \<Rightarrow> bool \<Rightarrow> string \<Rightarrow> (nat \<Rightarrow> int) \<Rightarrow> (ptr \<times> heap) option res option" where
  "ConvertToPhys root opt_chains opt_joins tab ids =
     (if root = None then Some (Inr None)
      else map_option caught
        (case build_plan root (initial_state opt_chains opt_joins tab ids) of
           Inl e \<Rightarrow> Some (Inl e)
         | Inr (p, s) \<Rightarrow>
             if p \<noteq> None \<and> opt_joins
             then map_option (map_sum id (Pair p)) (post_process (heap s) p)
             else Some (Inr (p, heap s))))"

definition newPhysicalOptimizer ::
  "LogicalPlanNode option \<Rightarrow> bool \<Rightarrow> bool \<Rightarrow> string \<Rightarrow> (nat \<Rightarrow> int) \<Rightarrow> (ptr \<times> heap) res option" where
  "newPhysicalOptimizer root opt_chains opt_joins tab ids =
     map_option (\<lambda>r. bindE r (\<lambda>converted.
       case converted of
         None \<Rightarrow> Inl (RuntimeError ''Conversion to physical plan failed!'')
       | Some plan \<Rightarrow> Inr plan)) (ConvertToPhys root opt_chains opt_joins tab ids)"

end
