(* ===== verification/MaterializationSemantics.thy ===== *)
theory MaterializationSemantics
  imports Materialization
begin

text \<open>
  What materialization computes. An environment gives the contents of every column, position lists
  included. It evaluates a node store when each MATERIALIZE node's result is its base column read at the
  positions of its index column. Both variants of \<open>ensureMaterialized\<close> are compared with the value of the
  base column under the chain of position lists of its table.
\<close>

section \<open>Evaluation\<close>

type_synonym env = "string \<Rightarrow> nat list"

definition gather :: "nat list \<Rightarrow> nat list \<Rightarrow> nat list" where
  "gather xs ps = map (\<lambda>p. xs ! p) ps"

definition val :: "env \<Rightarrow> Column \<Rightarrow> nat list" where
  "val \<sigma> c = \<sigma> (col_key c)"

definition evaluates :: "env \<Rightarrow> heap \<Rightarrow> bool" where
  "evaluates \<sigma> h \<longleftrightarrow> (\<forall>n \<in> set h. p_type n = P_MATERIALIZE \<longrightarrow>
     (case (p_base_columns n, p_index n, result_columns n) of
        ([b], Some i, [r]) \<Rightarrow> val \<sigma> r = gather (val \<sigma> b) (val \<sigma> i)
      | _ \<Rightarrow> True))"

text \<open>The rows of a base column that survive a chain of position lists, one list after the other.\<close>

definition chain_value :: "env \<Rightarrow> nat list \<Rightarrow> PosListInfo list \<Rightarrow> nat list" where
  "chain_value \<sigma> xs chain = foldl (\<lambda>v p. gather v (val \<sigma> (poslist_col p))) xs chain"

text \<open>Each position list points into the list before it.\<close>

fun in_range :: "env \<Rightarrow> nat \<Rightarrow> PosListInfo list \<Rightarrow> bool" where
  "in_range \<sigma> n [] \<longleftrightarrow> True"
| "in_range \<sigma> n (p # ps) \<longleftrightarrow>
     (\<forall>i \<in> set (val \<sigma> (poslist_col p)). i < n) \<and> in_range \<sigma> (length (val \<sigma> (poslist_col p))) ps"

lemma length_gather [simp]: "length (gather xs ps) = length ps"
  by (simp add: gather_def)

lemma gather_assoc: "\<forall>i \<in> set js. i < length ps \<Longrightarrow> gather (gather xs ps) js = gather xs (gather ps js)"
  by (simp add: gather_def)

lemma chain_value_simps [simp]:
  "chain_value \<sigma> xs [] = xs"
  "chain_value \<sigma> xs (p # ps) = chain_value \<sigma> (gather xs (val \<sigma> (poslist_col p))) ps"
  "chain_value \<sigma> xs (ps @ qs) = chain_value \<sigma> (chain_value \<sigma> xs ps) qs"
  by (simp_all add: chain_value_def)

lemma chain_value_gather:
  "in_range \<sigma> (length ps) chain \<Longrightarrow> chain_value \<sigma> (gather xs ps) chain = gather xs (chain_value \<sigma> ps chain)"
  by (induction chain arbitrary: ps) (simp_all add: gather_assoc)

section \<open>Chained variant\<close>

lemma createMaterializeNode_eq:
  "createMaterializeNode col pos ps s =
     (let c = mkColumn (ctx_table_name (ctx s)) (iname (draws s 0)) (col_type col) None None in
      Inr ((c, length (heap s)),
        s\<lparr>draws := (\<lambda>k. draws s (Suc k)),
          heap := heap s @ [(new_phys P_MATERIALIZE (draws s 0))\<lparr>p_base_columns := [col], p_index := Some pos,
            p_children := map Some (nonnull ps), result_columns := [c]\<rparr>]\<rparr>))"
  by (simp add: createMaterializeNode_def bindP_def icol_def Let_def)

lemma evaluates_append [simp]: "evaluates \<sigma> (h @ h') \<longleftrightarrow> evaluates \<sigma> h \<and> evaluates \<sigma> h'"
  by (auto simp: evaluates_def)

lemma chain_loop_value:
  "\<exists>info h. chain_loop cur i chain s = Inr (info, s\<lparr>draws := (\<lambda>k. draws s (k + length chain)), heap := heap s @ h\<rparr>) \<and>
     chain_index info = (if chain = [] then chain_index cur else of_nat (i + length chain - 1)) \<and>
     (evaluates \<sigma> h \<longrightarrow> val \<sigma> (mat_col info) = chain_value \<sigma> (val \<sigma> (mat_col cur)) chain)"
proof (induction chain arbitrary: cur i s)
  case Nil
  show ?case by (intro exI [of _ cur] exI [of _ "[]"]) simp
next
  case (Cons p chain)
  let ?c = "mkColumn (ctx_table_name (ctx s)) (iname (draws s 0)) (col_type (mat_col cur)) None None"
  let ?n = "(new_phys P_MATERIALIZE (draws s 0))\<lparr>p_base_columns := [mat_col cur], p_index := Some (poslist_col p),
    p_children := map Some (nonnull [mat_producer cur, pos_producer p]), result_columns := [?c]\<rparr>"
  let ?s = "s\<lparr>draws := (\<lambda>k. draws s (Suc k)), heap := heap s @ [?n]\<rparr>"
  from Cons.IH [of "\<lparr>mat_col = ?c, mat_producer = Some (length (heap s)), chain_index = of_nat i\<rparr>" "i + 1" ?s]
  obtain info h where ih:
    "chain_loop \<lparr>mat_col = ?c, mat_producer = Some (length (heap s)), chain_index = of_nat i\<rparr> (i + 1) chain ?s =
       Inr (info, ?s\<lparr>draws := (\<lambda>k. draws ?s (k + length chain)), heap := heap ?s @ h\<rparr>)"
    "chain_index info = of_nat (i + length chain)"
    "evaluates \<sigma> h \<longrightarrow> val \<sigma> (mat_col info) = chain_value \<sigma> (val \<sigma> ?c) chain" by (auto split: if_splits)
  show ?case
  proof (intro exI [of _ info] exI [of _ "?n # h"] conjI impI)
    show "chain_loop cur i (p # chain) s =
        Inr (info, s\<lparr>draws := (\<lambda>k. draws s (k + length (p # chain))), heap := heap s @ ?n # h\<rparr>)"
      using ih(1) by (simp add: bindP_def createMaterializeNode_eq Let_def)
    show "chain_index info = (if p # chain = [] then chain_index cur else of_nat (i + length (p # chain) - 1))"
      using ih(2) by simp
    assume "evaluates \<sigma> (?n # h)"
    then have "val \<sigma> ?c = gather (val \<sigma> (mat_col cur)) (val \<sigma> (poslist_col p))" "evaluates \<sigma> h"
      by (simp_all add: evaluates_def)
    then show "val \<sigma> (mat_col info) = chain_value \<sigma> (val \<sigma> (mat_col cur)) (p # chain)" using ih(3) by simp
  qed
qed

text \<open>Where the loop resumes: one past the index recorded in the cache.\<close>

lemma chain_start_nat:
  assumes "k < 2 ^ 31"
  shows "chain_start (of_nat k - 1) = k"
proof -
  have "uint (word_of_nat k :: 32 word) = int k"
    using assms by (simp add: unsigned_of_nat take_bit_nat_eq_self)
  then have s: "sint (word_of_nat k :: 32 word) = int k"
    using assms by (simp add: sint_uint signed_take_bit_int_eq_self)
  have "scast (word_of_nat k :: 32 word) = (word_of_nat k :: 64 word)"
    unfolding scast_eq s by simp
  then show ?thesis using assms by (simp add: chain_start_def unsigned_of_nat take_bit_nat_eq_self)
qed

lemma val_is_base [simp]: "val \<sigma> (c\<lparr>is_base := b\<rparr>) = val \<sigma> c"
  by (simp add: val_def col_key_def)

text \<open>
  A cached column is valid when it holds the value under a prefix of the chain, and its index says which.
\<close>

definition chain_of :: "opt_state \<Rightarrow> Column \<Rightarrow> PosListInfo list" where
  "chain_of s col = table_poslist_chain (ctx s) (table_name col)"

definition cache_valid :: "env \<Rightarrow> opt_state \<Rightarrow> Column \<Rightarrow> bool" where
  "cache_valid \<sigma> s col \<longleftrightarrow> (\<forall>i. materialized_columns (ctx s) (col_key col) = Some i \<longrightarrow>
     (\<exists>k \<le> length (chain_of s col). chain_index i = of_nat k - 1 \<and>
        val \<sigma> (mat_col i) = chain_value \<sigma> (val \<sigma> col) (take k (chain_of s col))))"

lemma ensureMaterialized_chained_value:
  assumes "\<not> optimize_chains (ctx s)" "lookupIntermediateResult col (ctx s) = None"
    and "cache_valid \<sigma> s col" "length (chain_of s col) < 2 ^ 31"
  shows "\<exists>info s' h. ensureMaterialized col s = Inr ((info, col), s') \<and> heap s' = heap s @ h \<and>
     ctx s' = (ctx s)\<lparr>materialized_columns := (materialized_columns (ctx s))(col_key col \<mapsto> info)\<rparr> \<and>
     chain_index info = of_nat (length (chain_of s col)) - 1 \<and>
     (evaluates \<sigma> h \<longrightarrow> val \<sigma> (mat_col info) = chain_value \<sigma> (val \<sigma> col) (chain_of s col))"
proof -
  define start where "start = (case materialized_columns (ctx s) (col_key col) of
      Some cached \<Rightarrow> cached
    | None \<Rightarrow> \<lparr>mat_col = col\<lparr>is_base := Some True\<rparr>, mat_producer = None, chain_index = - 1\<rparr>)"
  obtain k where k: "k \<le> length (chain_of s col)" "chain_index start = of_nat k - 1"
    "val \<sigma> (mat_col start) = chain_value \<sigma> (val \<sigma> col) (take k (chain_of s col))"
  proof (cases "materialized_columns (ctx s) (col_key col)")
    case None
    then show ?thesis using that [of 0] by (simp add: start_def)
  next
    case (Some i)
    then show ?thesis using that assms(3) by (auto simp: cache_valid_def start_def)
  qed
  have cs: "chain_start (chain_index start) = k" using k(1,2) assms(4) by (simp add: chain_start_nat)
  obtain info h where loop: "chain_loop start k (drop k (chain_of s col)) s =
      Inr (info, s\<lparr>draws := (\<lambda>j. draws s (j + length (drop k (chain_of s col)))), heap := heap s @ h\<rparr>)"
    "chain_index info = (if drop k (chain_of s col) = [] then chain_index start
       else of_nat (k + length (drop k (chain_of s col)) - 1))"
    "evaluates \<sigma> h \<longrightarrow> val \<sigma> (mat_col info) = chain_value \<sigma> (val \<sigma> (mat_col start)) (drop k (chain_of s col))"
    using chain_loop_value [of start k "drop k (chain_of s col)" s \<sigma>] by blast
  have "chain_index info = of_nat (length (chain_of s col)) - 1"
    using loop(2) k(1,2) by (cases "k = length (chain_of s col)") (simp_all add: of_nat_diff)
  moreover
  have "chain_value \<sigma> (val \<sigma> (mat_col start)) (drop k (chain_of s col)) = chain_value \<sigma> (val \<sigma> col) (chain_of s col)"
    using k(3) chain_value_simps(3) [of \<sigma> "val \<sigma> col" "take k (chain_of s col)" "drop k (chain_of s col)"] by simp
  ultimately show ?thesis
    using loop assms(1,2) cs
    by (simp add: ensureMaterialized_def bindP_def Let_def start_def [symmetric] chain_of_def)
qed

section \<open>Optimized variant\<close>

text \<open>A position list is relative to its predecessor when a join or a filter produced it.\<close>

definition relative :: "heap \<Rightarrow> PosListInfo \<Rightarrow> bool" where
  "relative h p \<longleftrightarrow> (case pos_producer p of Some a \<Rightarrow> p_type (h ! a) \<in> {P_HASHJOIN, P_FILTER} | None \<Rightarrow> False)"

fun positions :: "env \<Rightarrow> heap \<Rightarrow> nat list \<Rightarrow> PosListInfo list \<Rightarrow> nat list" where
  "positions \<sigma> h prev [] = prev"
| "positions \<sigma> h prev (p # ps) =
     positions \<sigma> h (if relative h p then gather prev (val \<sigma> (poslist_col p)) else val \<sigma> (poslist_col p)) ps"

text \<open>The positions of a table its chain leaves, when there is one, and a column read there.\<close>

definition chain_positions :: "env \<Rightarrow> opt_state \<Rightarrow> string \<Rightarrow> nat list option" where
  "chain_positions \<sigma> s t = (case table_poslist_chain (ctx s) t of
       [] \<Rightarrow> None
     | first # rest \<Rightarrow> Some (positions \<sigma> (heap s) (val \<sigma> (poslist_col first)) rest))"

definition rows :: "env \<Rightarrow> opt_state \<Rightarrow> Column \<Rightarrow> nat list" where
  "rows \<sigma> s col = (case chain_positions \<sigma> s (table_name col) of
       None \<Rightarrow> val \<sigma> col
     | Some ps \<Rightarrow> gather (val \<sigma> col) ps)"

lemma rows_chain:
  "rows \<sigma> s col = (case chain_of s col of
       [] \<Rightarrow> val \<sigma> col
     | first # rest \<Rightarrow> gather (val \<sigma> col) (positions \<sigma> (heap s) (val \<sigma> (poslist_col first)) rest))"
  by (simp add: rows_def chain_positions_def chain_of_def split: list.split)

lemma relative_append:
  "ptr_ok (length h) (pos_producer p) \<Longrightarrow> relative (h @ h') p = relative h p"
  by (auto simp: relative_def nth_append split: option.split)

lemma positions_append:
  "\<forall>p \<in> set ps. ptr_ok (length h) (pos_producer p) \<Longrightarrow> positions \<sigma> (h @ h') prev ps = positions \<sigma> h prev ps"
  by (induction ps arbitrary: prev) (simp_all add: relative_append)

lemma positions_relative:
  "\<forall>p \<in> set ps. relative h p \<Longrightarrow> positions \<sigma> h prev ps = chain_value \<sigma> prev ps"
  by (induction ps arbitrary: prev) simp_all

text \<open>All entries after the first are absolute: the last one decides.\<close>

lemma positions_absolute:
  "\<forall>p \<in> set ps. \<not> relative h p \<Longrightarrow>
   positions \<sigma> h (val \<sigma> (poslist_col p0)) ps = val \<sigma> (poslist_col (last (p0 # ps)))"
  by (induction ps arbitrary: p0) simp_all

lemma compose_step_value:
  assumes "ptr_ok (length (heap s)) (pos_producer cur)"
  shows "\<exists>cur' s' h pp. compose_step t prev cur s = Inr (cur', s') \<and> heap s' = heap s @ h \<and>
     ctx s' = (ctx s)\<lparr>poslist_provenance := pp\<rparr> \<and>
     ptr_ok (length (heap s')) (pos_producer cur') \<and> \<not> relative (heap s') cur' \<and>
     (evaluates \<sigma> h \<longrightarrow> val \<sigma> (poslist_col cur') =
        (if relative (heap s) cur then gather (val \<sigma> (poslist_col prev)) (val \<sigma> (poslist_col cur)) else val \<sigma> (poslist_col cur)))"
proof (cases "relative (heap s) cur")
  case False
  then have "compose_step t prev cur s = Inr (cur, s)"
    by (auto simp: compose_step_def bindP_def root_is_def relative_def split: option.split_asm)
  then show ?thesis using False assms by (intro exI [of _ cur] exI [of _ s] exI [of _ "[]"] exI [of _ "poslist_provenance (ctx s)"]) simp
next
  case True
  let ?c = "mkColumn (ctx_table_name (ctx s)) (iname (draws s 0)) T_POSLIST None None"
  let ?n = "(new_phys P_MATERIALIZE (draws s 0))\<lparr>p_base_columns := [poslist_col prev],
    p_index := Some (poslist_col cur), p_children := map Some (nonnull [pos_producer prev, pos_producer cur]),
    result_columns := [?c]\<rparr>"
  let ?s = "s\<lparr>draws := (\<lambda>k. draws s (Suc k)), heap := heap s @ [?n],
    ctx := (ctx s)\<lparr>poslist_provenance := (poslist_provenance (ctx s))(iname (draws s 0) \<mapsto> t)\<rparr>\<rparr>"
  have "compose_step t prev cur s = Inr (\<lparr>poslist_col = ?c, pos_producer = Some (length (heap s))\<rparr>, ?s)"
    using True by (auto simp: compose_step_def bindP_def root_is_def relative_def icol_def split: option.split_asm)
  moreover have "val \<sigma> ?c = gather (val \<sigma> (poslist_col prev)) (val \<sigma> (poslist_col cur))" if "evaluates \<sigma> [?n]"
    using that by (simp add: evaluates_def)
  moreover have "\<not> relative (heap s @ [?n]) \<lparr>poslist_col = ?c, pos_producer = Some (length (heap s))\<rparr>"
    by (simp add: relative_def)
  ultimately show ?thesis using True
    by (intro exI [of _ "\<lparr>poslist_col = ?c, pos_producer = Some (length (heap s))\<rparr>"] exI [of _ ?s] exI [of _ "[?n]"]) auto
qed

lemma compose_chain_value:
  assumes "\<forall>p \<in> set rest. ptr_ok (length (heap s)) (pos_producer p)"
  shows "\<exists>rest' s' h pp. compose_chain t prev rest s = Inr (rest', s') \<and> heap s' = heap s @ h \<and>
     ctx s' = (ctx s)\<lparr>poslist_provenance := pp\<rparr> \<and> length rest' = length rest \<and>
     (\<forall>p \<in> set rest'. ptr_ok (length (heap s')) (pos_producer p) \<and> \<not> relative (heap s') p) \<and>
     (evaluates \<sigma> h \<longrightarrow> val \<sigma> (poslist_col (last (prev # rest'))) = positions \<sigma> (heap s) (val \<sigma> (poslist_col prev)) rest)"
  using assms
proof (induction rest arbitrary: prev s)
  case Nil
  show ?case by (intro exI [of _ "[]"] exI [of _ s] exI [of _ "poslist_provenance (ctx s)"]) simp
next
  case (Cons cur rest)
  then obtain cur' s1 h1 pp1 where step: "compose_step t prev cur s = Inr (cur', s1)" "heap s1 = heap s @ h1"
    "ctx s1 = (ctx s)\<lparr>poslist_provenance := pp1\<rparr>" "ptr_ok (length (heap s1)) (pos_producer cur')"
    "\<not> relative (heap s1) cur'"
    "evaluates \<sigma> h1 \<longrightarrow> val \<sigma> (poslist_col cur') =
        (if relative (heap s) cur then gather (val \<sigma> (poslist_col prev)) (val \<sigma> (poslist_col cur)) else val \<sigma> (poslist_col cur))"
    using compose_step_value [of s cur t prev \<sigma>] by auto
  have "\<forall>p \<in> set rest. ptr_ok (length (heap s1)) (pos_producer p)"
    using Cons.prems step(2) by (auto intro: ptr_ok_mono)
  from Cons.IH [OF this, of cur'] obtain rest' s2 h2 pp2 where rec:
    "compose_chain t cur' rest s1 = Inr (rest', s2)" "heap s2 = heap s1 @ h2"
    "ctx s2 = (ctx s1)\<lparr>poslist_provenance := pp2\<rparr>" "length rest' = length rest"
    "\<forall>p \<in> set rest'. ptr_ok (length (heap s2)) (pos_producer p) \<and> \<not> relative (heap s2) p"
    "evaluates \<sigma> h2 \<longrightarrow> val \<sigma> (poslist_col (last (cur' # rest'))) = positions \<sigma> (heap s1) (val \<sigma> (poslist_col cur')) rest"
    by auto
  have "compose_chain t prev (cur # rest) s = Inr (cur' # rest', s2)"
    using step(1) rec(1) by (simp add: bindP_def)
  moreover have "ptr_ok (length (heap s2)) (pos_producer cur') \<and> \<not> relative (heap s2) cur'"
    using step(4,5) rec(2) by (auto simp: relative_append intro: ptr_ok_mono)
  moreover have "positions \<sigma> (heap s1) x rest = positions \<sigma> (heap s) x rest" for x
    using step(2) Cons.prems by (simp add: positions_append)
  ultimately show ?case using step rec
    by (intro exI [of _ "cur' # rest'"] exI [of _ s2] exI [of _ "h1 @ h2"] exI [of _ pp2]) auto
qed

definition chains_ok :: "opt_state \<Rightarrow> bool" where
  "chains_ok s \<longleftrightarrow> (\<forall>t. \<forall>p \<in> set (table_poslist_chain (ctx s) t). ptr_ok (length (heap s)) (pos_producer p))"

text \<open>In the optimized variant a cached column is reused when its index is that of the whole chain.\<close>

definition opt_cache_valid :: "env \<Rightarrow> opt_state \<Rightarrow> Column \<Rightarrow> bool" where
  "opt_cache_valid \<sigma> s col \<longleftrightarrow> (\<forall>i. materialized_columns (ctx s) (col_key col) = Some i \<longrightarrow>
     ptr_ok (length (heap s)) (mat_producer i) \<and> isBaseTableChainMaterialization (heap s) i \<and>
     (chain_index i = of_nat (length (chain_of s col)) - 1 \<longrightarrow> val \<sigma> (mat_col i) = rows \<sigma> s col))"

lemma isBase_append:
  "ptr_ok (length h) (mat_producer i) \<Longrightarrow>
   isBaseTableChainMaterialization (h @ h') i = isBaseTableChainMaterialization h i"
  by (auto simp: isBaseTableChainMaterialization_def nth_append split: option.split)

lemma chain_positions_append:
  assumes "chains_ok s" "heap s' = heap s @ h" "table_poslist_chain (ctx s') t = table_poslist_chain (ctx s) t"
  shows "chain_positions \<sigma> s' t = chain_positions \<sigma> s t"
proof -
  have "\<forall>p \<in> set (table_poslist_chain (ctx s) t). ptr_ok (length (heap s)) (pos_producer p)"
    using assms(1) by (simp add: chains_ok_def)
  then show ?thesis using assms(2,3) by (auto simp: chain_positions_def positions_append split: list.split)
qed

text \<open>What a materialization leaves alone, besides the meaning of the chains.\<close>

definition mat_frame :: "opt_state \<Rightarrow> opt_state \<Rightarrow> bool" where
  "mat_frame s s' \<longleftrightarrow> intermediate_results (ctx s') = intermediate_results (ctx s) \<and>
     optimize_chains (ctx s') = optimize_chains (ctx s) \<and> ctx_projected (ctx s') = ctx_projected (ctx s) \<and>
     (\<forall>c. length (chain_of s' c) = length (chain_of s c)) \<and> (chains_ok s \<longrightarrow> chains_ok s')"

text \<open>The cache afterwards: at most the entry of the column is new, and it was made for the whole chain.\<close>

definition opt_cached :: "opt_state \<Rightarrow> Column \<Rightarrow> MaterializedInfo \<Rightarrow> opt_state \<Rightarrow> bool" where
  "opt_cached s col info s' \<longleftrightarrow> materialized_columns (ctx s') = materialized_columns (ctx s) \<or>
     (materialized_columns (ctx s') = (materialized_columns (ctx s))(col_key col \<mapsto> info) \<and> chain_of s col \<noteq> [] \<and>
      chain_index info = of_nat (length (chain_of s col)) - 1 \<and> ptr_ok (length (heap s')) (mat_producer info) \<and>
      isBaseTableChainMaterialization (heap s') info)"

lemma ensureMaterialized_optimized_value:
  assumes opt: "optimize_chains (ctx s)" and look: "lookupIntermediateResult col (ctx s) = None"
    and ok: "chains_ok s" and cache: "opt_cache_valid \<sigma> s col"
  shows "\<exists>info col' s' h. ensureMaterialized col s = Inr ((info, col'), s') \<and> heap s' = heap s @ h \<and>
     mat_frame s s' \<and> opt_cached s col info s' \<and>
     (evaluates \<sigma> h \<longrightarrow> val \<sigma> (mat_col info) = rows \<sigma> s col \<and> chain_positions \<sigma> s' = chain_positions \<sigma> s)"
proof (cases "chain_of s col")
  case Nil
  then show ?thesis using opt look
    by (simp add: ensureMaterialized_def ensureMaterializedOptimized_def bindP_def Let_def chain_of_def rows_def
        chain_positions_def mat_frame_def opt_cached_def)
next
  case (Cons first rest)
  have pok: "\<forall>p \<in> set (first # rest). ptr_ok (length (heap s)) (pos_producer p)"
    using ok Cons by (metis chains_ok_def chain_of_def)
  then obtain rest' s1 h1 pp where comp: "compose_chain (table_name col) first rest s = Inr (rest', s1)"
    "heap s1 = heap s @ h1" "ctx s1 = (ctx s)\<lparr>poslist_provenance := pp\<rparr>" "length rest' = length rest"
    "\<forall>p \<in> set rest'. ptr_ok (length (heap s1)) (pos_producer p) \<and> \<not> relative (heap s1) p"
    "evaluates \<sigma> h1 \<longrightarrow> val \<sigma> (poslist_col (last (first # rest'))) = positions \<sigma> (heap s) (val \<sigma> (poslist_col first)) rest"
    using compose_chain_value [of rest s "table_name col" first \<sigma>] by auto
  let ?ch = "(table_poslist_chain (ctx s))(table_name col := first # rest')"
  have same: "chain_positions \<sigma> s' = chain_positions \<sigma> s"
    if ev: "evaluates \<sigma> h1" and s': "heap s' = heap s1 @ h2" "table_poslist_chain (ctx s') = ?ch" for s' h2
  proof
    fix t
    show "chain_positions \<sigma> s' t = chain_positions \<sigma> s t"
    proof (cases "t = table_name col")
      case False
      then show ?thesis using s' comp(2) chain_positions_append [OF ok, of s' "h1 @ h2" t] by simp
    next
      case True
      have "positions \<sigma> (heap s') (val \<sigma> (poslist_col first)) rest' = positions \<sigma> (heap s) (val \<sigma> (poslist_col first)) rest"
        using comp(5,6) ev s'(1) by (simp add: positions_append positions_absolute)
      then show ?thesis using True s'(2) Cons by (simp add: chain_positions_def chain_of_def)
    qed
  qed
  define s2 where "s2 = s1\<lparr>ctx := (ctx s1)\<lparr>table_poslist_chain := (table_poslist_chain (ctx s1))(table_name col := first # rest')\<rparr>\<rparr>"
  let ?target = "of_nat (length (first # rest')) - 1 :: 32 word"
  let ?based = "col\<lparr>is_base := Some True\<rparr>"
  let ?final = "last (first # rest')"
  have base: "isBaseTableChainMaterialization (heap s1) i" if "materialized_columns (ctx s) (col_key col) = Some i" for i
    using cache that comp(2) by (simp add: opt_cache_valid_def isBase_append)
  have run: "ensureMaterialized col s =
      bindP (getP (\<lambda>s. case materialized_columns (ctx s) (col_key col) of
          Some cached \<Rightarrow> if \<not> isBaseTableChainMaterialization (heap s) cached \<or> chain_index cached = ?target
            then Some cached else None
        | None \<Rightarrow> None)) (\<lambda>reuse.
      case reuse of
        Some cached \<Rightarrow> retP (cached, col)
      | None \<Rightarrow>
          bindP (createMaterializeNode ?based (poslist_col ?final) [pos_producer ?final]) (\<lambda>(out_col, a).
          let out_info = \<lparr>mat_col = out_col, mat_producer = Some a, chain_index = ?target\<rparr> in
          bindP (modP (\<lambda>c. c\<lparr>materialized_columns := (materialized_columns c)(col_key col \<mapsto> out_info)\<rparr>)) (\<lambda>_.
            retP (out_info, ?based)))) s2"
    using opt look Cons comp(1)
    by (cases "materialized_columns (ctx s1) (col_key col)")
      (simp_all add: ensureMaterialized_def ensureMaterializedOptimized_def bindP_def Let_def chain_of_def s2_def)
  have s2: "heap s2 = heap s @ h1" "materialized_columns (ctx s2) = materialized_columns (ctx s)"
    "table_poslist_chain (ctx s2) = ?ch" using comp(2,3) by (simp_all add: s2_def)
  have h2: "heap s2 = heap s1" by (simp add: s2_def)
  have ptrs: "ptr_ok (length (heap s1)) (pos_producer p)"
    if "p \<in> set (if t = table_name col then first # rest' else table_poslist_chain (ctx s) t)" for p t
    using that ok comp(2,5) pok ptr_ok_mono [of "length (heap s)" "pos_producer p" "length (heap s1)"]
    by (auto simp: chains_ok_def split: if_splits)
  have frame: "mat_frame s s'"
    if "heap s' = heap s2 @ h'" "ctx s' = (ctx s2)\<lparr>materialized_columns := m\<rparr>" for s' h' m
  proof -
    have ch: "table_poslist_chain (ctx s') = ?ch" using that comp(3) by (simp add: s2_def)
    have "ptr_ok (length (heap s')) (pos_producer p)" if "p \<in> set (table_poslist_chain (ctx s') t)" for p t
      using ptrs [of p t] that \<open>heap s' = heap s2 @ h'\<close> h2 ch ptr_ok_mono [of "length (heap s1)"]
      by (auto split: if_splits)
    then show ?thesis
      using that ch comp(3,4) Cons by (simp add: mat_frame_def chain_of_def chains_ok_def s2_def)
  qed
  show ?thesis
  proof (cases "\<exists>i. materialized_columns (ctx s) (col_key col) = Some i \<and> chain_index i = ?target")
    case True
    then obtain i where i: "materialized_columns (ctx s) (col_key col) = Some i" "chain_index i = ?target" by auto
    then have "ensureMaterialized col s = Inr ((i, col), s2)" using run s2(2) by (simp add: bindP_def)
    moreover have "val \<sigma> (mat_col i) = rows \<sigma> s col"
      using cache i comp(4) Cons by (simp add: opt_cache_valid_def)
    moreover have "mat_frame s s2" using frame [of s2 "[]" "materialized_columns (ctx s2)"] by simp
    moreover have "opt_cached s col i s2" using s2(2) by (simp add: opt_cached_def)
    ultimately show ?thesis using same [of s2 "[]"] s2 h2 by auto
  next
    case False
    let ?c = "mkColumn (ctx_table_name (ctx s2)) (iname (draws s2 0)) (col_type col) None None"
    let ?n = "(new_phys P_MATERIALIZE (draws s2 0))\<lparr>p_base_columns := [?based], p_index := Some (poslist_col ?final),
        p_children := map Some (nonnull [pos_producer ?final]), result_columns := [?c]\<rparr>"
    let ?info = "\<lparr>mat_col = ?c, mat_producer = Some (length (heap s2)), chain_index = ?target\<rparr>"
    let ?s3 = "s2\<lparr>draws := (\<lambda>k. draws s2 (Suc k)), heap := heap s2 @ [?n],
        ctx := (ctx s2)\<lparr>materialized_columns := (materialized_columns (ctx s2))(col_key col \<mapsto> ?info)\<rparr>\<rparr>"
    have "ensureMaterialized col s = Inr ((?info, ?based), ?s3)"
      using False run s2(2) base h2
      by (cases "materialized_columns (ctx s) (col_key col)") (simp_all add: bindP_def createMaterializeNode_eq Let_def)
    moreover have "val \<sigma> ?c = rows \<sigma> s col" if "evaluates \<sigma> (h1 @ [?n])"
    proof -
      from that have "val \<sigma> ?c = gather (val \<sigma> col) (val \<sigma> (poslist_col ?final))" by (simp add: evaluates_def)
      then show ?thesis using that comp(6) Cons by (simp add: rows_chain)
    qed
    moreover have "chain_positions \<sigma> ?s3 = chain_positions \<sigma> s" if "evaluates \<sigma> (h1 @ [?n])"
      using same [of ?s3 "[?n]"] that h2 s2(3) by simp
    moreover have "mat_frame s ?s3" by (rule frame [of _ "[?n]"]) simp_all
    moreover have "opt_cached s col ?info ?s3"
      using comp(4) Cons s2(2) by (simp add: opt_cached_def isBaseTableChainMaterialization_def)
    ultimately show ?thesis using s2(1)
      by (intro exI [of _ ?info] exI [of _ ?based] exI [of _ ?s3] exI [of _ "h1 @ [?n]"]) simp
  qed
qed

section \<open>Comparison\<close>

definition with_chains :: "bool \<Rightarrow> opt_state \<Rightarrow> opt_state" where
  "with_chains b s = s\<lparr>ctx := (ctx s)\<lparr>optimize_chains := b\<rparr>\<rparr>"

lemma with_chains_simps [simp]:
  "heap (with_chains b s) = heap s" "chain_of (with_chains b s) col = chain_of s col"
  "optimize_chains (ctx (with_chains b s)) = b"
  "materialized_columns (ctx (with_chains b s)) = materialized_columns (ctx s)"
  "lookupIntermediateResult col (ctx (with_chains b s)) = lookupIntermediateResult col (ctx s)"
  "chains_ok (with_chains b s) = chains_ok s" "rows \<sigma> (with_chains b s) col = rows \<sigma> s col"
  by (simp_all add: with_chains_def chain_of_def lookupIntermediateResult_def chains_ok_def rows_chain
      split: option.split list.split)

lemma rows_relative:
  assumes "\<forall>p \<in> set (tl (chain_of s col)). relative (heap s) p" "in_range \<sigma> (length (val \<sigma> col)) (chain_of s col)"
  shows "rows \<sigma> s col = chain_value \<sigma> (val \<sigma> col) (chain_of s col)"
  using assms by (cases "chain_of s col") (simp_all add: rows_chain positions_relative chain_value_gather)

lemma chain_value_cong:
  "\<forall>p \<in> set chain. val \<sigma> (poslist_col p) = val \<tau> (poslist_col p) \<Longrightarrow> chain_value \<sigma> xs chain = chain_value \<tau> xs chain"
  by (induction chain arbitrary: xs) simp_all

text \<open>
  C17. Both variants compute the same column: started in the same state on a column that is not cached
  yet, with a chain whose later entries come from joins and filters and whose position lists are in
  range, the two results have equal values in environments that agree on the base column and the chain.
\<close>

theorem materialization_equivalence:
  assumes "lookupIntermediateResult col (ctx s) = None" "materialized_columns (ctx s) (col_key col) = None"
    and "chains_ok s" "length (chain_of s col) < 2 ^ 31"
    and "\<forall>p \<in> set (tl (chain_of s col)). relative (heap s) p"
    and "in_range \<sigma> (length (val \<sigma> col)) (chain_of s col)"
    and "val \<tau> col = val \<sigma> col" "\<forall>p \<in> set (chain_of s col). val \<tau> (poslist_col p) = val \<sigma> (poslist_col p)"
  shows "\<exists>i c t h i' c' t' h'.
     ensureMaterialized col (with_chains False s) = Inr ((i, c), t) \<and> heap t = heap s @ h \<and>
     ensureMaterialized col (with_chains True s) = Inr ((i', c'), t') \<and> heap t' = heap s @ h' \<and>
     (evaluates \<tau> h \<longrightarrow> evaluates \<sigma> h' \<longrightarrow> val \<tau> (mat_col i) = val \<sigma> (mat_col i'))"
proof -
  have "cache_valid \<tau> (with_chains False s) col" using assms(2) by (simp add: cache_valid_def)
  from ensureMaterialized_chained_value [OF _ _ this] assms(1,4) obtain i t h where chained:
    "ensureMaterialized col (with_chains False s) = Inr ((i, col), t)" "heap t = heap s @ h"
    "evaluates \<tau> h \<longrightarrow> val \<tau> (mat_col i) = chain_value \<tau> (val \<tau> col) (chain_of s col)" by auto
  have "opt_cache_valid \<sigma> (with_chains True s) col" using assms(2) by (simp add: opt_cache_valid_def)
  from ensureMaterialized_optimized_value [OF _ _ _ this] assms(1,3) obtain i' c' t' h' where optimized:
    "ensureMaterialized col (with_chains True s) = Inr ((i', c'), t')" "heap t' = heap s @ h'"
    "evaluates \<sigma> h' \<longrightarrow> val \<sigma> (mat_col i') = rows \<sigma> s col" by auto
  have "rows \<sigma> s col = chain_value \<tau> (val \<tau> col) (chain_of s col)"
    using rows_relative [OF assms(5,6)] chain_value_cong [OF assms(8)] assms(7) by simp
  then show ?thesis using chained optimized by auto
qed

section \<open>A concrete chain\<close>

text \<open>Four customers; a filter keeps rows 1 and 3, and a join repeats and reorders them.\<close>

definition demo_pos :: "string \<Rightarrow> nat \<Rightarrow> PosListInfo" where
  "demo_pos nm a = \<lparr>poslist_col = mkColumn ''t'' nm T_POSLIST None None, pos_producer = Some a\<rparr>"

definition demo_state :: opt_state where
  "demo_state =
     \<lparr>heap = [(new_phys P_FILTER 1)\<lparr>result_columns := [mkColumn ''t'' ''f'' T_POSLIST None None]\<rparr>,
              (new_phys P_HASHJOIN 2)\<lparr>result_columns := [mkColumn ''t'' ''j'' T_POSLIST None None]\<rparr>],
      ctx = TransformContext_default\<lparr>ctx_table_name := ''t'',
        table_poslist_chain := (\<lambda>t. if t = ''c'' then [demo_pos ''f'' 0, demo_pos ''j'' 1] else [])\<rparr>,
      draws = int\<rparr>"

definition demo_name :: Column where
  "demo_name = mkColumn ''c'' ''n'' T_STRING None None"

text \<open>The environments of the two runs: the chained run materializes twice, the optimized one composes first.\<close>

definition demo_env :: "bool \<Rightarrow> env" where
  "demo_env optimized k =
     (if k = ''c.n'' then [10, 20, 30, 40]
      else if k = ''t.f'' then [1, 3]
      else if k = ''t.j'' then [1, 0, 1]
      else if k = ''t.i0'' then (if optimized then [3, 1, 3] else [20, 40])
      else if k = ''t.i1'' then [40, 20, 40]
      else [])"

definition demo_run :: "bool \<Rightarrow> (heap \<times> nat list) option" where
  "demo_run b = (case ensureMaterialized demo_name (with_chains b demo_state) of
      Inr ((i, _), t) \<Rightarrow> Some (drop 2 (heap t), val (demo_env b) (mat_col i))
    | Inl _ \<Rightarrow> None)"

lemma demo_state_facts:
  "lookupIntermediateResult demo_name (ctx demo_state) = None"
  "materialized_columns (ctx demo_state) (col_key demo_name) = None"
  "chain_of demo_state demo_name = [demo_pos ''f'' 0, demo_pos ''j'' 1]"
  "chains_ok demo_state"
  by (simp_all add: demo_state_def demo_name_def demo_pos_def TransformContext_default_def lookupIntermediateResult_def
      chain_of_def chains_ok_def)

lemma demo_state_relative: "\<forall>p \<in> set (tl (chain_of demo_state demo_name)). relative (heap demo_state) p"
  by (simp add: demo_state_facts(3)) (simp add: demo_state_def demo_pos_def relative_def)

definition demo_good :: "bool \<Rightarrow> bool" where
  "demo_good b = (case demo_run b of Some (h, v) \<Rightarrow> v = [40, 20, 40] \<and> evaluates (demo_env b) h | None \<Rightarrow> False)"

lemma demo_good: "demo_good True" "demo_good False"
  by code_simp+

lemma demo_good_run:
  assumes "demo_good b" "ensureMaterialized demo_name (with_chains b demo_state) = Inr ((i, c), t)" "heap t = heap demo_state @ h"
  shows "evaluates (demo_env b) h" "val (demo_env b) (mat_col i) = [40, 20, 40]"
  using assms by (simp_all add: demo_good_def demo_run_def demo_state_def)

theorem materialization_equivalence_witness:
  "\<exists>i c t i' c' t'.
     ensureMaterialized demo_name (with_chains False demo_state) = Inr ((i, c), t) \<and>
     ensureMaterialized demo_name (with_chains True demo_state) = Inr ((i', c'), t') \<and>
     val (demo_env False) (mat_col i) = val (demo_env True) (mat_col i')"
proof -
  have "in_range (demo_env True) (length (val (demo_env True) demo_name)) (chain_of demo_state demo_name)"
    unfolding demo_state_facts by code_simp
  moreover have "val (demo_env False) demo_name = val (demo_env True) demo_name"
    "\<forall>p \<in> set (chain_of demo_state demo_name). val (demo_env False) (poslist_col p) = val (demo_env True) (poslist_col p)"
    unfolding demo_state_facts(3) by (simp_all add: val_def col_key_def demo_env_def demo_name_def demo_pos_def)
  ultimately obtain i c t h i' c' t' h' where
    r: "ensureMaterialized demo_name (with_chains False demo_state) = Inr ((i, c), t)" "heap t = heap demo_state @ h"
    "ensureMaterialized demo_name (with_chains True demo_state) = Inr ((i', c'), t')" "heap t' = heap demo_state @ h'"
    "evaluates (demo_env False) h \<longrightarrow> evaluates (demo_env True) h' \<longrightarrow>
      val (demo_env False) (mat_col i) = val (demo_env True) (mat_col i')"
    using materialization_equivalence [OF demo_state_facts(1,2,4) _ demo_state_relative, of "demo_env True" "demo_env False"]
    by (auto simp: demo_state_facts(3))
  then show ?thesis
    using demo_good_run(1) [OF demo_good(2) r(1,2)] demo_good_run(1) [OF demo_good(1) r(3,4)] by auto
qed

end
