(* ===== verification/SqlAst.thy ===== *)
theory SqlAst
  imports LogicalPlan
begin

text \<open>
  The data the translator receives from its two libraries: the abstract syntax tree of the SQL
  parser (hsql) and the JSON values of nlohmann. Neither library is part of the repository; these
  types hold the fields and variants the translator reads, with null pointers as
  \<^const>\<open>None\<close>, and an \<open>Other\<close> variant for everything the code does not name. The kind and the ON condition of an
  explicit join are kept although the translator does not read them, so that it can be stated that it does not.
  The parser and the JSON reader themselves are arguments of the entry point (theory \<open>SqlTranslator\<close>).
\<close>

datatype ExprType =
    kExprLiteralInt | kExprLiteralFloat | kExprLiteralString
  | kExprStar | kExprColumnRef | kExprFunctionRef | kExprOperator | kExprOther nat

datatype OperatorType =
    kOpMinus | kOpAsterisk
  | kOpEquals | kOpNotEquals | kOpGreater | kOpLess | kOpGreaterEq | kOpLessEq | kOpLike | kOpILike
  | kOpAnd | kOpOr | kOpIn | kOpBetween | kOpOther nat

record ExprData =
  etype :: ExprType
  opType :: OperatorType
  ename :: "string option"
  etable :: "string option"
  ealias :: "string option"
  ival :: "64 word"
  fval :: double
  eselect :: bool

datatype Expr =
  Expr (edata: ExprData) (expr: "Expr option") (expr2: "Expr option")
    (exprList: "Expr option list option")

text \<open>
  A table reference; the alias is a pointer to a structure whose name is a pointer. An explicit join has two sides,
  a kind and, except for cross and natural joins, a condition.
\<close>

datatype JoinType = kJoinInner | kJoinFull | kJoinLeft | kJoinRight | kJoinCross | kJoinNatural

datatype TableRef =
    kTableName "string option" "string option option"
  | kTableCrossProduct "TableRef option list option"
  | kTableJoin "(TableRef option \<times> TableRef option \<times> JoinType \<times> Expr option) option"
  | kTableOther

datatype OrderType = kOrderAsc | kOrderDesc

record OrderDescription =
  otype :: OrderType
  oexpr :: "Expr option"

record SelectStatement =
  fromTable :: "TableRef option"
  selectList :: "Expr option list option"
  whereClause :: "Expr option"
  groupBy :: "Expr option list option option"
  order_by :: "OrderDescription option list option"
  limit :: "(Expr option \<times> Expr option) option"

datatype json =
    JObject "(string \<times> json) list"
  | JArray "json list"
  | JString string
  | JOther

text \<open>\<^verbatim>\<open>j.is_object() && j.contains(k)\<close> followed by \<^verbatim>\<open>j.at(k)\<close>.\<close>

fun json_at :: "json \<Rightarrow> string \<Rightarrow> json option" where
  "json_at (JObject kvs) k = map_of kvs k"
| "json_at _ k = None"

text \<open>Shorthands for building syntax trees in closed examples.\<close>

definition expr_data :: "ExprType \<Rightarrow> OperatorType \<Rightarrow> ExprData" where
  "expr_data ty oper =
     \<lparr>etype = ty, opType = oper, ename = None, etable = None, ealias = None, ival = 0,
      fval = Double False 0 0, eselect = False\<rparr>"

definition col_ref :: "string \<Rightarrow> string \<Rightarrow> Expr" where
  "col_ref t c =
     Expr ((expr_data kExprColumnRef (kOpOther 0))\<lparr>ename := Some c, etable := Some t\<rparr>) None None None"

definition int_lit :: "64 word \<Rightarrow> Expr" where
  "int_lit i = Expr ((expr_data kExprLiteralInt (kOpOther 0))\<lparr>ival := i\<rparr>) None None None"

definition str_lit :: "string \<Rightarrow> Expr" where
  "str_lit s = Expr ((expr_data kExprLiteralString (kOpOther 0))\<lparr>ename := Some s\<rparr>) None None None"

definition bin_op :: "OperatorType \<Rightarrow> Expr \<Rightarrow> Expr \<Rightarrow> Expr" where
  "bin_op oper l r = Expr (expr_data kExprOperator oper) (Some l) (Some r) None"

end
