(* ===== verification/SchemaResolver.thy ===== *)
theory SchemaResolver
  imports SqlAst
begin

text \<open>
  \<^verbatim>\<open>SchemaResolver.cpp\<close> and the string helpers of \<^verbatim>\<open>TranslatorHelpers.cpp\<close> it uses: which table a
  column belongs to (from its prefix) and which type it has (from the built-in schemas).
\<close>

section \<open>String helpers\<close>

fun iequals_loop :: "string \<Rightarrow> string \<Rightarrow> bool" where
  "iequals_loop (a # as) (b # bs) = (if tolower a \<noteq> tolower b then False else iequals_loop as bs)"
| "iequals_loop as bs = (as = [] \<and> bs = [])"

definition iequals :: "string option \<Rightarrow> string option \<Rightarrow> bool" where
  "iequals a b = (case (a, b) of (Some x, Some y) \<Rightarrow> iequals_loop x y | _ \<Rightarrow> False)"

definition toLower :: "string \<Rightarrow> string" where
  "toLower s = map tolower s"

lemma toLower_idem [simp]: "toLower (toLower s) = toLower s"
  by (simp add: toLower_def comp_def)

lemma toLower_empty_iff [simp]: "toLower s = [] \<longleftrightarrow> s = []"
  by (simp add: toLower_def)

lemma iequals_loop_iff: "iequals_loop a b \<longleftrightarrow> toLower a = toLower b"
  by (induction a b rule: iequals_loop.induct) (auto simp: toLower_def)

lemma iequals_Some_iff [simp]: "iequals (Some a) (Some b) \<longleftrightarrow> toLower a = toLower b"
  by (simp add: iequals_def iequals_loop_iff)

lemma iequals_None [simp]: "\<not> iequals None b" "\<not> iequals a None"
  by (simp_all add: iequals_def split: option.splits)

section \<open>Table name resolution from the column prefix\<close>

definition kPrefixToTable :: "(string \<times> string) list" where
  "kPrefixToTable =
     [(''lo_'', ''lineorder''), (''d_'', ''dates''), (''c_'', ''customer''), (''s_'', ''supplier''),
      (''p_'', ''part''),
      (''chn_'', ''char_name''), (''ci_'', ''cast_info''), (''cn_'', ''company_name''),
      (''ct_'', ''company_type''), (''mc_'', ''movie_companies''), (''rt_'', ''role_type''),
      (''t_'', ''title'')]"

fun prefix_table :: "(string \<times> string) list \<Rightarrow> string \<Rightarrow> string" where
  "prefix_table [] c = ''''"
| "prefix_table ((p, t) # ps) c = (if starts_with c p then t else prefix_table ps c)"

definition resolveTableName :: "Column \<Rightarrow> string" where
  "resolveTableName col =
     (if table_name col \<noteq> '''' then table_name col
      else prefix_table kPrefixToTable (column_name col))"

section \<open>Column type resolution\<close>

record SSBTableSchema =
  schema_columns :: "string list"
  listedType :: PlanColumnType
  defaultType :: PlanColumnType

definition kSSBSchema :: "(string \<times> SSBTableSchema) list" where
  "kSSBSchema =
     [(''date'',
       \<lparr>schema_columns =
          [''d_datekey'', ''d_year'', ''d_yearmonth'', ''d_yearmonthnum'', ''d_quarter'', ''d_quarternum'',
           ''d_month'', ''d_monthnum'', ''d_weeknum'', ''d_daynum'', ''d_daynumofweek'',
           ''d_daynumofyear''],
        listedType = T_INTEGER, defaultType = T_STRING\<rparr>),
      (''customer'',
       \<lparr>schema_columns = [''c_custkey'', ''c_nationkey'', ''c_regionkey'', ''c_mktsegment''],
        listedType = T_STRING, defaultType = T_INTEGER\<rparr>),
      (''supplier'',
       \<lparr>schema_columns = [''s_suppkey'', ''s_nationkey'', ''s_regionkey''],
        listedType = T_INTEGER, defaultType = T_STRING\<rparr>),
      (''part'',
       \<lparr>schema_columns = [''p_partkey'', ''p_size'', ''p_retailprice''],
        listedType = T_INTEGER, defaultType = T_STRING\<rparr>),
      (''lineorder'',
       \<lparr>schema_columns =
          [''lo_orderkey'', ''lo_linenumber'', ''lo_custkey'', ''lo_partkey'', ''lo_suppkey'',
           ''lo_orderdate'', ''lo_orderpriority'', ''lo_shippriority'', ''lo_quantity'',
           ''lo_extendedprice'', ''lo_ordtotalprice'', ''lo_discount'', ''lo_tax'', ''lo_commitdate'',
           ''lo_receiptdate'', ''lo_shipmode'', ''lo_shipinstruct'', ''lo_revenue'', ''lo_supplycost''],
        listedType = T_INTEGER, defaultType = T_STRING\<rparr>)]"

definition kIMDBIntegerColumns :: "string list" where
  "kIMDBIntegerColumns = [''id'', ''production_year'', ''episode_nr'', ''season_nr'', ''nr_order'']"

definition ends_with :: "string \<Rightarrow> string \<Rightarrow> bool" where
  "ends_with s suf \<longleftrightarrow> length suf \<le> length s \<and> drop (length s - length suf) s = suf"

definition resolveColumnType :: "string \<Rightarrow> string \<Rightarrow> PlanColumnType" where
  "resolveColumnType tableName columnName =
     (let lowerColumn = toLower columnName; lowerTable = toLower tableName in
      case map_of kSSBSchema lowerTable of
        Some schema \<Rightarrow>
          (if lowerColumn \<in> set (schema_columns schema) then listedType schema else defaultType schema)
      | None \<Rightarrow>
          (if lowerColumn \<in> set kIMDBIntegerColumns then T_INTEGER
           else if ends_with lowerColumn ''_id'' then T_INTEGER
           else T_STRING))"

section \<open>What the resolver guarantees\<close>

lemma resolveTableName_explicit [simp]: "table_name c \<noteq> '''' \<Longrightarrow> resolveTableName c = table_name c"
  by (simp add: resolveTableName_def)

lemma prefix_table_in: "prefix_table ps c = t \<Longrightarrow> t \<noteq> '''' \<Longrightarrow> \<exists>p. (p, t) \<in> set ps \<and> starts_with c p"
  by (induction ps c rule: prefix_table.induct) (auto split: if_splits)

text \<open>
  No prefix of the table is a prefix of another, so the order of \<open>kPrefixToTable\<close> does not matter.
\<close>

lemma kPrefixToTable_unambiguous:
  assumes "(p, t) \<in> set kPrefixToTable" "(q, u) \<in> set kPrefixToTable" "starts_with q p"
  shows "p = q \<and> t = u"
proof -
  have "list_all (\<lambda>(p, t). list_all (\<lambda>(q, u). starts_with q p \<longrightarrow> p = q \<and> t = u) kPrefixToTable) kPrefixToTable"
    by code_simp
  with assms show ?thesis by (fastforce simp: list_all_iff)
qed

lemma starts_with_comparable: "starts_with c p \<Longrightarrow> starts_with c q \<Longrightarrow> starts_with p q \<or> starts_with q p"
  by (auto simp: starts_with_iff append_eq_append_conv2)

lemma prefix_table_complete:
  assumes "\<And>p t q u. (p, t) \<in> set ps \<Longrightarrow> (q, u) \<in> set ps \<Longrightarrow> starts_with q p \<Longrightarrow> p = q \<and> t = u"
    and "(p, t) \<in> set ps" "starts_with c p"
  shows "prefix_table ps c = t"
  using assms
proof (induction ps)
  case (Cons e ps)
  obtain q u where e: "e = (q, u)" by force
  show ?case
  proof (cases "starts_with c q")
    case True
    from Cons.prems(3) have "starts_with p q \<or> starts_with q p" using True by (rule starts_with_comparable)
    moreover have "(q, u) \<in> set (e # ps)" by (simp add: e)
    ultimately have "t = u"
      using Cons.prems(1) [OF Cons.prems(2)] Cons.prems(1) [OF _ Cons.prems(2)] by blast
    with True e show ?thesis by simp
  next
    case False
    then have "(p, t) \<in> set ps" using Cons.prems(2,3) e by auto
    then have "prefix_table ps c = t"
      by (rule Cons.IH [OF _ _ Cons.prems(3), rotated]) (meson Cons.prems(1) list.set_intros(2))
    with False e show ?thesis by simp
  qed
qed simp

text \<open>
  A column without a qualifier resolves to the table whose registered prefix its name carries,
  whatever the order of the prefix table, and to the empty name when it carries none of them; a
  qualifier always wins.
\<close>

theorem resolveTableName_spec:
  "resolveTableName col = t \<longleftrightarrow>
     (if table_name col \<noteq> '''' then t = table_name col
      else (\<exists>p. (p, t) \<in> set kPrefixToTable \<and> starts_with (column_name col) p)
           \<or> (t = '''' \<and> (\<forall>(p, u) \<in> set kPrefixToTable. \<not> starts_with (column_name col) p)))"
proof (cases "table_name col = ''''")
  case True
  let ?c = "column_name col"
  have complete: "prefix_table kPrefixToTable ?c = u" if "(p, u) \<in> set kPrefixToTable" "starts_with ?c p" for p u
    using prefix_table_complete [OF _ that] kPrefixToTable_unambiguous by metis
  have none: "prefix_table kPrefixToTable ?c = ''''" if "\<forall>(p, u) \<in> set kPrefixToTable. \<not> starts_with ?c p"
    using that prefix_table_in by fastforce
  have "(\<exists>p. (p, prefix_table kPrefixToTable ?c) \<in> set kPrefixToTable \<and> starts_with ?c p)
      \<or> (prefix_table kPrefixToTable ?c = '''' \<and> (\<forall>(p, u) \<in> set kPrefixToTable. \<not> starts_with ?c p))"
    using complete none by fastforce
  with complete none True show ?thesis by (auto simp: resolveTableName_def)
qed auto

theorem resolveTableName_spec_witness:
  "resolveTableName (mkColumn '''' ''lo_revenue'' T_INTEGER None None) = ''lineorder''
   \<and> resolveTableName (mkColumn '''' ''revenue'' T_INTEGER None None) = ''''"
proof -
  have "(''lo_'', ''lineorder'') \<in> set kPrefixToTable \<and> starts_with ''lo_revenue'' ''lo_''" by code_simp
  moreover have "\<forall>(p, u) \<in> set kPrefixToTable. \<not> starts_with ''revenue'' p" by code_simp
  ultimately show ?thesis
    using resolveTableName_spec [of "mkColumn '''' ''lo_revenue'' T_INTEGER None None" "''lineorder''"]
      resolveTableName_spec [of "mkColumn '''' ''revenue'' T_INTEGER None None" "''''"] by auto
qed

end
