(* ===== verification/TranslatorHelpers.thy ===== *)
theory TranslatorHelpers
  imports SchemaResolver
begin

text \<open>
  \<^verbatim>\<open>TranslatorHelpers.cpp\<close>: SQL expression helpers, plan tree utilities, table name matching, alias
  collection, selection pushdown, column conversion and literals. A \<^verbatim>\<open>std::shared_ptr\<close> or
  \<^verbatim>\<open>const Expr*\<close> argument is an \<open>option\<close>; a parameter passed by non-const reference is returned.
\<close>

section \<open>SQL expression helpers\<close>

definition unwrapSimpleFunction :: "Expr option \<Rightarrow> Expr option" where
  "unwrapSimpleFunction e =
     (case e of
        None \<Rightarrow> None
      | Some x \<Rightarrow>
          if etype (edata x) \<noteq> kExprFunctionRef \<or> ename (edata x) = None then e
          else (case exprList x of
              Some [a] \<Rightarrow>
                if iequals (ename (edata x)) (Some ''LOWER'') \<or> iequals (ename (edata x)) (Some ''UPPER'') \<or>
                   iequals (ename (edata x)) (Some ''LCASE'') \<or> iequals (ename (edata x)) (Some ''UCASE'')
                then a else e
            | _ \<Rightarrow> e))"

definition stringOpFromFunctionName :: "string option \<Rightarrow> PlanStringOp option" where
  "stringOpFromFunctionName name =
     (if name = None then None
      else if iequals name (Some ''LOWER'') \<or> iequals name (Some ''LCASE'') then Some S_LOWER
      else if iequals name (Some ''UPPER'') \<or> iequals name (Some ''UCASE'') then Some S_UPPER
      else None)"

definition unwrapStringOp :: "Expr option \<Rightarrow> PlanStringOp option \<times> Expr option" where
  "unwrapStringOp e =
     (case e of
        None \<Rightarrow> (None, None)
      | Some x \<Rightarrow>
          if etype (edata x) = kExprFunctionRef then
            (case exprList x of
               Some [a] \<Rightarrow>
                 (case stringOpFromFunctionName (ename (edata x)) of
                    Some op \<Rightarrow> (Some op, a)
                  | None \<Rightarrow> (None, e))
             | _ \<Rightarrow> (None, e))
          else (None, e))"

definition mapCompOp :: "OperatorType \<Rightarrow> PlanCompType option" where
  "mapCompOp t =
     (case t of
        kOpEquals \<Rightarrow> Some C_EQ
      | kOpNotEquals \<Rightarrow> Some C_NE
      | kOpGreater \<Rightarrow> Some C_GT
      | kOpLess \<Rightarrow> Some C_LT
      | kOpGreaterEq \<Rightarrow> Some C_GE
      | kOpLessEq \<Rightarrow> Some C_LE
      | kOpLike \<Rightarrow> Some C_LIKE
      | kOpILike \<Rightarrow> Some C_LIKE
      | _ \<Rightarrow> None)"

section \<open>Tree utilities\<close>

definition toTableSet :: "string list \<Rightarrow> string list" where
  "toTableSet v = fold set_insert v []"

definition isSubset :: "string list \<Rightarrow> string list \<Rightarrow> bool" where
  "isSubset need have_tables = list_all (\<lambda>t. t \<in> set have_tables) need"

text \<open>The children of a node are smaller than the node, null pointers included.\<close>

lemma size_child [termination_simp]:
  "c \<in> set ch \<Longrightarrow> size_option size c < size_option size (Some (LNode d ch))"
  by (induction ch) auto

function (sequential) getPredicateTables :: "LogicalPlanNode option \<Rightarrow> string list" where
  "getPredicateTables None = []"
| "getPredicateTables (Some (LNode d ch)) =
     (if node_type d = L_SETOPERATION
      then fold (\<lambda>c ts. fold set_insert (getPredicateTables c) ts) ch []
      else fold (\<lambda>c ts. let t = resolveTableName c in if t \<noteq> '''' then set_insert t ts else ts)
             (base_columns d) [])"
  by pat_completeness auto
termination by (relation "measure (size_option size)") (auto simp only: in_measure size_child wf_measure)

function (sequential) getProvidedTables :: "LogicalPlanNode option \<Rightarrow> string list" where
  "getProvidedTables None = []"
| "getProvidedTables (Some (LNode d ch)) =
     (if node_type d = L_SCAN
      then (if base_table d \<noteq> '''' then [base_table d] else [])
      else concat (map getProvidedTables ch))"
  by pat_completeness auto
termination by (relation "measure (size_option size)") (auto simp only: in_measure size_child wf_measure)

function (sequential) clonePlanSubtree :: "LogicalPlanNode option \<Rightarrow> LogicalPlanNode option" where
  "clonePlanSubtree None = None"
| "clonePlanSubtree (Some (LNode d ch)) = Some (LNode d (map clonePlanSubtree ch))"
  by pat_completeness auto
termination by (relation "measure (size_option size)") (auto simp only: in_measure size_child wf_measure)

fun clonePredicateTemplate :: "LogicalPlanNode option \<Rightarrow> LogicalPlanNode option" where
  "clonePredicateTemplate None = None"
| "clonePredicateTemplate (Some (LNode d ch)) =
     (if node_type d \<noteq> L_SETOPERATION then Some (LNode d [])
      else Some (LNode d (map (\<lambda>n. Some (LNode (node n) [])) (nonnull ch))))"

function (sequential) collectUnionLeaves ::
  "LogicalPlanNode option \<Rightarrow> LogicalPlanNode list \<Rightarrow> LogicalPlanNode list" where
  "collectUnionLeaves None out = out"
| "collectUnionLeaves (Some (LNode d ch)) out =
     (if is_union d then fold collectUnionLeaves ch out else out @ [LNode d ch])"
  by pat_completeness auto
termination by (relation "measure (\<lambda>(n, out). size_option size n)") (auto simp only: in_measure size_child wf_measure prod.case)

section \<open>Table name matching\<close>

definition namesMatch :: "string \<Rightarrow> string \<Rightarrow> bool" where
  "namesMatch a b \<longleftrightarrow> a = b \<or> a @ ''s'' = b \<or> a = b @ ''s''"

definition normalizeTableToken :: "string \<Rightarrow> string" where
  "normalizeTableToken name =
     (let lower = toLower name in
      case str_rfind (CHR ''.'') lower of
        Some dotPos \<Rightarrow> if dotPos + 1 < length lower then drop (dotPos + 1) lower else lower
      | None \<Rightarrow> lower)"

section \<open>Predicate targets\<close>

definition getFilterTableName :: "LogicalPlanNode \<Rightarrow> string" where
  "getFilterTableName filterNode =
     (case base_columns (node filterNode) of [] \<Rightarrow> '''' | c # _ \<Rightarrow> resolveTableName c)"

fun same_table_loop :: "LogicalPlanNode list \<Rightarrow> string \<Rightarrow> bool \<times> string" where
  "same_table_loop [] tableOut = (tableOut \<noteq> '''', tableOut)"
| "same_table_loop (l # ls) tableOut =
     (if node_type (node l) \<noteq> L_FILTER then (False, tableOut)
      else let t = getFilterTableName l in
        if t = '''' then (False, tableOut)
        else if tableOut = '''' then same_table_loop ls t
        else if \<not> iequals (Some tableOut) (Some t) then (False, tableOut)
        else same_table_loop ls tableOut)"

definition allLeavesSameTable :: "LogicalPlanNode list \<Rightarrow> bool \<times> string" where
  "allLeavesSameTable leaves = same_table_loop leaves ''''"

text \<open>The loop over the children of a SETOPERATION predicate, on the target tables of the children.\<close>

fun same_target_loop :: "string list \<Rightarrow> string \<Rightarrow> string" where
  "same_target_loop [] tab = tab"
| "same_target_loop (t # ts) tab =
     (if t = '''' then ''''
      else if tab = '''' then same_target_loop ts t
      else if \<not> iequals (Some tab) (Some t) then ''''
      else same_target_loop ts tab)"

function (sequential) getPredicateTargetTable :: "LogicalPlanNode option \<Rightarrow> string" where
  "getPredicateTargetTable None = ''''"
| "getPredicateTargetTable (Some (LNode d ch)) =
     (if node_type d = L_FILTER then getFilterTableName (LNode d ch)
      else if node_type d = L_SETOPERATION then same_target_loop (map getPredicateTargetTable ch) ''''
      else '''')"
  by pat_completeness auto
termination by (relation "measure (size_option size)") (auto simp only: in_measure size_child wf_measure)

section \<open>Alias collection\<close>

lemma size_tableref [termination_simp]:
  "t \<in> set ts \<Longrightarrow> size_option size t < size_option size (Some (kTableCrossProduct (Some ts)))"
  by (induction ts) auto

function (sequential) collectAliases ::
  "TableRef option \<Rightarrow> (string \<rightharpoonup> string) \<Rightarrow> (string \<rightharpoonup> string)" where
  "collectAliases None m = m"
| "collectAliases (Some (kTableName nm al)) m =
     (let b = (case nm of Some s \<Rightarrow> s | None \<Rightarrow> '''') in
      if b \<noteq> '''' then
        (let m1 = m(b \<mapsto> b) in
         case al of Some (Some a) \<Rightarrow> m1(a \<mapsto> b) | _ \<Rightarrow> m1)
      else m)"
| "collectAliases (Some (kTableCrossProduct None)) m = m"
| "collectAliases (Some (kTableCrossProduct (Some ts))) m = fold collectAliases ts m"
| "collectAliases (Some (kTableJoin None)) m = m"
| "collectAliases (Some (kTableJoin (Some (l, r, _, _)))) m = collectAliases r (collectAliases l m)"
| "collectAliases (Some kTableOther) m = m"
  by pat_completeness auto
termination by (relation "measure (\<lambda>(t, m). size_option size t)") (auto simp: size_tableref [simplified])

section \<open>Selection pushdown\<close>

definition attachPredicate :: "LogicalPlanNode \<Rightarrow> LogicalPlanNode \<Rightarrow> LogicalPlanNode" where
  "attachPredicate target predicate =
     (case clonePredicateTemplate (Some predicate) of
        Some (LNode d ch) \<Rightarrow>
          if node_type d \<noteq> L_SETOPERATION then LNode d (ch @ [Some target])
          else LNode d (map (\<lambda>n. Some (LNode (node n) [clonePlanSubtree (Some target)])) (nonnull ch))
      | None \<Rightarrow> target)"

function (sequential) pushDownSelectionPredicate ::
  "LogicalPlanNode option \<Rightarrow> LogicalPlanNode option \<Rightarrow> LogicalPlanNode option" where
  "pushDownSelectionPredicate None predicate = None"
| "pushDownSelectionPredicate (Some n) None = Some n"
| "pushDownSelectionPredicate (Some (LNode d ch)) (Some p) =
     (if is_union d \<and> node_type (node p) \<noteq> L_SETOPERATION then
        Some (LNode d (map (\<lambda>c. pushDownSelectionPredicate c (clonePredicateTemplate (Some p))) ch))
      else let neededTables = getPredicateTables (Some p) in
        if neededTables = [] then Some (attachPredicate (LNode d ch) p)
        else if node_type d = L_SCAN \<and> base_table d \<noteq> '''' \<and> length neededTables = 1 \<and>
          iequals (Some (base_table d)) (Some (hd neededTables))
        then Some (attachPredicate (LNode d ch) p)
        else if node_type d = L_JOIN \<and> length ch = 2 then
          (let leftSet = toTableSet (getProvidedTables (ch ! 0));
               rightSet = toTableSet (getProvidedTables (ch ! 1)) in
           if isSubset neededTables leftSet then
             Some (LNode d (ch[0 := pushDownSelectionPredicate (ch ! 0) (Some p)]))
           else if isSubset neededTables rightSet then
             Some (LNode d (ch[1 := pushDownSelectionPredicate (ch ! 1) (Some p)]))
           else Some (attachPredicate (LNode d ch) p))
        else if node_type d = L_FILTER \<and> ch \<noteq> [] then
          Some (LNode d (ch[0 := pushDownSelectionPredicate (ch ! 0) (Some p)]))
        else Some (attachPredicate (LNode d ch) p))"
  by pat_completeness auto
termination
proof (relation "measure (\<lambda>(n, p). size_option size n)", goal_cases)
  case 1
  show ?case by simp
qed (unfold in_measure prod.case, (rule size_child, simp add: nth_mem)+)

section \<open>Column conversion and literals\<close>

definition str_of :: "string option \<Rightarrow> string" where
  "str_of s = (case s of Some x \<Rightarrow> x | None \<Rightarrow> '''')"

definition toColumnFromExpr :: "Expr option \<Rightarrow> (string \<rightharpoonup> string) \<Rightarrow> Column" where
  "toColumnFromExpr e0 aliasToBase =
     (case unwrapSimpleFunction e0 of
        Some e \<Rightarrow>
          if etype (edata e) = kExprColumnRef then
            (let tab = str_of (etable (edata e));
                 name = str_of (ename (edata e));
                 columnAlias = ealias (edata e);
                 baseTable =
                   (if tab \<noteq> '''' then
                      (case aliasToBase tab of Some b \<Rightarrow> if b \<noteq> tab then Some b else None | None \<Rightarrow> None)
                    else None);
                 tab2 = (if tab = '''' then resolveTableName (mkColumn '''' name T_STRING None None) else tab);
                 tableForType = (case baseTable of Some b \<Rightarrow> b | None \<Rightarrow> tab2)
             in mkColumn tab2 name (resolveColumnType tableForType name) columnAlias baseTable)
          else mkColumn '''' '''' T_STRING None None
      | None \<Rightarrow> mkColumn '''' '''' T_STRING None None)"

definition exprToLiteral :: "Expr option \<Rightarrow> string" where
  "exprToLiteral e0 =
     (case e0 of
        None \<Rightarrow> ''''
      | Some e \<Rightarrow>
          if etype (edata e) = kExprLiteralInt then int_to_string (sint (ival (edata e)))
          else if etype (edata e) = kExprLiteralFloat then double_to_string (fval (edata e))
          else str_of (ename (edata e)))"

definition appendLiteralValue :: "string list \<Rightarrow> Expr option \<Rightarrow> string list \<times> bool" where
  "appendLiteralValue values0 e0 =
     (case e0 of
        None \<Rightarrow> (values0, False)
      | Some e \<Rightarrow>
          if etype (edata e) = kExprLiteralInt then (values0 @ [int_to_string (sint (ival (edata e)))], True)
          else if etype (edata e) = kExprLiteralFloat then (values0 @ [double_to_string (fval (edata e))], True)
          else if etype (edata e) = kExprLiteralString then (values0 @ [str_of (ename (edata e))], True)
          else (case ename (edata e) of
              Some nm \<Rightarrow> (values0 @ [nm], True)
            | None \<Rightarrow> (values0, False)))"

end
