(* ===== verification/PlanSemantics.thy ===== *)
theory PlanSemantics
  imports TranslatorHelpers
begin

text \<open>
  The specification side of the translator: what rows an input tree (scans, joins, filters and
  unions below the projection) denotes, and the proof that selection pushdown keeps them.

  A row of a join is an environment: for each table (or alias) of the FROM clause one tuple of that
  table. The comparison semantics of the execution engine is not part of the repository; it is the
  argument \<open>eng\<close>, which sees the comparison, the string operation, the literals and the values of
  the operand columns. The contents of the tables are the argument \<open>db\<close>.
\<close>

type_synonym 'v tuple_row = "string \<Rightarrow> 'v"
type_synonym 'v env = "string \<rightharpoonup> 'v tuple_row"
type_synonym 'v engine =
  "PlanCompType \<Rightarrow> PlanStringOp option \<Rightarrow> string list \<Rightarrow> 'v option list \<Rightarrow> bool"
type_synonym 'v database = "string \<Rightarrow> 'v tuple_row set"

section \<open>Predicates\<close>

definition colval :: "'v env \<Rightarrow> Column \<Rightarrow> 'v option" where
  "colval e c = map_option (\<lambda>r. r (column_name c)) (e (resolveTableName c))"

definition sat_node :: "'v engine \<Rightarrow> LogicalNodeData \<Rightarrow> 'v env \<Rightarrow> bool" where
  "sat_node eng d e =
     (case comp_type (expression d) of
        None \<Rightarrow> False
      | Some c \<Rightarrow> eng c (string_op (expression d)) (literals (expression d)) (map (colval e) (base_columns d)))"

text \<open>A selection predicate is a FILTER node, or a UNION of FILTER nodes (a disjunction).\<close>

definition sat :: "'v engine \<Rightarrow> LogicalPlanNode \<Rightarrow> 'v env \<Rightarrow> bool" where
  "sat eng p e =
     (if node_type (node p) = L_SETOPERATION then \<exists>n \<in> set (nonnull (children p)). sat_node eng (node n) e
      else sat_node eng (node p) e)"

definition wf_pred :: "LogicalPlanNode \<Rightarrow> bool" where
  "wf_pred p \<longleftrightarrow>
     node_type (node p) = L_FILTER \<or>
     (is_union (node p) \<and> nonnull (children p) \<noteq> [] \<and>
      list_all (\<lambda>n. node_type (node n) = L_FILTER) (nonnull (children p)))"

section \<open>Rows of an input tree\<close>

function (sequential) rows :: "'v engine \<Rightarrow> 'v database \<Rightarrow> LogicalPlanNode option \<Rightarrow> 'v env set" where
  "rows eng db None = {}"
| "rows eng db (Some (LNode d ch)) =
     (case node_type d of
        L_SCAN \<Rightarrow> (\<lambda>r. [base_table d \<mapsto> r]) ` db (base_table d)
      | L_FILTER \<Rightarrow> if length ch = 1 then {e \<in> rows eng db (ch ! 0). sat_node eng d e} else {}
      | L_JOIN \<Rightarrow>
          if length ch = 2
          then {e. \<exists>a \<in> rows eng db (ch ! 0). \<exists>b \<in> rows eng db (ch ! 1). e = a ++ b \<and> sat_node eng d e}
          else {}
      | L_SETOPERATION \<Rightarrow> if is_union d then (\<Union>c \<in> set ch. rows eng db c) else {}
      | _ \<Rightarrow> {})"
  by pat_completeness auto
termination
proof (relation "measure (\<lambda>(eng, db, n). size_option size n)", goal_cases)
  case 1
  show ?case by simp
qed (unfold in_measure prod.case, (rule size_child, simp add: nth_mem)+)

definition tables :: "LogicalPlanNode option \<Rightarrow> string set" where
  "tables n = set (getProvidedTables n)"

function (sequential) wf_input :: "LogicalPlanNode option \<Rightarrow> bool" where
  "wf_input None = False"
| "wf_input (Some (LNode d ch)) =
     (case node_type d of
        L_SCAN \<Rightarrow> base_table d \<noteq> ''''
      | L_FILTER \<Rightarrow> length ch = 1 \<and> wf_input (ch ! 0)
      | L_JOIN \<Rightarrow>
          length ch = 2 \<and> wf_input (ch ! 0) \<and> wf_input (ch ! 1) \<and> tables (ch ! 0) \<inter> tables (ch ! 1) = {}
      | L_SETOPERATION \<Rightarrow>
          is_union d \<and> ch \<noteq> [] \<and> list_all (\<lambda>c. wf_input c \<and> tables c = tables (ch ! 0)) ch
      | _ \<Rightarrow> False)"
  by pat_completeness auto
termination
proof (relation "measure (size_option size)", goal_cases)
  case 1
  show ?case by simp
qed (unfold in_measure, (rule size_child, simp add: nth_mem)+)

section \<open>Basic facts\<close>

lemma tables_simps [simp]:
  "tables None = {}"
  "node_type d = L_SCAN \<Longrightarrow> base_table d \<noteq> '''' \<Longrightarrow> tables (Some (LNode d ch)) = {base_table d}"
  "node_type d \<noteq> L_SCAN \<Longrightarrow> tables (Some (LNode d ch)) = (\<Union>c \<in> set ch. tables c)"
  by (auto simp: tables_def)

lemma set_predicate_tables_fold:
  "set (fold (\<lambda>c ts. let t = resolveTableName c in if t \<noteq> '''' then set_insert t ts else ts) cs ts0) =
     set ts0 \<union> (resolveTableName ` set cs - {''''})"
  by (induction cs arbitrary: ts0) (auto simp: Let_def)

lemma set_union_fold:
  "set (fold (\<lambda>c ts. fold set_insert (f c) ts) cs ts0) = set ts0 \<union> (\<Union>c \<in> set cs. set (f c))"
  by (induction cs arbitrary: ts0) auto

lemma set_getPredicateTables [simp]:
  "set (getPredicateTables (Some (LNode d ch))) =
     (if node_type d = L_SETOPERATION then \<Union>c \<in> set ch. set (getPredicateTables c)
      else resolveTableName ` set (base_columns d) - {''''})"
  by (simp add: set_predicate_tables_fold set_union_fold)

declare getPredicateTables.simps(2) [simp del] getProvidedTables.simps(2) [simp del]

lemma set_toTableSet [simp]: "set (toTableSet v) = set v"
  by (simp add: toTableSet_def)

lemma isSubset_iff [simp]: "isSubset a b \<longleftrightarrow> set a \<subseteq> set b"
  by (auto simp: isSubset_def list_all_iff)

lemma clonePlanSubtree_id [simp]: "clonePlanSubtree n = n"
  by (induction n rule: clonePlanSubtree.induct) (auto intro: map_idI)

lemma length_2_conv: "length xs = 2 \<longleftrightarrow> (\<exists>a b. xs = [a, b])"
  by (auto simp: numeral_2_eq_2 length_Suc_conv)

lemma length_1_conv: "length xs = 1 \<longleftrightarrow> (\<exists>a. xs = [a])"
  by (auto simp: length_Suc_conv)

text \<open>The equations of \<open>rows\<close> and \<open>wf_input\<close>, one per kind of node.\<close>

lemma rows_simps [simp]:
  "node_type d = L_SCAN \<Longrightarrow> rows eng db (Some (LNode d ch)) = (\<lambda>r. [base_table d \<mapsto> r]) ` db (base_table d)"
  "node_type d = L_FILTER \<Longrightarrow> rows eng db (Some (LNode d [c])) = {e \<in> rows eng db c. sat_node eng d e}"
  "node_type d = L_JOIN \<Longrightarrow> rows eng db (Some (LNode d [l, r])) =
     {e. \<exists>a \<in> rows eng db l. \<exists>b \<in> rows eng db r. e = a ++ b \<and> sat_node eng d e}"
  "is_union d \<Longrightarrow> rows eng db (Some (LNode d ch)) = (\<Union>c \<in> set ch. rows eng db c)"
  by (simp_all add: is_union_def)

lemma wf_input_simps [simp]:
  "node_type d = L_SCAN \<Longrightarrow> wf_input (Some (LNode d ch)) = (base_table d \<noteq> '''')"
  "node_type d = L_FILTER \<Longrightarrow> wf_input (Some (LNode d [c])) = wf_input c"
  "node_type d = L_JOIN \<Longrightarrow> wf_input (Some (LNode d [l, r])) = (wf_input l \<and> wf_input r \<and> tables l \<inter> tables r = {})"
  "is_union d \<Longrightarrow> wf_input (Some (LNode d ch)) =
     (ch \<noteq> [] \<and> (\<exists>T. \<forall>c \<in> set ch. wf_input c \<and> tables c = T))"
  by (simp_all add: is_union_def list_all_iff) (metis length_greater_0_conv nth_mem)

lemma wf_input_induct [consumes 1, case_names Scan Filter Join Union]:
  assumes "wf_input n"
    and scan: "\<And>d ch. node_type d = L_SCAN \<Longrightarrow> base_table d \<noteq> '''' \<Longrightarrow> P (Some (LNode d ch))"
    and filter: "\<And>d c. node_type d = L_FILTER \<Longrightarrow> wf_input c \<Longrightarrow> P c \<Longrightarrow> P (Some (LNode d [c]))"
    and join: "\<And>d l r. node_type d = L_JOIN \<Longrightarrow> wf_input l \<Longrightarrow> wf_input r \<Longrightarrow> tables l \<inter> tables r = {} \<Longrightarrow>
      P l \<Longrightarrow> P r \<Longrightarrow> P (Some (LNode d [l, r]))"
    and union: "\<And>d ch T. is_union d \<Longrightarrow> ch \<noteq> [] \<Longrightarrow> \<forall>c \<in> set ch. wf_input c \<and> tables c = T \<Longrightarrow>
      (\<And>c. c \<in> set ch \<Longrightarrow> P c) \<Longrightarrow> P (Some (LNode d ch))"
  shows "P n"
  using assms(1)
proof (induction n rule: wf_input.induct)
  case (2 d ch)
  show ?case
  proof (cases "node_type d")
    case L_SCAN
    with "2.prems" show ?thesis by (intro scan) simp_all
  next
    case L_FILTER
    with "2.prems" obtain c where "ch = [c]" "wf_input c" by (auto simp: length_Suc_conv)
    with L_FILTER "2.IH"(1) show ?thesis by (simp add: filter)
  next
    case L_JOIN
    with "2.prems" obtain l r where "ch = [l, r]" "wf_input l" "wf_input r" "tables l \<inter> tables r = {}"
      by (auto simp: length_2_conv)
    with L_JOIN "2.IH"(2,3) show ?thesis by (simp add: join)
  next
    case L_SETOPERATION
    with "2.prems" have "is_union d \<and> ch \<noteq> [] \<and> list_all (\<lambda>c. wf_input c \<and> tables c = tables (ch ! 0)) ch"
      unfolding wf_input.simps by (simp only: LogicalNodeType.case) simp
    then obtain T where u: "is_union d" "ch \<noteq> []" "\<forall>c \<in> set ch. wf_input c \<and> tables c = T"
      unfolding list_all_iff by blast
    show ?thesis
      by (rule union [OF u]) (use L_SETOPERATION "2.IH"(4) u in blast)
  qed (use "2.prems" in simp_all)
qed simp

declare rows.simps(2) [simp del] wf_input.simps(2) [simp del]

lemma is_union_not_scan: "is_union d \<Longrightarrow> node_type d \<noteq> L_SCAN"
  by (simp add: is_union_def)

lemma tables_union:
  assumes "is_union d" "ch \<noteq> []" "\<forall>c \<in> set ch. tables c = T"
  shows "tables (Some (LNode d ch)) = T"
  using assms by (auto simp: is_union_not_scan neq_Nil_conv)

lemma wf_input_tables: "wf_input n \<Longrightarrow> '''' \<notin> tables n \<and> tables n \<noteq> {}"
proof (induction n rule: wf_input_induct)
  case (Union d ch T)
  then have "tables (Some (LNode d ch)) = T" by (intro tables_union) auto
  moreover have "ch ! 0 \<in> set ch" using Union(2) by simp
  ultimately show ?case using Union(3) Union.IH by metis
qed auto

text \<open>Every row of a well-formed input tree binds exactly the tables the tree provides.\<close>

lemma rows_dom: "wf_input n \<Longrightarrow> e \<in> rows eng db n \<Longrightarrow> dom e = tables n"
proof (induction n arbitrary: e rule: wf_input_induct)
  case (Union d ch T)
  then have t: "tables (Some (LNode d ch)) = T" by (intro tables_union) auto
  from Union obtain c where c: "c \<in> set ch" "e \<in> rows eng db c" by auto
  then have "dom e = tables c" by (rule Union.IH)
  with t Union(3) c show ?case by metis
next
  case (Join d l r)
  then obtain a b where "a \<in> rows eng db l" "b \<in> rows eng db r" "e = a ++ b" by auto
  with Join show ?case by (simp add: Un_commute)
qed (auto split: if_splits)

lemma sat_node_cong:
  assumes "\<And>c. c \<in> set (base_columns d) \<Longrightarrow> e (resolveTableName c) = e' (resolveTableName c)"
  shows "sat_node eng d e = sat_node eng d e'"
proof -
  have "map (colval e) (base_columns d) = map (colval e') (base_columns d)"
    using assms by (simp add: colval_def)
  then show ?thesis unfolding sat_node_def by (simp only:)
qed

text \<open>A predicate reads an environment only at the tables it needs.\<close>

lemma sat_cong:
  assumes "\<And>t. t \<in> set (getPredicateTables (Some p)) \<Longrightarrow> e t = e' t" "e '''' = e' ''''" "wf_pred p"
  shows "sat eng p e = sat eng p e'"
proof (cases p)
  case (LNode d ch)
  show ?thesis
  proof (cases "node_type d = L_SETOPERATION")
    case True
    have "sat_node eng (node n) e = sat_node eng (node n) e'" if n: "n \<in> set (nonnull ch)" for n
    proof (rule sat_node_cong)
      fix c assume c: "c \<in> set (base_columns (node n))"
      have "node_type (node n) \<noteq> L_SETOPERATION"
        using assms(3) n LNode True by (auto simp: wf_pred_def list_all_iff)
      with c n True LNode have "resolveTableName c \<noteq> '''' \<Longrightarrow> resolveTableName c \<in> set (getPredicateTables (Some p))"
        by (cases n) force
      with assms(1,2) show "e (resolveTableName c) = e' (resolveTableName c)" by metis
    qed
    with LNode True show ?thesis by (simp add: sat_def)
  next
    case False
    have "sat_node eng d e = sat_node eng d e'"
    proof (rule sat_node_cong)
      fix c assume "c \<in> set (base_columns d)"
      with False LNode have "resolveTableName c \<noteq> '''' \<Longrightarrow> resolveTableName c \<in> set (getPredicateTables (Some p))"
        by auto
      with assms(1,2) show "e (resolveTableName c) = e' (resolveTableName c)" by metis
    qed
    with LNode False show ?thesis by (simp add: sat_def)
  qed
qed

section \<open>Pushdown keeps the rows\<close>

text \<open>Attaching a predicate filters the rows of the target, for FILTER and UNION predicates alike.\<close>

lemma attachPredicate_filter:
  assumes "node_type (node p) = L_FILTER"
  shows "attachPredicate t p = LNode (node p) [Some t]"
  using assms by (cases p) (simp add: attachPredicate_def)

lemma attachPredicate_union:
  assumes "is_union (node p)"
  shows "attachPredicate t p = LNode (node p) (map (\<lambda>n. Some (LNode (node n) [Some t])) (nonnull (children p)))"
  using assms by (cases p) (simp add: attachPredicate_def is_union_def)

lemma attachPredicate_rows:
  assumes "wf_pred p" "wf_input (Some t)"
  shows "wf_input (Some (attachPredicate t p))"
    and "tables (Some (attachPredicate t p)) = tables (Some t)"
    and "rows eng db (Some (attachPredicate t p)) = {e \<in> rows eng db (Some t). sat eng p e}"
proof -
  have "wf_input (Some (attachPredicate t p)) \<and> tables (Some (attachPredicate t p)) = tables (Some t) \<and>
    rows eng db (Some (attachPredicate t p)) = {e \<in> rows eng db (Some t). sat eng p e}"
  proof (cases "node_type (node p) = L_FILTER")
    case True
    then show ?thesis using assms(2) by (simp add: attachPredicate_filter sat_def)
  next
    case False
    with assms(1) have u: "is_union (node p)" and ne: "nonnull (children p) \<noteq> []"
      and leaf: "\<And>n. n \<in> set (nonnull (children p)) \<Longrightarrow> node_type (node n) = L_FILTER"
      by (auto simp: wf_pred_def list_all_iff)
    let ?ch = "map (\<lambda>n. Some (LNode (node n) [Some t])) (nonnull (children p))"
    have ch: "\<forall>c \<in> set ?ch. wf_input c \<and> tables c = tables (Some t)"
      using assms(2) leaf by auto
    have "tables (Some (LNode (node p) ?ch)) = tables (Some t)"
      using u ne ch by (intro tables_union) auto
    moreover have "wf_input (Some (LNode (node p) ?ch))"
      using u ne ch by auto
    moreover have "rows eng db (Some (LNode (node p) ?ch)) = {e \<in> rows eng db (Some t). sat eng p e}"
      using u leaf by (auto simp: sat_def is_union_def)
    ultimately show ?thesis by (simp add: attachPredicate_union [OF u])
  qed
  then show "wf_input (Some (attachPredicate t p))"
    and "tables (Some (attachPredicate t p)) = tables (Some t)"
    and "rows eng db (Some (attachPredicate t p)) = {e \<in> rows eng db (Some t). sat eng p e}"
    by blast+
qed

text \<open>Filtering a join is filtering one of its sides, when that side owns all needed tables.\<close>

lemma sat_join_left:
  assumes "wf_pred p" "wf_input l" "wf_input r" "tables l \<inter> tables r = {}"
    and "set (getPredicateTables (Some p)) \<subseteq> tables l" "a \<in> rows eng db l" "b \<in> rows eng db r"
  shows "sat eng p (a ++ b) = sat eng p a"
proof (rule sat_cong [OF _ _ assms(1)])
  have d: "dom b = tables r" "dom a = tables l" using assms rows_dom by blast+
  show "(a ++ b) t = a t" if "t \<in> set (getPredicateTables (Some p))" for t
    using that d assms(4,5) by (metis Int_iff domIff empty_iff map_add_None map_add_dom_app_simps(3) subsetD)
  show "(a ++ b) '''' = a ''''"
    using d wf_input_tables [OF assms(3)] by (metis domIff map_add_dom_app_simps(3))
qed

lemma sat_join_right:
  assumes "wf_pred p" "wf_input l" "wf_input r"
    and "set (getPredicateTables (Some p)) \<subseteq> tables r" "a \<in> rows eng db l" "b \<in> rows eng db r"
  shows "sat eng p (a ++ b) = sat eng p b"
proof (rule sat_cong [OF _ _ assms(1)])
  have d: "dom b = tables r" "dom a = tables l" using assms rows_dom by blast+
  show "(a ++ b) t = b t" if "t \<in> set (getPredicateTables (Some p))" for t
    using that d assms(4) by (metis map_add_dom_app_simps(1) subsetD)
  show "(a ++ b) '''' = b ''''"
    using d wf_input_tables [OF assms(2)] by (metis domIff map_add_None map_add_dom_app_simps(2) wf_input_tables [OF assms(3)])
qed

definition pushed_ok :: "'v engine \<Rightarrow> 'v database \<Rightarrow> LogicalPlanNode option \<Rightarrow> LogicalPlanNode \<Rightarrow> LogicalPlanNode option \<Rightarrow> bool" where
  "pushed_ok eng db n p n' \<longleftrightarrow>
     wf_input n' \<and> tables n' = tables n \<and> rows eng db n' = {e \<in> rows eng db n. sat eng p e}"

lemma pushed_ok_attach:
  "wf_pred p \<Longrightarrow> wf_input (Some t) \<Longrightarrow> pushed_ok eng db (Some t) p (Some (attachPredicate t p))"
  unfolding pushed_ok_def using attachPredicate_rows by blast

lemma pushed_ok_filter:
  assumes "node_type d = L_FILTER" "pushed_ok eng db c p c'"
  shows "pushed_ok eng db (Some (LNode d [c])) p (Some (LNode d [c']))"
  using assms by (auto simp: pushed_ok_def)

lemma pushed_ok_join_left:
  assumes "node_type d = L_JOIN" "wf_pred p" "wf_input (Some (LNode d [l, r]))"
    and "set (getPredicateTables (Some p)) \<subseteq> tables l" "pushed_ok eng db l p l'"
  shows "pushed_ok eng db (Some (LNode d [l, r])) p (Some (LNode d [l', r]))"
proof -
  have w: "wf_input l" "wf_input r" "tables l \<inter> tables r = {}" using assms(1,3) by auto
  have "rows eng db (Some (LNode d [l', r])) = {e \<in> rows eng db (Some (LNode d [l, r])). sat eng p e}"
    using assms(1,5) sat_join_left [OF assms(2) w assms(4), of _ eng db] by (fastforce simp: pushed_ok_def)
  then show ?thesis using assms(1,5) w by (simp add: pushed_ok_def)
qed

lemma pushed_ok_join_right:
  assumes "node_type d = L_JOIN" "wf_pred p" "wf_input (Some (LNode d [l, r]))"
    and "set (getPredicateTables (Some p)) \<subseteq> tables r" "pushed_ok eng db r p r'"
  shows "pushed_ok eng db (Some (LNode d [l, r])) p (Some (LNode d [l, r']))"
proof -
  have w: "wf_input l" "wf_input r" "tables l \<inter> tables r = {}" using assms(1,3) by auto
  have "rows eng db (Some (LNode d [l, r'])) = {e \<in> rows eng db (Some (LNode d [l, r])). sat eng p e}"
    using assms(1,5) sat_join_right [OF assms(2) w(1,2) assms(4), of _ eng db] by (fastforce simp: pushed_ok_def)
  then show ?thesis using assms(1,5) w by (simp add: pushed_ok_def)
qed

lemma pushed_ok_union:
  assumes "is_union d" "wf_input (Some (LNode d ch))" "\<And>c. c \<in> set ch \<Longrightarrow> pushed_ok eng db c p (f c)"
  shows "pushed_ok eng db (Some (LNode d ch)) p (Some (LNode d (map f ch)))"
proof -
  from assms(1,2) obtain T where ch: "ch \<noteq> []" "\<forall>c \<in> set ch. wf_input c \<and> tables c = T" by auto
  have "tables (Some (LNode d ch)) = T"
    by (rule tables_union) (use assms(1) ch in auto)
  moreover have "tables (Some (LNode d (map f ch))) = T"
    by (rule tables_union) (use assms(1,3) ch in \<open>auto simp: pushed_ok_def\<close>)
  moreover have "wf_input (Some (LNode d (map f ch)))"
    using assms(1,3) ch by (auto simp: pushed_ok_def)
  moreover have "rows eng db (Some (LNode d (map f ch))) = {e \<in> rows eng db (Some (LNode d ch)). sat eng p e}"
    using assms(1,3) by (auto simp: pushed_ok_def)
  ultimately show ?thesis by (simp add: pushed_ok_def)
qed

lemma sat_cloned: "node_type d \<noteq> L_SETOPERATION \<Longrightarrow> sat eng (LNode d []) e = sat eng (LNode d ch) e"
  by (simp add: sat_def)

lemma pushDown_ok:
  assumes "wf_input n" "wf_pred p"
  shows "pushed_ok eng db n p (pushDownSelectionPredicate n (Some p))"
  using assms
proof (induction n arbitrary: p rule: wf_input_induct)
  case (Scan d ch)
  then have "pushDownSelectionPredicate (Some (LNode d ch)) (Some p) = Some (attachPredicate (LNode d ch) p)"
    by (simp add: is_union_def Let_def)
  with Scan show ?case by (simp add: pushed_ok_attach)
next
  case (Filter d c)
  have "wf_input (Some (LNode d [c]))" using Filter by simp
  with Filter show ?case
    by (auto simp: is_union_def Let_def intro!: pushed_ok_filter pushed_ok_attach)
next
  case (Join d l r)
  then have w: "wf_input (Some (LNode d [l, r]))" by simp
  show ?case
  proof (cases "getPredicateTables (Some p) = []")
    case True
    then show ?thesis using Join w by (simp add: is_union_def Let_def pushed_ok_attach)
  next
    case False
    note attach = pushed_ok_attach [OF Join.prems w, of eng db]
    note left = pushed_ok_join_left [OF Join(1) Join.prems w _ Join.IH(1) [OF Join.prems]]
    note right = pushed_ok_join_right [OF Join(1) Join.prems w _ Join.IH(2) [OF Join.prems]]
    show ?thesis using False Join(1) attach left right
      by (simp add: is_union_def Let_def tables_def [symmetric])
  qed
next
  case (Union d ch T)
  then have w: "wf_input (Some (LNode d ch))" by auto
  obtain dp chp where p: "p = LNode dp chp" by (cases p)
  show ?case
  proof (cases "node_type dp = L_SETOPERATION")
    case True
    then show ?thesis using p Union(1) pushed_ok_attach [OF Union.prems w, of eng db]
      by (simp add: is_union_def Let_def)
  next
    case False
    with Union.prems p have wp: "wf_pred (LNode dp [])" by (auto simp: wf_pred_def is_union_def)
    have "pushed_ok eng db c p (pushDownSelectionPredicate c (Some (LNode dp [])))" if "c \<in> set ch" for c
      using Union.IH [OF that wp] by (simp add: p pushed_ok_def sat_cloned [OF False, of eng _ chp])
    with Union(1) w have "pushed_ok eng db (Some (LNode d ch)) p
        (Some (LNode d (map (\<lambda>c. pushDownSelectionPredicate c (Some (LNode dp []))) ch)))"
      by (intro pushed_ok_union)
    with False p Union(1) show ?thesis by simp
  qed
qed

text \<open>
  C6. Selection pushdown is correct: for every well-formed input tree and every FILTER or UNION
  predicate, the pushed tree denotes exactly the rows of the original tree that satisfy the
  predicate, for every engine and database; it provides the same tables and is well formed again,
  so predicates can be pushed one after the other.
\<close>

theorem pushDownSelectionPredicate_correct:
  assumes "wf_input n" "wf_pred p"
  shows "rows eng db (pushDownSelectionPredicate n (Some p)) = {e \<in> rows eng db n. sat eng p e}
    \<and> wf_input (pushDownSelectionPredicate n (Some p))
    \<and> set (getProvidedTables (pushDownSelectionPredicate n (Some p))) = set (getProvidedTables n)"
  using pushDown_ok [OF assms, of eng db] by (simp add: tables_def pushed_ok_def)

definition ex_scan :: "string \<Rightarrow> LogicalPlanNode" where
  "ex_scan t = LNode ((new_node L_SCAN)\<lparr>base_table := t\<rparr>) []"

definition ex_eq :: "string \<Rightarrow> string \<Rightarrow> string list \<Rightarrow> LogicalNodeData" where
  "ex_eq t c vs = (new_node L_FILTER)\<lparr>
     base_columns := [mkColumn t c T_STRING None None],
     expression := Expression_default\<lparr>comp_type := Some C_EQ, literals := vs\<rparr>\<rparr>"

definition ex_join :: "LogicalPlanNode" where
  "ex_join = LNode ((new_node L_JOIN)\<lparr>
     base_columns := [mkColumn ''a'' ''x'' T_STRING None None, mkColumn ''b'' ''y'' T_STRING None None],
     expression := Expression_default\<lparr>comp_type := Some C_EQ\<rparr>\<rparr>) [Some (ex_scan ''a''), Some (ex_scan ''b'')]"

definition ex_engine :: "string engine" where
  "ex_engine c s lits vals =
     (case lits of [] \<Rightarrow> (vals ! 0 = vals ! 1 \<and> vals ! 0 \<noteq> None) | l # _ \<Rightarrow> vals ! 0 = Some l)"

definition ex_db :: "string database" where
  "ex_db t = (if t = ''a'' then {\<lambda>c. ''1'', \<lambda>c. ''2''} else {\<lambda>c. ''2''})"

text \<open>On a join of two tables the predicate \<open>b.y = '2'\<close> moves to the right scan and keeps the rows.\<close>

theorem pushDownSelectionPredicate_correct_witness:
  "rows ex_engine ex_db (pushDownSelectionPredicate (Some ex_join) (Some (LNode (ex_eq ''b'' ''y'' [''2'']) [])))
      = {e \<in> rows ex_engine ex_db (Some ex_join). sat ex_engine (LNode (ex_eq ''b'' ''y'' [''2'']) []) e}
   \<and> set (getProvidedTables (pushDownSelectionPredicate (Some ex_join) (Some (LNode (ex_eq ''b'' ''y'' [''2'']) []))))
      = {''a'', ''b''}"
proof -
  have "wf_input (Some ex_join)" by (simp add: ex_join_def ex_scan_def)
  moreover have "wf_pred (LNode (ex_eq ''b'' ''y'' [''2'']) [])" by (simp add: wf_pred_def ex_eq_def)
  moreover have "set (getProvidedTables (Some ex_join)) = {''a'', ''b''}" by code_simp
  ultimately show ?thesis
    using pushDownSelectionPredicate_correct [of "Some ex_join" "LNode (ex_eq ''b'' ''y'' [''2'']) []" ex_engine ex_db]
    by blast
qed

end
