(* ===== verification/EngineModel.thy ===== *)
theory EngineModel
  imports MaterializationSemantics PlanSemantics
begin

text \<open>
  The specification the physical plan of an input tree is compared with. The execution engine is not part
  of the repository: an environment gives the contents of every column, and \<open>runs\<close> says what the engine
  promises for the four operators below the output (FILTER, SETOPERATION, HASHJOIN, MATERIALIZE). A
  position vector picks one row of each table; \<open>matches\<close> are the vectors whose row belongs to the logical
  tree (\<open>PlanSemantics.rows\<close>), and \<open>enumerates\<close> says that one list of positions per table lists each of
  them exactly once.
\<close>

section \<open>What the engine promises\<close>

definition expr_holds :: "nat engine \<Rightarrow> Expression \<Rightarrow> nat option list \<Rightarrow> bool" where
  "expr_holds eng x vs =
     (case comp_type x of None \<Rightarrow> False | Some c \<Rightarrow> eng c (string_op x) (literals x) vs)"

text \<open>
  The output of FILTER and SETOPERATION lists each selected position once, in any order; a HASHJOIN
  yields two lists of equal length that enumerate the pairs of positions with equal keys.
\<close>

definition filter_runs :: "nat engine \<Rightarrow> MaterializationSemantics.env \<Rightarrow> PhysicalPlanNode \<Rightarrow> Column \<Rightarrow> bool" where
  "filter_runs eng \<sigma> nd r \<longleftrightarrow> distinct (val \<sigma> r) \<and>
     set (val \<sigma> r) = set (filter (\<lambda>i. expr_holds eng (p_expression nd) (map (\<lambda>c. Some (val \<sigma> c ! i)) (p_base_columns nd)))
       [0..<length (val \<sigma> (hd (p_base_columns nd)))])"

lemma filter_runs_iff:
  "filter_runs eng \<sigma> nd r \<longleftrightarrow> distinct (val \<sigma> r) \<and>
     set (val \<sigma> r) = {i \<in> {..<length (val \<sigma> (hd (p_base_columns nd)))}.
       expr_holds eng (p_expression nd) (map (\<lambda>c. Some (val \<sigma> c ! i)) (p_base_columns nd))}"
  by (simp add: filter_runs_def conj_commute lessThan_atLeast0)

definition setop_runs :: "MaterializationSemantics.env \<Rightarrow> PhysicalPlanNode \<Rightarrow> Column \<Rightarrow> bool" where
  "setop_runs \<sigma> nd r \<longleftrightarrow> distinct (val \<sigma> r) \<and>
     (logical_rel_op (p_expression nd) = Some R_UNION \<longrightarrow> set (val \<sigma> r) = (\<Union>c \<in> set (p_base_columns nd). set (val \<sigma> c))) \<and>
     (logical_rel_op (p_expression nd) = Some R_INTERSECTION \<longrightarrow> set (val \<sigma> r) = (\<Inter>c \<in> set (p_base_columns nd). set (val \<sigma> c)))"

definition hashjoin_runs :: "MaterializationSemantics.env \<Rightarrow> Column \<Rightarrow> Column \<Rightarrow> Column \<Rightarrow> Column \<Rightarrow> bool" where
  "hashjoin_runs \<sigma> x y i out \<longleftrightarrow> length (val \<sigma> i) = length (val \<sigma> out) \<and> distinct (zip (val \<sigma> i) (val \<sigma> out)) \<and>
     set (zip (val \<sigma> i) (val \<sigma> out)) = set (filter (\<lambda>(a, b). val \<sigma> x ! a = val \<sigma> y ! b)
       (List.product [0..<length (val \<sigma> x)] [0..<length (val \<sigma> y)]))"

lemma hashjoin_runs_iff:
  "hashjoin_runs \<sigma> x y i out \<longleftrightarrow> length (val \<sigma> i) = length (val \<sigma> out) \<and> distinct (zip (val \<sigma> i) (val \<sigma> out)) \<and>
     set (zip (val \<sigma> i) (val \<sigma> out)) =
       {(a, b) \<in> {..<length (val \<sigma> x)} \<times> {..<length (val \<sigma> y)}. val \<sigma> x ! a = val \<sigma> y ! b}"
proof -
  have "set (filter (\<lambda>(a, b). val \<sigma> x ! a = val \<sigma> y ! b) (List.product [0..<length (val \<sigma> x)] [0..<length (val \<sigma> y)])) =
      {(a, b) \<in> {..<length (val \<sigma> x)} \<times> {..<length (val \<sigma> y)}. val \<sigma> x ! a = val \<sigma> y ! b}" by auto
  then show ?thesis by (simp only: hashjoin_runs_def)
qed

definition node_runs :: "nat engine \<Rightarrow> MaterializationSemantics.env \<Rightarrow> PhysicalPlanNode \<Rightarrow> bool" where
  "node_runs eng \<sigma> nd =
     (case p_type nd of
        P_MATERIALIZE \<Rightarrow>
          (case (p_base_columns nd, p_index nd, result_columns nd) of
             ([b], Some i, [r]) \<Rightarrow> val \<sigma> r = gather (val \<sigma> b) (val \<sigma> i)
           | _ \<Rightarrow> True)
      | P_FILTER \<Rightarrow> (case result_columns nd of [r] \<Rightarrow> filter_runs eng \<sigma> nd r | _ \<Rightarrow> True)
      | P_SETOPERATION \<Rightarrow> (case result_columns nd of [r] \<Rightarrow> setop_runs \<sigma> nd r | _ \<Rightarrow> True)
      | P_HASHJOIN \<Rightarrow>
          (case (p_base_columns nd, result_columns nd) of
             ([x, y], [i, out]) \<Rightarrow> hashjoin_runs \<sigma> x y i out
           | _ \<Rightarrow> True)
      | _ \<Rightarrow> True)"

definition runs :: "nat engine \<Rightarrow> MaterializationSemantics.env \<Rightarrow> heap \<Rightarrow> bool" where
  "runs eng \<sigma> h \<longleftrightarrow> (\<forall>nd \<in> set h. node_runs eng \<sigma> nd)"

lemma runs_append [simp]: "runs eng \<sigma> (h @ h') \<longleftrightarrow> runs eng \<sigma> h \<and> runs eng \<sigma> h'"
  by (auto simp: runs_def)

lemma runs_Cons [simp]: "runs eng \<sigma> []" "runs eng \<sigma> (nd # h) \<longleftrightarrow> node_runs eng \<sigma> nd \<and> runs eng \<sigma> h"
  by (simp_all add: runs_def)

lemma runs_evaluates: "runs eng \<sigma> h \<Longrightarrow> evaluates \<sigma> h"
  by (auto simp: runs_def node_runs_def evaluates_def)

section \<open>Positions, tuples and rows\<close>

text \<open>\<open>sz t\<close> is the number of rows of table \<open>t\<close>; a row is read from the stored columns at one position.\<close>

definition stored_tuple :: "MaterializationSemantics.env \<Rightarrow> string \<Rightarrow> nat \<Rightarrow> nat tuple_row" where
  "stored_tuple \<sigma> t i = (\<lambda>c. \<sigma> (t @ ''.'' @ c) ! i)"

definition stored_rows :: "(string \<Rightarrow> nat) \<Rightarrow> MaterializationSemantics.env \<Rightarrow> nat database" where
  "stored_rows sz \<sigma> t = stored_tuple \<sigma> t ` {..<sz t}"

definition row_of :: "MaterializationSemantics.env \<Rightarrow> (string \<rightharpoonup> nat) \<Rightarrow> nat PlanSemantics.env" where
  "row_of \<sigma> v = (\<lambda>t. map_option (stored_tuple \<sigma> t) (v t))"

text \<open>
  The position vectors a tree selects: one position for each of its tables, such that the row read there
  belongs to the tree. Two equal tuples at different positions count twice.
\<close>

definition in_tables :: "(string \<Rightarrow> nat) \<Rightarrow> string set \<Rightarrow> (string \<rightharpoonup> nat) \<Rightarrow> bool" where
  "in_tables sz T v \<longleftrightarrow> dom v = T \<and> (\<forall>t i. v t = Some i \<longrightarrow> i < sz t)"

definition matches ::
  "nat engine \<Rightarrow> MaterializationSemantics.env \<Rightarrow> (string \<Rightarrow> nat) \<Rightarrow> LogicalPlanNode option \<Rightarrow> (string \<rightharpoonup> nat) set" where
  "matches eng \<sigma> sz n =
     {v. in_tables sz (tables n) v \<and> row_of \<sigma> v \<in> PlanSemantics.rows eng (stored_rows sz \<sigma>) n}"

text \<open>The positions of a table the chain of its position lists leaves, in the order of the lists.\<close>

definition table_positions :: "(string \<Rightarrow> nat) \<Rightarrow> MaterializationSemantics.env \<Rightarrow> opt_state \<Rightarrow> string \<Rightarrow> nat list" where
  "table_positions sz \<sigma> s t =
     (case chain_positions \<sigma> s t of None \<Rightarrow> [0..<sz t] | Some ps \<Rightarrow> ps)"

definition vector :: "(string \<Rightarrow> nat list) \<Rightarrow> string set \<Rightarrow> nat \<Rightarrow> (string \<rightharpoonup> nat)" where
  "vector ps T k = (\<lambda>t. if t \<in> T then Some (ps t ! k) else None)"

text \<open>The lists enumerate the selected vectors: equally long, each vector exactly once.\<close>

definition enumerates :: "(string \<Rightarrow> nat list) \<Rightarrow> string set \<Rightarrow> (string \<rightharpoonup> nat) set \<Rightarrow> bool" where
  "enumerates ps T V \<longleftrightarrow>
     (\<exists>N. (\<forall>t \<in> T. length (ps t) = N) \<and> bij_betw (vector ps T) {..<N} V)"

section \<open>The trees considered\<close>

text \<open>
  Below the joins each table is a scan, a filter, two stacked filters (an intersection), or a union of
  such filters. A third filter on top is excluded: its positions are chained behind the intersection
  although they index the base table. A join compares a column of its left with one of its right
  subtree, in this order. A filter over two tables may stand on top of a join.
\<close>

definition is_scan :: "string \<Rightarrow> LogicalPlanNode option \<Rightarrow> bool" where
  "is_scan t n = (case n of Some (LNode d ch) \<Rightarrow> node_type d = L_SCAN \<and> base_table d = t \<and> t \<noteq> '''' | None \<Rightarrow> False)"

definition filters_table :: "string \<Rightarrow> LogicalNodeData \<Rightarrow> bool" where
  "filters_table t d \<longleftrightarrow> node_type d = L_FILTER \<and> base_columns d \<noteq> [] \<and> list_all (\<lambda>c. table_name c = t) (base_columns d)"

text \<open>The flag tells whether the physical root is the FILTER node itself.\<close>

inductive selection :: "string \<Rightarrow> bool \<Rightarrow> LogicalPlanNode option \<Rightarrow> bool" for t where
  single: "is_scan t n \<Longrightarrow> filters_table t d \<Longrightarrow> selection t True (Some (LNode d [n]))"
| stacked: "selection t True n \<Longrightarrow> filters_table t d \<Longrightarrow> selection t False (Some (LNode d [n]))"
| union: "is_union d \<Longrightarrow> 2 \<le> length ch \<Longrightarrow> \<forall>n \<in> set ch. \<exists>b. selection t b n \<Longrightarrow> selection t False (Some (LNode d ch))"

definition equi_join :: "LogicalNodeData \<Rightarrow> Column \<Rightarrow> Column \<Rightarrow> bool" where
  "equi_join d lc rc \<longleftrightarrow> node_type d = L_JOIN \<and> base_columns d = [lc, rc] \<and>
     comp_type (expression d) = Some C_EQ \<and> string_op (expression d) = None \<and> literals (expression d) = []"

text \<open>The index counts the scans, selections, joins and filters over two tables; it bounds the length of a chain.\<close>

inductive supported :: "nat \<Rightarrow> LogicalPlanNode option \<Rightarrow> bool" where
  scan: "is_scan t n \<Longrightarrow> supported (Suc 0) n"
| leaf: "selection t b n \<Longrightarrow> supported (Suc 0) n"
| join: "supported k l \<Longrightarrow> supported m r \<Longrightarrow> equi_join d lc rc \<Longrightarrow> tables l \<inter> tables r = {} \<Longrightarrow>
    table_name lc \<in> tables l \<Longrightarrow> table_name rc \<in> tables r \<Longrightarrow> supported (Suc (k + m)) (Some (LNode d [l, r]))"
| cross: "supported k n \<Longrightarrow> node_type d = L_FILTER \<Longrightarrow> base_columns d = [c1, c2] \<Longrightarrow> table_name c1 \<noteq> table_name c2 \<Longrightarrow>
    table_name c1 \<in> tables n \<Longrightarrow> table_name c2 \<in> tables n \<Longrightarrow> supported (Suc k) (Some (LNode d [n]))"

text \<open>The hypotheses on the database and on equality.\<close>

definition stored :: "(string \<Rightarrow> nat) \<Rightarrow> MaterializationSemantics.env \<Rightarrow> string set \<Rightarrow> bool" where
  "stored sz \<sigma> T \<longleftrightarrow> (\<forall>t \<in> T. CHR ''.'' \<notin> set t \<and> (\<forall>c. length (\<sigma> (t @ ''.'' @ c)) = sz t))"

definition compares_equal :: "nat engine \<Rightarrow> bool" where
  "compares_equal eng \<longleftrightarrow> (\<forall>x y. eng C_EQ None [] [Some x, Some y] = (x = y))"

section \<open>Enumerating position vectors\<close>

lemma bij_betw_restrict: "bij_betw f A B \<Longrightarrow> bij_betw f {a \<in> A. P (f a)} {b \<in> B. P b}"
  by (auto simp: bij_betw_def inj_on_def)

lemma enumerates_single:
  assumes "distinct (ps t)" "V = (\<lambda>i. [t \<mapsto> i]) ` set (ps t)"
  shows "enumerates ps {t} V"
proof -
  have "bij_betw (\<lambda>i. [t \<mapsto> i]) (set (ps t)) V"
    using assms(2) by (auto simp: bij_betw_def inj_on_def map_upd_eqD1)
  then have "bij_betw ((\<lambda>i. [t \<mapsto> i]) \<circ> (!) (ps t)) {..<length (ps t)} V"
    by (rule bij_betw_trans [rotated]) (simp add: assms(1) bij_betw_nth)
  moreover have "vector ps {t} = (\<lambda>i. [t \<mapsto> i]) \<circ> (!) (ps t)"
    by (auto simp: vector_def fun_eq_iff)
  ultimately show ?thesis by (auto simp: enumerates_def)
qed

lemma vector_gather: "\<forall>t \<in> T. qs t = gather (ps t) js \<Longrightarrow> k < length js \<Longrightarrow> vector qs T k = vector ps T (js ! k)"
  by (auto simp: vector_def gather_def fun_eq_iff)

lemma enumerates_filter:
  assumes "enumerates ps T V" "t \<in> T" "distinct js" "set js = {k \<in> {..<length (ps t)}. K (vector ps T k)}"
    and "\<forall>t \<in> T. qs t = gather (ps t) js"
  shows "enumerates qs T {v \<in> V. K v}"
proof -
  obtain N where N: "\<forall>t \<in> T. length (ps t) = N" "bij_betw (vector ps T) {..<N} V"
    using assms(1) by (auto simp: enumerates_def)
  have "bij_betw ((!) js) {..<length js} {k \<in> {..<N}. K (vector ps T k)}"
    using assms(2-4) N(1) by (simp add: bij_betw_nth)
  then have "bij_betw (vector ps T \<circ> (!) js) {..<length js} {v \<in> V. K v}"
    by (rule bij_betw_trans) (rule bij_betw_restrict [OF N(2)])
  then have "bij_betw (vector qs T) {..<length js} {v \<in> V. K v}"
    by (rule bij_betw_cong [THEN iffD1, rotated]) (simp add: vector_gather [OF assms(5)])
  then show ?thesis using assms(5) by (auto simp: enumerates_def)
qed

lemma restrict_add:
  assumes "dom v = L" "dom w = R" "L \<inter> R = {}"
  shows "(v ++ w) |` L = v" "(v ++ w) |` R = w"
proof -
  have n: "v x = None" if "x \<notin> L" for x using assms(1) that by (auto simp: domIff)
  have m: "w x = None" if "x \<notin> R" for x using assms(2) that by (auto simp: domIff)
  have k: "x \<notin> R" if "x \<in> L" for x using assms(3) that by blast
  have "((v ++ w) |` L) x = v x" for x using n m k by (cases "x \<in> L") (simp_all add: restrict_map_def map_add_def)
  then show "(v ++ w) |` L = v" by (rule ext)
  have "((v ++ w) |` R) x = w x" for x
    using n m k by (cases "x \<in> R") (auto simp: restrict_map_def map_add_def split: option.split)
  then show "(v ++ w) |` R = w" by (rule ext)
qed

lemma map_add_disjoint_inject:
  assumes "dom v = L" "dom v' = L" "dom w = R" "dom w' = R" "L \<inter> R = {}" "v ++ w = v' ++ w'"
  shows "v = v' \<and> w = w'"
  using restrict_add [OF assms(1,3,5)] restrict_add [OF assms(2,4,5)] assms(6) by simp

lemma enumerates_join:
  assumes "enumerates ps L V" "enumerates ps R W" "L \<inter> R = {}" "lt \<in> L" "rt \<in> R"
    and doms: "\<forall>v \<in> V. dom v = L" "\<forall>w \<in> W. dom w = R"
    and lists: "length il = length js" "distinct (zip il js)"
      "set (zip il js) = {(a, b) \<in> {..<length (ps lt)} \<times> {..<length (ps rt)}. K (vector ps L a ++ vector ps R b)}"
    and qs: "\<forall>t \<in> L. qs t = gather (ps t) il" "\<forall>t \<in> R. qs t = gather (ps t) js"
  shows "enumerates qs (L \<union> R) {u. \<exists>v \<in> V. \<exists>w \<in> W. u = v ++ w \<and> K u}"
proof -
  obtain N M where N: "\<forall>t \<in> L. length (ps t) = N" "bij_betw (vector ps L) {..<N} V"
    and M: "\<forall>t \<in> R. length (ps t) = M" "bij_betw (vector ps R) {..<M} W"
    using assms(1,2) by (auto simp: enumerates_def)
  let ?f = "\<lambda>(a, b). vector ps L a ++ vector ps R b"
  have "inj_on (\<lambda>(v, w). v ++ w) (V \<times> W)"
  proof (rule inj_onI, clarify)
    fix v w v' w'
    assume "v \<in> V" "w \<in> W" "v' \<in> V" "w' \<in> W" "v ++ w = v' ++ w'"
    then show "v = v' \<and> w = w'" using doms by (intro map_add_disjoint_inject [OF _ _ _ _ assms(3)]) simp_all
  qed
  then have "bij_betw (\<lambda>(v, w). v ++ w) (V \<times> W) {u. \<exists>v \<in> V. \<exists>w \<in> W. u = v ++ w}"
    by (auto simp: bij_betw_def)
  moreover have "bij_betw (map_prod (vector ps L) (vector ps R)) ({..<N} \<times> {..<M}) (V \<times> W)"
    using N(2) M(2) by (rule bij_betw_map_prod)
  ultimately have "bij_betw ((\<lambda>(v, w). v ++ w) \<circ> map_prod (vector ps L) (vector ps R)) ({..<N} \<times> {..<M})
      {u. \<exists>v \<in> V. \<exists>w \<in> W. u = v ++ w}"
    by (rule bij_betw_trans [rotated])
  then have "bij_betw ?f ({..<N} \<times> {..<M}) {u. \<exists>v \<in> V. \<exists>w \<in> W. u = v ++ w}"
    by (rule bij_betw_cong [THEN iffD1, rotated]) auto
  from bij_betw_restrict [OF this, of K]
  have f: "bij_betw ?f {p \<in> {..<N} \<times> {..<M}. K (?f p)} {u \<in> {u. \<exists>v \<in> V. \<exists>w \<in> W. u = v ++ w}. K u}" .
  have "bij_betw ((!) (zip il js)) {..<length il} {p \<in> {..<N} \<times> {..<M}. K (?f p)}"
    using lists N(1) M(1) assms(4,5) by (intro bij_betw_nth) (auto simp: case_prod_unfold)
  from bij_betw_trans [OF this f]
  have "bij_betw (vector qs (L \<union> R)) {..<length il} {u \<in> {u. \<exists>v \<in> V. \<exists>w \<in> W. u = v ++ w}. K u}"
  proof (rule bij_betw_cong [THEN iffD1, rotated])
    fix k assume "k \<in> {..<length il}"
    then have "vector qs L k = vector ps L (il ! k)" "vector qs R k = vector ps R (js ! k)"
      using qs lists(1) by (simp_all add: vector_gather)
    moreover have "vector qs (L \<union> R) k = vector qs L k ++ vector qs R k"
      using assms(3) by (auto simp: vector_def fun_eq_iff map_add_def)
    ultimately show "(?f \<circ> (!) (zip il js)) k = vector qs (L \<union> R) k"
      using \<open>k \<in> {..<length il}\<close> lists(1) by simp
  qed
  moreover have "{u \<in> {u. \<exists>v \<in> V. \<exists>w \<in> W. u = v ++ w}. K u} = {u. \<exists>v \<in> V. \<exists>w \<in> W. u = v ++ w \<and> K u}" by blast
  ultimately show ?thesis using qs lists(1) unfolding enumerates_def by (auto intro!: exI [of _ "length il"])
qed

section \<open>Selected vectors, operator by operator\<close>

lemma row_of_add: "row_of \<sigma> (v ++ w) = row_of \<sigma> v ++ row_of \<sigma> w"
  by (auto simp: row_of_def fun_eq_iff map_add_def split: option.split)

lemma dom_row_of [simp]: "dom (row_of \<sigma> v) = dom v"
  by (auto simp: row_of_def dom_def)

lemma row_of_restrict: "row_of \<sigma> (v |` T) = row_of \<sigma> v |` T"
  by (auto simp: row_of_def fun_eq_iff restrict_map_def)

lemma in_tables_single: "in_tables sz {t} v \<longleftrightarrow> (\<exists>i < sz t. v = [t \<mapsto> i])"
proof
  assume v: "in_tables sz {t} v"
  then have "t \<in> dom v" by (simp add: in_tables_def)
  then obtain i where "v t = Some i" unfolding dom_def by blast
  moreover from this have "i < sz t" using v by (simp add: in_tables_def)
  moreover have "v u = None" if "u \<noteq> t" for u using v that by (auto simp: in_tables_def)
  ultimately show "\<exists>i < sz t. v = [t \<mapsto> i]" by (intro exI [of _ i]) (auto simp: fun_eq_iff)
qed (auto simp: in_tables_def split: if_splits)

text \<open>The positions a tree over a single table selects.\<close>

definition chosen :: "nat engine \<Rightarrow> MaterializationSemantics.env \<Rightarrow> (string \<Rightarrow> nat) \<Rightarrow> string \<Rightarrow> LogicalPlanNode option \<Rightarrow> nat set" where
  "chosen eng \<sigma> sz t n =
     {i \<in> {..<sz t}. [t \<mapsto> stored_tuple \<sigma> t i] \<in> PlanSemantics.rows eng (stored_rows sz \<sigma>) n}"

lemma row_of_single [simp]: "row_of \<sigma> [t \<mapsto> i] = [t \<mapsto> stored_tuple \<sigma> t i]"
  by (rule ext) (simp add: row_of_def)

lemma matches_single: "tables n = {t} \<Longrightarrow> matches eng \<sigma> sz n = (\<lambda>i. [t \<mapsto> i]) ` chosen eng \<sigma> sz t n"
proof (intro equalityI subsetI)
  fix v assume n: "tables n = {t}" and "v \<in> matches eng \<sigma> sz n"
  then obtain i where "i < sz t" "v = [t \<mapsto> i]" "row_of \<sigma> v \<in> PlanSemantics.rows eng (stored_rows sz \<sigma>) n"
    unfolding matches_def n in_tables_single by blast
  then show "v \<in> (\<lambda>i. [t \<mapsto> i]) ` chosen eng \<sigma> sz t n" by (intro image_eqI [of _ _ i]) (simp_all add: chosen_def)
next
  fix v assume n: "tables n = {t}" and "v \<in> (\<lambda>i. [t \<mapsto> i]) ` chosen eng \<sigma> sz t n"
  then obtain i where "i < sz t" "v = [t \<mapsto> i]" "row_of \<sigma> v \<in> PlanSemantics.rows eng (stored_rows sz \<sigma>) n"
    by (auto simp: chosen_def simp del: fun_upd_apply)
  then show "v \<in> matches eng \<sigma> sz n" unfolding matches_def n in_tables_single by blast
qed

lemma matches_filter:
  assumes "node_type d = L_FILTER"
  shows "matches eng \<sigma> sz (Some (LNode d [n])) = {v \<in> matches eng \<sigma> sz n. sat_node eng d (row_of \<sigma> v)}"
  using assms by (auto simp: matches_def)

lemma matches_join:
  assumes d: "node_type d = L_JOIN" and wf: "wf_input l" "wf_input r" and dis: "tables l \<inter> tables r = {}"
  shows "matches eng \<sigma> sz (Some (LNode d [l, r])) =
    {u. \<exists>v \<in> matches eng \<sigma> sz l. \<exists>w \<in> matches eng \<sigma> sz r. u = v ++ w \<and> sat_node eng d (row_of \<sigma> u)}" (is "?A = ?B")
proof (intro equalityI subsetI)
  fix u assume "u \<in> ?A"
  then have u: "dom u = tables l \<union> tables r" "\<forall>t i. u t = Some i \<longrightarrow> i < sz t"
    "row_of \<sigma> u \<in> PlanSemantics.rows eng (stored_rows sz \<sigma>) (Some (LNode d [l, r]))"
    using d by (simp_all add: matches_def in_tables_def)
  then obtain a b where ab: "a \<in> PlanSemantics.rows eng (stored_rows sz \<sigma>) l"
    "b \<in> PlanSemantics.rows eng (stored_rows sz \<sigma>) r" "row_of \<sigma> u = a ++ b" "sat_node eng d (row_of \<sigma> u)"
    using d by auto
  then have doms: "dom a = tables l" "dom b = tables r" using rows_dom wf by blast+
  have "row_of \<sigma> (u |` tables l) = a" "row_of \<sigma> (u |` tables r) = b"
    using restrict_add [OF doms dis] ab(3) by (simp_all add: row_of_restrict)
  then have "u |` tables l \<in> matches eng \<sigma> sz l" "u |` tables r \<in> matches eng \<sigma> sz r"
    using u(1,2) ab(1,2) by (auto simp: matches_def in_tables_def restrict_map_def dom_def split: if_splits)
  moreover have "u = u |` tables l ++ u |` tables r"
    using u(1) dis by (auto simp: fun_eq_iff restrict_map_def map_add_def domIff split: option.split)
  ultimately show "u \<in> ?B" using ab(4) by blast
next
  fix u assume "u \<in> ?B"
  then obtain v w where "v \<in> matches eng \<sigma> sz l" "w \<in> matches eng \<sigma> sz r" "u = v ++ w" "sat_node eng d (row_of \<sigma> u)"
    by blast
  then show "u \<in> ?A"
    using d by (auto simp: matches_def in_tables_def row_of_add map_add_Some_iff)
qed

lemma chosen_scan:
  assumes "is_scan t n"
  shows "chosen eng \<sigma> sz t n = {..<sz t}"
  using assms by (auto simp: is_scan_def chosen_def stored_rows_def split: option.splits LogicalPlanNode.splits)

lemma chosen_filter:
  assumes "node_type d = L_FILTER"
  shows "chosen eng \<sigma> sz t (Some (LNode d [n])) =
    {i \<in> chosen eng \<sigma> sz t n. sat_node eng d [t \<mapsto> stored_tuple \<sigma> t i]}"
  using assms by (auto simp: chosen_def)

lemma chosen_union:
  assumes "is_union d"
  shows "chosen eng \<sigma> sz t (Some (LNode d ch)) = (\<Union>n \<in> set ch. chosen eng \<sigma> sz t n)"
  using assms by (auto simp: chosen_def)

end
