(* ===== verification/MaterializerContract.thy ===== *)
theory MaterializerContract
  imports EngineModel
begin

text \<open>
  The interface between the handlers and \<open>ensureMaterialized\<close>: an invariant on the chains and the cache that
  every materialization keeps, under which it returns the column read at the positions the chain of its table
  leaves. The handlers append position lists and drop cache entries in between. The locale states the contract;
  it is interpreted for both settings of \<^verbatim>\<open>optimize_chains\<close>.
\<close>

abbreviation chain :: "opt_state \<Rightarrow> string \<Rightarrow> PosListInfo list" where
  "chain s \<equiv> table_poslist_chain (ctx s)"

section \<open>The contract\<close>

text \<open>What a materialization leaves as it is.\<close>

definition kept :: "(string \<Rightarrow> nat) \<Rightarrow> MaterializationSemantics.env \<Rightarrow> opt_state \<Rightarrow> opt_state \<Rightarrow> bool" where
  "kept sz \<sigma> s s' \<longleftrightarrow> (\<exists>h. heap s' = heap s @ h) \<and> intermediate_results (ctx s') = intermediate_results (ctx s) \<and>
     (\<forall>t. table_positions sz \<sigma> s' t = table_positions sz \<sigma> s t \<and> length (chain s' t) = length (chain s t))"

text \<open>
  What a handler may do in between: add nodes, drop cache entries, and append to a chain one position list,
  made by a join or a filter unless it is the first, that points into the positions the chain leaves.
\<close>

definition appended ::
  "(string \<Rightarrow> nat) \<Rightarrow> MaterializationSemantics.env \<Rightarrow> opt_state \<Rightarrow> opt_state \<Rightarrow> string \<Rightarrow> PosListInfo \<Rightarrow> bool" where
  "appended sz \<sigma> s s' t p \<longleftrightarrow> chain s' t = chain s t @ [p] \<and> ptr_ok (length (heap s')) (pos_producer p) \<and>
     (chain s t \<noteq> [] \<longrightarrow> relative (heap s') p) \<and>
     (\<forall>i \<in> set (val \<sigma> (poslist_col p)). i < length (table_positions sz \<sigma> s t))"

definition grown :: "(string \<Rightarrow> nat) \<Rightarrow> MaterializationSemantics.env \<Rightarrow> opt_state \<Rightarrow> opt_state \<Rightarrow> bool" where
  "grown sz \<sigma> s s' \<longleftrightarrow> (\<exists>h. heap s' = heap s @ h) \<and> optimize_chains (ctx s') = optimize_chains (ctx s) \<and>
     materialized_columns (ctx s') \<subseteq>\<^sub>m materialized_columns (ctx s) \<and>
     (\<forall>t. length (chain s' t) < 2 ^ 31 \<and> (chain s' t = chain s t \<or> (\<exists>p. appended sz \<sigma> s s' t p)))"

definition base_column :: "(string \<Rightarrow> nat) \<Rightarrow> MaterializationSemantics.env \<Rightarrow> Column \<Rightarrow> bool" where
  "base_column sz \<sigma> c \<longleftrightarrow> CHR ''.'' \<notin> set (table_name c) \<and> length (val \<sigma> c) = sz (table_name c)"

locale materializer =
  fixes ok :: "(string \<Rightarrow> nat) \<Rightarrow> MaterializationSemantics.env \<Rightarrow> opt_state \<Rightarrow> bool"
  assumes ok_chains: "ok sz \<sigma> s \<Longrightarrow> chains_ok s \<and> (\<forall>t. length (chain s t) < 2 ^ 31)"
    and ok_grown: "ok sz \<sigma> s \<Longrightarrow> grown sz \<sigma> s s' \<Longrightarrow> ok sz \<sigma> s'"
    and ok_ensure: "ok sz \<sigma> s \<Longrightarrow> intermediate_results (ctx s) = Map.empty \<Longrightarrow> base_column sz \<sigma> c \<Longrightarrow>
      ensureMaterialized c s = Inr ((info, c'), s') \<Longrightarrow> evaluates \<sigma> (heap s') \<Longrightarrow>
      ok sz \<sigma> s' \<and> kept sz \<sigma> s s' \<and>
      val \<sigma> (mat_col info) = gather (val \<sigma> c) (table_positions sz \<sigma> s (table_name c))"

section \<open>Positions under appending\<close>

lemma positions_snoc:
  "positions \<sigma> h prev (ps @ [p]) =
     (if relative h p then gather (positions \<sigma> h prev ps) (val \<sigma> (poslist_col p)) else val \<sigma> (poslist_col p))"
  by (induction ps arbitrary: prev) simp_all

lemma gather_upt: "\<forall>i \<in> set js. i < n \<Longrightarrow> gather [0..<n] js = js"
  unfolding gather_def by (rule map_idI) simp

lemma gather_all: "gather xs [0..<length xs] = xs"
  by (simp add: gather_def map_nth)

lemma table_positions_same:
  "chains_ok s \<Longrightarrow> heap s' = heap s @ h \<Longrightarrow> chain s' t = chain s t \<Longrightarrow> table_positions sz \<sigma> s' t = table_positions sz \<sigma> s t"
  using chain_positions_append [of s s' h t \<sigma>] by (simp add: table_positions_def)

lemma table_positions_appended:
  assumes "chains_ok s" "heap s' = heap s @ h" "appended sz \<sigma> s s' t p"
  shows "table_positions sz \<sigma> s' t = gather (table_positions sz \<sigma> s t) (val \<sigma> (poslist_col p))"
proof (cases "chain s t")
  case Nil
  then show ?thesis using assms(3) by (simp add: appended_def table_positions_def chain_positions_def gather_upt)
next
  case (Cons first rest)
  moreover have "\<forall>q \<in> set rest. ptr_ok (length (heap s)) (pos_producer q)"
    using assms(1) Cons unfolding chains_ok_def by (metis list.set_intros(2))
  ultimately show ?thesis using assms(2,3)
    by (auto simp: appended_def table_positions_def chain_positions_def positions_snoc positions_append)
qed

lemma grown_positions:
  assumes "chains_ok s" "grown sz \<sigma> s s'"
  shows "table_positions sz \<sigma> s' t =
    (case drop (length (chain s t)) (chain s' t) of [] \<Rightarrow> table_positions sz \<sigma> s t
     | p # _ \<Rightarrow> gather (table_positions sz \<sigma> s t) (val \<sigma> (poslist_col p)))"
proof -
  from assms(2) obtain h where h: "heap s' = heap s @ h" by (auto simp: grown_def)
  from assms(2) consider "chain s' t = chain s t" | p where "appended sz \<sigma> s s' t p" by (auto simp: grown_def)
  then show ?thesis
  proof cases
    case 1
    with table_positions_same [OF assms(1) h] show ?thesis by simp
  next
    case (2 p)
    from table_positions_appended [OF assms(1) h this] 2 show ?thesis by (simp add: appended_def)
  qed
qed

lemma rows_positions: "base_column sz \<sigma> c \<Longrightarrow> MaterializationSemantics.rows \<sigma> s c = gather (val \<sigma> c) (table_positions sz \<sigma> s (table_name c))"
  using gather_all [of "val \<sigma> c"]
  by (simp add: MaterializationSemantics.rows_def table_positions_def base_column_def split: option.split)

lemma chains_ok_grown:
  assumes "chains_ok s" "grown sz \<sigma> s s'"
  shows "chains_ok s'"
proof (unfold chains_ok_def, intro allI ballI)
  fix t p assume p: "p \<in> set (chain s' t)"
  from assms(2) have "length (heap s) \<le> length (heap s')" by (auto simp: grown_def)
  then have old: "ptr_ok (length (heap s')) (pos_producer q)" if "q \<in> set (chain s t)" for q
    using assms(1) that by (auto simp: chains_ok_def intro: ptr_ok_mono)
  from assms(2) consider "chain s' t = chain s t" | q where "appended sz \<sigma> s s' t q" by (auto simp: grown_def)
  then show "ptr_ok (length (heap s')) (pos_producer p)"
    using p old by cases (auto simp: appended_def)
qed

text \<open>Table names without a dot make cache keys unambiguous.\<close>

lemma append_dot_inject:
  "CHR ''.'' \<notin> set t \<Longrightarrow> CHR ''.'' \<notin> set u \<Longrightarrow> t @ ''.'' @ x = u @ ''.'' @ y \<longleftrightarrow> t = u \<and> x = y"
proof (induction t arbitrary: u)
  case (Cons a t)
  then show ?case by (cases u) auto
qed (auto simp: Cons_eq_append_conv)

lemma col_key_inject:
  "base_column sz \<sigma> a \<Longrightarrow> base_column sz \<sigma> b \<Longrightarrow> col_key a = col_key b \<longleftrightarrow> table_name a = table_name b \<and> column_name a = column_name b"
  using append_dot_inject [of "table_name a" "table_name b"] by (simp add: base_column_def col_key_def)

section \<open>The optimized variant\<close>

definition optimized_ok :: "(string \<Rightarrow> nat) \<Rightarrow> MaterializationSemantics.env \<Rightarrow> opt_state \<Rightarrow> bool" where
  "optimized_ok sz \<sigma> s \<longleftrightarrow> optimize_chains (ctx s) \<and> chains_ok s \<and> (\<forall>t. length (chain s t) < 2 ^ 31) \<and>
     (\<forall>c i. base_column sz \<sigma> c \<longrightarrow> materialized_columns (ctx s) (col_key c) = Some i \<longrightarrow>
        opt_cache_valid \<sigma> s c \<and> (\<exists>k < length (chain_of s c). chain_index i = of_nat k))"

lemma of_nat_index_inject:
  "j < 2 ^ 31 \<Longrightarrow> k < 2 ^ 31 \<Longrightarrow> (of_nat j :: 32 word) = of_nat k \<longleftrightarrow> j = k"
proof -
  assume "j < 2 ^ 31" "k < 2 ^ 31"
  then have "unat (of_nat j :: 32 word) = j" "unat (of_nat k :: 32 word) = k"
    by (simp_all add: unsigned_of_nat take_bit_nat_eq_self)
  then show ?thesis by metis
qed

lemma of_nat_pred: "0 < n \<Longrightarrow> (of_nat n - 1 :: 32 word) = of_nat (n - 1)"
  by (cases n) simp_all

lemma optimized_grown:
  assumes "optimized_ok sz \<sigma> s" "grown sz \<sigma> s s'"
  shows "optimized_ok sz \<sigma> s'"
proof (unfold optimized_ok_def, intro conjI allI impI)
  show "optimize_chains (ctx s')" using assms by (auto simp: optimized_ok_def grown_def)
  show "chains_ok s'" using assms chains_ok_grown by (auto simp: optimized_ok_def)
  show "length (chain s' t) < 2 ^ 31" for t using assms(2) by (simp add: grown_def)
  fix c i
  assume c: "base_column sz \<sigma> c" and "materialized_columns (ctx s') (col_key c) = Some i"
  then have i: "materialized_columns (ctx s) (col_key c) = Some i"
    using assms(2) by (metis grown_def map_le_def domI)
  from assms(1) c i obtain k where k: "k < length (chain_of s c)" "chain_index i = of_nat k"
    and valid: "opt_cache_valid \<sigma> s c" unfolding optimized_ok_def by blast
  obtain h where h: "heap s' = heap s @ h" using assms(2) by (auto simp: grown_def)
  have cases: "chain_of s' c = chain_of s c \<or> (\<exists>p. chain_of s' c = chain_of s c @ [p])"
    using assms(2) by (auto simp: grown_def appended_def chain_of_def)
  then show "\<exists>k < length (chain_of s' c). chain_index i = of_nat k" using k by (intro exI [of _ k]) auto
  have "val \<sigma> (mat_col i) = MaterializationSemantics.rows \<sigma> s' c" if idx: "chain_index i = of_nat (length (chain_of s' c)) - 1"
  proof -
    have pos: "0 < length (chain_of s' c)" "length (chain_of s' c) < 2 ^ 31"
      using cases k assms(2) by (auto simp: grown_def chain_of_def)
    then have "(of_nat (length (chain_of s' c)) - 1 :: 32 word) = of_nat (length (chain_of s' c) - 1)"
      using of_nat_pred by blast
    then have "k = length (chain_of s' c) - 1" using idx k pos cases of_nat_index_inject [of k "length (chain_of s' c) - 1"] by auto
    then have same: "chain_of s' c = chain_of s c" using k cases by auto
    then have "MaterializationSemantics.rows \<sigma> s' c = MaterializationSemantics.rows \<sigma> s c"
      using assms(1) h chain_positions_append [of s s' h "table_name c" \<sigma>] by (simp add: MaterializationSemantics.rows_def optimized_ok_def chain_of_def)
    then show ?thesis using valid i idx same by (simp add: opt_cache_valid_def)
  qed
  then show "opt_cache_valid \<sigma> s' c"
    using valid i \<open>materialized_columns (ctx s') (col_key c) = Some i\<close> h
    by (auto simp: opt_cache_valid_def isBase_append intro: ptr_ok_mono)
qed

lemma opt_cachedD:
  assumes "opt_cached s c info s'" "materialized_columns (ctx s') k = Some i"
  shows "materialized_columns (ctx s) k = Some i \<or> (k = col_key c \<and> i = info \<and> chain_of s c \<noteq> [] \<and>
    chain_index i = of_nat (length (chain_of s c)) - 1 \<and> ptr_ok (length (heap s')) (mat_producer i) \<and>
    isBaseTableChainMaterialization (heap s') i)"
  using assms by (cases "k = col_key c") (auto simp: opt_cached_def)

lemma optimized_ensure:
  assumes ok: "optimized_ok sz \<sigma> s" and empty: "intermediate_results (ctx s) = Map.empty" and c: "base_column sz \<sigma> c"
    and run: "ensureMaterialized c s = Inr ((info, c'), s')" and ev: "evaluates \<sigma> (heap s')"
  shows "optimized_ok sz \<sigma> s' \<and> kept sz \<sigma> s s' \<and>
    val \<sigma> (mat_col info) = gather (val \<sigma> c) (table_positions sz \<sigma> s (table_name c))"
proof -
  have "lookupIntermediateResult c (ctx s) = None"
    by (simp add: lookupIntermediateResult_def empty split: option.split)
  moreover have "opt_cache_valid \<sigma> s c"
    using ok c by (cases "materialized_columns (ctx s) (col_key c)") (auto simp: optimized_ok_def opt_cache_valid_def)
  ultimately obtain h where h: "heap s' = heap s @ h" and frame: "mat_frame s s'" and cached: "opt_cached s c info s'"
    and vals: "val \<sigma> (mat_col info) = MaterializationSemantics.rows \<sigma> s c" "chain_positions \<sigma> s' = chain_positions \<sigma> s"
    using ensureMaterialized_optimized_value [of s c \<sigma>] ok run ev by (auto simp: optimized_ok_def)
  have rows: "MaterializationSemantics.rows \<sigma> s' x = MaterializationSemantics.rows \<sigma> s x" for x
    by (simp add: MaterializationSemantics.rows_def vals(2))
  have len: "length (chain s' t) = length (chain s t)" for t
  proof -
    have "length (chain_of s' (Column_default\<lparr>table_name := t\<rparr>)) = length (chain_of s (Column_default\<lparr>table_name := t\<rparr>))"
      using frame unfolding mat_frame_def by blast
    then show ?thesis by (simp add: chain_of_def)
  qed
  have "optimized_ok sz \<sigma> s'"
  proof (unfold optimized_ok_def, intro conjI allI impI)
    show "optimize_chains (ctx s')" "chains_ok s'" "length (chain s' t) < 2 ^ 31" for t
      using ok frame len by (auto simp: optimized_ok_def mat_frame_def)
    fix x i
    assume x: "base_column sz \<sigma> x" and i: "materialized_columns (ctx s') (col_key x) = Some i"
    have lx: "length (chain_of s' x) = length (chain_of s x)" using len by (simp add: chain_of_def)
    consider (old) "materialized_columns (ctx s) (col_key x) = Some i"
      | (new) "col_key x = col_key c" "i = info" "chain_of s c \<noteq> []" "chain_index i = of_nat (length (chain_of s c)) - 1"
          "ptr_ok (length (heap s')) (mat_producer i)" "isBaseTableChainMaterialization (heap s') i"
      using opt_cachedD [OF cached i] by blast
    then have "(\<exists>k < length (chain_of s' x). chain_index i = of_nat k) \<and> opt_cache_valid \<sigma> s' x"
    proof cases
      case old
      then have "opt_cache_valid \<sigma> s x" "\<exists>k < length (chain_of s x). chain_index i = of_nat k"
        using ok x unfolding optimized_ok_def by blast+
      then show ?thesis using old i h rows lx by (auto simp: opt_cache_valid_def isBase_append intro: ptr_ok_mono)
    next
      case new
      then have tab: "table_name x = table_name c" "val \<sigma> x = val \<sigma> c"
        using col_key_inject [OF x c] by (simp_all add: val_def)
      then have same: "chain_of s x = chain_of s c" "MaterializationSemantics.rows \<sigma> s x = MaterializationSemantics.rows \<sigma> s c"
        by (simp_all add: chain_of_def MaterializationSemantics.rows_def split: option.split)
      have "chain_index i = of_nat (length (chain_of s c) - 1)" using new(3,4) of_nat_pred [of "length (chain_of s c)"] by simp
      then show ?thesis using new i same lx rows vals(1)
        by (auto simp: opt_cache_valid_def intro!: exI [of _ "length (chain_of s c) - 1"])
    qed
    then show "\<exists>k < length (chain_of s' x). chain_index i = of_nat k" "opt_cache_valid \<sigma> s' x" by blast+
  qed
  moreover have "kept sz \<sigma> s s'"
    using h frame len vals(2) by (simp add: kept_def mat_frame_def table_positions_def)
  ultimately show ?thesis using vals(1) rows_positions [OF c] by simp
qed

interpretation optimized: materializer optimized_ok
proof
  show "chains_ok s \<and> (\<forall>t. length (chain s t) < 2 ^ 31)" if "optimized_ok sz \<sigma> s" for sz \<sigma> s
    using that by (simp add: optimized_ok_def)
qed (fact optimized_grown optimized_ensure)+

section \<open>The chained variant\<close>

definition chained_ok :: "(string \<Rightarrow> nat) \<Rightarrow> MaterializationSemantics.env \<Rightarrow> opt_state \<Rightarrow> bool" where
  "chained_ok sz \<sigma> s \<longleftrightarrow> \<not> optimize_chains (ctx s) \<and> chains_ok s \<and>
     (\<forall>t. length (chain s t) < 2 ^ 31 \<and> (\<forall>p \<in> set (tl (chain s t)). relative (heap s) p) \<and> in_range \<sigma> (sz t) (chain s t)) \<and>
     (\<forall>c. base_column sz \<sigma> c \<longrightarrow> cache_valid \<sigma> s c)"

lemma in_range_snoc:
  "in_range \<sigma> n (ps @ [p]) \<longleftrightarrow> in_range \<sigma> n ps \<and>
     (\<forall>i \<in> set (val \<sigma> (poslist_col p)). i < (if ps = [] then n else length (val \<sigma> (poslist_col (last ps)))))"
  by (induction ps arbitrary: n) auto

lemma length_positions:
  "length (positions \<sigma> h prev ps) = (if ps = [] then length prev else length (val \<sigma> (poslist_col (last ps))))"
  by (induction ps arbitrary: prev) auto

lemma length_table_positions:
  "length (table_positions sz \<sigma> s t) = (if chain s t = [] then sz t else length (val \<sigma> (poslist_col (last (chain s t)))))"
  by (auto simp: table_positions_def chain_positions_def length_positions split: list.split)

lemma chains_ok_same: "chains_ok s \<Longrightarrow> heap s' = heap s @ h \<Longrightarrow> chain s' = chain s \<Longrightarrow> chains_ok s'"
  using ptr_ok_mono [of "length (heap s)" _ "length (heap s')"] by (simp add: chains_ok_def)

lemma chained_relative:
  assumes "chained_ok sz \<sigma> s" "p \<in> set (tl (chain s t))" "heap s' = heap s @ h"
  shows "relative (heap s') p"
proof -
  have "p \<in> set (chain s t)" using assms(2) list.set_sel(2) [of "chain s t" p] by (cases "chain s t") auto
  then have "ptr_ok (length (heap s)) (pos_producer p)" using assms(1) by (simp add: chained_ok_def chains_ok_def)
  moreover have "relative (heap s) p" using assms(1,2) by (simp add: chained_ok_def)
  ultimately show ?thesis using assms(3) by (simp add: relative_append)
qed

lemma chained_grown:
  assumes "chained_ok sz \<sigma> s" "grown sz \<sigma> s s'"
  shows "chained_ok sz \<sigma> s'"
proof (unfold chained_ok_def, intro conjI allI impI)
  show "\<not> optimize_chains (ctx s')" using assms by (auto simp: chained_ok_def grown_def)
  show "chains_ok s'" using assms chains_ok_grown by (auto simp: chained_ok_def)
  show "length (chain s' t) < 2 ^ 31" for t using assms(2) by (simp add: grown_def)
  obtain h where h: "heap s' = heap s @ h" using assms(2) by (auto simp: grown_def)
  have old: "relative (heap s') p" if "p \<in> set (tl (chain s t))" for t p
    using chained_relative [OF assms(1) that h] .
  have cases: "chain s' t = chain s t \<or> (\<exists>p. appended sz \<sigma> s s' t p)" for t using assms(2) by (simp add: grown_def)
  show "\<forall>p \<in> set (tl (chain s' t)). relative (heap s') p" for t
    using cases [of t] old [of _ t] by (cases "chain s t") (auto simp: appended_def)
  show "in_range \<sigma> (sz t) (chain s' t)" for t
    using cases [of t] assms(1) by (auto simp: appended_def chained_ok_def in_range_snoc length_table_positions)
  fix c assume "base_column sz \<sigma> c"
  then have valid: "cache_valid \<sigma> s c" using assms(1) by (simp add: chained_ok_def)
  show "cache_valid \<sigma> s' c"
  proof (unfold cache_valid_def, intro allI impI)
    fix i assume "materialized_columns (ctx s') (col_key c) = Some i"
    then have "materialized_columns (ctx s) (col_key c) = Some i" using assms(2) by (metis grown_def map_le_def domI)
    then obtain k where k: "k \<le> length (chain_of s c)" "chain_index i = of_nat k - 1"
      "val \<sigma> (mat_col i) = chain_value \<sigma> (val \<sigma> c) (take k (chain_of s c))" using valid unfolding cache_valid_def by blast
    have "k \<le> length (chain_of s' c)" "take k (chain_of s' c) = take k (chain_of s c)"
      using k(1) cases [of "table_name c"] by (auto simp: chain_of_def appended_def)
    then show "\<exists>k \<le> length (chain_of s' c). chain_index i = of_nat k - 1 \<and>
        val \<sigma> (mat_col i) = chain_value \<sigma> (val \<sigma> c) (take k (chain_of s' c))" using k by metis
  qed
qed

lemma chained_ensure:
  assumes ok: "chained_ok sz \<sigma> s" and empty: "intermediate_results (ctx s) = Map.empty" and c: "base_column sz \<sigma> c"
    and run: "ensureMaterialized c s = Inr ((info, c'), s')" and ev: "evaluates \<sigma> (heap s')"
  shows "chained_ok sz \<sigma> s' \<and> kept sz \<sigma> s s' \<and>
    val \<sigma> (mat_col info) = gather (val \<sigma> c) (table_positions sz \<sigma> s (table_name c))"
proof -
  have "lookupIntermediateResult c (ctx s) = None"
    by (simp add: lookupIntermediateResult_def empty split: option.split)
  moreover have "cache_valid \<sigma> s c" "length (chain_of s c) < 2 ^ 31" using ok c by (simp_all add: chained_ok_def chain_of_def)
  ultimately obtain h where h: "heap s' = heap s @ h"
    and ctx: "ctx s' = (ctx s)\<lparr>materialized_columns := (materialized_columns (ctx s))(col_key c \<mapsto> info)\<rparr>"
    and idx: "chain_index info = of_nat (length (chain_of s c)) - 1"
    and vals: "val \<sigma> (mat_col info) = chain_value \<sigma> (val \<sigma> c) (chain_of s c)"
    using ensureMaterialized_chained_value [of s c \<sigma>] ok run ev by (auto simp: chained_ok_def)
  have same: "chain s' = chain s" "chain_of s' x = chain_of s x" for x using ctx by (simp_all add: chain_of_def)
  have pos: "table_positions sz \<sigma> s' t = table_positions sz \<sigma> s t" for t
    using ok h same(1) by (intro table_positions_same) (simp_all add: chained_ok_def)
  have cache: "cache_valid \<sigma> s' x" if x: "base_column sz \<sigma> x" for x
  proof (cases "col_key x = col_key c")
    case True
    then have "table_name x = table_name c" "val \<sigma> x = val \<sigma> c" using col_key_inject [OF x c] by (simp_all add: val_def)
    then show ?thesis using ctx idx vals True same(2)
      by (auto simp: cache_valid_def chain_of_def intro!: exI [of _ "length (chain_of s c)"])
  next
    case False
    then show ?thesis using ok x ctx same(2) by (simp add: chained_ok_def cache_valid_def)
  qed
  have "relative (heap s') p" if "p \<in> set (tl (chain s t))" for t p
    using chained_relative [OF ok that h] .
  moreover have "chains_ok s" using ok by (simp add: chained_ok_def)
  then have "chains_ok s'" using h same(1) by (rule chains_ok_same)
  ultimately have "chained_ok sz \<sigma> s'" using ok ctx same(1) cache by (simp add: chained_ok_def)
  moreover have "kept sz \<sigma> s s'" using h ctx pos by (simp add: kept_def)
  moreover have "MaterializationSemantics.rows \<sigma> s c = chain_value \<sigma> (val \<sigma> c) (chain_of s c)"
    using ok c by (intro rows_relative) (simp_all add: chained_ok_def chain_of_def base_column_def)
  ultimately show ?thesis using vals rows_positions [OF c, of s] by simp
qed

interpretation chained: materializer chained_ok
proof
  show "chains_ok s \<and> (\<forall>t. length (chain s t) < 2 ^ 31)" if "chained_ok sz \<sigma> s" for sz \<sigma> s
    using that by (simp add: chained_ok_def)
qed (fact chained_grown chained_ensure)+

end
