(* ===== verification/HandlerRuns.thy ===== *)
theory HandlerRuns
  imports PhysicalOptimizer MaterializerContract
begin

text \<open>
  The handlers of the physical optimizer on the trees of \<open>EngineModel\<close>: they return and only add nodes;
  a tree over a single table yields a position list with exactly the rows it selects; and the shape of the
  states in which the handlers of joins and of filters over two tables end.
\<close>

section \<open>Code that returns and only adds nodes\<close>

definition extends :: "'a opt \<Rightarrow> bool" where
  "extends m \<longleftrightarrow> (\<forall>s. \<exists>x s' h. m s = Inr (x, s') \<and> heap s' = heap s @ h)"

named_theorems extends_intros

lemma extendsD: "extends m \<Longrightarrow> \<exists>x s' h. m s = Inr (x, s') \<and> heap s' = heap s @ h"
  by (simp add: extends_def)

lemma extends_bind [extends_intros]: "extends m \<Longrightarrow> (\<And>x. extends (f x)) \<Longrightarrow> extends (bindP m f)"
proof (unfold extends_def bindP_def, intro allI)
  fix s
  assume m: "\<forall>s. \<exists>x s' h. m s = Inr (x, s') \<and> heap s' = heap s @ h"
    and f: "\<And>x. \<forall>s. \<exists>y s' h. f x s = Inr (y, s') \<and> heap s' = heap s @ h"
  from m obtain x s1 h where 1: "m s = Inr (x, s1)" "heap s1 = heap s @ h" by blast
  from f obtain y s2 h' where 2: "f x s1 = Inr (y, s2)" "heap s2 = heap s1 @ h'" by blast
  from 1 2 show "\<exists>y s' h. bindE (m s) (\<lambda>(x, s'). f x s') = Inr (y, s') \<and> heap s' = heap s @ h" by simp
qed

lemma extends_basic [extends_intros]:
  "extends (retP x)" "extends (\<lambda>s. Inr (x, s))" "extends (getP g)" "extends (modP u)" "extends (alloc nd)" "extends nextIntermediateName"
  "extends (icol name ty)" "extends (root_is pty p)" "extends (push_chains T i)" "extends (invalidate T)"
  "extends (set_provenance a b)" "extends (set_filter t k c)"
  by (simp_all add: extends_def icol_def root_is_def push_chains_def invalidate_def set_provenance_def set_filter_def)

lemma extends_if [extends_intros]: "(c \<Longrightarrow> extends m) \<Longrightarrow> (\<not> c \<Longrightarrow> extends m') \<Longrightarrow> extends (if c then m else m')"
  by simp

lemma extends_mapP [extends_intros]: "(\<And>x. x \<in> set xs \<Longrightarrow> extends (f x)) \<Longrightarrow> extends (mapP f xs)"
  by (induction xs) (auto intro!: extends_intros)

lemma length_mapP: "mapP f xs s = Inr (ys, s') \<Longrightarrow> length ys = length xs"
  by (induction xs arbitrary: ys s) (auto simp: bindP_def bindE_def split: sum.splits)

lemma extends_bind_mapP:
  assumes "\<And>x. x \<in> set xs \<Longrightarrow> extends (f x)" "\<And>ys. length ys = length xs \<Longrightarrow> extends (g ys)"
  shows "extends (bindP (mapP f xs) g)"
proof (unfold extends_def, intro allI)
  fix s
  obtain ys s1 h where 1: "mapP f xs s = Inr (ys, s1)" "heap s1 = heap s @ h"
    using extendsD [OF extends_mapP [of xs f], of s] assms(1) by blast
  moreover obtain y s2 h' where "g ys s1 = Inr (y, s2)" "heap s2 = heap s1 @ h'"
    using extendsD [OF assms(2) [OF length_mapP [OF 1(1)]]] by blast
  ultimately show "\<exists>y s' h. bindP (mapP f xs) g s = Inr (y, s') \<and> heap s' = heap s @ h" by (simp add: bindP_def)
qed

lemma extends_create [extends_intros]: "extends (createMaterializeNode c p ps)"
  by (auto simp: createMaterializeNode_def intro!: extends_intros)

lemma extends_compose_step: "extends (compose_step t p c)"
  by (auto simp: compose_step_def intro!: extends_intros)

lemma extends_compose_chain: "extends (compose_chain t p cs)"
  by (induction cs arbitrary: p) (auto intro!: extends_intros extends_compose_step)

lemma extends_chain_loop: "extends (chain_loop cur i ps)"
  by (induction cur i ps rule: chain_loop.induct) (auto intro!: extends_intros split: prod.split)

lemma extends_ensure [extends_intros]: "extends (ensureMaterialized col)"
  unfolding ensureMaterialized_def ensureMaterializedOptimized_def Let_def
  by (auto intro!: extends_intros extends_compose_chain extends_chain_loop split: option.split list.split prod.split)

lemma extends_setop: "2 \<le> length rs \<Longrightarrow> extends (createSetOperationNode rs op)"
  by (auto simp: createSetOperationNode_def Let_def intro!: extends_intros)

lemma extends_filter: "base_columns d \<noteq> [] \<Longrightarrow> extends (singleTableFilter d r)"
  by (auto simp: singleTableFilter_def Let_def intro!: extends_intros extends_setop split: list.split)

lemma extends_cross: "extends (handleCrossTableFilter d a b r t)"
  by (auto simp: handleCrossTableFilter_def intro!: extends_intros split: prod.split)

lemma extends_hashjoin: "extends (createHashJoin d a b l r)"
  by (auto simp: createHashJoin_def Let_def intro!: extends_intros split: prod.split)

lemma extends_scan: "is_scan t n \<Longrightarrow> extends (transformNode n)"
  by (auto simp: is_scan_def handleScan_def intro!: extends_intros split: option.splits LogicalPlanNode.splits)

lemma extends_selection: "selection t b n \<Longrightarrow> extends (transformNode n)"
proof (induction rule: selection.induct)
  case (single n d)
  then show ?case
    by (auto simp: filters_table_def handleFilter_def intro!: extends_intros extends_scan extends_filter extends_cross split: list.split)
next
  case (stacked n d)
  then show ?case
    by (auto simp: filters_table_def handleFilter_def intro!: extends_intros extends_filter extends_cross split: list.split)
next
  case (union d ch)
  then show ?case
    by (auto simp: is_union_def handleSetOperation_def intro!: extends_bind [OF extends_basic(4)] extends_bind_mapP extends_setop)
qed

lemma extends_supported: "supported k n \<Longrightarrow> extends (transformNode n)"
proof (induction rule: supported.induct)
  case (join k l m r d lc rc)
  then show ?case by (auto simp: equi_join_def handleJoin_def intro!: extends_intros extends_hashjoin)
next
  case (cross k n d c1 c2)
  then show ?case by (auto simp: handleFilter_def intro!: extends_intros extends_filter extends_cross)
qed (auto intro: extends_scan extends_selection)

section \<open>Filters and set operations on one table\<close>

lemma bindP_Inr: "bindP m f s = Inr (y, s') \<longleftrightarrow> (\<exists>x s1. m s = Inr (x, s1) \<and> f x s1 = Inr (y, s'))"
  by (cases "m s") (auto simp: bindP_def)

lemma extends_run: "extends m \<Longrightarrow> m s = Inr (x, s') \<Longrightarrow> \<exists>h. heap s' = heap s @ h"
  using extendsD [of m s] by auto

definition leaf_frame :: "string \<Rightarrow> opt_state \<Rightarrow> opt_state \<Rightarrow> bool" where
  "leaf_frame t s s' \<longleftrightarrow> (\<exists>h. heap s' = heap s @ h) \<and> (\<forall>u. u \<noteq> t \<longrightarrow> chain s' u = chain s u) \<and>
     materialized_columns (ctx s') = materialized_columns (ctx s) \<and>
     intermediate_results (ctx s') = intermediate_results (ctx s) \<and> optimize_chains (ctx s') = optimize_chains (ctx s)"

text \<open>The result of transforming a tree over one table, when its root is a node of the given type.\<close>

definition leaf_result ::
  "nat engine \<Rightarrow> MaterializationSemantics.env \<Rightarrow> (string \<Rightarrow> nat) \<Rightarrow> string \<Rightarrow> PhysicalNodeType \<Rightarrow> LogicalPlanNode option \<Rightarrow> TransformResult \<Rightarrow> opt_state \<Rightarrow> bool" where
  "leaf_result eng \<sigma> sz t ty n r s' \<longleftrightarrow>
     (\<exists>a. physical_root r = Some a \<and> a < length (heap s') \<and> p_type (heap s' ! a) = ty) \<and>
     source_table r = t \<and> tables_involved r = {t} \<and>
     distinct (val \<sigma> (output_column r)) \<and> set (val \<sigma> (output_column r)) = chosen eng \<sigma> sz t n"

definition out_info :: "TransformResult \<Rightarrow> PosListInfo" where
  "out_info r = \<lparr>poslist_col = output_column r, pos_producer = physical_root r\<rparr>"

lemma leaf_frame_refl [simp]: "leaf_frame t s s"
  by (simp add: leaf_frame_def)

lemma leaf_frame_trans: "leaf_frame t s s' \<Longrightarrow> leaf_frame t s' s'' \<Longrightarrow> leaf_frame t s s''"
  by (auto simp: leaf_frame_def)

lemma leaf_frame_limits [simp]: "leaf_frame t (s\<lparr>ctx := note_limits d (ctx s)\<rparr>) s' \<longleftrightarrow> leaf_frame t s s'"
  by (simp add: leaf_frame_def note_limits_def)

lemma colval_single:
  assumes "table_name c = t" "t \<noteq> ''''"
  shows "colval [t \<mapsto> stored_tuple \<sigma> t i] c = Some (val \<sigma> c ! i)"
  using assms by (simp add: colval_def resolveTableName_def stored_tuple_def val_def col_key_def)

lemma sat_node_expr: "sat_node eng d e = expr_holds eng (expression d) (map (colval e) (base_columns d))"
  by (simp add: sat_node_def expr_holds_def split: option.split)

text \<open>A FILTER node over one table selects the positions at which the predicate holds.\<close>

lemma filter_value:
  assumes "filters_table t d" "t \<noteq> ''''" "stored sz \<sigma> {t}" "base_columns d = c # cs"
    and "filter_runs eng \<sigma> nd out" "p_base_columns nd = c\<lparr>is_base := b\<rparr> # cs" "p_expression nd = expression d"
  shows "distinct (val \<sigma> out)" "set (val \<sigma> out) = {i \<in> {..<sz t}. sat_node eng d [t \<mapsto> stored_tuple \<sigma> t i]}"
proof -
  have tabs: "\<forall>x \<in> set (c # cs). table_name x = t" using assms(1,4) by (simp add: filters_table_def list_all_iff)
  have "length (val \<sigma> c) = sz t" using tabs assms(3) by (simp add: stored_def val_def col_key_def)
  moreover have "map (colval [t \<mapsto> stored_tuple \<sigma> t i]) (c # cs) = map (\<lambda>x. Some (val \<sigma> x ! i)) (c\<lparr>is_base := b\<rparr> # cs)" for i
    using tabs assms(2) by (simp add: colval_single)
  ultimately show "distinct (val \<sigma> out)" "set (val \<sigma> out) = {i \<in> {..<sz t}. sat_node eng d [t \<mapsto> stored_tuple \<sigma> t i]}"
    using assms(4-7) by (simp_all only: filter_runs_iff sat_node_expr list.sel val_is_base)
qed

text \<open>The FILTER node a single-table filter adds, and the state and result it continues with.\<close>

definition filter_step :: "LogicalNodeData \<Rightarrow> Column \<Rightarrow> Column list \<Rightarrow> TransformResult \<Rightarrow> opt_state \<Rightarrow> PhysicalPlanNode \<times> TransformResult \<times> opt_state" where
  "filter_step d c cs cr s =
     (let src = table_name c; out = mkColumn (ctx_table_name (ctx s)) (iname (draws s 0)) T_POSLIST None None;
          nd = (new_phys P_FILTER (draws s 0))\<lparr>p_base_columns := c\<lparr>is_base := Some True\<rparr> # cs,
            p_expression := expression d, result_columns := [out]\<rparr> in
      (nd,
       TransformResult_default\<lparr>physical_root := Some (length (heap s)), output_column := out, source_table := src,
         tables_involved := tables_involved cr \<union> (if src \<noteq> '''' then {src} else {}), result_type := X_POSLIST\<rparr>,
       s\<lparr>draws := (\<lambda>k. draws s (Suc k)),
         ctx := (ctx s)\<lparr>poslist_provenance := (poslist_provenance (ctx s))(iname (draws s 0) \<mapsto> src)\<rparr>, heap := heap s @ [nd]\<rparr>))"

lemma filter_step_facts:
  assumes "filter_step d c cs cr s = (nd, r, s')"
  shows "p_type nd = P_FILTER" "p_base_columns nd = c\<lparr>is_base := Some True\<rparr> # cs" "p_expression nd = expression d"
    "result_columns nd = [output_column r]" "physical_root r = Some (length (heap s))" "source_table r = table_name c"
    "tables_involved r = tables_involved cr \<union> (if table_name c \<noteq> '''' then {table_name c} else {})"
    "heap s' = heap s @ [nd]" "leaf_frame t s s'" "chain s' = chain s"
  using assms by (auto simp: filter_step_def Let_def leaf_frame_def)

lemma singleTableFilter_step:
  assumes "base_columns d = c # cs" "filter_step d c cs cr s = (nd, r, s1)"
  shows "singleTableFilter d cr s =
    bindP (root_is P_FILTER (physical_root cr)) (\<lambda>f.
      if f \<and> source_table cr = table_name c then createSetOperationNode [cr, r] R_INTERSECTION
      else bindP (set_filter (table_name c) (length (heap s)) (output_column r)) (\<lambda>_.
        bindP (push_chains {table_name c} (out_info r)) (\<lambda>_. retP r))) s1"
  using assms
  by (cases "source_table cr = table_name c"; cases "physical_root cr")
    (auto simp: singleTableFilter_def filter_step_def bindP_def icol_def set_provenance_def root_is_def out_info_def Let_def)

lemma createSetOperationNode_result:
  assumes "2 \<le> length rs" "source_table (hd rs) = t" "t \<noteq> ''''" "createSetOperationNode rs op s = Inr (r, s')"
  shows "leaf_frame t s s' \<and> chain s' t = [out_info r] \<and> source_table r = t \<and>
    tables_involved r = \<Union> (set (map tables_involved rs)) \<and> physical_root r = Some (length (heap s)) \<and>
    (\<exists>nd. heap s' = heap s @ [nd] \<and> p_type nd = P_SETOPERATION \<and> result_columns nd = [output_column r] \<and>
       p_base_columns nd = map output_column rs \<and> logical_rel_op (p_expression nd) = Some op)"
  using assms
  by (auto simp: createSetOperationNode_def bindP_def icol_def set_provenance_def set_filter_def
      Let_def leaf_frame_def out_info_def)

lemma transformNode_filter:
  assumes "filters_table t d"
  shows "transformNode (Some (LNode d [n])) s =
    bindP (transformNode n) (singleTableFilter d) (s\<lparr>ctx := note_limits d (ctx s)\<rparr>)"
proof -
  from assms obtain c cs where "base_columns d = c # cs" "\<forall>x \<in> set (c # cs). table_name x = t" "node_type d = L_FILTER"
    by (cases "base_columns d") (auto simp: filters_table_def list_all_iff)
  then show ?thesis by (cases cs) (simp_all add: bindP_def handleFilter_def)
qed

lemma filter_run:
  assumes "filters_table t d" "transformNode (Some (LNode d [n])) s = Inr (r, s')"
  obtains c cs cr s1 where "base_columns d = c # cs" "table_name c = t"
    "transformNode n (s\<lparr>ctx := note_limits d (ctx s)\<rparr>) = Inr (cr, s1)" "singleTableFilter d cr s1 = Inr (r, s')"
proof -
  obtain c cs where "base_columns d = c # cs" "table_name c = t"
    using assms(1) by (cases "base_columns d") (auto simp: filters_table_def)
  moreover obtain cr s1 where "transformNode n (s\<lparr>ctx := note_limits d (ctx s)\<rparr>) = Inr (cr, s1)" "singleTableFilter d cr s1 = Inr (r, s')"
    using assms(2) unfolding transformNode_filter [OF assms(1)] bindP_Inr by blast
  ultimately show ?thesis by (rule that)
qed

lemma scan_result:
  assumes "is_scan t n" "transformNode n s = Inr (r, s')"
  shows "physical_root r = None" "tables_involved r = {t}" "leaf_frame t s s'" "chain s' = chain s" "heap s' = heap s"
  using assms
  by (auto simp: is_scan_def bindP_def handleScan_def TransformResult_default_def note_limits_def leaf_frame_def
      split: option.splits LogicalPlanNode.splits)

lemma single_correct:
  assumes n: "is_scan t n" and d: "filters_table t d" and run: "transformNode (Some (LNode d [n])) s = Inr (r, s')"
    and ev: "runs eng \<sigma> (heap s')" and t: "t \<noteq> ''''" "stored sz \<sigma> {t}"
  shows "leaf_frame t s s' \<and> leaf_result eng \<sigma> sz t P_FILTER (Some (LNode d [n])) r s' \<and> chain s' t = chain s t @ [out_info r]"
proof -
  let ?s0 = "s\<lparr>ctx := note_limits d (ctx s)\<rparr>"
  obtain c cs cr s1 where c: "base_columns d = c # cs" "table_name c = t" and 1: "transformNode n ?s0 = Inr (cr, s1)"
    and 2: "singleTableFilter d cr s1 = Inr (r, s')" using filter_run [OF d run] .
  note scan = scan_result [OF n 1]
  obtain nd r' s2 where st: "filter_step d c cs cr s1 = (nd, r', s2)" by (metis prod_cases3)
  note f = filter_step_facts [OF st]
  have r: "r' = r" and s': "heap s' = heap s1 @ [nd]" "leaf_frame t s2 s'" "chain s' t = chain s2 t @ [out_info r]"
    using 2 c scan f by (auto simp: singleTableFilter_step [OF c(1) st] bindP_def root_is_def set_filter_def push_chains_def leaf_frame_def)
  have "node_runs eng \<sigma> nd" using ev s'(1) by simp
  then have run: "filter_runs eng \<sigma> nd (output_column r)" using f(1,4) r by (simp add: node_runs_def)
  have "set (val \<sigma> (output_column r)) = chosen eng \<sigma> sz t (Some (LNode d [n]))" "distinct (val \<sigma> (output_column r))"
    using filter_value [OF d t c(1) run f(2,3)] d chosen_scan [OF n] by (auto simp: chosen_filter filters_table_def)
  then have "leaf_result eng \<sigma> sz t P_FILTER (Some (LNode d [n])) r s'"
    using f s' r c(2) t(1) scan(2) by (auto simp: leaf_result_def)
  moreover have "leaf_frame t s s'" using scan(3) f(9) s'(2) leaf_frame_trans by simp blast
  moreover have "chain s t = chain s2 t" using f(10) scan(4) by (simp add: note_limits_def)
  ultimately show ?thesis using s'(3) by simp
qed

lemma setop_correct:
  assumes "2 \<le> length rs" "source_table (hd rs) = t" "t \<noteq> ''''" "\<forall>r \<in> set rs. tables_involved r = {t}"
    and "createSetOperationNode rs op s = Inr (r, s')" "runs eng \<sigma> (heap s')"
    and "setop_runs \<sigma> (heap s' ! length (heap s)) (output_column r) \<Longrightarrow>
      p_base_columns (heap s' ! length (heap s)) = map output_column rs \<Longrightarrow>
      logical_rel_op (p_expression (heap s' ! length (heap s))) = Some op \<Longrightarrow>
      distinct (val \<sigma> (output_column r)) \<and> set (val \<sigma> (output_column r)) = chosen eng \<sigma> sz t n"
  shows "leaf_frame t s s' \<and> leaf_result eng \<sigma> sz t P_SETOPERATION n r s' \<and> chain s' t = [out_info r]"
proof -
  note res = createSetOperationNode_result [OF assms(1-3,5)]
  then obtain nd where nd: "heap s' = heap s @ [nd]" "p_type nd = P_SETOPERATION" "result_columns nd = [output_column r]"
    "p_base_columns nd = map output_column rs" "logical_rel_op (p_expression nd) = Some op" by blast
  have "setop_runs \<sigma> nd (output_column r)" using assms(6) nd by (simp add: node_runs_def)
  then have "distinct (val \<sigma> (output_column r)) \<and> set (val \<sigma> (output_column r)) = chosen eng \<sigma> sz t n"
    using assms(7) nd by simp
  moreover have "tables_involved r = {t}" using res assms(1,4) by (cases rs) auto
  ultimately show ?thesis using res nd by (simp add: leaf_result_def)
qed

lemma mapP_leaf:
  assumes "\<forall>n \<in> set ch. extends (transformNode n) \<and> (\<forall>s r s'. transformNode n s = Inr (r, s') \<longrightarrow> runs eng \<sigma> (heap s') \<longrightarrow>
      leaf_frame t s s' \<and> (\<exists>ty. leaf_result eng \<sigma> sz t ty n r s'))"
    and "mapP transformNode ch s = Inr (rs, s')" "runs eng \<sigma> (heap s')"
  shows "leaf_frame t s s' \<and> list_all2 (\<lambda>n r. source_table r = t \<and> tables_involved r = {t} \<and>
    set (val \<sigma> (output_column r)) = chosen eng \<sigma> sz t n) ch rs"
  using assms
proof (induction ch arbitrary: s rs)
  case (Cons n ch)
  then obtain r s1 rs' where run: "transformNode n s = Inr (r, s1)" "mapP transformNode ch s1 = Inr (rs', s')" "rs = r # rs'"
    by (auto simp: bindP_Inr)
  have "extends (mapP transformNode ch)" using Cons.prems(1) by (intro extends_mapP) auto
  then have "runs eng \<sigma> (heap s1)" using extends_run [of "mapP transformNode ch"] run(2) Cons.prems(3) by fastforce
  then have "leaf_frame t s s1" "\<exists>ty. leaf_result eng \<sigma> sz t ty n r s1" using Cons.prems(1) run(1) by auto
  moreover have "leaf_frame t s1 s' \<and> list_all2 (\<lambda>n r. source_table r = t \<and> tables_involved r = {t} \<and>
      set (val \<sigma> (output_column r)) = chosen eng \<sigma> sz t n) ch rs'"
    using Cons.IH [OF _ run(2) Cons.prems(3)] Cons.prems(1) by simp
  ultimately show ?case using run(3) leaf_frame_trans by (auto simp: leaf_result_def)
qed simp

theorem selection_correct:
  assumes "selection t b n" "transformNode n s = Inr (r, s')" "runs eng \<sigma> (heap s')" "t \<noteq> ''''" "stored sz \<sigma> {t}"
  shows "leaf_frame t s s' \<and> leaf_result eng \<sigma> sz t (if b then P_FILTER else P_SETOPERATION) n r s' \<and>
    chain s' t = (if b then chain s t else []) @ [out_info r]"
  using assms
proof (induction arbitrary: s r s' rule: selection.induct)
  case (single n d)
  from single_correct [OF single.hyps single.prems] show ?case by simp
next
  case (stacked n d)
  let ?s0 = "s\<lparr>ctx := note_limits d (ctx s)\<rparr>"
  obtain c cs cr s1 where c: "base_columns d = c # cs" "table_name c = t" and 1: "transformNode n ?s0 = Inr (cr, s1)"
    and 2: "singleTableFilter d cr s1 = Inr (r, s')" using filter_run [OF stacked.hyps(2) stacked.prems(1)] .
  have "runs eng \<sigma> (heap s1)" using extends_run [OF extends_filter 2] c(1) stacked.prems(2) by auto
  from stacked.IH [OF 1 this stacked.prems(3,4)] have
    cr: "leaf_frame t s s1" "leaf_result eng \<sigma> sz t P_FILTER n cr s1" by simp_all
  obtain nd r1 s2 where st: "filter_step d c cs cr s1 = (nd, r1, s2)" by (metis prod_cases3)
  note f = filter_step_facts [OF st]
  have so: "createSetOperationNode [cr, r1] R_INTERSECTION s2 = Inr (r, s')"
    using 2 cr(2) f(8) c(2) by (auto simp: singleTableFilter_step [OF c(1) st] bindP_def root_is_def leaf_result_def nth_append)
  have "\<exists>h. heap s' = heap s2 @ h" using extends_run [OF extends_setop so] by simp
  then have "node_runs eng \<sigma> nd" using stacked.prems(2) f(8) by auto
  then have run: "filter_runs eng \<sigma> nd (output_column r1)" using f(1,4) by (simp add: node_runs_def)
  have "set (val \<sigma> (output_column cr)) \<inter> set (val \<sigma> (output_column r1)) = chosen eng \<sigma> sz t (Some (LNode d [n]))"
    using filter_value [OF stacked.hyps(2) stacked.prems(3,4) c(1) run f(2,3)] stacked.hyps(2) cr(2)
    by (auto simp: chosen_filter filters_table_def leaf_result_def chosen_def)
  then have "leaf_frame t s2 s' \<and> leaf_result eng \<sigma> sz t P_SETOPERATION (Some (LNode d [n])) r s' \<and> chain s' t = [out_info r]"
    using cr(2) f(7) c(2) stacked.prems(2,3)
    by (intro setop_correct [OF _ _ _ _ so]) (auto simp: leaf_result_def setop_runs_def)
  then show ?case using cr(1) f(9) leaf_frame_trans by simp blast
next
  case (union d ch)
  let ?s0 = "s\<lparr>ctx := note_limits d (ctx s)\<rparr>"
  from union obtain rs s1 where 1: "mapP transformNode ch ?s0 = Inr (rs, s1)" and 2: "createSetOperationNode rs R_UNION s1 = Inr (r, s')"
    by (auto simp: is_union_def handleSetOperation_def bindP_Inr split: if_splits)
  have len: "length rs = length ch" using length_mapP [OF 1] .
  have "runs eng \<sigma> (heap s1)" using extends_run [OF extends_setop 2] len union.hyps(2) union.prems(2) by auto
  moreover have "\<forall>n \<in> set ch. extends (transformNode n) \<and> (\<forall>s r s'. transformNode n s = Inr (r, s') \<longrightarrow> runs eng \<sigma> (heap s') \<longrightarrow>
      leaf_frame t s s' \<and> (\<exists>ty. leaf_result eng \<sigma> sz t ty n r s'))"
    using union.IH union.prems(3,4) extends_selection by blast
  ultimately have rs: "leaf_frame t s s1" "list_all2 (\<lambda>n r. source_table r = t \<and> tables_involved r = {t} \<and>
      set (val \<sigma> (output_column r)) = chosen eng \<sigma> sz t n) ch rs"
    using mapP_leaf [OF _ 1, of eng \<sigma> t sz] by simp_all
  have src: "\<forall>r \<in> set rs. source_table r = t \<and> tables_involved r = {t}"
    using rs(2) by (auto simp: list_all2_conv_all_nth in_set_conv_nth)
  have "rs \<noteq> []" using len union.hyps(2) by auto
  then have hd: "source_table (hd rs) = t" using src hd_in_set by blast
  have "(\<Union>r \<in> set rs. set (val \<sigma> (output_column r))) = (\<Union>n \<in> set ch. chosen eng \<sigma> sz t n)"
    using rs(2) by (induction rule: list_all2_induct) auto
  then have "leaf_frame t s1 s' \<and> leaf_result eng \<sigma> sz t P_SETOPERATION (Some (LNode d ch)) r s' \<and> chain s' t = [out_info r]"
    using len union.hyps(1,2) union.prems(2,3) src hd
    by (intro setop_correct [OF _ _ _ _ 2]) (auto simp: setop_runs_def chosen_union)
  then show ?case using rs(1) leaf_frame_trans [of t s s1 s'] by simp
qed

section \<open>Joins and filters over two tables\<close>

lemma hashjoin_swap: "hashjoin_runs \<sigma> x y i out \<longleftrightarrow> hashjoin_runs \<sigma> y x out i"
proof -
  have "hashjoin_runs \<sigma> y x out i" if run: "hashjoin_runs \<sigma> x y i out" for x y i out
  proof -
    have z: "zip (val \<sigma> out) (val \<sigma> i) = map prod.swap (zip (val \<sigma> i) (val \<sigma> out))"
      by (subst zip_commute) (simp add: case_prod_unfold prod.swap_def)
    have "distinct (zip (val \<sigma> out) (val \<sigma> i))" using run by (simp add: z hashjoin_runs_iff distinct_map)
    moreover have "set (zip (val \<sigma> out) (val \<sigma> i)) =
        prod.swap ` {(a, b) \<in> {..<length (val \<sigma> x)} \<times> {..<length (val \<sigma> y)}. val \<sigma> x ! a = val \<sigma> y ! b}"
      using run by (simp only: z set_map hashjoin_runs_iff)
    moreover have "\<dots> = {(b, a) \<in> {..<length (val \<sigma> y)} \<times> {..<length (val \<sigma> x)}. val \<sigma> y ! b = val \<sigma> x ! a}"
      by (auto simp: image_iff)
    ultimately show ?thesis using run by (simp add: hashjoin_runs_iff)
  qed
  then show ?thesis by blast
qed

text \<open>After a HASHJOIN the chains of the left tables end with one of its outputs, those of the right tables with the other.\<close>

lemma createHashJoin_run:
  assumes "createHashJoin d lc rc lr rr s = Inr (r, s')" "tables_involved lr \<inter> tables_involved rr = {}"
  obtains lm c1 s1 rm c2 s2 nd lcol rcol where
    "ensureMaterialized lc s = Inr ((lm, c1), s1)" "ensureMaterialized rc s1 = Inr ((rm, c2), s2)"
    "heap s' = heap s2 @ [nd]" "p_type nd = P_HASHJOIN"
    "node_runs eng \<sigma> nd \<Longrightarrow> hashjoin_runs \<sigma> (mat_col lm) (mat_col rm) lcol rcol"
    "materialized_columns (ctx s') = materialized_columns (ctx s2)" "optimize_chains (ctx s') = optimize_chains (ctx s2)"
    "intermediate_results (ctx s') = intermediate_results (ctx s2)"
    "\<And>t. chain s' t = chain s2 t @
       (if t \<in> tables_involved lr then [\<lparr>poslist_col = lcol, pos_producer = Some (length (heap s2))\<rparr>]
        else if t \<in> tables_involved rr then [\<lparr>poslist_col = rcol, pos_producer = Some (length (heap s2))\<rparr>] else [])"
    "tables_involved r = tables_involved lr \<union> tables_involved rr"
proof -
  obtain lm c1 s1 rm c2 s2 where mats: "ensureMaterialized lc s = Inr ((lm, c1), s1)" "ensureMaterialized rc s1 = Inr ((rm, c2), s2)"
    using assms(1) by (auto simp: createHashJoin_def bindP_Inr)
  show thesis
  proof (cases "getCardinality (table_name lc) > getCardinality (table_name rc)")
    case True
    show thesis
      by (rule that [OF mats, of _ "mkColumn (ctx_table_name (ctx s2)) (iname (draws s2 0) @ ''_o'') T_POSLIST None None"
            "mkColumn (ctx_table_name (ctx s2)) (iname (draws s2 0) @ ''_i'') T_POSLIST None None"])
        (use assms mats True in \<open>auto simp: createHashJoin_def bindP_def icol_def set_provenance_def push_chains_def Let_def
            node_runs_def hashjoin_swap [of \<sigma> "mat_col lm"]\<close>)
  next
    case False
    show thesis
      by (rule that [OF mats, of _ "mkColumn (ctx_table_name (ctx s2)) (iname (draws s2 0) @ ''_i'') T_POSLIST None None"
            "mkColumn (ctx_table_name (ctx s2)) (iname (draws s2 0) @ ''_o'') T_POSLIST None None"])
        (use assms mats False in \<open>auto simp: createHashJoin_def bindP_def icol_def set_provenance_def push_chains_def Let_def
            node_runs_def\<close>)
  qed
qed

lemma handleCrossTableFilter_run:
  assumes "handleCrossTableFilter d lc rc cr src s = Inr (r, s')"
  obtains lm c1 s1 rm c2 s2 nd where
    "ensureMaterialized lc s = Inr ((lm, c1), s1)" "ensureMaterialized rc s1 = Inr ((rm, c2), s2)"
    "heap s' = heap s2 @ [nd]" "p_type nd = P_FILTER" "p_base_columns nd = [mat_col lm, mat_col rm]"
    "p_expression nd = expression d" "result_columns nd = [output_column r]"
    "materialized_columns (ctx s') \<subseteq>\<^sub>m materialized_columns (ctx s2)" "optimize_chains (ctx s') = optimize_chains (ctx s2)"
    "intermediate_results (ctx s') = intermediate_results (ctx s2)"
    "\<And>t. chain s' t = chain s2 t @
       (if t \<in> tables_involved cr then [\<lparr>poslist_col = output_column r, pos_producer = Some (length (heap s2))\<rparr>] else [])"
    "tables_involved r = tables_involved cr \<union> {table_name lc, table_name rc}"
proof -
  obtain lm c1 s1 rm c2 s2 where mats: "ensureMaterialized lc s = Inr ((lm, c1), s1)" "ensureMaterialized rc s1 = Inr ((rm, c2), s2)"
    using assms by (auto simp: handleCrossTableFilter_def bindP_Inr)
  show thesis
    by (rule that [OF mats])
      (use assms mats in \<open>auto simp: handleCrossTableFilter_def bindP_def icol_def set_provenance_def push_chains_def invalidate_def
         map_le_def split: if_splits\<close>)
qed

end
