(* ===== verification/PhysicalSemantics.thy ===== *)
theory PhysicalSemantics
  imports HandlerRuns
begin

text \<open>
  What the physical plan of an input tree computes: in every environment that satisfies the engine's
  promises for the nodes the optimizer has built, the chains of position lists it keeps enumerate exactly
  the rows of the logical tree, and the columns of the RESULT node hold their projected values.

  The handlers use \<open>ensureMaterialized\<close> only through the contract of the locale \<open>materializer\<close>, so that the
  proof is done once for the chained and the optimized variant.
\<close>

section \<open>Helpers\<close>

lemma enumerates_cong: "(\<And>t. t \<in> T \<Longrightarrow> ps t = qs t) \<Longrightarrow> enumerates ps T V = enumerates qs T V"
proof -
  assume eq: "\<And>t. t \<in> T \<Longrightarrow> ps t = qs t"
  then have "vector ps T = vector qs T" by (auto simp: vector_def fun_eq_iff)
  then show ?thesis using eq by (simp add: enumerates_def)
qed

lemma enumerates_length: "enumerates ps T V \<Longrightarrow> t \<in> T \<Longrightarrow> u \<in> T \<Longrightarrow> length (ps t) = length (ps u)"
  by (auto simp: enumerates_def)

lemma selection_wf: "selection t b n \<Longrightarrow> wf_input n \<and> tables n = {t} \<and> t \<noteq> ''''"
proof (induction rule: selection.induct)
  case (union d ch)
  then have ch: "\<forall>c \<in> set ch. wf_input c \<and> tables c = {t} \<and> t \<noteq> ''''" by blast
  moreover have "ch \<noteq> []" using union.hyps(2) by auto
  ultimately show ?case using union.hyps(1) tables_union [of d ch "{t}"] by (auto simp: neq_Nil_conv)
qed (auto simp: is_scan_def filters_table_def split: option.splits LogicalPlanNode.splits)

lemma supported_wf: "supported k n \<Longrightarrow> wf_input n \<and> 0 < k"
proof (induction rule: supported.induct)
  case (leaf t b n)
  then show ?case using selection_wf by blast
qed (auto simp: is_scan_def equi_join_def split: option.splits LogicalPlanNode.splits)

lemma stored_column: "stored sz \<sigma> T \<Longrightarrow> table_name c \<in> T \<Longrightarrow> base_column sz \<sigma> c"
  by (simp add: stored_def base_column_def val_def col_key_def)

lemma stored_mono: "stored sz \<sigma> T \<Longrightarrow> U \<subseteq> T \<Longrightarrow> stored sz \<sigma> U"
  by (auto simp: stored_def)

text \<open>The value a row has in a column, read at the positions of a vector.\<close>

lemma colval_vector:
  assumes "table_name c \<in> T" "table_name c \<noteq> ''''"
  shows "colval (row_of \<sigma> (vector ps T k)) c = Some (val \<sigma> c ! (ps (table_name c) ! k))"
  using assms by (simp add: colval_def resolveTableName_def row_of_def vector_def stored_tuple_def val_def col_key_def)

lemma colval_vector_add:
  assumes "L \<inter> R = {}" "table_name c \<noteq> ''''"
  shows "table_name c \<in> L \<Longrightarrow> colval (row_of \<sigma> (vector ps L a ++ vector ps R b)) c = Some (val \<sigma> c ! (ps (table_name c) ! a))"
    and "table_name c \<in> R \<Longrightarrow> colval (row_of \<sigma> (vector ps L a ++ vector ps R b)) c = Some (val \<sigma> c ! (ps (table_name c) ! b))"
proof -
  have "table_name c \<in> L \<Longrightarrow> table_name c \<notin> R" using assms(1) by blast
  then show "table_name c \<in> L \<Longrightarrow> colval (row_of \<sigma> (vector ps L a ++ vector ps R b)) c = Some (val \<sigma> c ! (ps (table_name c) ! a))"
    "table_name c \<in> R \<Longrightarrow> colval (row_of \<sigma> (vector ps L a ++ vector ps R b)) c = Some (val \<sigma> c ! (ps (table_name c) ! b))"
    using assms(2)
    by (simp_all add: colval_def resolveTableName_def row_of_def vector_def stored_tuple_def val_def col_key_def map_add_def)
qed

lemma kept_trans: "kept sz \<sigma> s s1 \<Longrightarrow> kept sz \<sigma> s1 s2 \<Longrightarrow> kept sz \<sigma> s s2"
  by (auto simp: kept_def)

lemma positions_limits [simp]:
  "table_positions sz \<sigma> (s\<lparr>ctx := note_limits d (ctx s)\<rparr>) = table_positions sz \<sigma> s"
  "table_poslist_chain (note_limits d c) = table_poslist_chain c"
  "intermediate_results (note_limits d c) = intermediate_results c"
  by (simp_all add: table_positions_def chain_positions_def note_limits_def fun_eq_iff split: list.split)

text \<open>The tables outside a set keep their positions and their chains, those inside have short ones.\<close>

definition changes_only :: "(string \<Rightarrow> nat) \<Rightarrow> MaterializationSemantics.env \<Rightarrow> string set \<Rightarrow> opt_state \<Rightarrow> opt_state \<Rightarrow> bool" where
  "changes_only sz \<sigma> T s s' \<longleftrightarrow> intermediate_results (ctx s') = intermediate_results (ctx s) \<and>
     (\<forall>t. t \<notin> T \<longrightarrow> table_positions sz \<sigma> s' t = table_positions sz \<sigma> s t \<and> length (chain s' t) = length (chain s t))"

lemma changes_only_trans:
  "changes_only sz \<sigma> T s s1 \<Longrightarrow> changes_only sz \<sigma> U s1 s2 \<Longrightarrow> changes_only sz \<sigma> (T \<union> U) s s2"
  by (auto simp: changes_only_def)

lemma kept_changes_only: "kept sz \<sigma> s s' \<Longrightarrow> changes_only sz \<sigma> T s s'"
  by (auto simp: kept_def changes_only_def)

lemma extends_project [extends_intros]: "extends (project_column c)"
  by (auto simp: project_column_def Let_def intro!: extends_intros split: prod.split)

lemma project_run:
  assumes "project_column c s = Inr (i, s')"
  shows "\<exists>info c'. ensureMaterialized c s = Inr ((info, c'), s') \<and> val \<sigma> (mat_col i) = val \<sigma> (mat_col info)"
  using assms by (auto simp: project_column_def bindP_Inr Let_def val_def col_key_def split: option.split)

text \<open>A PROJECTION at the root ends with the RESULT node over the materialized columns.\<close>

lemma projection_run:
  assumes "node_type d = L_PROJECTION" "projected_columns d \<noteq> []" "build_plan (Some (LNode d [n])) s = Inr (p, s')"
  shows "\<exists>r s1 infos s2 nd. transformNode n (s\<lparr>ctx := note_limits d (ctx s)\<rparr>) = Inr (r, s1) \<and>
    mapP project_column (projected_columns d) s1 = Inr (infos, s2) \<and> p = Some (length (heap s2)) \<and>
    heap s' = heap s2 @ [nd] \<and> p_type nd = P_RESULT \<and> result_columns nd = map mat_col infos"
proof -
  obtain r s1 infos s2 where runs: "transformNode n (s\<lparr>ctx := note_limits d (ctx s)\<rparr>) = Inr (r, s1)"
    "mapP project_column (projected_columns d) s1 = Inr (infos, s2)"
    using assms(1,3) by (auto simp: build_plan_def handleProjection_def bindP_Inr)
  have "infos \<noteq> []" using length_mapP [OF runs(2)] assms(2) by auto
  then show ?thesis using runs assms(1,3)
    by (auto simp: build_plan_def handleProjection_def buildResultNode_def root_is_def bindP_def Let_def)
qed

text \<open>
  The columns of the result, row by row: each selected position vector once, and for each projected column
  the value the logical row has there.
\<close>

definition answers ::
  "nat engine \<Rightarrow> (string \<Rightarrow> nat) \<Rightarrow> MaterializationSemantics.env \<Rightarrow> LogicalPlanNode option \<Rightarrow> Column list \<Rightarrow> Column list \<Rightarrow> bool" where
  "answers eng sz \<sigma> n cols out \<longleftrightarrow>
     (\<exists>N v. bij_betw v {..<N} (matches eng \<sigma> sz n) \<and>
        list_all2 (\<lambda>c r. map Some (val \<sigma> r) = map (\<lambda>k. colval (row_of \<sigma> (v k)) c) [0..<N]) cols out)"

lemma answersI:
  assumes "enumerates ps (tables n) (matches eng \<sigma> sz n)" "'''' \<notin> tables n" "\<forall>c \<in> set cols. table_name c \<in> tables n"
    and "list_all2 (\<lambda>c i. val \<sigma> (mat_col i) = gather (val \<sigma> c) (ps (table_name c))) cols infos"
  shows "answers eng sz \<sigma> n cols (map mat_col infos)"
proof -
  obtain N where N: "\<forall>t \<in> tables n. length (ps t) = N" "bij_betw (vector ps (tables n)) {..<N} (matches eng \<sigma> sz n)"
    using assms(1) by (auto simp: enumerates_def)
  have "map Some (gather (val \<sigma> c) (ps (table_name c))) = map (\<lambda>k. colval (row_of \<sigma> (vector ps (tables n) k)) c) [0..<N]"
    if "table_name c \<in> tables n" for c
  proof -
    have "table_name c \<noteq> ''''" using that assms(2) by metis
    then show ?thesis using that N(1) by (intro nth_equalityI) (simp_all add: gather_def colval_vector)
  qed
  then have "list_all2 (\<lambda>c r. map Some (val \<sigma> r) = map (\<lambda>k. colval (row_of \<sigma> (vector ps (tables n) k)) c) [0..<N]) cols (map mat_col infos)"
    using assms(3,4) by (simp add: list_all2_conv_all_nth)
  then show ?thesis using N(2) unfolding answers_def by blast
qed

text \<open>The chains left by transforming a tree enumerate the rows of the tree.\<close>

definition denotes ::
  "nat engine \<Rightarrow> (string \<Rightarrow> nat) \<Rightarrow> MaterializationSemantics.env \<Rightarrow> nat \<Rightarrow> LogicalPlanNode option \<Rightarrow> opt_state \<Rightarrow> TransformResult \<Rightarrow> opt_state \<Rightarrow> bool" where
  "denotes eng sz \<sigma> k n s r s' \<longleftrightarrow> tables_involved r = tables n \<and> changes_only sz \<sigma> (tables n) s s' \<and>
     (\<forall>t \<in> tables n. length (chain s' t) \<le> k) \<and> enumerates (table_positions sz \<sigma> s') (tables n) (matches eng \<sigma> sz n)"

context materializer
begin

lemma ok_limits:
  assumes "ok sz \<sigma> s"
  shows "ok sz \<sigma> (s\<lparr>ctx := note_limits d (ctx s)\<rparr>)"
  by (rule ok_grown [OF assms]) (use ok_chains [OF assms] in \<open>simp add: grown_def note_limits_def\<close>)

lemma ok_ensure_pair:
  assumes "ok sz \<sigma> s" "intermediate_results (ctx s) = Map.empty" "base_column sz \<sigma> a" "base_column sz \<sigma> b"
    and "ensureMaterialized a s = Inr ((ai, a'), s1)" "ensureMaterialized b s1 = Inr ((bi, b'), s2)" "evaluates \<sigma> (heap s2)"
  shows "ok sz \<sigma> s2 \<and> kept sz \<sigma> s s2 \<and> val \<sigma> (mat_col ai) = gather (val \<sigma> a) (table_positions sz \<sigma> s (table_name a)) \<and>
    val \<sigma> (mat_col bi) = gather (val \<sigma> b) (table_positions sz \<sigma> s (table_name b))"
proof -
  have "evaluates \<sigma> (heap s1)" using extends_run [OF extends_ensure assms(6)] assms(7) by auto
  from ok_ensure [OF assms(1-3,5) this] have 1: "ok sz \<sigma> s1" "kept sz \<sigma> s s1"
    "val \<sigma> (mat_col ai) = gather (val \<sigma> a) (table_positions sz \<sigma> s (table_name a))" by blast+
  then have "intermediate_results (ctx s1) = Map.empty" using assms(2) by (simp add: kept_def)
  from ok_ensure [OF 1(1) this assms(4,6,7)] 1 show ?thesis by (auto intro: kept_trans simp: kept_def)
qed

text \<open>A handler ends by storing one node and appending its output, or outputs, to the chains of some tables.\<close>

lemma ok_append:
  assumes ok: "ok sz \<sigma> s" and nd: "heap s' = heap s @ [nd]" "p_type nd \<in> {P_HASHJOIN, P_FILTER}"
    and ctx: "materialized_columns (ctx s') \<subseteq>\<^sub>m materialized_columns (ctx s)" "optimize_chains (ctx s') = optimize_chains (ctx s)"
    and ch: "\<And>t. chain s' t = chain s t @
      (case q t of None \<Rightarrow> [] | Some c \<Rightarrow> [\<lparr>poslist_col = c, pos_producer = Some (length (heap s))\<rparr>])"
    and range: "\<And>t c i. q t = Some c \<Longrightarrow> i \<in> set (val \<sigma> c) \<Longrightarrow> i < length (table_positions sz \<sigma> s t)"
    and short: "\<And>t. length (chain s t) < 2 ^ 31 - 1"
  shows "ok sz \<sigma> s'"
    and "table_positions sz \<sigma> s' t =
      (case q t of None \<Rightarrow> table_positions sz \<sigma> s t | Some c \<Rightarrow> gather (table_positions sz \<sigma> s t) (val \<sigma> c))"
proof -
  have app: "appended sz \<sigma> s s' t \<lparr>poslist_col = c, pos_producer = Some (length (heap s))\<rparr>" if "q t = Some c" for t c
    using that ch [of t] range [OF that] nd by (auto simp: appended_def relative_def)
  have "length (chain s' t) < 2 ^ 31" for t using ch [of t] short [of t] by (auto split: option.split)
  moreover have "chain s' t = chain s t \<or> (\<exists>p. appended sz \<sigma> s s' t p)" for t
    using app [of t] ch [of t] by (cases "q t") auto
  ultimately have "grown sz \<sigma> s s'" using nd(1) ctx by (auto simp: grown_def)
  then show "ok sz \<sigma> s'" using ok by (rule ok_grown [rotated])
  have ok2: "chains_ok s" using ok_chains ok by blast
  show "table_positions sz \<sigma> s' t =
      (case q t of None \<Rightarrow> table_positions sz \<sigma> s t | Some c \<Rightarrow> gather (table_positions sz \<sigma> s t) (val \<sigma> c))"
  proof (cases "q t")
    case None
    then show ?thesis using table_positions_same [OF ok2 nd(1), of t] ch [of t] by simp
  next
    case (Some c)
    then show ?thesis using table_positions_appended [OF ok2 nd(1) app [OF Some]] by simp
  qed
qed

text \<open>
  The position lists a HASHJOIN adds: pairs of indexes into the positions of its two sides at which the
  keys are equal.
\<close>

lemma hashjoin_correct:
  assumes ok: "ok sz \<sigma> s" "intermediate_results (ctx s) = Map.empty"
    and cols: "base_column sz \<sigma> lc" "base_column sz \<sigma> rc" "table_name lc \<in> L" "table_name rc \<in> R"
    and tabs: "tables_involved lr = L" "tables_involved rr = R" "L \<inter> R = {}" and P: "P = table_positions sz \<sigma> s"
    and len: "\<forall>t \<in> L. length (P t) = length (P (table_name lc))" "\<forall>t \<in> R. length (P t) = length (P (table_name rc))"
    and short: "\<forall>t. length (chain s t) < 2 ^ 31 - 1"
    and run: "createHashJoin d lc rc lr rr s = Inr (r, s')" and ev: "runs eng \<sigma> (heap s')"
  obtains il jl where "length il = length jl" "distinct (zip il jl)"
    "set (zip il jl) = {(a, b) \<in> {..<length (P (table_name lc))} \<times> {..<length (P (table_name rc))}.
       val \<sigma> lc ! (P (table_name lc) ! a) = val \<sigma> rc ! (P (table_name rc) ! b)}"
    "\<forall>t \<in> L. table_positions sz \<sigma> s' t = gather (P t) il" "\<forall>t \<in> R. table_positions sz \<sigma> s' t = gather (P t) jl"
    "ok sz \<sigma> s'" "changes_only sz \<sigma> (L \<union> R) s s'" "tables_involved r = L \<union> R"
    "\<forall>t. length (chain s' t) \<le> Suc (length (chain s t))"
proof -
  have dis: "tables_involved lr \<inter> tables_involved rr = {}" using tabs by simp
  obtain lm c1 s1 rm c2 s2 nd lcol rcol where
    mats: "ensureMaterialized lc s = Inr ((lm, c1), s1)" "ensureMaterialized rc s1 = Inr ((rm, c2), s2)"
    and nd: "heap s' = heap s2 @ [nd]" "p_type nd = P_HASHJOIN"
      "node_runs eng \<sigma> nd \<Longrightarrow> hashjoin_runs \<sigma> (mat_col lm) (mat_col rm) lcol rcol"
    and ctx: "materialized_columns (ctx s') = materialized_columns (ctx s2)" "optimize_chains (ctx s') = optimize_chains (ctx s2)"
      "intermediate_results (ctx s') = intermediate_results (ctx s2)"
    and ch: "\<And>t. chain s' t = chain s2 t @
       (if t \<in> tables_involved lr then [\<lparr>poslist_col = lcol, pos_producer = Some (length (heap s2))\<rparr>]
        else if t \<in> tables_involved rr then [\<lparr>poslist_col = rcol, pos_producer = Some (length (heap s2))\<rparr>] else [])"
    and r: "tables_involved r = tables_involved lr \<union> tables_involved rr"
    using createHashJoin_run [OF run dis, of eng \<sigma>] by metis
  have ev2: "evaluates \<sigma> (heap s2)" using ev nd(1) runs_evaluates [of eng] by simp
  note two = ok_ensure_pair [OF ok cols(1,2) mats ev2]
  have hj: "hashjoin_runs \<sigma> (mat_col lm) (mat_col rm) lcol rcol" using nd ev by simp
  have kept: "kept sz \<sigma> s s2" and P2: "\<And>t. table_positions sz \<sigma> s2 t = P t" using two by (simp_all add: kept_def P)
  have pairs: "set (zip (val \<sigma> lcol) (val \<sigma> rcol)) = {(a, b) \<in> {..<length (P (table_name lc))} \<times> {..<length (P (table_name rc))}.
      val \<sigma> lc ! (P (table_name lc) ! a) = val \<sigma> rc ! (P (table_name rc) ! b)}"
    using hj two by (auto simp: hashjoin_runs_iff gather_def P)
  have eql: "length (val \<sigma> lcol) = length (val \<sigma> rcol)" using hj by (simp add: hashjoin_runs_iff)
  have "fst ` set (zip (val \<sigma> lcol) (val \<sigma> rcol)) = set (val \<sigma> lcol)" "snd ` set (zip (val \<sigma> lcol) (val \<sigma> rcol)) = set (val \<sigma> rcol)"
    using eql by (metis list.set_map map_fst_zip, metis list.set_map map_snd_zip)
  then have range: "\<And>i. i \<in> set (val \<sigma> lcol) \<Longrightarrow> i < length (P (table_name lc))" "\<And>i. i \<in> set (val \<sigma> rcol) \<Longrightarrow> i < length (P (table_name rc))"
    using pairs by force+
  let ?q = "\<lambda>t. if t \<in> L then Some lcol else if t \<in> R then Some rcol else None"
  have ch': "chain s' t = chain s2 t @
      (case ?q t of None \<Rightarrow> [] | Some c \<Rightarrow> [\<lparr>poslist_col = c, pos_producer = Some (length (heap s2))\<rparr>])" for t
    using ch [of t] tabs by simp
  have bound: "i < length (table_positions sz \<sigma> s2 t)" if "?q t = Some c" "i \<in> set (val \<sigma> c)" for t c i
    using that range len P2 by (auto split: if_splits)
  note fin = ok_append [OF _ nd(1) _ _ ctx(2) ch' bound, unfolded P2]
  have app: "ok sz \<sigma> s'" "\<And>t. table_positions sz \<sigma> s' t = (case ?q t of None \<Rightarrow> P t | Some c \<Rightarrow> gather (P t) (val \<sigma> c))"
    using fin two nd(2) ctx(1) short kept by (simp_all add: kept_def)
  have "changes_only sz \<sigma> (L \<union> R) s s'" using ctx(3) kept app(2) ch' by (simp add: changes_only_def P kept_def)
  moreover have "length (chain s' t) \<le> Suc (length (chain s t))" for t using ch' [of t] kept by (simp add: kept_def)
  moreover have "distinct (zip (val \<sigma> lcol) (val \<sigma> rcol))" using hj by (simp add: hashjoin_runs_iff)
  moreover have "table_positions sz \<sigma> s' t = gather (P t) (val \<sigma> lcol)" if "t \<in> L" for t using app(2) [of t] that by simp
  moreover have "table_positions sz \<sigma> s' t = gather (P t) (val \<sigma> rcol)" if "t \<in> R" for t
    using app(2) [of t] that tabs(3) by (auto simp: disjoint_iff)
  ultimately show thesis using that [OF eql _ pairs] app(1) r tabs(1,2) by simp
qed

text \<open>A filter over two tables keeps the indexes at which the predicate holds, for all tables of its input.\<close>

lemma cross_correct:
  assumes ok: "ok sz \<sigma> s" "intermediate_results (ctx s) = Map.empty"
    and cols: "base_column sz \<sigma> lc" "base_column sz \<sigma> rc" "table_name lc \<in> T" "table_name rc \<in> T"
    and tabs: "tables_involved cr = T" and P: "P = table_positions sz \<sigma> s"
    and len: "\<forall>t \<in> T. length (P t) = length (P (table_name lc))"
    and short: "\<forall>t. length (chain s t) < 2 ^ 31 - 1"
    and run: "handleCrossTableFilter d lc rc cr src s = Inr (r, s')" and ev: "runs eng \<sigma> (heap s')"
  obtains js where "distinct js"
    "set js = {k \<in> {..<length (P (table_name lc))}. expr_holds eng (expression d)
       [Some (val \<sigma> lc ! (P (table_name lc) ! k)), Some (val \<sigma> rc ! (P (table_name rc) ! k))]}"
    "\<forall>t \<in> T. table_positions sz \<sigma> s' t = gather (P t) js"
    "ok sz \<sigma> s'" "changes_only sz \<sigma> T s s'" "tables_involved r = T" "\<forall>t. length (chain s' t) \<le> Suc (length (chain s t))"
proof -
  obtain lm c1 s1 rm c2 s2 nd where
    mats: "ensureMaterialized lc s = Inr ((lm, c1), s1)" "ensureMaterialized rc s1 = Inr ((rm, c2), s2)"
    and nd: "heap s' = heap s2 @ [nd]" "p_type nd = P_FILTER" "p_base_columns nd = [mat_col lm, mat_col rm]"
      "p_expression nd = expression d" "result_columns nd = [output_column r]"
    and ctx: "materialized_columns (ctx s') \<subseteq>\<^sub>m materialized_columns (ctx s2)" "optimize_chains (ctx s') = optimize_chains (ctx s2)"
      "intermediate_results (ctx s') = intermediate_results (ctx s2)"
    and ch: "\<And>t. chain s' t = chain s2 t @
       (if t \<in> tables_involved cr then [\<lparr>poslist_col = output_column r, pos_producer = Some (length (heap s2))\<rparr>] else [])"
    and r: "tables_involved r = tables_involved cr \<union> {table_name lc, table_name rc}"
    using handleCrossTableFilter_run [OF run] by metis
  have ev2: "evaluates \<sigma> (heap s2)" using ev nd(1) runs_evaluates [of eng] by simp
  note two = ok_ensure_pair [OF ok cols(1,2) mats ev2]
  have kept: "kept sz \<sigma> s s2" and P2: "\<And>t. table_positions sz \<sigma> s2 t = P t" using two by (simp_all add: kept_def P)
  have "node_runs eng \<sigma> nd" using ev nd(1) by simp
  then have fr: "filter_runs eng \<sigma> nd (output_column r)" using nd(2,5) by (simp add: node_runs_def)
  have sel: "distinct (val \<sigma> (output_column r))" "set (val \<sigma> (output_column r)) = {k \<in> {..<length (P (table_name lc))}.
      expr_holds eng (expression d) [Some (val \<sigma> lc ! (P (table_name lc) ! k)), Some (val \<sigma> rc ! (P (table_name rc) ! k))]}"
  proof -
    have vals: "length (val \<sigma> (mat_col lm)) = length (P (table_name lc))"
      "\<And>k. k < length (P (table_name lc)) \<Longrightarrow> val \<sigma> (mat_col lm) ! k = val \<sigma> lc ! (P (table_name lc) ! k) \<and>
         val \<sigma> (mat_col rm) ! k = val \<sigma> rc ! (P (table_name rc) ! k)"
      using two len cols(4) by (simp_all add: gather_def P)
    show "distinct (val \<sigma> (output_column r))" using fr by (simp add: filter_runs_iff)
    have "set (val \<sigma> (output_column r)) = {k \<in> {..<length (P (table_name lc))}.
        expr_holds eng (expression d) [Some (val \<sigma> (mat_col lm) ! k), Some (val \<sigma> (mat_col rm) ! k)]}"
      using fr nd(3,4) vals(1) by (simp add: filter_runs_iff)
    then show "set (val \<sigma> (output_column r)) = {k \<in> {..<length (P (table_name lc))}.
        expr_holds eng (expression d) [Some (val \<sigma> lc ! (P (table_name lc) ! k)), Some (val \<sigma> rc ! (P (table_name rc) ! k))]}"
      using vals(2) by (simp cong: conj_cong)
  qed
  let ?q = "\<lambda>t. if t \<in> T then Some (output_column r) else None"
  have ch': "chain s' t = chain s2 t @
      (case ?q t of None \<Rightarrow> [] | Some c \<Rightarrow> [\<lparr>poslist_col = c, pos_producer = Some (length (heap s2))\<rparr>])" for t
    using ch [of t] tabs by simp
  have bound: "i < length (table_positions sz \<sigma> s2 t)" if "?q t = Some c" "i \<in> set (val \<sigma> c)" for t c i
    using that sel(2) len P2 by (auto split: if_splits)
  note fin = ok_append [OF _ nd(1) _ ctx(1,2) ch' bound, unfolded P2]
  have app: "ok sz \<sigma> s'" "\<And>t. table_positions sz \<sigma> s' t = (case ?q t of None \<Rightarrow> P t | Some c \<Rightarrow> gather (P t) (val \<sigma> c))"
    using fin two nd(2) short kept by (simp_all add: kept_def)
  have "changes_only sz \<sigma> T s s'" using ctx(3) kept app(2) ch' by (simp add: changes_only_def P kept_def)
  moreover have "length (chain s' t) \<le> Suc (length (chain s t))" for t using ch' [of t] kept by (simp add: kept_def)
  ultimately show thesis using that [OF sel] app r tabs cols(3,4) by auto
qed

lemma scan_denotes:
  assumes n: "is_scan t n" and ok: "ok sz \<sigma> s" and empty: "chain s t = []" and run: "transformNode n s = Inr (r, s')"
  shows "ok sz \<sigma> s' \<and> denotes eng sz \<sigma> (Suc 0) n s r s'"
proof -
  from n obtain d ch where d: "n = Some (LNode d ch)" "node_type d = L_SCAN" "base_table d = t" "t \<noteq> ''''"
    by (auto simp: is_scan_def split: option.splits LogicalPlanNode.splits)
  then have s': "s' = s\<lparr>ctx := note_limits d (ctx s)\<rparr>" using run by (simp add: bindP_def handleScan_def)
  have tabs: "tables n = {t}" using d by simp
  have "table_positions sz \<sigma> s' t = [0..<sz t]"
    unfolding s' positions_limits using empty by (simp add: table_positions_def chain_positions_def)
  then have "enumerates (table_positions sz \<sigma> s') {t} (matches eng \<sigma> sz n)"
    using matches_single [OF tabs] chosen_scan [OF n] by (intro enumerates_single) (simp_all add: lessThan_atLeast0)
  moreover have "changes_only sz \<sigma> {t} s s'" unfolding s' changes_only_def by simp
  ultimately show ?thesis using ok_limits [OF ok] scan_result(2) [OF n run] empty
    unfolding denotes_def tabs s' by simp
qed

lemma leaf_denotes:
  assumes sel: "selection t b n" and ok: "ok sz \<sigma> s" and st: "stored sz \<sigma> {t}" and empty: "chain s t = []"
    and run: "transformNode n s = Inr (r, s')" and ev: "runs eng \<sigma> (heap s')"
  shows "ok sz \<sigma> s' \<and> denotes eng sz \<sigma> (Suc 0) n s r s'"
proof -
  from selection_wf [OF sel] have n: "tables n = {t}" "t \<noteq> ''''" by blast+
  from selection_correct [OF sel run ev n(2) st] empty
  have frame: "leaf_frame t s s'" and res: "\<exists>ty. leaf_result eng \<sigma> sz t ty n r s'" and ch: "chain s' t = [out_info r]" by auto
  have vals: "distinct (val \<sigma> (output_column r))" "set (val \<sigma> (output_column r)) = chosen eng \<sigma> sz t n"
    using res by (auto simp: leaf_result_def)
  obtain h where h: "heap s' = heap s @ h" using frame by (auto simp: leaf_frame_def)
  have pos: "table_positions sz \<sigma> s t = [0..<sz t]" using empty by (simp add: table_positions_def chain_positions_def)
  have "ptr_ok (length (heap s')) (physical_root r)" using res by (auto simp: leaf_result_def)
  then have "appended sz \<sigma> s s' t (out_info r)"
    using ch empty vals(2) pos by (auto simp: appended_def out_info_def chosen_def)
  moreover have other: "chain s' u = chain s u" if "u \<noteq> t" for u using frame that by (simp add: leaf_frame_def)
  moreover have "length (chain s' u) < 2 ^ 31" for u
    using ok_chains [OF ok] ch other by (cases "u = t") simp_all
  ultimately have "grown sz \<sigma> s s'" using h frame unfolding grown_def leaf_frame_def by (metis map_le_refl)
  then have "ok sz \<sigma> s'" using ok by (rule ok_grown [rotated])
  moreover have "table_positions sz \<sigma> s' t = val \<sigma> (output_column r)"
    using ch by (simp add: table_positions_def chain_positions_def out_info_def)
  then have "enumerates (table_positions sz \<sigma> s') {t} (matches eng \<sigma> sz n)"
    using matches_single [OF n(1)] vals by (intro enumerates_single) simp_all
  moreover have "changes_only sz \<sigma> {t} s s'"
    using frame other table_positions_same [OF _ h] ok_chains [OF ok] by (simp add: changes_only_def leaf_frame_def)
  ultimately show ?thesis using res ch unfolding denotes_def n(1) by (auto simp: leaf_result_def)
qed

lemma join_denotes:
  assumes wf: "wf_input l" "wf_input r" "tables l \<inter> tables r = {}" and d: "equi_join d lc rc"
    and cols: "table_name lc \<in> tables l" "table_name rc \<in> tables r"
    and st: "stored sz \<sigma> (tables l \<union> tables r)" and eng: "compares_equal eng"
    and l: "denotes eng sz \<sigma> k l s lr s1" and r: "denotes eng sz \<sigma> m r s1 rr s2"
    and ok: "ok sz \<sigma> s2" "intermediate_results (ctx s2) = Map.empty" and short: "\<forall>t. length (chain s2 t) < 2 ^ 31 - 1"
    and run: "createHashJoin d lc rc lr rr s2 = Inr (res, s')" and ev: "runs eng \<sigma> (heap s')"
  shows "ok sz \<sigma> s' \<and> denotes eng sz \<sigma> (Suc (k + m)) (Some (LNode d [l, r])) s res s'"
proof -
  let ?L = "tables l" and ?R = "tables r" and ?P = "table_positions sz \<sigma> s2"
  have tabs: "tables_involved lr = ?L" "tables_involved rr = ?R" and ch: "changes_only sz \<sigma> ?L s s1" "changes_only sz \<sigma> ?R s1 s2"
    and len: "\<forall>t \<in> ?L. length (chain s1 t) \<le> k" "\<forall>t \<in> ?R. length (chain s2 t) \<le> m"
    and enr: "enumerates ?P ?R (matches eng \<sigma> sz r)" using l r by (simp_all add: denotes_def)
  have enl: "enumerates ?P ?L (matches eng \<sigma> sz l)"
    using l ch(2) wf(3) by (subst enumerates_cong [of _ _ "table_positions sz \<sigma> s1"]) (auto simp: denotes_def changes_only_def)
  have base: "base_column sz \<sigma> lc" "base_column sz \<sigma> rc" using st cols by (auto intro: stored_column)
  have ne: "table_name lc \<noteq> ''''" "table_name rc \<noteq> ''''" using wf_input_tables wf cols by metis+
  have lenP: "\<forall>t \<in> ?L. length (?P t) = length (?P (table_name lc))" "\<forall>t \<in> ?R. length (?P t) = length (?P (table_name rc))"
    using enumerates_length [OF enl _ cols(1)] enumerates_length [OF enr _ cols(2)] by blast+
  obtain il jl where lists: "length il = length jl" "distinct (zip il jl)"
    "set (zip il jl) = {(a, b) \<in> {..<length (?P (table_name lc))} \<times> {..<length (?P (table_name rc))}.
       val \<sigma> lc ! (?P (table_name lc) ! a) = val \<sigma> rc ! (?P (table_name rc) ! b)}"
    and pos: "\<forall>t \<in> ?L. table_positions sz \<sigma> s' t = gather (?P t) il" "\<forall>t \<in> ?R. table_positions sz \<sigma> s' t = gather (?P t) jl"
    and post: "ok sz \<sigma> s'" "changes_only sz \<sigma> (?L \<union> ?R) s2 s'" "tables_involved res = ?L \<union> ?R"
      "\<forall>t. length (chain s' t) \<le> Suc (length (chain s2 t))"
    by (rule hashjoin_correct [OF ok base cols tabs wf(3) refl lenP short run ev]) (rule that)
  let ?K = "\<lambda>u. sat_node eng d (row_of \<sigma> u)"
  have doms: "\<forall>v \<in> matches eng \<sigma> sz l. dom v = ?L" "\<forall>w \<in> matches eng \<sigma> sz r. dom w = ?R"
    by (simp_all add: matches_def in_tables_def)
  have "?K (vector ?P ?L a ++ vector ?P ?R b) \<longleftrightarrow> val \<sigma> lc ! (?P (table_name lc) ! a) = val \<sigma> rc ! (?P (table_name rc) ! b)" for a b
    using d eng colval_vector_add [OF wf(3) ne(1)] colval_vector_add [OF wf(3) ne(2)] cols
    by (simp add: sat_node_expr expr_holds_def equi_join_def compares_equal_def)
  then have "set (zip il jl) = {(a, b) \<in> {..<length (?P (table_name lc))} \<times> {..<length (?P (table_name rc))}.
      ?K (vector ?P ?L a ++ vector ?P ?R b)}" using lists(3) by simp
  then have "enumerates (table_positions sz \<sigma> s') (?L \<union> ?R)
      {u. \<exists>v \<in> matches eng \<sigma> sz l. \<exists>w \<in> matches eng \<sigma> sz r. u = v ++ w \<and> ?K u}"
    using pos by (rule enumerates_join [OF enl enr wf(3) cols doms lists(1,2)])
  moreover have "node_type d = L_JOIN" using d by (simp add: equi_join_def)
  moreover have "changes_only sz \<sigma> (?L \<union> ?R) s s'"
    using changes_only_trans [OF changes_only_trans [OF ch] post(2)] by simp
  moreover have "length (chain s' t) \<le> Suc (k + m)" if "t \<in> ?L \<union> ?R" for t
  proof -
    have "length (chain s2 t) \<le> k + m"
      using that len ch(2) wf(3) by (cases "t \<in> ?R") (auto simp: changes_only_def trans_le_add1 trans_le_add2)
    then show ?thesis using spec [OF post(4), of t] by linarith
  qed
  ultimately show ?thesis using post(1,3) matches_join [OF _ wf] by (simp add: denotes_def)
qed

lemma cross_denotes:
  assumes wf: "wf_input n" and d: "node_type d = L_FILTER" "base_columns d = [lc, rc]"
    and cols: "table_name lc \<in> tables n" "table_name rc \<in> tables n" and st: "stored sz \<sigma> (tables n)"
    and n: "denotes eng sz \<sigma> k n s cr s1" and ok: "ok sz \<sigma> s1" "intermediate_results (ctx s1) = Map.empty"
    and short: "\<forall>t. length (chain s1 t) < 2 ^ 31 - 1"
    and run: "handleCrossTableFilter d lc rc cr src s1 = Inr (r, s')" and ev: "runs eng \<sigma> (heap s')"
  shows "ok sz \<sigma> s' \<and> denotes eng sz \<sigma> (Suc k) (Some (LNode d [n])) s r s'"
proof -
  let ?T = "tables n" and ?P = "table_positions sz \<sigma> s1"
  have tabs: "tables_involved cr = ?T" and ch: "changes_only sz \<sigma> ?T s s1"
    and len: "\<forall>t \<in> ?T. length (chain s1 t) \<le> k" and en: "enumerates ?P ?T (matches eng \<sigma> sz n)"
    using n by (simp_all add: denotes_def)
  have base: "base_column sz \<sigma> lc" "base_column sz \<sigma> rc" using st cols by (auto intro: stored_column)
  have ne: "table_name lc \<noteq> ''''" "table_name rc \<noteq> ''''" using wf_input_tables wf cols by metis+
  have lenP: "\<forall>t \<in> ?T. length (?P t) = length (?P (table_name lc))"
    using enumerates_length [OF en _ cols(1)] by blast
  obtain js where sel: "distinct js" "set js = {k \<in> {..<length (?P (table_name lc))}. expr_holds eng (expression d)
       [Some (val \<sigma> lc ! (?P (table_name lc) ! k)), Some (val \<sigma> rc ! (?P (table_name rc) ! k))]}"
    and pos: "\<forall>t \<in> ?T. table_positions sz \<sigma> s' t = gather (?P t) js"
    and post: "ok sz \<sigma> s'" "changes_only sz \<sigma> ?T s1 s'" "tables_involved r = ?T" "\<forall>t. length (chain s' t) \<le> Suc (length (chain s1 t))"
    by (rule cross_correct [OF ok base cols tabs refl lenP short run ev]) (rule that)
  let ?K = "\<lambda>u. sat_node eng d (row_of \<sigma> u)"
  have "?K (vector ?P ?T k) \<longleftrightarrow> expr_holds eng (expression d)
      [Some (val \<sigma> lc ! (?P (table_name lc) ! k)), Some (val \<sigma> rc ! (?P (table_name rc) ! k))]" for k
    using cols ne by (simp add: sat_node_expr d colval_vector)
  then have "set js = {k \<in> {..<length (?P (table_name lc))}. ?K (vector ?P ?T k)}" using sel(2) by simp
  then have "enumerates (table_positions sz \<sigma> s') ?T {v \<in> matches eng \<sigma> sz n. ?K v}"
    using pos by (rule enumerates_filter [OF en cols(1) sel(1)])
  moreover have "changes_only sz \<sigma> ?T s s'" using changes_only_trans [OF ch post(2)] by simp
  moreover have "length (chain s' t) \<le> Suc k" if "t \<in> ?T" for t using that len spec [OF post(4), of t] by fastforce
  ultimately show ?thesis using post(1,3) matches_filter [OF d(1)] d(1) by (simp add: denotes_def)
qed

text \<open>By induction on the tree, the chains always enumerate what the tree denotes.\<close>

lemma transform_denotes:
  assumes "supported k n" "ok sz \<sigma> s" "intermediate_results (ctx s) = Map.empty" "stored sz \<sigma> (tables n)"
    and "compares_equal eng" "\<forall>t. length (chain s t) + k < 2 ^ 31" "\<forall>t \<in> tables n. chain s t = []"
    and "transformNode n s = Inr (r, s')" "runs eng \<sigma> (heap s')"
  shows "ok sz \<sigma> s' \<and> denotes eng sz \<sigma> k n s r s'"
  using assms
proof (induction arbitrary: s r s' rule: supported.induct)
  case (scan t n)
  then have "tables n = {t}" by (auto simp: is_scan_def split: option.splits LogicalPlanNode.splits)
  then show ?case using scan scan_denotes by simp
next
  case (leaf t b n)
  then show ?case using leaf_denotes selection_wf by simp
next
  case (join k l m r d lc rc s res s')
  let ?s0 = "s\<lparr>ctx := note_limits d (ctx s)\<rparr>"
  have wf: "wf_input l" "wf_input r" "0 < k" using join.hyps supported_wf by blast+
  have tabs: "tables (Some (LNode d [l, r])) = tables l \<union> tables r" using join.hyps(3) by (simp add: equi_join_def)
  obtain lr s1 rr s2 where runs: "transformNode l ?s0 = Inr (lr, s1)" "transformNode r s1 = Inr (rr, s2)"
    "createHashJoin d lc rc lr rr s2 = Inr (res, s')"
    using join.prems(7) join.hyps(3) by (auto simp: equi_join_def handleJoin_def bindP_Inr)
  have ev2: "runs eng \<sigma> (heap s2)" using extends_run [OF extends_hashjoin runs(3)] join.prems(8) by auto
  then have ev1: "runs eng \<sigma> (heap s1)"
    using extends_run [OF extends_supported [OF join.hyps(2)] runs(2)] by auto
  have st: "stored sz \<sigma> (tables l)" "stored sz \<sigma> (tables r)" using join.prems(3) tabs by (auto intro: stored_mono)
  have bound: "length (chain s t) + Suc (k + m) < 2 ^ 31" for t using join.prems(5) by blast
  have "length (chain ?s0 t) + k < 2 ^ 31" for t using bound [of t] by simp
  then have 1: "ok sz \<sigma> s1" "denotes eng sz \<sigma> k l ?s0 lr s1"
    using join.IH(1) [OF ok_limits [OF join.prems(1)] _ st(1) join.prems(4) _ _ runs(1) ev1] join.prems(2,6) tabs
    by auto
  have len: "t \<in> tables l \<Longrightarrow> length (chain s1 t) \<le> k" "t \<notin> tables l \<Longrightarrow> length (chain s1 t) = length (chain s t)" for t
    using 1(2) by (auto simp: denotes_def changes_only_def)
  have ir1: "intermediate_results (ctx s1) = Map.empty" using 1(2) join.prems(2) by (simp add: denotes_def changes_only_def)
  have emp: "\<forall>t \<in> tables r. chain s1 t = []"
    using len(2) join.prems(6) join.hyps(4) tabs by (metis Un_iff disjoint_iff length_0_conv)
  have "length (chain s1 t) + m < 2 ^ 31" for t using len [of t] bound [of t] by (cases "t \<in> tables l") auto
  then have 2: "ok sz \<sigma> s2" "denotes eng sz \<sigma> m r s1 rr s2"
    using join.IH(2) [OF 1(1) ir1 st(2) join.prems(4) _ emp runs(2) ev2] by auto
  have ir2: "intermediate_results (ctx s2) = Map.empty" using 2(2) ir1 by (simp add: denotes_def changes_only_def)
  have "t \<in> tables r \<Longrightarrow> length (chain s2 t) \<le> m" "t \<notin> tables r \<Longrightarrow> length (chain s2 t) = length (chain s1 t)" for t
    using 2(2) by (auto simp: denotes_def changes_only_def)
  then have "length (chain s2 t) < 2 ^ 31 - 1" for t
    using len [of t] bound [of t] by (cases "t \<in> tables r"; cases "t \<in> tables l") fastforce+
  then have short: "\<forall>t. length (chain s2 t) < 2 ^ 31 - 1" ..
  have st2: "stored sz \<sigma> (tables l \<union> tables r)" using join.prems(3) tabs by simp
  from join_denotes [OF wf(1,2) join.hyps(4,3,5,6) st2 join.prems(4) 1(2) 2(2) 2(1) ir2 short runs(3) join.prems(8)]
  show ?case by (simp add: denotes_def changes_only_def)
next
  case (cross k n d c1 c2 s r s')
  let ?s0 = "s\<lparr>ctx := note_limits d (ctx s)\<rparr>"
  have wf: "wf_input n" "0 < k" using cross.hyps(1) supported_wf by blast+
  have ne: "table_name c1 \<noteq> ''''" "table_name c2 \<noteq> ''''" using wf_input_tables wf(1) cross.hyps(5,6) by metis+
  have tabs: "tables (Some (LNode d [n])) = tables n" using cross.hyps(2) by simp
  obtain cr s1 where runs: "transformNode n ?s0 = Inr (cr, s1)" "handleCrossTableFilter d c1 c2 cr (table_name c1) s1 = Inr (r, s')"
    using cross.prems(7) cross.hyps(2-4) ne by (auto simp: handleFilter_def bindP_Inr)
  have ev1: "runs eng \<sigma> (heap s1)" using extends_run [OF extends_cross runs(2)] cross.prems(8) by auto
  have bound: "length (chain s t) + Suc k < 2 ^ 31" for t using cross.prems(5) by blast
  have "length (chain ?s0 t) + k < 2 ^ 31" for t using bound [of t] by simp
  then have 1: "ok sz \<sigma> s1" "denotes eng sz \<sigma> k n ?s0 cr s1"
    using cross.IH [OF ok_limits [OF cross.prems(1)] _ _ cross.prems(4) _ _ runs(1) ev1] cross.prems(2,3,6) tabs by auto
  have ir1: "intermediate_results (ctx s1) = Map.empty" using 1(2) cross.prems(2) by (simp add: denotes_def changes_only_def)
  have "t \<in> tables n \<Longrightarrow> length (chain s1 t) \<le> k" "t \<notin> tables n \<Longrightarrow> length (chain s1 t) = length (chain s t)" for t
    using 1(2) by (auto simp: denotes_def changes_only_def)
  then have "length (chain s1 t) < 2 ^ 31 - 1" for t using bound [of t] by (cases "t \<in> tables n") fastforce+
  then have short: "\<forall>t. length (chain s1 t) < 2 ^ 31 - 1" ..
  from cross_denotes [OF wf(1) cross.hyps(2,3,5,6) _ 1(2) 1(1) ir1 short runs(2) cross.prems(8)] cross.prems(3) tabs
  show ?case by (simp add: denotes_def changes_only_def)
qed

text \<open>Each projected column is materialized at the positions the chains have left.\<close>

lemma project_values:
  assumes "ok sz \<sigma> s" "intermediate_results (ctx s) = Map.empty" "\<forall>c \<in> set cols. base_column sz \<sigma> c"
    and "mapP project_column cols s = Inr (infos, s')" "evaluates \<sigma> (heap s')"
  shows "list_all2 (\<lambda>c i. val \<sigma> (mat_col i) = gather (val \<sigma> c) (table_positions sz \<sigma> s (table_name c))) cols infos"
  using assms
proof (induction cols arbitrary: s infos)
  case (Cons c cols)
  from Cons.prems(4) obtain i s1 infos' where run: "project_column c s = Inr (i, s1)" "mapP project_column cols s1 = Inr (infos', s')" "infos = i # infos'"
    by (auto simp: bindP_Inr)
  have "extends (mapP project_column cols)" by (intro extends_mapP extends_project)
  then have ev: "evaluates \<sigma> (heap s1)" using extends_run [of "mapP project_column cols"] run(2) Cons.prems(5) by fastforce
  obtain info c' where ens: "ensureMaterialized c s = Inr ((info, c'), s1)" "val \<sigma> (mat_col i) = val \<sigma> (mat_col info)"
    using project_run [OF run(1)] by blast
  from ok_ensure [OF Cons.prems(1,2) _ ens(1) ev] Cons.prems(3) have
    1: "ok sz \<sigma> s1" "kept sz \<sigma> s s1" "val \<sigma> (mat_col info) = gather (val \<sigma> c) (table_positions sz \<sigma> s (table_name c))" by auto
  then show ?case using Cons.IH [OF 1(1) _ _ run(2) Cons.prems(5)] Cons.prems(2,3) ens(2) run(3) by (simp add: kept_def)
qed simp

lemma plan_answers:
  assumes n: "supported k n" "k < 2 ^ 31" and d: "node_type d = L_PROJECTION" "projected_columns d \<noteq> []"
      "\<forall>c \<in> set (projected_columns d). table_name c \<in> tables n"
    and ok: "ok sz \<sigma> (initial_state oc oj tab ids)" and st: "stored sz \<sigma> (tables n)" and eng: "compares_equal eng"
    and run: "build_plan (Some (LNode d [n])) (initial_state oc oj tab ids) = Inr (p, s')" and ev: "runs eng \<sigma> (heap s')"
  shows "\<exists>a. p = Some a \<and> a < length (heap s') \<and> p_type (heap s' ! a) = P_RESULT \<and>
    answers eng sz \<sigma> n (projected_columns d) (result_columns (heap s' ! a))"
proof -
  let ?s0 = "(initial_state oc oj tab ids)\<lparr>ctx := note_limits d (ctx (initial_state oc oj tab ids))\<rparr>"
  obtain r s1 infos s2 nd where runs: "transformNode n ?s0 = Inr (r, s1)" "mapP project_column (projected_columns d) s1 = Inr (infos, s2)"
    and nd: "p = Some (length (heap s2))" "heap s' = heap s2 @ [nd]" "p_type nd = P_RESULT" "result_columns nd = map mat_col infos"
    using projection_run [OF d(1,2) run] by blast
  have ev2: "runs eng \<sigma> (heap s2)" using ev nd(2) by simp
  have "extends (mapP project_column (projected_columns d))" by (intro extends_mapP extends_project)
  then have ev1: "runs eng \<sigma> (heap s1)"
    using extends_run [of "mapP project_column (projected_columns d)"] runs(2) ev2 by fastforce
  have init: "chain ?s0 t = []" "intermediate_results (ctx ?s0) = Map.empty" for t
    by (simp_all add: initial_state_def TransformContext_default_def)
  have "ok sz \<sigma> s1 \<and> denotes eng sz \<sigma> k n ?s0 r s1"
    by (rule transform_denotes [OF n(1) ok_limits [OF ok] init(2) st eng _ _ runs(1) ev1]) (use n(2) init(1) in simp_all)
  then have 1: "ok sz \<sigma> s1" "intermediate_results (ctx s1) = Map.empty"
    "enumerates (table_positions sz \<sigma> s1) (tables n) (matches eng \<sigma> sz n)"
    using init(2) by (simp_all add: denotes_def changes_only_def)
  have "list_all2 (\<lambda>c i. val \<sigma> (mat_col i) = gather (val \<sigma> c) (table_positions sz \<sigma> s1 (table_name c))) (projected_columns d) infos"
    using project_values [OF 1(1,2) _ runs(2) runs_evaluates [OF ev2]] d(3) stored_column [OF st] by blast
  then have "answers eng sz \<sigma> n (projected_columns d) (map mat_col infos)"
    using answersI [OF 1(3)] d(3) wf_input_tables supported_wf [OF n(1)] by blast
  then show ?thesis using nd by simp
qed

end

section \<open>The plan as a whole\<close>

lemma chained_initial: "chained_ok sz \<sigma> (initial_state False oj tab ids)"
  by (simp add: chained_ok_def initial_state_def TransformContext_default_def chains_ok_def cache_valid_def)

lemma optimized_initial: "optimized_ok sz \<sigma> (initial_state True oj tab ids)"
  by (simp add: optimized_ok_def initial_state_def TransformContext_default_def chains_ok_def)

lemma extends_plan:
  assumes "supported k n" "node_type d = L_PROJECTION"
  shows "extends (build_plan (Some (LNode d [n])))"
  using assms extends_supported
  by (auto simp: build_plan_def handleProjection_def buildResultNode_def Let_def intro!: extends_intros extends_project)

lemma ConvertToPhys_answers:
  assumes "supported k n" "k < 2 ^ 31" "node_type d = L_PROJECTION" "projected_columns d \<noteq> []"
    and "\<forall>c \<in> set (projected_columns d). table_name c \<in> tables n"
  shows "\<exists>a h. ConvertToPhys (Some (LNode d [n])) oc False tab ids = Some (Inr (Some (Some a, h))) \<and>
    a < length h \<and> p_type (h ! a) = P_RESULT \<and>
    (\<forall>eng sz \<sigma>. stored sz \<sigma> (tables n) \<longrightarrow> compares_equal eng \<longrightarrow> runs eng \<sigma> h \<longrightarrow>
       answers eng sz \<sigma> n (projected_columns d) (result_columns (h ! a)))"
proof -
  obtain p s' where run: "build_plan (Some (LNode d [n])) (initial_state oc False tab ids) = Inr (p, s')"
    using extendsD [OF extends_plan [OF assms(1,3)]] by blast
  have ans: "\<exists>a. p = Some a \<and> a < length (heap s') \<and> p_type (heap s' ! a) = P_RESULT \<and>
      answers eng sz \<sigma> n (projected_columns d) (result_columns (heap s' ! a))"
    if "stored sz \<sigma> (tables n)" "compares_equal eng" "runs eng \<sigma> (heap s')" for eng sz \<sigma>
    using chained.plan_answers [OF assms chained_initial that(1,2) _ that(3)] optimized.plan_answers [OF assms optimized_initial that(1,2) _ that(3)] run
    by (cases oc) auto
  obtain s2 :: opt_state and nd where "p = Some (length (heap s2))" "heap s' = heap s2 @ [nd]" "p_type nd = P_RESULT"
    using projection_run [OF assms(3,4) run] by blast
  then show ?thesis using run ans by (auto simp: ConvertToPhys_def caught_def)
qed

text \<open>
  C3. The physical plan computes the logical plan, on the trees that \<open>supported\<close> admits: a projection of at least one
  column of the tree's tables, over equi-joins whose predicate names the column of the left subtree first, with filters
  over two tables only above a join, and for each table a scan, alone or below one filter, two stacked filters, or a union of
  such. The index of \<open>supported\<close>, which bounds the length of the chains of selections, is below \<open>2\<^sup>3\<^sup>1\<close>. Join outputs
  are not trimmed (the second flag of the conversion is off). Then the conversion returns a plan with a RESULT node,
  with and without chain optimization and whatever node identifiers are drawn. In every environment in which
  the engine keeps its promises for the nodes of the plan, the rows of the result correspond one to one to the rows of
  the logical tree, duplicates included, and every result column holds the value of its projected column in that row.
  Other trees are outside: for three stacked filters on one table, or a join that names the right column first, the code
  builds a plan that attaches position lists to the wrong columns.
\<close>

theorem ConvertToPhys_correct:
  assumes "supported k n" "k < 2 ^ 31" "node_type d = L_PROJECTION" "projected_columns d \<noteq> []"
    and "\<forall>c \<in> set (projected_columns d). table_name c \<in> tables n"
  shows "\<exists>a h. ConvertToPhys (Some (LNode d [n])) oc False tab ids = Some (Inr (Some (Some a, h))) \<and>
    a < length h \<and> p_type (h ! a) = P_RESULT \<and>
    (\<forall>eng sz \<sigma>. stored sz \<sigma> (tables n) \<longrightarrow> compares_equal eng \<longrightarrow> runs eng \<sigma> h \<longrightarrow>
       answers eng sz \<sigma> n (projected_columns d) (result_columns (h ! a)))"
  by (rule ConvertToPhys_answers [OF assms])

section \<open>A concrete plan\<close>

text \<open>Line orders with a quantity below 25, joined with their customers.\<close>

definition sem_col :: "string \<Rightarrow> string \<Rightarrow> Column" where
  "sem_col t c = mkColumn t c T_INTEGER None None"

definition sem_pred :: "LogicalNodeType \<Rightarrow> PlanCompType \<Rightarrow> Column list \<Rightarrow> string list \<Rightarrow> LogicalNodeData" where
  "sem_pred ty op cs ls = (new_node ty)\<lparr>base_columns := cs,
     expression := Expression_default\<lparr>comp_type := Some op, literals := ls\<rparr>\<rparr>"

definition sem_scan :: "string \<Rightarrow> LogicalPlanNode option" where
  "sem_scan t = Some (LNode ((new_node L_SCAN)\<lparr>base_table := t\<rparr>) [])"

definition sem_filter :: "PlanCompType \<Rightarrow> Column \<Rightarrow> string \<Rightarrow> LogicalPlanNode option \<Rightarrow> LogicalPlanNode option" where
  "sem_filter op c lit n = Some (LNode (sem_pred L_FILTER op [c] [lit]) [n])"

definition sem_join :: "Column \<Rightarrow> Column \<Rightarrow> LogicalPlanNode option \<Rightarrow> LogicalPlanNode option \<Rightarrow> LogicalPlanNode option" where
  "sem_join lc rc l r = Some (LNode (sem_pred L_JOIN C_EQ [lc, rc] []) [l, r])"

definition sem_tree :: "LogicalPlanNode option" where
  "sem_tree = sem_join (sem_col ''lineorder'' ''k'') (sem_col ''customer'' ''k'')
     (sem_filter C_LT (sem_col ''lineorder'' ''q'') ''25'' (sem_scan ''lineorder'')) (sem_scan ''customer'')"

definition sem_proj :: "Column list \<Rightarrow> LogicalNodeData" where
  "sem_proj cs = (new_node L_PROJECTION)\<lparr>projected_columns := cs\<rparr>"

definition sem_names :: "Column list" where
  "sem_names = [sem_col ''lineorder'' ''r'']"

definition sem_engine :: "nat engine" where
  "sem_engine op sop lits vs =
     (case (op, lits, vs) of
        (C_EQ, [], [Some x, Some y]) \<Rightarrow> x = y
      | (C_LT, [l], [Some x]) \<Rightarrow> x < 25
      | (C_GT, [l], [Some x]) \<Rightarrow> x > (if l = ''10'' then 10 else 250)
      | _ \<Rightarrow> False)"

text \<open>An environment: the stored columns, the intermediate columns, and some value for every other key.\<close>

definition sem_env :: "(string \<times> nat list) list \<Rightarrow> (string \<Rightarrow> nat) \<Rightarrow> MaterializationSemantics.env" where
  "sem_env cells sz k =
     (case map_of cells k of
        Some v \<Rightarrow> v
      | None \<Rightarrow>
          if starts_with k ''lineorder.'' then replicate (sz ''lineorder'') 0
          else if starts_with k ''customer.'' then replicate (sz ''customer'') 0 else [])"

definition sem_size :: "string \<Rightarrow> nat" where
  "sem_size t = (if t = ''lineorder'' then 4 else 2)"

definition sem_cells :: "(string \<times> nat list) list" where
  "sem_cells =
     [(''lineorder.k'', [7, 5, 7, 5]), (''lineorder.q'', [20, 30, 12, 18]), (''lineorder.r'', [100, 200, 300, 400]),
      (''customer.k'', [5, 7]), (''customer.n'', [50, 70]),
      (''t.i0'', [0, 2, 3]), (''t.i1'', [7, 7, 5]), (''t.i2_i'', [0, 1, 1]), (''t.i2_o'', [2, 0, 1]),
      (''t.i3'', [3, 0, 2]), (''t.i4'', [400, 100, 300])]"

definition sem_run :: "LogicalNodeData \<Rightarrow> LogicalPlanNode option \<Rightarrow> MaterializationSemantics.env \<Rightarrow> (bool \<times> nat list list) option" where
  "sem_run d n \<sigma> = (case ConvertToPhys (Some (LNode d [n])) True False ''t'' int of
      Some (Inr (Some (Some a, h))) \<Rightarrow> Some (runs sem_engine \<sigma> h, map (val \<sigma>) (result_columns (h ! a)))
    | _ \<Rightarrow> None)"


lemma sem_run_demo:
  "sem_run (sem_proj sem_names) sem_tree (sem_env sem_cells sem_size) = Some (True, [[400, 100, 300]])"
  by code_simp
lemma sem_engine_equal: "compares_equal sem_engine"
  by (simp add: compares_equal_def sem_engine_def)

lemma sem_scan_simps [simp]: "is_scan t (sem_scan t) \<longleftrightarrow> t \<noteq> ''''" "t \<noteq> '''' \<Longrightarrow> tables (sem_scan t) = {t}"
  by (simp_all add: is_scan_def sem_scan_def)

lemma sem_col_simps [simp]: "table_name (sem_col t c) = t" "column_name (sem_col t c) = c"
  by (simp_all add: sem_col_def)

lemma sem_pred_filters: "filters_table t (sem_pred L_FILTER op [sem_col t c] ls)"
  by (simp add: filters_table_def sem_pred_def)

lemma sem_pred_joins: "equi_join (sem_pred L_JOIN C_EQ [lc, rc] []) lc rc"
  by (simp add: equi_join_def sem_pred_def)

lemma sem_tree_supported: "supported 3 sem_tree" "tables sem_tree = {''lineorder'', ''customer''}"
proof -
  let ?l = "sem_filter C_LT (sem_col ''lineorder'' ''q'') ''25'' (sem_scan ''lineorder'')"
  have sel: "selection ''lineorder'' True ?l"
    unfolding sem_filter_def by (rule selection.single) (simp_all add: sem_pred_filters)
  have tabs: "tables ?l = {''lineorder''}" using selection_wf [OF sel] by blast
  have "supported (Suc (Suc 0 + Suc 0)) sem_tree"
    unfolding sem_tree_def sem_join_def
    by (rule supported.join [OF supported.leaf [OF sel] supported.scan [of "''customer''"] sem_pred_joins]) (simp_all add: tabs)
  then show "supported 3 sem_tree" by (simp add: numeral_3_eq_3)
  show "tables sem_tree = {''lineorder'', ''customer''}"
    unfolding sem_tree_def sem_join_def by (simp add: tabs sem_pred_def insert_commute)
qed

lemma sem_stored:
  assumes "\<forall>(k, v) \<in> set cells. (starts_with k ''lineorder.'' \<longrightarrow> length v = sz ''lineorder'') \<and>
      (starts_with k ''customer.'' \<longrightarrow> length v = sz ''customer'')"
  shows "stored sz (sem_env cells sz) {''lineorder'', ''customer''}"
proof -
  have "length (sem_env cells sz (t @ ''.'' @ c)) = sz t" if "t \<in> {''lineorder'', ''customer''}" for t c
  proof (cases "map_of cells (t @ ''.'' @ c)")
    case None
    then show ?thesis using that by (auto simp: sem_env_def)
  next
    case (Some v)
    then have "(t @ ''.'' @ c, v) \<in> set cells" by (rule map_of_SomeD)
    then show ?thesis using assms that Some by (auto simp: sem_env_def)
  qed
  then show ?thesis by (auto simp: stored_def)
qed

theorem ConvertToPhys_correct_witness:
  "\<exists>a h. ConvertToPhys (Some (LNode (sem_proj sem_names) [sem_tree])) True False ''t'' int = Some (Inr (Some (Some a, h))) \<and>
     runs sem_engine (sem_env sem_cells sem_size) h \<and>
     answers sem_engine sem_size (sem_env sem_cells sem_size) sem_tree sem_names (result_columns (h ! a)) \<and>
     map (val (sem_env sem_cells sem_size)) (result_columns (h ! a)) = [[400, 100, 300]]"
proof -
  have proj: "projected_columns (sem_proj sem_names) = sem_names" "node_type (sem_proj sem_names) = L_PROJECTION" by (simp_all add: sem_proj_def)
  have "sem_names \<noteq> []" "\<forall>c \<in> set sem_names. table_name c \<in> tables sem_tree"
    by (simp_all add: sem_tree_supported(2) sem_names_def)
  then obtain a h where conv:
    "ConvertToPhys (Some (LNode (sem_proj sem_names) [sem_tree])) True False ''t'' int = Some (Inr (Some (Some a, h)))"
    "\<forall>eng sz \<sigma>. stored sz \<sigma> (tables sem_tree) \<longrightarrow> compares_equal eng \<longrightarrow> runs eng \<sigma> h \<longrightarrow>
       answers eng sz \<sigma> sem_tree sem_names (result_columns (h ! a))"
    using ConvertToPhys_correct [OF sem_tree_supported(1), of "sem_proj sem_names" True "''t''" int, unfolded proj] by auto
  moreover have "runs sem_engine (sem_env sem_cells sem_size) h \<and>
      map (val (sem_env sem_cells sem_size)) (result_columns (h ! a)) = [[400, 100, 300]]"
    using sem_run_demo by (simp add: sem_run_def conv(1))
  moreover have "stored sem_size (sem_env sem_cells sem_size) (tables sem_tree)"
    unfolding sem_tree_supported(2) by (rule sem_stored) code_simp
  ultimately show ?thesis using sem_engine_equal by (intro exI [of _ a] exI [of _ h] conjI) simp_all
qed

end
