(* ===== verification/PredicateBuilder.thy ===== *)
theory PredicateBuilder
  imports PlanSemantics
begin

text \<open>
  \<^verbatim>\<open>PredicateBuilder.cpp\<close>: splitting the WHERE clause into conjuncts and turning each conjunct into
  a FILTER, JOIN or UNION plan node. Dereferences the code does not guard are \<^const>\<open>NullDeref\<close>
  branches. The theorems relate the produced node to a reference semantics of SQL conditions.
\<close>

section \<open>WHERE clause splitting\<close>

fun splitConjuncts :: "Expr option \<Rightarrow> Expr list \<Rightarrow> Expr list" where
  "splitConjuncts None out = out"
| "splitConjuncts (Some (Expr d l r xs)) out =
     (if etype d = kExprOperator \<and> opType d = kOpAnd
      then splitConjuncts r (splitConjuncts l out)
      else out @ [Expr d l r xs])"

definition is_col :: "Expr \<Rightarrow> bool" where
  "is_col e \<longleftrightarrow> etype (edata e) = kExprColumnRef"

text \<open>The literal tests shared by the OR and IN builders; \<^const>\<open>None\<close> is their failing else branch.\<close>

definition literal_text :: "Expr \<Rightarrow> string option" where
  "literal_text e =
     (if etype (edata e) = kExprLiteralInt then Some (int_to_string (sint (ival (edata e))))
      else if etype (edata e) = kExprLiteralFloat then Some (double_to_string (fval (edata e)))
      else if etype (edata e) = kExprLiteralString then Some (str_of (ename (edata e)))
      else None)"

text \<open>
  The choice both comparison builders make: the column operand and the other one, the left operand
  first; \<^const>\<open>None\<close> when neither is a column. The right pointer is dereferenced only when needed.
\<close>

definition column_side :: "Expr \<Rightarrow> Expr option \<Rightarrow> (Expr \<times> Expr option) option res" where
  "column_side left right =
     (if is_col left then Inr (Some (left, right))
      else bindE (deref right) (\<lambda>r. Inr (if is_col r then Some (r, Some left) else None)))"

text \<open>The \<open>kOpEquals\<close> branch of \<open>collectOrEqualsSameColumn\<close>.\<close>

definition collect_column ::
  "(string \<rightharpoonup> string) \<Rightarrow> Expr \<Rightarrow> Expr option \<Rightarrow> Column \<times> string list \<Rightarrow> (bool \<times> Column \<times> string list) res" where
  "collect_column al colExpr valExpr st =
     (case st of (colOut, valuesOut) \<Rightarrow>
      let thisCol = toColumnFromExpr (Some colExpr) al;
          fresh = (column_name colOut = '''' \<and> table_name colOut = '''') in
      if \<not> fresh \<and> (column_name colOut \<noteq> column_name thisCol \<or> table_name colOut \<noteq> table_name thisCol)
      then Inr (False, colOut, valuesOut)
      else let col' = (if fresh then thisCol else colOut) in
        bindE (deref valExpr) (\<lambda>v.
          case literal_text v of
            None \<Rightarrow> Inr (False, col', valuesOut)
          | Some t \<Rightarrow> Inr (True, col', valuesOut @ [t])))"

definition collect_equals ::
  "(string \<rightharpoonup> string) \<Rightarrow> Expr \<Rightarrow> Expr \<Rightarrow> Column \<times> string list \<Rightarrow> (bool \<times> Column \<times> string list) res" where
  "collect_equals al l r st =
     bindE (deref (unwrapSimpleFunction (Some l))) (\<lambda>left.
     bindE (column_side left (unwrapSimpleFunction (Some r))) (\<lambda>s.
       case s of
         None \<Rightarrow> Inr (False, st)
       | Some (colExpr, valExpr) \<Rightarrow> collect_column al colExpr valExpr st))"

fun collectOrEqualsSameColumn ::
  "(string \<rightharpoonup> string) \<Rightarrow> Expr option \<Rightarrow> Column \<times> string list \<Rightarrow> (bool \<times> Column \<times> string list) res" where
  "collectOrEqualsSameColumn al None st = Inr (False, st)"
| "collectOrEqualsSameColumn al (Some (Expr d l r xs)) st =
     (if etype d = kExprOperator \<and> opType d = kOpOr then
        bindE (collectOrEqualsSameColumn al l st) (\<lambda>(ok, st').
          if ok then collectOrEqualsSameColumn al r st' else Inr (False, st'))
      else if etype d = kExprOperator \<and> opType d = kOpEquals then
        (case (l, r) of
           (Some l', Some r') \<Rightarrow> collect_equals al l' r' st
         | _ \<Rightarrow> Inr (False, st))
      else Inr (False, st))"

section \<open>Predicate node builders\<close>

definition in_predicate_node :: "Column \<Rightarrow> string list \<Rightarrow> LogicalPlanNode" where
  "in_predicate_node c vs =
     LNode ((new_node L_FILTER)\<lparr>base_columns := [c],
              expression := Expression_default\<lparr>comp_type := Some C_IN, literals := vs\<rparr>\<rparr>) []"

definition buildInPredicate :: "(string \<rightharpoonup> string) \<Rightarrow> Expr \<Rightarrow> LogicalPlanNode res" where
  "buildInPredicate al pred =
     (case unwrapSimpleFunction (expr pred) of
        None \<Rightarrow> Inl (RuntimeError ''IN: left side is not a column'')
      | Some left \<Rightarrow>
          if \<not> is_col left then Inl (RuntimeError ''IN: left side is not a column'')
          else if eselect (edata pred) then Inl (RuntimeError ''IN (subquery) not supported'')
          else (case exprList pred of
              None \<Rightarrow> Inl (RuntimeError ''IN: empty list'')
            | Some [] \<Rightarrow> Inl (RuntimeError ''IN: empty list'')
            | Some vs \<Rightarrow>
                bindE (mapE (\<lambda>v. case literal_text v of
                         Some t \<Rightarrow> Inr t
                       | None \<Rightarrow> Inl (RuntimeError ''IN: only literal elements supported'')) (nonnull vs))
                  (\<lambda>ts. Inr (in_predicate_node (toColumnFromExpr (Some left) al) ts))))"

definition buildJoinPredicate :: "(string \<rightharpoonup> string) \<Rightarrow> Expr \<Rightarrow> LogicalPlanNode" where
  "buildJoinPredicate al pred =
     LNode ((new_node L_JOIN)\<lparr>
        base_columns := [toColumnFromExpr (unwrapSimpleFunction (expr pred)) al,
                         toColumnFromExpr (unwrapSimpleFunction (expr2 pred)) al],
        expression := Expression_default\<lparr>comp_type := Some C_EQ\<rparr>\<rparr>) []"

definition buildBetweenPredicate :: "(string \<rightharpoonup> string) \<Rightarrow> Expr \<Rightarrow> LogicalPlanNode" where
  "buildBetweenPredicate al pred =
     LNode ((new_node L_FILTER)\<lparr>
        base_columns := [toColumnFromExpr (unwrapSimpleFunction (expr pred)) al],
        expression := Expression_default\<lparr>comp_type := Some C_BETWEEN,
          literals := (case exprList pred of Some [a, b] \<Rightarrow> [exprToLiteral a, exprToLiteral b] | _ \<Rightarrow> [])\<rparr>\<rparr>) []"

definition like_string_op :: "PlanCompType \<Rightarrow> PlanStringOp option \<Rightarrow> PlanStringOp option \<Rightarrow> PlanStringOp option" where
  "like_string_op cmp l_op r_op =
     (if cmp = C_LIKE then
        (case (l_op, r_op) of
           (Some l, Some r) \<Rightarrow> if l = r then Some l else None
         | (Some l, None) \<Rightarrow> Some l
         | (None, Some r) \<Rightarrow> Some r
         | (None, None) \<Rightarrow> None)
      else None)"

definition comparison_node ::
  "(string \<rightharpoonup> string) \<Rightarrow> PlanCompType \<Rightarrow> PlanStringOp option \<Rightarrow> Expr \<Rightarrow> Expr \<Rightarrow> LogicalPlanNode" where
  "comparison_node al cmp op colSide litSide =
     (let col = toColumnFromExpr (Some colSide) al;
          ex = Expression_default\<lparr>comp_type := Some cmp, string_op := op\<rparr> in
      LNode
        (if is_col litSide
         then (new_node L_FILTER)\<lparr>base_columns := [col, toColumnFromExpr (Some litSide) al], expression := ex\<rparr>
         else (new_node L_FILTER)\<lparr>base_columns := [col],
                 expression := ex\<lparr>literals := fst (appendLiteralValue [] (Some litSide))\<rparr>\<rparr>) [])"

text \<open>\<^const>\<open>None\<close> inside the result is the returned null pointer.\<close>

definition buildComparisonPredicate ::
  "(string \<rightharpoonup> string) \<Rightarrow> Expr \<Rightarrow> PlanCompType \<Rightarrow> LogicalPlanNode option res" where
  "buildComparisonPredicate al pred cmp =
     (let (l_op, L) = unwrapStringOp (expr pred);
          (r_op, R) = unwrapStringOp (expr2 pred) in
      bindE (deref L) (\<lambda>l.
      bindE (column_side l R) (\<lambda>s. case s of
           None \<Rightarrow> Inr None
         | Some (colSide, litSide) \<Rightarrow>
             bindE (deref litSide) (\<lambda>lit.
               Inr (Some (comparison_node al cmp (like_string_op cmp l_op r_op) colSide lit))))))"

definition union_node :: "LogicalPlanNode list \<Rightarrow> LogicalPlanNode" where
  "union_node leaves =
     LNode ((new_node L_SETOPERATION)\<lparr>expression := Expression_default\<lparr>logical_rel_op := Some R_UNION\<rparr>\<rparr>)
       (map Some leaves)"

text \<open>The end of \<open>buildOrPredicate\<close>, once both disjuncts are nodes.\<close>

definition combine_or :: "LogicalPlanNode \<Rightarrow> LogicalPlanNode \<Rightarrow> LogicalPlanNode res" where
  "combine_or left right =
     (let leaves = collectUnionLeaves (Some right) (collectUnionLeaves (Some left) []) in
      if leaves \<noteq> [] \<and> fst (allLeavesSameTable leaves) then Inr (union_node leaves)
      else Inl (RuntimeError ''Unsupported OR predicate (different tables or complex OR)''))"

text \<open>
  The message of the last error ends with the numeric codes of the parser's two enumerations, which
  the parser defines; the model keeps the fixed part of the text.
\<close>

definition unsupported_predicate :: error where
  "unsupported_predicate = RuntimeError ''Unsupported WHERE predicate''"

definition is_join_condition :: "Expr \<Rightarrow> bool res" where
  "is_join_condition pred =
     (if opType (edata pred) = kOpEquals \<and> expr pred \<noteq> None \<and> expr2 pred \<noteq> None then
        bindE (deref (unwrapSimpleFunction (expr pred))) (\<lambda>l.
          if is_col l then bindE (deref (unwrapSimpleFunction (expr2 pred))) (\<lambda>r. Inr (is_col r))
          else Inr False)
      else Inr False)"

function (sequential) buildOrPredicate :: "(string \<rightharpoonup> string) \<Rightarrow> Expr \<Rightarrow> LogicalPlanNode res"
  and buildPredicateNode :: "(string \<rightharpoonup> string) \<Rightarrow> Expr option \<Rightarrow> LogicalPlanNode res" where
  "buildOrPredicate al (Expr d l r xs) =
     bindE (collectOrEqualsSameColumn al (Some (Expr d l r xs)) (Column_default, [])) (\<lambda>(ok, col, values).
       if ok \<and> values \<noteq> [] then Inr (in_predicate_node col values)
       else bindE (buildPredicateNode al l) (\<lambda>left. bindE (buildPredicateNode al r) (combine_or left)))"
| "buildPredicateNode al None = Inl (RuntimeError ''NULL predicate'')"
| "buildPredicateNode al (Some pred) =
     (if etype (edata pred) \<noteq> kExprOperator then Inl unsupported_predicate
      else if opType (edata pred) = kOpIn then buildInPredicate al pred
      else if opType (edata pred) = kOpOr then buildOrPredicate al pred
      else bindE (is_join_condition pred) (\<lambda>join.
        if join then Inr (buildJoinPredicate al pred)
        else if opType (edata pred) = kOpBetween then Inr (buildBetweenPredicate al pred)
        else if expr pred \<noteq> None \<and> expr2 pred \<noteq> None then
          (case mapCompOp (opType (edata pred)) of
             Some cmp \<Rightarrow> bindE (buildComparisonPredicate al pred cmp) (\<lambda>result.
                case result of Some f \<Rightarrow> Inr f | None \<Rightarrow> Inl unsupported_predicate)
           | None \<Rightarrow> Inl unsupported_predicate)
        else Inl unsupported_predicate))"
  by pat_completeness auto
termination
  by (relation "measure (\<lambda>x. case x of Inl (al, e) \<Rightarrow> 2 * size e | Inr (al, e) \<Rightarrow> 2 * size_option size e + 1)") auto

declare buildOrPredicate.simps [simp del] buildPredicateNode.simps(2) [simp del]

section \<open>Shape of the produced nodes\<close>

lemma is_union_union_node [simp]: "is_union (node (union_node leaves))"
  by (simp add: union_node_def is_union_def)

lemma node_type_builders [simp]:
  "node_type (node (in_predicate_node c vs)) = L_FILTER"
  "node_type (node (buildJoinPredicate al e)) = L_JOIN"
  "node_type (node (buildBetweenPredicate al e)) = L_FILTER"
  by (simp_all add: in_predicate_node_def buildJoinPredicate_def buildBetweenPredicate_def)

lemma comparison_node_shape [simp]:
  "node_type (node (comparison_node al cmp op c l)) = L_FILTER"
  "base_columns (node (comparison_node al cmp op c l)) \<noteq> []"
  "children (comparison_node al cmp op c l) = []"
  by (simp_all add: comparison_node_def Let_def)

lemma comparison_filter:
  "buildComparisonPredicate al e cmp = Inr (Some p) \<Longrightarrow> \<exists>op c l. p = comparison_node al cmp op c l"
  unfolding buildComparisonPredicate_def
  by (auto simp: res_iff split: prod.split_asm option.split_asm) blast

lemma in_predicate_shape:
  "buildInPredicate al e = Inr p \<Longrightarrow> \<exists>c ts. p = in_predicate_node c ts"
  unfolding buildInPredicate_def
  by (auto simp: bindE_Inr_iff split: if_split_asm option.split_asm list.split_asm)

lemma getFilterTableName_nonempty: "getFilterTableName n \<noteq> '''' \<Longrightarrow> base_columns (node n) \<noteq> []"
  by (auto simp: getFilterTableName_def)

lemma same_table_loop_filters:
  "fst (same_table_loop ls t) \<Longrightarrow> \<forall>l \<in> set ls. node_type (node l) = L_FILTER \<and> base_columns (node l) \<noteq> []"
proof (induction ls arbitrary: t)
  case (Cons l ls)
  then have "node_type (node l) = L_FILTER" "getFilterTableName l \<noteq> ''''" "\<exists>t'. fst (same_table_loop ls t')"
    by (simp_all add: Let_def split: if_split_asm) blast+
  with Cons.IH show ?case using getFilterTableName_nonempty by auto
qed simp

lemma combine_or_shape:
  "combine_or l r = Inr p \<Longrightarrow>
     \<exists>leaves. leaves \<noteq> [] \<and> leaves = collectUnionLeaves (Some r) (collectUnionLeaves (Some l) []) \<and>
       p = union_node leaves \<and> (\<forall>n \<in> set leaves. node_type (node n) = L_FILTER \<and> base_columns (node n) \<noteq> [])"
  by (auto simp: combine_or_def Let_def allLeavesSameTable_def same_table_loop_filters split: if_splits)

text \<open>Which nodes the builder can return: FILTER, equi-JOIN over two columns, or UNION of FILTERs.\<close>

definition pred_shape :: "LogicalPlanNode \<Rightarrow> bool" where
  "pred_shape p \<longleftrightarrow>
     (node_type (node p) = L_FILTER \<and> base_columns (node p) \<noteq> [] \<and> children p = []) \<or>
     (node_type (node p) = L_JOIN \<and> length (base_columns (node p)) = 2 \<and>
        comp_type (expression (node p)) = Some C_EQ \<and> literals (expression (node p)) = [] \<and>
        string_op (expression (node p)) = None \<and> children p = []) \<or>
     (is_union (node p) \<and> children p \<noteq> [] \<and>
        list_all (\<lambda>c. case c of Some n \<Rightarrow> node_type (node n) = L_FILTER \<and> base_columns (node n) \<noteq> [] | None \<Rightarrow> False)
          (children p))"

lemma pred_shape_in [simp]: "pred_shape (in_predicate_node c ts)"
  by (simp add: pred_shape_def in_predicate_node_def)

lemma pred_shape_join [simp]: "pred_shape (buildJoinPredicate al e)"
  by (simp add: pred_shape_def buildJoinPredicate_def)

lemma pred_shape_between [simp]: "pred_shape (buildBetweenPredicate al e)"
  by (simp add: pred_shape_def buildBetweenPredicate_def)

lemma pred_shape_or: "combine_or l r = Inr p \<Longrightarrow> pred_shape p"
  by (drule combine_or_shape) (auto simp: pred_shape_def union_node_def is_union_def list_all_iff)

lemma pred_shape_comparison: "buildComparisonPredicate al e cmp = Inr (Some p) \<Longrightarrow> pred_shape p"
  by (drule comparison_filter) (auto simp: pred_shape_def)

lemma buildOrPredicate_shape: "buildOrPredicate al e = Inr p \<Longrightarrow> pred_shape p"
  by (cases e) (auto simp: buildOrPredicate.simps res_iff pred_shape_or split: prod.splits if_splits)

lemma buildPredicateNode_pred_shape:
  assumes "buildPredicateNode al e = Inr p"
  shows "pred_shape p"
proof (cases e)
  case (Some x)
  with assms consider "buildInPredicate al x = Inr p" | "buildOrPredicate al x = Inr p"
    | "p = buildJoinPredicate al x" | "p = buildBetweenPredicate al x"
    | cmp where "buildComparisonPredicate al x cmp = Inr (Some p)"
    by (auto simp: buildPredicateNode.simps(2) res_iff split: if_split_asm option.split_asm)
  then show ?thesis
    by cases (auto simp: buildOrPredicate_shape pred_shape_comparison dest!: in_predicate_shape)
qed (use assms in simp)

lemma pred_shape_wf_pred: "pred_shape p \<Longrightarrow> node_type (node p) \<noteq> L_JOIN \<Longrightarrow> wf_pred p"
  by (auto simp: pred_shape_def wf_pred_def list_all_iff neq_Nil_conv split: option.splits)

text \<open>
  C8. Whatever condition the builder accepts, the node it returns is a FILTER with an operand column,
  an equality JOIN over exactly two columns, or a UNION whose children are all FILTERs (no null
  child): the cases the plan builder sorts predicates into, and exactly those that selection pushdown
  is proved correct for.
\<close>

theorem buildPredicateNode_shape:
  assumes "buildPredicateNode al e = Inr p"
  shows "pred_shape p \<and> (node_type (node p) = L_JOIN \<or> wf_pred p)"
  using buildPredicateNode_pred_shape [OF assms] pred_shape_wf_pred by blast

theorem buildPredicateNode_shape_witness:
  "\<exists>p. buildPredicateNode Map.empty (Some (bin_op kOpOr (bin_op kOpLess (col_ref ''a'' ''x'') (int_lit 5))
          (bin_op kOpEquals (col_ref ''a'' ''y'') (str_lit ''q'')))) = Inr p
     \<and> pred_shape p \<and> (node_type (node p) = L_JOIN \<or> wf_pred p)"
proof -
  let ?e = "Some (bin_op kOpOr (bin_op kOpLess (col_ref ''a'' ''x'') (int_lit 5))
          (bin_op kOpEquals (col_ref ''a'' ''y'') (str_lit ''q'')))"
  have "\<not> isl (buildPredicateNode Map.empty ?e)" by code_simp
  then obtain p where "buildPredicateNode Map.empty ?e = Inr p" by (auto simp: isl_def split: sum.splits) (metis sum.exhaust)
  with buildPredicateNode_shape [OF this] show ?thesis by blast
qed

section \<open>Reference semantics of SQL conditions\<close>

text \<open>
  The meaning of a WHERE condition over an environment, written from SQL: \<open>lit\<close> reads a literal's
  text, \<open>sqlop\<close> compares two values under an SQL operator; both belong to the execution engine.
  A comparison with an unbound operand does not hold. Which column a reference means and which text a literal has
  is taken from the code (\<open>toColumnFromExpr\<close>, \<open>literal_text\<close>), not specified independently.
\<close>

definition cmp2 :: "('v \<Rightarrow> 'v \<Rightarrow> bool) \<Rightarrow> 'v option \<Rightarrow> 'v option \<Rightarrow> bool" where
  "cmp2 f x y = (case (x, y) of (Some a, Some b) \<Rightarrow> f a b | _ \<Rightarrow> False)"

definition operand_value :: "(string \<rightharpoonup> string) \<Rightarrow> (string \<Rightarrow> 'v) \<Rightarrow> 'v env \<Rightarrow> Expr option \<Rightarrow> 'v option" where
  "operand_value al lit env e =
     (case e of
        None \<Rightarrow> None
      | Some x \<Rightarrow> if is_col x then colval env (toColumnFromExpr e al) else map_option lit (literal_text x))"

fun sql_holds ::
  "(string \<rightharpoonup> string) \<Rightarrow> (string \<Rightarrow> 'v) \<Rightarrow> (OperatorType \<Rightarrow> 'v \<Rightarrow> 'v \<Rightarrow> bool) \<Rightarrow> 'v env \<Rightarrow> Expr option \<Rightarrow> bool" where
  "sql_holds al lit sqlop env None = True"
| "sql_holds al lit sqlop env (Some (Expr d l r xs)) =
     (etype d = kExprOperator \<and>
      (case opType d of
         kOpAnd \<Rightarrow> sql_holds al lit sqlop env l \<and> sql_holds al lit sqlop env r
       | kOpOr \<Rightarrow> sql_holds al lit sqlop env l \<or> sql_holds al lit sqlop env r
       | kOpIn \<Rightarrow>
           (case xs of
              Some vs \<Rightarrow> list_ex (\<lambda>v. cmp2 (sqlop kOpEquals) (operand_value al lit env l)
                                      (operand_value al lit env (Some v))) (nonnull vs)
            | None \<Rightarrow> False)
       | kOpBetween \<Rightarrow>
           (case xs of
              Some [a, b] \<Rightarrow>
                cmp2 (sqlop kOpGreaterEq) (operand_value al lit env l) (operand_value al lit env a) \<and>
                cmp2 (sqlop kOpLessEq) (operand_value al lit env l) (operand_value al lit env b)
            | _ \<Rightarrow> False)
       | oper \<Rightarrow> cmp2 (sqlop oper) (operand_value al lit env l) (operand_value al lit env r)))"

lemma sql_holds_and:
  "etype d = kExprOperator \<Longrightarrow> opType d = kOpAnd \<Longrightarrow>
     sql_holds al lit sqlop env (Some (Expr d l r xs)) = (sql_holds al lit sqlop env l \<and> sql_holds al lit sqlop env r)"
  by simp

lemma splitConjuncts_holds:
  "list_all (\<lambda>c. sql_holds al lit sqlop env (Some c)) (splitConjuncts e out) \<longleftrightarrow>
     list_all (\<lambda>c. sql_holds al lit sqlop env (Some c)) out \<and> sql_holds al lit sqlop env e"
  by (induction e out rule: splitConjuncts.induct) (auto simp del: sql_holds.simps(2) simp: sql_holds_and)

text \<open>
  Splitting the WHERE clause at its top-level ANDs loses nothing: the clause holds on a row
  exactly when every conjunct does, for every nesting of AND and with null operands.
\<close>

theorem splitConjuncts_correct:
  "sql_holds al lit sqlop env e =
     list_all (\<lambda>c. sql_holds al lit sqlop env (Some c)) (splitConjuncts e [])"
  by (simp add: splitConjuncts_holds)

section \<open>What the engine is expected to compute\<close>

text \<open>The SQL operator a plan comparison stands for.\<close>

definition plan_cmp :: "(OperatorType \<Rightarrow> 'v \<Rightarrow> 'v \<Rightarrow> bool) \<Rightarrow> PlanCompType \<Rightarrow> 'v \<Rightarrow> 'v \<Rightarrow> bool" where
  "plan_cmp sqlop c =
     (case c of
        C_LT \<Rightarrow> sqlop kOpLess
      | C_LE \<Rightarrow> sqlop kOpLessEq
      | C_EQ \<Rightarrow> sqlop kOpEquals
      | C_GE \<Rightarrow> sqlop kOpGreaterEq
      | C_GT \<Rightarrow> sqlop kOpGreater
      | C_NE \<Rightarrow> sqlop kOpNotEquals
      | C_LIKE \<Rightarrow> sqlop kOpLike
      | _ \<Rightarrow> (\<lambda>_ _. False))"

definition engine_spec ::
  "'v engine \<Rightarrow> (string \<Rightarrow> 'v) \<Rightarrow> (OperatorType \<Rightarrow> 'v \<Rightarrow> 'v \<Rightarrow> bool) \<Rightarrow> bool" where
  "engine_spec eng lit sqlop \<longleftrightarrow>
     (\<forall>c l x. c \<noteq> C_IN \<longrightarrow> c \<noteq> C_BETWEEN \<longrightarrow> eng c None [l] [x] = cmp2 (plan_cmp sqlop c) x (Some (lit l))) \<and>
     (\<forall>c x y. c \<noteq> C_IN \<longrightarrow> c \<noteq> C_BETWEEN \<longrightarrow> eng c None [] [x, y] = cmp2 (plan_cmp sqlop c) x y) \<and>
     (\<forall>ls x. eng C_IN None ls [x] = list_ex (\<lambda>l. cmp2 (sqlop kOpEquals) x (Some (lit l))) ls) \<and>
     (\<forall>a b x. eng C_BETWEEN None [a, b] [x] =
        (cmp2 (sqlop kOpGreaterEq) x (Some (lit a)) \<and> cmp2 (sqlop kOpLessEq) x (Some (lit b))))"

text \<open>
  The conditions the translation is faithful on: comparisons of a column with a literal or a column,
  the column first unless the operator is symmetric, IN and BETWEEN over literals, and ORs of these;
  no function call around an operand.
\<close>

definition plain_col :: "Expr option \<Rightarrow> bool" where
  "plain_col e = (case e of Some x \<Rightarrow> is_col x \<and> str_of (ename (edata x)) \<noteq> '''' | None \<Rightarrow> False)"

definition plain_literal :: "Expr option \<Rightarrow> bool" where
  "plain_literal e = (case e of Some x \<Rightarrow> literal_text x \<noteq> None | None \<Rightarrow> False)"

definition plain_operand :: "Expr option \<Rightarrow> bool" where
  "plain_operand e = (plain_col e \<or> plain_literal e)"

fun plain_cond :: "Expr option \<Rightarrow> bool" where
  "plain_cond None = False"
| "plain_cond (Some (Expr d l r xs)) =
     (etype d = kExprOperator \<and>
      (case opType d of
         kOpOr \<Rightarrow> plain_cond l \<and> plain_cond r
       | kOpIn \<Rightarrow> plain_col l
       | kOpBetween \<Rightarrow> plain_col l \<and> (case xs of Some [a, b] \<Rightarrow> plain_literal a \<and> plain_literal b | _ \<Rightarrow> False)
       | kOpEquals \<Rightarrow> plain_operand l \<and> plain_operand r
       | kOpNotEquals \<Rightarrow> plain_operand l \<and> plain_operand r
       | oper \<Rightarrow> oper \<in> {kOpGreater, kOpLess, kOpGreaterEq, kOpLessEq, kOpLike} \<and> plain_col l \<and> plain_operand r))"

section \<open>Operands\<close>

lemma plain_literalE:
  assumes "plain_literal e"
  obtains x t where "e = Some x" "literal_text x = Some t" "\<not> is_col x" "etype (edata x) \<noteq> kExprFunctionRef"
  using assms by (auto simp: plain_literal_def literal_text_def is_col_def split: option.splits if_splits)

lemma plain_colE:
  assumes "plain_col e"
  obtains x where "e = Some x" "is_col x" "str_of (ename (edata x)) \<noteq> ''''" "etype (edata x) \<noteq> kExprFunctionRef"
  using assms by (auto simp: plain_col_def is_col_def split: option.splits)

lemma unwrap_plain [simp]:
  "etype (edata x) \<noteq> kExprFunctionRef \<Longrightarrow> unwrapSimpleFunction (Some x) = Some x"
  "etype (edata x) \<noteq> kExprFunctionRef \<Longrightarrow> unwrapStringOp (Some x) = (None, Some x)"
  by (simp_all add: unwrapSimpleFunction_def unwrapStringOp_def)

lemma literal_text_exprToLiteral: "literal_text x = Some t \<Longrightarrow> exprToLiteral (Some x) = t"
  by (auto simp: literal_text_def exprToLiteral_def split: if_splits)

lemma literal_text_append: "literal_text x = Some t \<Longrightarrow> fst (appendLiteralValue [] (Some x)) = [t]"
  by (auto simp: literal_text_def appendLiteralValue_def split: if_splits)

lemma toColumnFromExpr_name:
  "is_col x \<Longrightarrow> column_name (toColumnFromExpr (Some x) al) = str_of (ename (edata x))"
  by (simp add: toColumnFromExpr_def is_col_def Let_def)

lemma colval_same_names:
  "column_name c = column_name c' \<Longrightarrow> table_name c = table_name c' \<Longrightarrow> colval env c = colval env c'"
  by (simp add: colval_def resolveTableName_def)

lemma operand_value_simps [simp]:
  "is_col x \<Longrightarrow> operand_value al lit env (Some x) = colval env (toColumnFromExpr (Some x) al)"
  "\<not> is_col x \<Longrightarrow> operand_value al lit env (Some x) = map_option lit (literal_text x)"
  by (simp_all add: operand_value_def)

lemma cmp2_commute: "(\<And>a b. f a b = f b a) \<Longrightarrow> cmp2 f x y = cmp2 f y x"
  by (auto simp: cmp2_def split: option.splits)

section \<open>OR of equalities becomes IN\<close>

lemma collect_columnE:
  assumes "collect_column al x v (c, vs) = Inr (True, c', vs')"
  obtains y t where "v = Some y" "literal_text y = Some t" "vs' = vs @ [t]"
    "c' = (if column_name c = '''' \<and> table_name c = '''' then toColumnFromExpr (Some x) al else c)"
    "\<not> (column_name c = '''' \<and> table_name c = '''') \<Longrightarrow>
      column_name c = column_name (toColumnFromExpr (Some x) al) \<and> table_name c = table_name (toColumnFromExpr (Some x) al)"
proof (cases v)
  case None
  with assms show ?thesis by (simp add: collect_column_def Let_def deref_def split: if_split_asm)
next
  case (Some y)
  then show ?thesis
    by (cases "literal_text y"; rule that [of y])
      (use assms in \<open>auto simp: collect_column_def Let_def deref_def split: if_split_asm\<close>)
qed

lemma collect_equals_step:
  assumes "plain_operand (Some l)" "plain_operand (Some r)"
    and "collect_equals al l r (c, vs) = Inr (True, c', vs')"
    and sym: "\<And>a b. sqlop kOpEquals a b = sqlop kOpEquals b a"
  obtains w where "vs' = vs @ [w]" "column_name c' \<noteq> ''''"
    "column_name c \<noteq> '''' \<or> table_name c \<noteq> '''' \<Longrightarrow> c' = c"
    "\<And>env. cmp2 (sqlop kOpEquals) (operand_value al lit env (Some l)) (operand_value al lit env (Some r)) =
       cmp2 (sqlop kOpEquals) (colval env c') (Some (lit w))"
proof -
  have nf: "etype (edata l) \<noteq> kExprFunctionRef" "etype (edata r) \<noteq> kExprFunctionRef"
    using assms(1,2) by (auto simp: plain_operand_def elim: plain_colE plain_literalE)
  from assms(3) nf obtain x v where "column_side l (Some r) = Inr (Some (x, v))"
    "collect_column al x v (c, vs) = Inr (True, c', vs')"
    by (auto simp: collect_equals_def res_iff split: option.split_asm)
  then obtain y t where xy: "column_side l (Some r) = Inr (Some (x, Some y))"
    and t: "literal_text y = Some t" "vs' = vs @ [t]"
    and c': "c' = (if column_name c = '''' \<and> table_name c = '''' then toColumnFromExpr (Some x) al else c)"
    and same: "\<not> (column_name c = '''' \<and> table_name c = '''') \<Longrightarrow>
      column_name c = column_name (toColumnFromExpr (Some x) al) \<and> table_name c = table_name (toColumnFromExpr (Some x) al)"
    by (elim collect_columnE) blast
  from xy have x: "is_col x" "x = l \<and> y = r \<or> x = r \<and> y = l \<and> \<not> is_col l"
    by (auto simp: column_side_def deref_def split: if_split_asm)
  have y: "\<not> is_col y" using t(1) by (auto simp: literal_text_def is_col_def split: if_split_asm)
  have nm: "column_name (toColumnFromExpr (Some x) al) \<noteq> ''''"
    using x assms(1,2) by (auto simp: toColumnFromExpr_name plain_operand_def elim!: plain_colE plain_literalE)
  have cv: "colval env c' = colval env (toColumnFromExpr (Some x) al)" for env
    using same c' by (auto intro: colval_same_names)
  have "cmp2 (sqlop kOpEquals) (operand_value al lit env (Some l)) (operand_value al lit env (Some r)) =
      cmp2 (sqlop kOpEquals) (operand_value al lit env (Some x)) (operand_value al lit env (Some y))" for env
    using x(2) cmp2_commute [of "sqlop kOpEquals", OF sym] by metis
  then have "cmp2 (sqlop kOpEquals) (operand_value al lit env (Some l)) (operand_value al lit env (Some r)) =
      cmp2 (sqlop kOpEquals) (colval env c') (Some (lit t))" for env
    using x(1) y t(1) by (simp add: cv)
  moreover have "column_name c' \<noteq> ''''" using nm same c' by auto
  ultimately show ?thesis using t(2) c' by (intro that [of t]) auto
qed

lemma collectOrEquals_correct:
  assumes "collectOrEqualsSameColumn al e (c, vs) = Inr (True, c', vs')" "plain_cond e"
    and sym: "\<And>a b. sqlop kOpEquals a b = sqlop kOpEquals b a"
  shows "\<exists>ws. vs' = vs @ ws \<and> column_name c' \<noteq> '''' \<and>
    (column_name c \<noteq> '''' \<or> table_name c \<noteq> '''' \<longrightarrow> c' = c) \<and>
    (\<forall>env. sql_holds al lit sqlop env e = list_ex (\<lambda>w. cmp2 (sqlop kOpEquals) (colval env c') (Some (lit w))) ws)"
  using assms(1,2)
proof (induction al e "(c, vs)" arbitrary: c vs c' vs' rule: collectOrEqualsSameColumn.induct)
  case (2 al d l r xs c vs)
  show ?case
  proof (cases "opType d = kOpOr")
    case True
    with 2(3,4) obtain c1 vs1 where
      l: "collectOrEqualsSameColumn al l (c, vs) = Inr (True, c1, vs1)" "plain_cond l" and
      r: "collectOrEqualsSameColumn al r (c1, vs1) = Inr (True, c', vs')" "plain_cond r"
      by (auto simp: res_iff split: if_split_asm prod.split_asm)
    have op: "etype d = kExprOperator \<and> opType d = kOpOr" using True 2(4) by simp
    show ?thesis using "2.hyps"(1) [OF op l] "2.hyps"(2) [OF op l(1) refl TrueI r] True op
      by (auto simp: list_ex_append)
  next
    case False
    with 2(3) have op: "etype d = kExprOperator" "opType d = kOpEquals" by (auto split: if_split_asm)
    with False 2(3,4) obtain l' r' where lr: "l = Some l'" "r = Some r'"
      "collect_equals al l' r' (c, vs) = Inr (True, c', vs')" "plain_operand (Some l')" "plain_operand (Some r')"
      by (auto split: option.split_asm)
    from collect_equals_step [where sqlop = sqlop and lit = lit, OF lr(4,5,3) sym] obtain w where
      "vs' = vs @ [w]" "column_name c' \<noteq> ''''" "column_name c \<noteq> '''' \<or> table_name c \<noteq> '''' \<longrightarrow> c' = c"
      "\<And>env. cmp2 (sqlop kOpEquals) (operand_value al lit env (Some l')) (operand_value al lit env (Some r')) =
       cmp2 (sqlop kOpEquals) (colval env c') (Some (lit w))" by metis
    with lr(1,2) op show ?thesis by auto
  qed
qed simp

section \<open>The built node means what the condition means\<close>

definition pred_leaves :: "LogicalPlanNode \<Rightarrow> LogicalPlanNode list" where
  "pred_leaves p = (if is_union (node p) then nonnull (children p) else [p])"

lemma sat_leaves: "pred_shape p \<Longrightarrow> sat eng p env = (\<exists>n \<in> set (pred_leaves p). sat_node eng (node n) env)"
  by (auto simp: sat_def pred_leaves_def pred_shape_def is_union_def)

lemma collectUnionLeaves_filters:
  "\<forall>c \<in> set ch. \<exists>n. c = Some n \<and> node_type (node n) = L_FILTER \<Longrightarrow>
     fold collectUnionLeaves ch out = out @ nonnull ch"
proof (induction ch arbitrary: out)
  case (Cons c ch)
  then obtain n where c: "c = Some n" "node_type (node n) = L_FILTER" by auto
  then have "collectUnionLeaves c out = out @ [n]" by (cases n) (simp add: is_union_def)
  with Cons c(1) show ?case by simp
qed simp

lemma collectUnionLeaves_shape:
  assumes "pred_shape p"
  shows "collectUnionLeaves (Some p) out = out @ pred_leaves p"
proof (cases p)
  case (LNode d ch)
  show ?thesis
  proof (cases "is_union d")
    case True
    with assms LNode have "\<forall>c \<in> set ch. \<exists>n. c = Some n \<and> node_type (node n) = L_FILTER"
      by (auto simp: pred_shape_def list_all_iff is_union_def split: option.splits)
    with True LNode show ?thesis by (simp add: pred_leaves_def collectUnionLeaves_filters)
  qed (simp add: LNode pred_leaves_def)
qed

lemma combine_or_sat:
  assumes "combine_or l r = Inr p" "pred_shape l" "pred_shape r"
  shows "sat eng p env = (sat eng l env \<or> sat eng r env)"
proof -
  have "p = union_node (pred_leaves l @ pred_leaves r)"
    using assms by (auto simp: collectUnionLeaves_shape dest!: combine_or_shape)
  then have "sat eng p env = (\<exists>n \<in> set (pred_leaves l @ pred_leaves r). sat_node eng (node n) env)"
    by (simp add: sat_def union_node_def)
  with assms(2,3) show ?thesis by (auto simp: sat_leaves)
qed

lemma sat_in_predicate_node:
  "engine_spec eng lit sqlop \<Longrightarrow>
     sat eng (in_predicate_node c ts) env = list_ex (\<lambda>t. cmp2 (sqlop kOpEquals) (colval env c) (Some (lit t))) ts"
  by (simp add: sat_def sat_node_def in_predicate_node_def engine_spec_def)

lemma buildIn_sat:
  assumes "engine_spec eng lit sqlop" "plain_col l" "buildInPredicate al (Expr d l r xs) = Inr p"
    "etype d = kExprOperator" "opType d = kOpIn"
  shows "sat eng p env = sql_holds al lit sqlop env (Some (Expr d l r xs))"
proof -
  from assms(2) obtain x where x: "l = Some x" "is_col x" "etype (edata x) \<noteq> kExprFunctionRef" by (rule plain_colE)
  with assms(3) obtain vs ts where xs: "xs = Some vs"
    and ts: "mapE (\<lambda>v. case literal_text v of Some t \<Rightarrow> Inr t
                       | None \<Rightarrow> Inl (RuntimeError ''IN: only literal elements supported'')) (nonnull vs) = Inr ts"
    and p: "p = in_predicate_node (toColumnFromExpr (Some x) al) ts"
    by (auto simp: buildInPredicate_def bindE_Inr_iff split: if_split_asm option.split_asm list.split_asm)
  from ts have all2: "list_all2 (\<lambda>v t. literal_text v = Some t) (nonnull vs) ts"
    by (auto simp: mapE_Inr_iff elim!: list_all2_mono split: option.split_asm)
  have notcol: "literal_text v = Some t \<Longrightarrow> \<not> is_col v" for v t
    by (auto simp: literal_text_def is_col_def split: if_split_asm)
  have "list_ex (\<lambda>t. cmp2 f y (Some (lit t))) ts = list_ex (\<lambda>v. cmp2 f y (operand_value al lit env (Some v))) (nonnull vs)" for f y
    using all2 by (induction rule: list_all2_induct) (simp_all add: notcol)
  with assms(1,4,5) x xs p show ?thesis by (simp add: sat_in_predicate_node)
qed

lemma comparison_sat:
  assumes "engine_spec eng lit sqlop" "is_col x" "plain_operand (Some y)" "cmp \<noteq> C_IN" "cmp \<noteq> C_BETWEEN"
  shows "sat eng (comparison_node al cmp None x y) env =
    cmp2 (plan_cmp sqlop cmp) (operand_value al lit env (Some x)) (operand_value al lit env (Some y))"
proof (cases "is_col y")
  case True
  with assms show ?thesis by (simp add: sat_def sat_node_def comparison_node_def Let_def engine_spec_def)
next
  case False
  with assms(3) obtain t where "literal_text y = Some t"
    by (auto simp: plain_operand_def plain_col_def elim: plain_literalE)
  with False assms show ?thesis
    by (simp add: sat_def sat_node_def comparison_node_def Let_def engine_spec_def literal_text_append)
qed

lemma buildComparison_plain:
  assumes "plain_operand (Some x)" "plain_operand (Some y)"
  shows "buildComparisonPredicate al (Expr d (Some x) (Some y) xs) cmp =
    Inr (if is_col x then Some (comparison_node al cmp None x y)
         else if is_col y then Some (comparison_node al cmp None y x) else None)"
proof -
  have "etype (edata x) \<noteq> kExprFunctionRef" "etype (edata y) \<noteq> kExprFunctionRef"
    using assms by (auto simp: plain_operand_def elim: plain_colE plain_literalE)
  then show ?thesis
    by (simp add: buildComparisonPredicate_def column_side_def like_string_op_def deref_def)
qed

lemma is_join_condition_plain:
  assumes "plain_operand (Some x)" "plain_operand (Some y)"
  shows "is_join_condition (Expr d (Some x) (Some y) xs) = Inr (opType d = kOpEquals \<and> is_col x \<and> is_col y)"
proof -
  have "etype (edata x) \<noteq> kExprFunctionRef" "etype (edata y) \<noteq> kExprFunctionRef"
    using assms by (auto simp: plain_operand_def elim: plain_colE plain_literalE)
  then show ?thesis by (simp add: is_join_condition_def deref_def)
qed

lemma join_sat:
  assumes "engine_spec eng lit sqlop" "plain_operand (Some x)" "plain_operand (Some y)" "is_col x" "is_col y"
  shows "sat eng (buildJoinPredicate al (Expr d (Some x) (Some y) xs)) env =
    cmp2 (sqlop kOpEquals) (operand_value al lit env (Some x)) (operand_value al lit env (Some y))"
proof -
  have "etype (edata x) \<noteq> kExprFunctionRef" "etype (edata y) \<noteq> kExprFunctionRef"
    using assms by (auto simp: plain_operand_def elim: plain_colE plain_literalE)
  then show ?thesis using assms(1,4,5)
    by (simp add: sat_def sat_node_def buildJoinPredicate_def engine_spec_def plan_cmp_def)
qed

text \<open>A plain comparison: \<open>oper\<close> is any of the six relational operators or LIKE.\<close>

lemma comparison_build_sat:
  assumes eng: "engine_spec eng lit sqlop" and op: "etype d = kExprOperator" "opType d = oper"
    and ops: "plain_operand l" "plain_operand r"
    and map: "mapCompOp oper = Some cmp" "plan_cmp sqlop cmp = sqlop oper" "cmp \<noteq> C_IN" "cmp \<noteq> C_BETWEEN"
    and nop: "oper \<noteq> kOpIn" "oper \<noteq> kOpOr" "oper \<noteq> kOpBetween"
    and dir: "plain_col l \<or> (\<forall>a b. sqlop oper a b = sqlop oper b a)"
    and p: "buildPredicateNode al (Some (Expr d l r xs)) = Inr p"
  shows "sat eng p env = cmp2 (sqlop oper) (operand_value al lit env l) (operand_value al lit env r)"
proof -
  from ops obtain x y where lr: "l = Some x" "r = Some y"
    by (auto simp: plain_operand_def elim!: plain_colE plain_literalE)
  note o = ops [unfolded lr]
  show ?thesis
  proof (cases "oper = kOpEquals \<and> is_col x \<and> is_col y")
    case True
    with p op nop o have "p = buildJoinPredicate al (Expr d (Some x) (Some y) xs)"
      by (auto simp: buildPredicateNode.simps(2) lr is_join_condition_plain)
    with True eng o show ?thesis by (simp add: lr join_sat)
  next
    case False
    with p op nop o map(1) have cases: "is_col x \<and> p = comparison_node al cmp None x y \<or>
        \<not> is_col x \<and> is_col y \<and> p = comparison_node al cmp None y x"
      by (simp add: buildPredicateNode.simps(2) lr is_join_condition_plain buildComparison_plain split: if_split_asm)
    have "\<not> is_col x \<Longrightarrow> cmp2 (sqlop oper) u v = cmp2 (sqlop oper) v u" for u v
      using dir cmp2_commute [of "sqlop oper"] by (auto simp: lr plain_col_def)
    with cases show ?thesis using comparison_sat [OF eng _ o(2) map(3,4)] comparison_sat [OF eng _ o(1) map(3,4)]
      by (auto simp: lr map(2))
  qed
qed

lemma plain_comparison_sat:
  assumes eng: "engine_spec eng lit sqlop"
    and sym: "\<And>a b. sqlop kOpEquals a b = sqlop kOpEquals b a" "\<And>a b. sqlop kOpNotEquals a b = sqlop kOpNotEquals b a"
    and plain: "plain_cond (Some (Expr d l r xs))" and p: "buildPredicateNode al (Some (Expr d l r xs)) = Inr p"
    and oper: "opType d \<in> {kOpEquals, kOpNotEquals, kOpGreater, kOpLess, kOpGreaterEq, kOpLessEq, kOpLike}"
  shows "sat eng p env = sql_holds al lit sqlop env (Some (Expr d l r xs))"
proof -
  have d: "etype d = kExprOperator" using plain by simp
  obtain c where "mapCompOp (opType d) = Some c" "plan_cmp sqlop c = sqlop (opType d)" "c \<noteq> C_IN" "c \<noteq> C_BETWEEN"
    using oper by (auto simp: mapCompOp_def plan_cmp_def)
  moreover have "plain_operand l" "plain_operand r"
    "plain_col l \<or> (\<forall>a b. sqlop (opType d) a b = sqlop (opType d) b a)"
    using plain oper sym by (auto simp: plain_operand_def)
  ultimately have "sat eng p env = cmp2 (sqlop (opType d)) (operand_value al lit env l) (operand_value al lit env r)"
    by (intro comparison_build_sat [OF eng d refl _ _ _ _ _ _ _ _ _ _ p]) (use oper in auto)
  with oper d show ?thesis by auto
qed

lemma plain_between_sat:
  assumes eng: "engine_spec eng lit sqlop" and d: "etype d = kExprOperator" "opType d = kOpBetween"
    and plain: "plain_cond (Some (Expr d l r xs))" and p: "buildPredicateNode al (Some (Expr d l r xs)) = Inr p"
  shows "sat eng p env = sql_holds al lit sqlop env (Some (Expr d l r xs))"
proof -
  from d plain obtain a b where xs: "xs = Some [a, b]" "plain_literal a" "plain_literal b"
    by (auto split: option.split_asm list.split_asm)
  from d plain obtain x where x: "l = Some x" "is_col x" "etype (edata x) \<noteq> kExprFunctionRef"
    by (auto elim: plain_colE)
  obtain u v s t where ab: "a = Some u" "literal_text u = Some s" "\<not> is_col u"
    "b = Some v" "literal_text v = Some t" "\<not> is_col v"
    using xs(2,3) by (elim plain_literalE) blast
  have "p = buildBetweenPredicate al (Expr d l r xs)"
    using p d by (simp add: buildPredicateNode.simps(2) is_join_condition_def)
  with eng d x xs(1) ab show ?thesis
    by (simp add: sat_def sat_node_def buildBetweenPredicate_def engine_spec_def literal_text_exprToLiteral)
qed

lemma plain_or_in_sat:
  assumes eng: "engine_spec eng lit sqlop"
    and sym: "\<And>a b. sqlop kOpEquals a b = sqlop kOpEquals b a"
    and "plain_cond e" "collectOrEqualsSameColumn al e (Column_default, []) = Inr (True, c, vs)"
  shows "sat eng (in_predicate_node c vs) env = sql_holds al lit sqlop env e"
  using collectOrEquals_correct [where sqlop = sqlop and lit = lit, OF assms(4,3) sym]
  unfolding sat_in_predicate_node [OF eng] by (metis append_Nil)

lemma plain_predicate_sat:
  assumes eng: "engine_spec eng lit sqlop"
    and sym: "\<And>a b. sqlop kOpEquals a b = sqlop kOpEquals b a" "\<And>a b. sqlop kOpNotEquals a b = sqlop kOpNotEquals b a"
    and "plain_cond e" "buildPredicateNode al e = Inr p"
  shows "sat eng p env = sql_holds al lit sqlop env e"
  using assms(4,5)
proof (induction e arbitrary: p rule: plain_cond.induct)
  case (2 d l r xs)
  have d: "etype d = kExprOperator" using "2.prems"(1) by simp
  show ?case
  proof (cases "opType d")
    case kOpOr
    with "2.prems" d have "buildOrPredicate al (Expr d l r xs) = Inr p"
      by (simp add: buildPredicateNode.simps(2))
    then obtain ok c vs where col: "collectOrEqualsSameColumn al (Some (Expr d l r xs)) (Column_default, []) = Inr (ok, c, vs)"
      and p: "(if ok \<and> vs \<noteq> [] then Inr (in_predicate_node c vs)
        else bindE (buildPredicateNode al l) (\<lambda>left. bindE (buildPredicateNode al r) (combine_or left))) = Inr p"
      by (auto simp: buildOrPredicate.simps bindE_Inr_iff)
    show ?thesis
    proof (cases "ok \<and> vs \<noteq> []")
      case True
      with col have col': "collectOrEqualsSameColumn al (Some (Expr d l r xs)) (Column_default, []) = Inr (True, c, vs)"
        by (simp only:)
      have "p = in_predicate_node c vs" using True p by simp
      then show ?thesis by (simp only: plain_or_in_sat [OF eng sym(1) "2.prems"(1) col'])

    next
      case False
      with p obtain pl pr where lr: "buildPredicateNode al l = Inr pl" "buildPredicateNode al r = Inr pr"
        "combine_or pl pr = Inr p" by (auto simp: bindE_Inr_iff split: if_split_asm)
      have "pred_shape pl" "pred_shape pr" using lr(1,2) by (auto intro: buildPredicateNode_pred_shape)
      with lr "2.IH" d kOpOr "2.prems"(1) show ?thesis by (simp add: combine_or_sat)
    qed
  next
    case kOpIn
    with "2.prems" d show ?thesis
      by (intro buildIn_sat [OF eng]) (simp_all add: buildPredicateNode.simps(2))
  next
    case kOpBetween
    then show ?thesis by (rule plain_between_sat [OF eng d _ "2.prems"])

  qed (use "2.prems"(1) plain_comparison_sat [OF eng sym "2.prems"] in simp_all)
qed simp

text \<open>
  C7. Predicate translation is correct: for every condition of the plain fragment that
  \<open>buildPredicateNode\<close> accepts, the node it builds holds on exactly the rows the SQL condition holds
  on. This covers the merging of an OR of equalities on one column into IN, the flattening of other
  ORs into one UNION, JOIN conditions, BETWEEN, IN lists and every comparison operator.
\<close>

theorem buildPredicateNode_correct:
  assumes "engine_spec eng lit sqlop"
    and "\<And>a b. sqlop kOpEquals a b = sqlop kOpEquals b a" "\<And>a b. sqlop kOpNotEquals a b = sqlop kOpNotEquals b a"
    and "plain_cond e" "buildPredicateNode al e = Inr p"
  shows "sat eng p env = sql_holds al lit sqlop env e"
  using assms by (rule plain_predicate_sat)

definition spec_engine :: "(string \<Rightarrow> 'v) \<Rightarrow> (OperatorType \<Rightarrow> 'v \<Rightarrow> 'v \<Rightarrow> bool) \<Rightarrow> 'v engine" where
  "spec_engine lit sqlop c s ls xs =
     (case xs of
        [x] \<Rightarrow>
          if c = C_IN then list_ex (\<lambda>l. cmp2 (sqlop kOpEquals) x (Some (lit l))) ls
          else (case ls of
              [l] \<Rightarrow> cmp2 (plan_cmp sqlop c) x (Some (lit l))
            | [a, b] \<Rightarrow> c = C_BETWEEN \<and> cmp2 (sqlop kOpGreaterEq) x (Some (lit a)) \<and> cmp2 (sqlop kOpLessEq) x (Some (lit b))
            | _ \<Rightarrow> False)
      | [x, y] \<Rightarrow> cmp2 (plan_cmp sqlop c) x y
      | _ \<Rightarrow> False)"

lemma spec_engine_ok: "engine_spec (spec_engine lit sqlop) lit sqlop"
  by (simp add: engine_spec_def spec_engine_def)

definition ex_sqlop :: "OperatorType \<Rightarrow> string \<Rightarrow> string \<Rightarrow> bool" where
  "ex_sqlop oper a b =
     (if oper = kOpEquals then a = b else if oper = kOpNotEquals then a \<noteq> b
      else if oper = kOpLess then length a < length b else False)"

definition ex_or :: Expr where
  "ex_or = bin_op kOpOr (bin_op kOpEquals (col_ref ''a'' ''x'') (int_lit 5))
             (bin_op kOpOr (bin_op kOpLess (col_ref ''a'' ''x'') (str_lit ''qq''))
                (bin_op kOpEquals (str_lit ''q'') (col_ref ''a'' ''y'')))"

text \<open>\<open>a.x = 5 OR a.x < 'qq' OR 'q' = a.y\<close> becomes a UNION that holds exactly when the condition does.\<close>

theorem buildPredicateNode_correct_witness:
  "\<exists>p. buildPredicateNode Map.empty (Some ex_or) = Inr p \<and>
     sat (spec_engine id ex_sqlop) p [''a'' \<mapsto> (\<lambda>c. ''q'')] =
     sql_holds Map.empty id ex_sqlop [''a'' \<mapsto> (\<lambda>c. ''q'')] (Some ex_or)"
proof -
  have "\<not> isl (buildPredicateNode Map.empty (Some ex_or))" by code_simp
  then obtain p where p: "buildPredicateNode Map.empty (Some ex_or) = Inr p"
    by (cases "buildPredicateNode Map.empty (Some ex_or)") auto
  have "plain_cond (Some ex_or)" by code_simp
  have sym: "ex_sqlop kOpEquals a b = ex_sqlop kOpEquals b a" "ex_sqlop kOpNotEquals a b = ex_sqlop kOpNotEquals b a" for a b
    by (auto simp: ex_sqlop_def)
  from buildPredicateNode_correct [where sqlop = ex_sqlop and lit = id, OF spec_engine_ok sym \<open>plain_cond (Some ex_or)\<close> p] p show ?thesis by blast
qed

text \<open>
  C13. A comparison written with the literal first is translated as if the operands were not swapped:
  \<open>5 < a.x\<close> and \<open>a.x < 5\<close> give the same plan node, for every order comparison, because the operands
  are exchanged and the operator is not mirrored.
\<close>

theorem literal_left_not_mirrored:
  assumes "mapCompOp oper \<noteq> None"
  shows "buildPredicateNode al (Some (bin_op oper (int_lit i) (col_ref t c))) =
    buildPredicateNode al (Some (bin_op oper (col_ref t c) (int_lit i)))"
proof -
  have "oper \<noteq> kOpIn" "oper \<noteq> kOpOr" "oper \<noteq> kOpBetween" using assms by (auto simp: mapCompOp_def)
  then have o: "oper \<noteq> kOpIn" "oper \<noteq> kOpOr" "oper \<noteq> kOpBetween"
    "opType (expr_data ty op) = op" "etype (expr_data ty op) = ty" for ty op
    by (simp_all add: expr_data_def)
  have u: "unwrapSimpleFunction (Some (int_lit i)) = Some (int_lit i)" "unwrapSimpleFunction (Some (col_ref t c)) = Some (col_ref t c)"
    "unwrapStringOp (Some (int_lit i)) = (None, Some (int_lit i))" "unwrapStringOp (Some (col_ref t c)) = (None, Some (col_ref t c))"
    by (simp_all add: int_lit_def col_ref_def expr_data_def)
  have c: "is_col (col_ref t c)" "\<not> is_col (int_lit i)"
    by (simp_all add: int_lit_def col_ref_def expr_data_def is_col_def)
  have b: "buildComparisonPredicate al (Expr d (Some (int_lit i)) (Some (col_ref t c)) xs) cmp =
      buildComparisonPredicate al (Expr d (Some (col_ref t c)) (Some (int_lit i)) xs) cmp" for d xs cmp
    by (simp add: u c deref_def buildComparisonPredicate_def column_side_def)
  show ?thesis
    unfolding bin_op_def buildPredicateNode.simps(2)
    using assms by (auto simp: is_join_condition_def deref_def u c o b)
qed

theorem literal_left_not_mirrored_witness:
  "buildPredicateNode Map.empty (Some (bin_op kOpLess (int_lit 5) (col_ref ''a'' ''x''))) =
   buildPredicateNode Map.empty (Some (bin_op kOpLess (col_ref ''a'' ''x'') (int_lit 5)))"
  by (rule literal_left_not_mirrored) (simp add: mapCompOp_def)

end
