(* ===== verification/DisjointSets.thy ===== *)
theory DisjointSets
  imports Prelude
begin

text \<open>
  The disjoint-set union of \<^verbatim>\<open>JoinTreeBuilder.hpp\<close> that tracks which tables are already joined: a
  parent map with path compression, and the interface the join tree builder relies on, stated as a
  locale over the representative of each element and interpreted on the parent map.
\<close>

section \<open>The parent map\<close>

type_synonym dsu = "string \<rightharpoonup> string"

definition dsu_add :: "string \<Rightarrow> dsu \<Rightarrow> dsu" where
  "dsu_add x p = (case p x of None \<Rightarrow> p(x \<mapsto> x) | Some _ \<Rightarrow> p)"

text \<open>
  \<open>find\<close> follows parents without a bound; on a cyclic map it would not return, so its value is an
  \<open>option\<close> and returning is proved from the invariant. It yields the compressed map and the root, or
  the empty string for an unknown element.
\<close>

partial_function (option) dsu_find :: "dsu \<Rightarrow> string \<Rightarrow> (dsu \<times> string) option" where
  "dsu_find p x =
     (case p x of
        None \<Rightarrow> Some (p, '''')
      | Some y \<Rightarrow>
          if y = x then Some (p, x)
          else Option.bind (dsu_find p y) (\<lambda>(p', r). Some (p'(x \<mapsto> r), r)))"

declare dsu_find.simps [code]

definition dsu_unite :: "dsu \<Rightarrow> string \<Rightarrow> string \<Rightarrow> (dsu \<times> bool) option" where
  "dsu_unite p a b =
     Option.bind (dsu_find p a) (\<lambda>(p1, ra).
     Option.bind (dsu_find p1 b) (\<lambda>(p2, rb).
       Some (if ra = '''' \<or> rb = '''' \<or> ra = rb then (p2, False) else (p2(rb \<mapsto> ra), True))))"

section \<open>The interface\<close>

text \<open>
  What a client sees of a union-find structure: a partial map \<open>rep\<close> from elements to the
  representative of their group. \<open>find\<close> and \<open>unite\<close> return (they do not diverge).
\<close>

locale disjoint_sets =
  fixes add :: "'a \<Rightarrow> 'd \<Rightarrow> 'd"
    and find :: "'d \<Rightarrow> 'a \<Rightarrow> ('d \<times> 'a) option"
    and unite :: "'d \<Rightarrow> 'a \<Rightarrow> 'a \<Rightarrow> ('d \<times> bool) option"
    and inv :: "'d \<Rightarrow> bool"
    and rep :: "'d \<Rightarrow> 'a \<rightharpoonup> 'a"
    and nil :: 'a
  assumes rep_rep: "inv d \<Longrightarrow> rep d x = Some r \<Longrightarrow> rep d r = Some r"
    and add_law: "inv d \<Longrightarrow> x \<noteq> nil \<Longrightarrow>
      inv (add x d) \<and> rep (add x d) = (if rep d x = None then (rep d)(x \<mapsto> x) else rep d)"
    and find_law: "inv d \<Longrightarrow> rep d x = Some r \<Longrightarrow> \<exists>d'. find d x = Some (d', r) \<and> inv d' \<and> rep d' = rep d"
    and unite_law: "inv d \<Longrightarrow> rep d a = Some ra \<Longrightarrow> rep d b = Some rb \<Longrightarrow> ra \<noteq> rb \<Longrightarrow>
      \<exists>d'. unite d a b = Some (d', True) \<and> inv d' \<and>
        rep d' = (\<lambda>x. map_option (\<lambda>r. if r = rb then ra else r) (rep d x))"
begin

definition group_of :: "'d \<Rightarrow> 'a \<Rightarrow> 'a set" where
  "group_of d r = {x. rep d x = Some r}"

definition members :: "'d \<Rightarrow> 'a set" where
  "members d = {x. rep d x \<noteq> None}"

lemma groups_disjoint: "r \<noteq> s \<Longrightarrow> group_of d r \<inter> group_of d s = {}"
  by (auto simp: group_of_def)

lemma add_known: "inv d \<Longrightarrow> x \<in> members d \<Longrightarrow> x \<noteq> nil \<Longrightarrow> inv (add x d) \<and> rep (add x d) = rep d"
  using add_law by (auto simp: members_def)

lemma unite_groups:
  assumes "inv d" "rep d a = Some ra" "rep d b = Some rb" "ra \<noteq> rb" "unite d a b = Some (d', ok)"
  shows "inv d' \<and> members d' = members d \<and> group_of d' ra = group_of d ra \<union> group_of d rb
    \<and> group_of d' rb = {} \<and> (\<forall>r. r \<noteq> ra \<longrightarrow> r \<noteq> rb \<longrightarrow> group_of d' r = group_of d r)"
proof -
  from unite_law [OF assms(1-4)] assms(5)
  have d': "inv d'" "rep d' = (\<lambda>x. map_option (\<lambda>r. if r = rb then ra else r) (rep d x))" by auto
  show ?thesis
    unfolding group_of_def members_def d'(2) using d'(1) assms(4) by (auto split: if_split_asm)
qed

end

section \<open>Roots\<close>

inductive root_of :: "dsu \<Rightarrow> string \<Rightarrow> string \<Rightarrow> bool" for p :: dsu where
  here: "p x = Some x \<Longrightarrow> root_of p x x"
| up: "p x = Some y \<Longrightarrow> y \<noteq> x \<Longrightarrow> root_of p y r \<Longrightarrow> root_of p x r"

inductive_cases root_ofE: "root_of p x r"

lemma root_of_root: "root_of p x r \<Longrightarrow> p r = Some r"
  by (induction rule: root_of.induct)

lemma root_of_fun: "root_of p x r \<Longrightarrow> root_of p x s \<Longrightarrow> r = s"
proof (induction arbitrary: s rule: root_of.induct)
  case (here x)
  from here(2) here(1) show ?case by (cases rule: root_of.cases) auto
next
  case (up x y r)
  from up(5) up(1,2) have "root_of p y s" by (cases rule: root_of.cases) auto
  then show ?case by (rule up.IH)
qed

lemma root_of_self: "p r = Some r \<Longrightarrow> root_of p r s \<longleftrightarrow> s = r"
  using root_of.here root_of_fun by metis

lemma root_of_dom: "root_of p x r \<Longrightarrow> x \<in> dom p"
  by (auto elim: root_ofE)

text \<open>Path compression does not move any element to another root.\<close>

lemma compress_up:
  assumes "root_of p x r" "root_of p y s"
  shows "root_of (p(x \<mapsto> r)) y s"
  using assms(2)
proof (induction rule: root_of.induct)
  case (here y)
  have "y = x \<Longrightarrow> r = x" using assms(1) here root_of_self by metis
  with here show ?case by (intro root_of.here) auto
next
  case (up y z s)
  show ?case
  proof (cases "y = x")
    case True
    have s: "s = r" using root_of_fun [OF assms(1)] root_of.up [OF up(1-3)] True by metis
    have ne: "r \<noteq> x" using root_of_root [OF assms(1)] up(1,2) True by auto
    then have "root_of (p(x \<mapsto> r)) r r" using root_of_root [OF assms(1)] by (intro root_of.here) simp
    with ne have "root_of (p(x \<mapsto> r)) x r" by (rule root_of.up [rotated]) simp
    with True s show ?thesis by (simp only:)
  next
    case False
    with up show ?thesis by (intro root_of.up [of _ y z]) auto
  qed
qed

lemma compress_down:
  assumes "root_of p x r" "root_of (p(x \<mapsto> r)) y s"
  shows "root_of p y s"
  using assms(2)
proof (induction rule: root_of.induct)
  case (here y)
  then show ?case using assms(1) by (cases "y = x") (auto intro: root_of.here)
next
  case (up y z s)
  show ?case
  proof (cases "y = x")
    case True
    then have "z = r" using up(1) by simp
    then have "s = r" using up.IH root_of_self [where p = p and r = r, OF root_of_root [OF assms(1)]] by simp
    with True assms(1) show ?thesis by simp
  next
    case False
    with up show ?thesis by (intro root_of.up [of _ y z]) auto
  qed
qed

lemma find_root:
  assumes "root_of p x r"
  shows "\<exists>p'. dsu_find p x = Some (p', r) \<and> dom p' = dom p \<and> root_of p' = root_of p"
  using assms
proof (induction rule: root_of.induct)
  case (here x)
  then show ?case by (subst dsu_find.simps) simp
next
  case (up x y r)
  then obtain p' where p': "dsu_find p y = Some (p', r)" "dom p' = dom p" "root_of p' = root_of p" by auto
  have "root_of p' x r" using up p'(3) by (simp add: root_of.up [of p x y])
  then have "root_of (p'(x \<mapsto> r)) = root_of p'" using compress_up compress_down by blast
  with p' up(1,2) show ?case by (subst dsu_find.simps) (auto simp: domI)
qed

text \<open>Making one root the parent of another merges the two groups and leaves the others alone.\<close>

lemma link_roots_up:
  assumes "p ra = Some ra" "p rb = Some rb" "ra \<noteq> rb" "root_of p x t"
  shows "root_of (p(rb \<mapsto> ra)) x (if t = rb then ra else t)"
  using assms(4)
proof (induction rule: root_of.induct)
  case (here x)
  have "root_of (p(rb \<mapsto> ra)) ra ra" using assms(1,3) by (intro root_of.here) simp
  with assms(3) have "root_of (p(rb \<mapsto> ra)) rb ra" by (rule root_of.up [rotated]) simp
  moreover have "x \<noteq> rb \<Longrightarrow> root_of (p(rb \<mapsto> ra)) x x" using here by (intro root_of.here) simp
  ultimately show ?case by metis
next
  case (up x y t)
  have "x \<noteq> rb" using up(1,2) assms(2) by auto
  with up show ?case by (intro root_of.up [of _ x y]) auto
qed

section \<open>The parent map provides the interface\<close>

definition dsu_rep :: "dsu \<Rightarrow> string \<rightharpoonup> string" where
  "dsu_rep p x = (if \<exists>r. root_of p x r then Some (THE r. root_of p x r) else None)"

definition dsu_inv :: "dsu \<Rightarrow> bool" where
  "dsu_inv p \<longleftrightarrow> (\<forall>x \<in> dom p. \<exists>r. root_of p x r) \<and> '''' \<notin> dom p"

lemma dsu_rep_iff: "dsu_rep p x = Some r \<longleftrightarrow> root_of p x r"
  unfolding dsu_rep_def by (auto intro: the_equality theI2 dest: root_of_fun)

lemma dsu_rep_eqI: "(\<And>x r. root_of p x r \<longleftrightarrow> f x = Some r) \<Longrightarrow> dsu_rep p = f"
  by (rule ext) (metis dsu_rep_iff option.exhaust)

lemma dsu_rep_dom: "dsu_inv p \<Longrightarrow> dsu_rep p x = None \<longleftrightarrow> x \<notin> dom p"
  unfolding dsu_inv_def by (metis dsu_rep_iff option.exhaust option.distinct(1) root_of_dom)

lemma root_of_extend:
  assumes "p x = None" "root_of p y s"
  shows "root_of (p(x \<mapsto> x)) y s"
  using assms(2)
proof (induction rule: root_of.induct)
  case (here y)
  with assms(1) show ?case by (intro root_of.here) auto
next
  case (up y z s)
  with assms(1) show ?case by (intro root_of.up [of _ y z]) auto
qed

lemma dsu_add_ok:
  assumes "dsu_inv p" "x \<noteq> ''''"
  shows "dsu_inv (dsu_add x p) \<and>
    dsu_rep (dsu_add x p) = (if dsu_rep p x = None then (dsu_rep p)(x \<mapsto> x) else dsu_rep p)"
proof (cases "p x")
  case None
  let ?p = "p(x \<mapsto> x)"
  have up: "root_of ?p y s" if "root_of p y s" for y s using None that by (rule root_of_extend)
  have x: "root_of ?p x x" by (intro root_of.here) simp
  have total: "\<exists>r. root_of ?p y r" if "y \<in> dom ?p" for y
  proof (cases "y = x")
    case False
    with that have "y \<in> dom p" by auto
    with assms(1) show ?thesis unfolding dsu_inv_def using up by blast
  qed (use x in blast)
  have "dsu_rep ?p = (dsu_rep p)(x \<mapsto> x)"
  proof (rule dsu_rep_eqI)
    fix y r
    show "root_of ?p y r \<longleftrightarrow> ((dsu_rep p)(x \<mapsto> x)) y = Some r"
    proof (cases "y = x")
      case True
      then show ?thesis using x root_of_fun by fastforce
    next
      case False
      have "root_of p y r" if r: "root_of ?p y r"
      proof -
        have "y \<in> dom p" using root_of_dom [OF r] False by auto
        then obtain s where "root_of p y s" using assms(1) unfolding dsu_inv_def by blast
        with up root_of_fun r show ?thesis by metis
      qed
      with up False show ?thesis by (auto simp: dsu_rep_iff)
    qed
  qed
  with None assms total show ?thesis
    using dsu_rep_dom [OF assms(1)] by (auto simp: dsu_add_def dsu_inv_def)
next
  case (Some y)
  then have "dsu_rep p x \<noteq> None" using dsu_rep_dom [OF assms(1)] by auto
  then show ?thesis using Some assms by (simp only: dsu_add_def) simp
qed

lemma dsu_find_ok:
  assumes "dsu_inv p" "dsu_rep p x = Some r"
  shows "\<exists>p'. dsu_find p x = Some (p', r) \<and> dsu_inv p' \<and> dsu_rep p' = dsu_rep p"
proof -
  from assms(2) have "root_of p x r" by (simp add: dsu_rep_iff)
  then obtain p' where p': "dsu_find p x = Some (p', r)" "dom p' = dom p" "root_of p' = root_of p"
    using find_root by blast
  have "dsu_inv p'" using assms(1) unfolding dsu_inv_def p'(2,3) .
  moreover have "dsu_rep p' = dsu_rep p" by (rule ext) (simp add: dsu_rep_def p'(3))
  ultimately show ?thesis using p'(1) by blast
qed

lemma dsu_unite_ok:
  assumes "dsu_inv p" "dsu_rep p a = Some ra" "dsu_rep p b = Some rb" "ra \<noteq> rb"
  shows "\<exists>p'. dsu_unite p a b = Some (p', True) \<and> dsu_inv p' \<and>
    dsu_rep p' = (\<lambda>x. map_option (\<lambda>r. if r = rb then ra else r) (dsu_rep p x))"
proof -
  from dsu_find_ok [OF assms(1,2)] obtain p1 where
    p1: "dsu_find p a = Some (p1, ra)" "dsu_inv p1" "dsu_rep p1 = dsu_rep p" by blast
  from dsu_find_ok [OF p1(2)] assms(3) p1(3) obtain p2 where
    p2: "dsu_find p1 b = Some (p2, rb)" "dsu_inv p2" "dsu_rep p2 = dsu_rep p" by auto
  have roots: "p2 ra = Some ra" "p2 rb = Some rb"
    using assms(2,3) root_of_root unfolding p2(3) [symmetric] dsu_rep_iff by blast+
  then have ne: "ra \<noteq> ''''" "rb \<noteq> ''''" using p2(2) by (auto simp: dsu_inv_def)
  let ?p = "p2(rb \<mapsto> ra)"
  have up: "root_of ?p x (if t = rb then ra else t)" if "root_of p2 x t" for x t
    by (rule link_roots_up [OF roots assms(4) that])
  have dom: "dom ?p = dom p2" using roots(2) by auto
  have "dsu_rep ?p = (\<lambda>x. map_option (\<lambda>r. if r = rb then ra else r) (dsu_rep p2 x))"
  proof (rule dsu_rep_eqI)
    fix x r
    show "root_of ?p x r \<longleftrightarrow> map_option (\<lambda>r. if r = rb then ra else r) (dsu_rep p2 x) = Some r"
    proof (cases "dsu_rep p2 x")
      case None
      then have "x \<notin> dom ?p" using dsu_rep_dom [OF p2(2)] dom by blast
      then have "\<not> root_of ?p x r" using root_of_dom by blast
      with None show ?thesis by simp
    next
      case (Some t)
      then have "root_of ?p x r \<longleftrightarrow> r = (if t = rb then ra else t)"
        using up [of x t] root_of_fun [of ?p x] unfolding dsu_rep_iff by blast
      with Some show ?thesis by auto
    qed
  qed
  moreover have "dsu_inv ?p" using p2(2) up unfolding dsu_inv_def dom by blast
  ultimately show ?thesis using p1(1) p2(1,3) ne assms(4) by (simp add: dsu_unite_def)
qed

interpretation uf: disjoint_sets dsu_add dsu_find dsu_unite dsu_inv dsu_rep "''''"
proof unfold_locales
  show "dsu_rep d r = Some r" if "dsu_inv d" "dsu_rep d x = Some r" for d x r
    using that(2) unfolding dsu_rep_iff by (rule root_of.here [OF root_of_root])
qed (simp_all add: dsu_add_ok dsu_find_ok dsu_unite_ok)

end
