(* ===== verification/JoinTreeBuilder.thy ===== *)
theory JoinTreeBuilder
  imports PredicateBuilder DisjointSets "HOL-Library.Product_Lexorder"
begin

text \<open>
  \<^verbatim>\<open>JoinTreeBuilder.cpp\<close>: scans of the FROM clause, the join order of an external JSON plan, and the
  two ways to build the join tree: greedily with the disjoint sets, or left-deep along a given order.

  \<^verbatim>\<open>scanByTable\<close> is an unordered map that the code iterates over; it is an association list with
  distinct keys in iteration order. Theorems hold for every such order.
\<close>

section \<open>Scan collection\<close>

type_synonym scan_map = "(string \<times> LogicalPlanNode) list"

definition scan_node :: "string \<Rightarrow> LogicalPlanNode" where
  "scan_node t = LNode ((new_node L_SCAN)\<lparr>base_table := t\<rparr>) []"

function (sequential) collectScans :: "TableRef option \<Rightarrow> LogicalPlanNode list \<Rightarrow> LogicalPlanNode list" where
  "collectScans None scans = scans"
| "collectScans (Some (kTableName nm al)) scans =
     scans @ [scan_node (case al of Some (Some a) \<Rightarrow> a | _ \<Rightarrow> str_of nm)]"
| "collectScans (Some (kTableCrossProduct None)) scans = scans"
| "collectScans (Some (kTableCrossProduct (Some ts))) scans = fold collectScans ts scans"
| "collectScans (Some (kTableJoin None)) scans = scans"
| "collectScans (Some (kTableJoin (Some (l, r, _, _)))) scans = collectScans r (collectScans l scans)"
| "collectScans (Some kTableOther) scans = scans"
  by pat_completeness auto
termination by (relation "measure (\<lambda>(t, m). size_option size t)") (auto simp: size_tableref [simplified])

text \<open>The order in which the hash map will be traversed is the argument \<open>hash_order\<close>.\<close>

definition buildScanMap :: "(scan_map \<Rightarrow> scan_map) \<Rightarrow> TableRef option \<Rightarrow> scan_map res" where
  "buildScanMap hash_order from =
     (let scans = collectScans from [] in
      if scans = [] then Inl (RuntimeError ''No tables in FROM clause'')
      else Inr (hash_order (fold (\<lambda>s m.
        if node_type (node s) \<noteq> L_SCAN \<or> base_table (node s) = '''' then m
        else amap_put (base_table (node s)) s m) scans [])))"

section \<open>Join order from JSON\<close>

definition findMatchingScanTable :: "string \<Rightarrow> scan_map \<Rightarrow> string" where
  "findMatchingScanTable jsonTable scanByTable =
     (let base = normalizeTableToken jsonTable;
          candidates = [base] @ (if starts_with base ''dim_'' then [drop 4 base] else []);
          matches = concat (map (\<lambda>cand. filter (\<lambda>key. namesMatch cand (normalizeTableToken key))
                                        (map fst scanByTable)) candidates)
      in case matches of [] \<Rightarrow> '''' | key # _ \<Rightarrow> key)"

definition resolve_order_step ::
  "scan_map \<Rightarrow> string list \<times> string list \<Rightarrow> string \<Rightarrow> string list \<times> string list" where
  "resolve_order_step scanByTable st name =
     (case st of (resolved, seen) \<Rightarrow>
      let mapped = findMatchingScanTable name scanByTable in
      if mapped = '''' then (resolved, seen)
      else if toLower mapped \<in> set seen then (resolved, seen)
      else (resolved @ [mapped], seen @ [toLower mapped]))"

definition resolveJoinOrderToScans :: "string list \<Rightarrow> scan_map \<Rightarrow> string list" where
  "resolveJoinOrderToScans jsonOrder scanByTable =
     fst (foldl (resolve_order_step scanByTable) ([], []) jsonOrder)"

record ScanRec =
  rec_table :: string
  rec_depth :: nat
  rec_seq :: nat

definition json_base_table :: "json \<Rightarrow> string" where
  "json_base_table n =
     (case json_at n ''plan_params'' of
        None \<Rightarrow> ''''
      | Some params \<Rightarrow>
          (case json_at params ''base_table'' of
             None \<Rightarrow> ''''
           | Some bt \<Rightarrow> (case json_at bt ''full_name'' of Some (JString s) \<Rightarrow> s | _ \<Rightarrow> '''')))"

lemma size_json_child [termination_simp]:
  assumes "map_of kvs k = Some (JArray cs)" "c \<in> set cs"
  shows "size c < size (JObject kvs)"
proof -
  from assms(1) have "(k, JArray cs) \<in> set kvs" by (rule map_of_SomeD)
  then have "size (JArray cs) < size_list (size_prod (\<lambda>_. 0) size) kvs" by (induction kvs) auto
  moreover from assms(2) have "size c < size (JArray cs)" by (induction cs) auto
  ultimately show ?thesis by simp
qed

function (sequential) json_dfs :: "json \<Rightarrow> nat \<Rightarrow> ScanRec list \<Rightarrow> ScanRec list" where
  "json_dfs (JObject kvs) depth scans =
     (let tableName = json_base_table (JObject kvs) in
      if tableName \<noteq> '''' then
        scans @ [\<lparr>rec_table = tableName, rec_depth = depth, rec_seq = length scans\<rparr>]
      else (case map_of kvs ''children'' of
          Some (JArray cs) \<Rightarrow> fold (\<lambda>child acc. json_dfs child (depth + 1) acc) cs scans
        | _ \<Rightarrow> scans))"
| "json_dfs _ depth scans = scans"
  by pat_completeness auto
termination by (relation "measure (\<lambda>(j, d, s). size j)") (auto simp only: in_measure prod.case wf_measure size_json_child)

definition dedup_step :: "string list \<times> string list \<Rightarrow> string \<Rightarrow> string list \<times> string list" where
  "dedup_step st t =
     (case st of (order, seen) \<Rightarrow>
      if toLower t \<in> set seen then (order, seen) else (order @ [t], seen @ [toLower t]))"

text \<open>
  The comparator of \<^verbatim>\<open>std::stable_sort\<close>: deeper scans first, then by discovery order.
\<close>

definition extractJoinOrderFromJson :: "json \<Rightarrow> string list" where
  "extractJoinOrderFromJson plan =
     fst (foldl dedup_step ([], [])
       (map rec_table (sort_key (\<lambda>r. (- int (rec_depth r), rec_seq r)) (json_dfs plan 0 []))))"

section \<open>Join tree from the disjoint sets\<close>

type_synonym forest = "string \<rightharpoonup> LogicalPlanNode option"
type_synonym join_state = "dsu \<times> forest \<times> LogicalPlanNode list"

text \<open>\<^verbatim>\<open>tree[r]\<close>: a key that is missing yields the null pointer (the entry is erased again).\<close>

definition forest_get :: "forest \<Rightarrow> string \<Rightarrow> LogicalPlanNode option" where
  "forest_get tree r = (case tree r of Some n \<Rightarrow> n | None \<Rightarrow> None)"

definition as_filter :: "LogicalPlanNode \<Rightarrow> LogicalPlanNode" where
  "as_filter jp = LNode ((node jp)\<lparr>node_type := L_FILTER\<rparr>) (children jp)"

definition join_node :: "LogicalPlanNode \<Rightarrow> LogicalPlanNode option \<Rightarrow> LogicalPlanNode option \<Rightarrow> LogicalPlanNode" where
  "join_node jp l r =
     LNode ((new_node L_JOIN)\<lparr>
       base_columns := base_columns (node jp),
       expression := Expression_default\<lparr>comp_type := comp_type (expression (node jp))\<rparr>\<rparr>) [l, r]"

definition join_step :: "join_state \<Rightarrow> LogicalPlanNode \<Rightarrow> join_state res option" where
  "join_step st jp =
     (case st of (dsu, tree, extraJoinFilters) \<Rightarrow>
      if length (base_columns (node jp)) \<noteq> 2 \<or> comp_type (expression (node jp)) = None then Some (Inr st)
      else let t1 = resolveTableName (base_columns (node jp) ! 0);
               t2 = resolveTableName (base_columns (node jp) ! 1) in
        if t1 = '''' \<or> t2 = '''' then Some (Inl (RuntimeError ''Join predicate with unknown table''))
        else
          Option.bind (dsu_find (dsu_add t2 (dsu_add t1 dsu)) t1) (\<lambda>(d1, r1).
          Option.bind (dsu_find d1 t2) (\<lambda>(d2, r2).
            if r1 = r2 then Some (Inr (d2, tree, extraJoinFilters @ [as_filter jp]))
            else
              Option.bind (dsu_unite d2 r1 r2) (\<lambda>(d3, _).
              Option.bind (dsu_find d3 r1) (\<lambda>(d4, rep).
                Some (Inr (d4,
                  (tree(r1 := None, r2 := None))
                    (rep \<mapsto> Some (join_node jp (forest_get tree r1) (forest_get tree r2))),
                  extraJoinFilters)))))))"

fun join_loop :: "join_state \<Rightarrow> LogicalPlanNode list \<Rightarrow> join_state res option" where
  "join_loop st [] = Some (Inr st)"
| "join_loop st (jp # jps) =
     Option.bind (join_step st jp) (\<lambda>r. case r of Inl e \<Rightarrow> Some (Inl e) | Inr st' \<Rightarrow> join_loop st' jps)"

text \<open>The loop that picks the representative: \<open>find\<close> runs for every scan, the first result is kept.\<close>

fun rep_loop :: "dsu \<Rightarrow> string \<Rightarrow> string list \<Rightarrow> string option" where
  "rep_loop dsu rep [] = Some rep"
| "rep_loop dsu rep (t # ts) =
     Option.bind (dsu_find dsu t) (\<lambda>(dsu', r). rep_loop dsu' (if rep = '''' then r else rep) ts)"

definition buildJoinTree ::
  "scan_map \<Rightarrow> LogicalPlanNode list \<Rightarrow> LogicalPlanNode list \<Rightarrow> (LogicalPlanNode \<times> LogicalPlanNode list) res option" where
  "buildJoinTree scanByTable joinPreds extraJoinFilters =
     (if scanByTable = [] then Some (Inl (RuntimeError ''No tables in FROM''))
      else
        let dsu = fold (\<lambda>(t, _). dsu_add t) scanByTable Map.empty;
            tree = fold (\<lambda>(t, scan) m. m(t \<mapsto> Some scan)) scanByTable Map.empty in
        Option.bind (join_loop (dsu, tree, extraJoinFilters) joinPreds) (\<lambda>r.
          case r of
            Inl e \<Rightarrow> Some (Inl e)
          | Inr (dsu', tree', extras) \<Rightarrow>
              Option.bind (rep_loop dsu' '''' (map fst scanByTable)) (\<lambda>rep.
                case tree' rep of
                  Some (Some n) \<Rightarrow> Some (Inr (n, extras))
                | _ \<Rightarrow> Some (Inl (RuntimeError ''Internal error: join tree missing'')))))"

section \<open>Join tree along a given order\<close>

definition order_pred_matches :: "string list \<Rightarrow> string \<Rightarrow> LogicalPlanNode \<Rightarrow> bool" where
  "order_pred_matches joined nextNorm jp \<longleftrightarrow>
     length (base_columns (node jp)) = 2 \<and>
     (let t1 = resolveTableName (base_columns (node jp) ! 0);
          t2 = resolveTableName (base_columns (node jp) ! 1) in
      t1 \<noteq> '''' \<and> t2 \<noteq> '''' \<and>
      ((toLower t1 \<in> set joined \<and> namesMatch (toLower t2) nextNorm) \<or>
       (toLower t2 \<in> set joined \<and> namesMatch (toLower t1) nextNorm)))"

text \<open>\<^const>\<open>None\<close> is the returned null pointer: the order cannot be followed.\<close>

fun order_loop ::
  "scan_map \<Rightarrow> LogicalPlanNode list \<Rightarrow> LogicalPlanNode \<Rightarrow> string list \<Rightarrow> bool list \<Rightarrow> string list \<Rightarrow>
     (LogicalPlanNode \<times> bool list) option" where
  "order_loop scanByTable joinPreds current joined used [] = Some (current, used)"
| "order_loop scanByTable joinPreds current joined used (t # ts) =
     (case map_of scanByTable t of
        None \<Rightarrow> None
      | Some next_scan \<Rightarrow>
          (case find (\<lambda>i. \<not> used ! i \<and> order_pred_matches joined (toLower t) (joinPreds ! i)) [0..<length joinPreds] of
             None \<Rightarrow> None
           | Some i \<Rightarrow>
               order_loop scanByTable joinPreds (join_node (joinPreds ! i) (Some current) (Some next_scan))
                 (toLower t # joined) (used[i := True]) ts))"

definition buildJoinTreeFromOrder ::
  "scan_map \<Rightarrow> LogicalPlanNode list \<Rightarrow> LogicalPlanNode list \<Rightarrow> string list \<Rightarrow>
     LogicalPlanNode option \<times> LogicalPlanNode list \<times> bool" where
  "buildJoinTreeFromOrder scanByTable joinPreds extraJoinFilters joinOrder =
     (case joinOrder of
        t0 # t1 # ts \<Rightarrow>
          (case map_of scanByTable t0 of
             None \<Rightarrow> (None, extraJoinFilters, False)
           | Some scan \<Rightarrow>
               (case order_loop scanByTable joinPreds scan [toLower t0] (replicate (length joinPreds) False) (t1 # ts) of
                  None \<Rightarrow> (None, extraJoinFilters, False)
                | Some (current, used) \<Rightarrow>
                    (Some current, map (\<lambda>(jp, u). as_filter jp) (filter (\<lambda>(jp, u). \<not> u) (zip joinPreds used)), True)))
      | _ \<Rightarrow> (None, extraJoinFilters, False))"

section \<open>Cross products and join predicates\<close>

text \<open>
  The specification: the rows of the FROM clause are the environments that bind each table to one
  of its tuples, and the join keeps those on which every join predicate holds.
\<close>

definition cross :: "'v database \<Rightarrow> string set \<Rightarrow> 'v env set" where
  "cross db T = {e. dom e = T \<and> (\<forall>t \<in> T. \<exists>r \<in> db t. e t = Some r)}"

definition pred_t1 :: "LogicalPlanNode \<Rightarrow> string" where
  "pred_t1 jp = resolveTableName (base_columns (node jp) ! 0)"

definition pred_t2 :: "LogicalPlanNode \<Rightarrow> string" where
  "pred_t2 jp = resolveTableName (base_columns (node jp) ! 1)"

text \<open>A join predicate between two tables of the FROM clause, as \<open>buildJoinPredicate\<close> makes it.\<close>

definition wf_join_pred :: "string set \<Rightarrow> LogicalPlanNode \<Rightarrow> bool" where
  "wf_join_pred K jp \<longleftrightarrow>
     node_type (node jp) = L_JOIN \<and> children jp = [] \<and> length (base_columns (node jp)) = 2 \<and>
     comp_type (expression (node jp)) \<noteq> None \<and> literals (expression (node jp)) = [] \<and>
     string_op (expression (node jp)) = None \<and> pred_t1 jp \<in> K \<and> pred_t2 jp \<in> K"

definition selected :: "'v engine \<Rightarrow> 'v database \<Rightarrow> LogicalPlanNode list \<Rightarrow> string set \<Rightarrow> 'v env set" where
  "selected eng db js T =
     {e \<in> cross db T. \<forall>jp \<in> set js. pred_t1 jp \<in> T \<longrightarrow> pred_t2 jp \<in> T \<longrightarrow> sat_node eng (node jp) e}"

lemma sat_node_join_node [simp]:
  "wf_join_pred K jp \<Longrightarrow> sat_node eng (node (join_node jp l r)) e = sat_node eng (node jp) e"
  by (simp add: sat_node_def join_node_def wf_join_pred_def split: option.split)

lemma sat_node_as_filter [simp]: "sat_node eng (node (as_filter jp)) e = sat_node eng (node jp) e"
  by (simp add: sat_node_def as_filter_def split: option.split)

lemma wf_join_pred_sat_cong:
  assumes "wf_join_pred K jp" "e (pred_t1 jp) = e' (pred_t1 jp)" "e (pred_t2 jp) = e' (pred_t2 jp)"
  shows "sat_node eng (node jp) e = sat_node eng (node jp) e'"
proof (rule sat_node_cong)
  fix c assume "c \<in> set (base_columns (node jp))"
  with assms show "e (resolveTableName c) = e' (resolveTableName c)"
    by (auto simp: wf_join_pred_def length_2_conv pred_t1_def pred_t2_def)
qed

lemma cross_restrict: "e \<in> cross db (A \<union> B) \<Longrightarrow> e |` A \<in> cross db A"
  by (auto simp: cross_def)

lemma cross_split: "e \<in> cross db (A \<union> B) \<Longrightarrow> A \<inter> B = {} \<Longrightarrow> e = (e |` A) ++ (e |` B)"
  by (rule ext) (auto simp: cross_def map_add_def restrict_map_def split: option.split)

lemma cross_add: "a \<in> cross db A \<Longrightarrow> b \<in> cross db B \<Longrightarrow> A \<inter> B = {} \<Longrightarrow> a ++ b \<in> cross db (A \<union> B)"
  unfolding cross_def
  by (clarsimp simp: Un_commute) (metis Int_iff Un_iff domIff empty_iff map_add_dom_app_simps(1,3))

lemma selected_restrict:
  assumes "e \<in> selected eng db js (A \<union> B)" "\<forall>jp \<in> set js. wf_join_pred K jp"
  shows "e |` A \<in> selected eng db js A"
  using assms wf_join_pred_sat_cong [of K _ e "e |` A" eng]
  by (fastforce simp: selected_def intro: cross_restrict)

text \<open>Joining two disjoint groups that no earlier predicate connects.\<close>

lemma selected_join:
  assumes "A \<inter> B = {}" "\<forall>q \<in> set (jp # js). wf_join_pred K q" "pred_t1 jp \<in> A \<union> B" "pred_t2 jp \<in> A \<union> B"
    and "\<forall>q \<in> set js. pred_t1 q \<in> A \<longleftrightarrow> pred_t2 q \<in> A" "\<forall>q \<in> set js. pred_t1 q \<in> B \<longleftrightarrow> pred_t2 q \<in> B"
  shows "{e. \<exists>a \<in> selected eng db js A. \<exists>b \<in> selected eng db js B. e = a ++ b \<and> sat_node eng (node jp) e}
    = selected eng db (jp # js) (A \<union> B)"
    (is "?L = ?R")
proof (rule set_eqI, rule iffI)
  fix e assume "e \<in> ?L"
  then obtain a b where ab: "a \<in> selected eng db js A" "b \<in> selected eng db js B" "e = a ++ b"
    "sat_node eng (node jp) e" by blast
  then have dom: "dom a = A" "dom b = B" by (auto simp: selected_def cross_def)
  have "sat_node eng (node q) e" if q: "q \<in> set js" "pred_t1 q \<in> A \<union> B" "pred_t2 q \<in> A \<union> B" for q
  proof (cases "pred_t1 q \<in> A")
    case True
    then have t: "pred_t2 q \<in> A" using assms(5) q(1) by blast
    with True dom assms(1) have "e (pred_t1 q) = a (pred_t1 q)" "e (pred_t2 q) = a (pred_t2 q)"
      unfolding ab(3) by (metis IntI empty_iff map_add_dom_app_simps(3))+
    then have "sat_node eng (node q) e = sat_node eng (node q) a"
      using assms(2) q(1) by (intro wf_join_pred_sat_cong [of K]) auto
    with ab(1) q(1) True t show ?thesis by (auto simp: selected_def)
  next
    case False
    then have t: "pred_t1 q \<in> B" "pred_t2 q \<in> B" using assms(6) q by blast+
    with dom have "e (pred_t1 q) = b (pred_t1 q)" "e (pred_t2 q) = b (pred_t2 q)"
      unfolding ab(3) by (metis map_add_dom_app_simps(1))+
    then have "sat_node eng (node q) e = sat_node eng (node q) b"
      using assms(2) q(1) by (intro wf_join_pred_sat_cong [of K]) auto
    with ab(2) q(1) t show ?thesis by (auto simp: selected_def)
  qed
  moreover have "e \<in> cross db (A \<union> B)" using ab assms(1) by (auto simp: selected_def intro: cross_add)
  ultimately show "e \<in> ?R" using ab(4) by (auto simp: selected_def)
next
  fix e assume e: "e \<in> ?R"
  then have e': "e \<in> selected eng db js (A \<union> B)" "e \<in> selected eng db js (B \<union> A)"
    by (auto simp: selected_def Un_commute)
  have "e |` A \<in> selected eng db js A" "e |` B \<in> selected eng db js B"
    using e' assms(2) by (auto intro: selected_restrict [of _ _ _ _ _ _ K])
  moreover have "e = (e |` A) ++ (e |` B)"
    using e assms(1) by (intro cross_split [of _ db]) (auto simp: selected_def)
  moreover have "sat_node eng (node jp) e" using e assms(3,4) by (auto simp: selected_def)
  ultimately show "e \<in> ?L" by blast
qed

section \<open>The join graph\<close>

definition edges :: "LogicalPlanNode list \<Rightarrow> (string \<times> string) set" where
  "edges jps = (\<Union>jp \<in> set jps. {(pred_t1 jp, pred_t2 jp), (pred_t2 jp, pred_t1 jp)})"

definition component :: "LogicalPlanNode list \<Rightarrow> string \<Rightarrow> string set" where
  "component jps t = {x. (t, x) \<in> (edges jps)\<^sup>*}"

lemma edges_sym: "(x, y) \<in> (edges jps)\<^sup>* \<Longrightarrow> (y, x) \<in> (edges jps)\<^sup>*"
proof (induction rule: rtrancl_induct)
  case (step y z)
  then have "(z, y) \<in> edges jps" by (auto simp: edges_def)
  with step.IH show ?case by (meson converse_rtrancl_into_rtrancl)
qed simp

lemma edges_snoc: "edges (jps @ [jp]) = edges jps \<union> {(pred_t1 jp, pred_t2 jp), (pred_t2 jp, pred_t1 jp)}"
  by (auto simp: edges_def)

lemma edges_snoc_mono: "(x, y) \<in> (edges jps)\<^sup>* \<Longrightarrow> (x, y) \<in> (edges (jps @ [jp]))\<^sup>*"
  unfolding edges_snoc by (rule in_rtrancl_UnI) simp

text \<open>\<open>tracks d done\<close>: two tables have the same representative iff the predicates done connect them.\<close>

definition tracks :: "dsu \<Rightarrow> LogicalPlanNode list \<Rightarrow> bool" where
  "tracks d jps \<longleftrightarrow>
     (\<forall>x \<in> uf.members d. \<forall>y \<in> uf.members d. dsu_rep d x = dsu_rep d y \<longleftrightarrow> (x, y) \<in> (edges jps)\<^sup>*)"

lemma tracks_same:
  assumes "tracks d jps" "pred_t1 jp \<in> uf.members d" "pred_t2 jp \<in> uf.members d"
    "dsu_rep d (pred_t1 jp) = dsu_rep d (pred_t2 jp)"
  shows "tracks d (jps @ [jp])"
proof -
  have "(pred_t1 jp, pred_t2 jp) \<in> (edges jps)\<^sup>*" using assms by (auto simp: tracks_def)
  with edges_sym have "edges (jps @ [jp]) \<subseteq> (edges jps)\<^sup>*" by (auto simp: edges_snoc)
  moreover have "edges jps \<subseteq> edges (jps @ [jp])" by (auto simp: edges_snoc)
  ultimately have "(edges (jps @ [jp]))\<^sup>* = (edges jps)\<^sup>*" by (metis rtrancl_subset)
  with assms(1) show ?thesis by (simp add: tracks_def)
qed

lemma tracks_unite:
  assumes "tracks d jps" and rep: "dsu_rep d (pred_t1 jp) = Some r1" "dsu_rep d (pred_t2 jp) = Some r2" "r1 \<noteq> r2"
    and d': "dsu_rep d' = (\<lambda>x. map_option (\<lambda>r. if r = r2 then r1 else r) (dsu_rep d x))"
    and closed: "\<forall>q \<in> set jps. pred_t1 q \<in> uf.members d \<and> pred_t2 q \<in> uf.members d"
  shows "tracks d' (jps @ [jp])"
  unfolding tracks_def
proof (intro ballI iffI)
  have mem: "uf.members d' = uf.members d" by (auto simp: uf.members_def d')
  fix x y assume "x \<in> uf.members d'" "y \<in> uf.members d'"
  then have xy: "x \<in> uf.members d" "y \<in> uf.members d" by (simp_all add: mem)
  note tr = assms(1) [unfolded tracks_def, rule_format]
  have t: "pred_t1 jp \<in> uf.members d" "pred_t2 jp \<in> uf.members d" using rep by (auto simp: uf.members_def)
  {
    assume "dsu_rep d' x = dsu_rep d' y"
    then consider "dsu_rep d x = dsu_rep d y" | "dsu_rep d x = Some r1" "dsu_rep d y = Some r2"
      | "dsu_rep d x = Some r2" "dsu_rep d y = Some r1"
      using xy by (auto simp: d' uf.members_def split: if_split_asm)
    then show "(x, y) \<in> (edges (jps @ [jp]))\<^sup>*"
    proof cases
      case 1
      then have "(x, y) \<in> (edges jps)\<^sup>*" using tr [OF xy] by simp
      then show ?thesis by (rule edges_snoc_mono)
    next
      case 2
      then have "(x, pred_t1 jp) \<in> (edges jps)\<^sup>*" "(pred_t2 jp, y) \<in> (edges jps)\<^sup>*"
        using tr [OF xy(1) t(1)] tr [OF t(2) xy(2)] rep by simp_all
      then have "(x, pred_t1 jp) \<in> (edges (jps @ [jp]))\<^sup>*" "(pred_t2 jp, y) \<in> (edges (jps @ [jp]))\<^sup>*"
        by (simp_all only: edges_snoc_mono)
      moreover have "(pred_t1 jp, pred_t2 jp) \<in> edges (jps @ [jp])" by (simp add: edges_snoc)
      ultimately show ?thesis by (meson rtrancl.rtrancl_into_rtrancl rtrancl_trans)
    next
      case 3
      then have "(x, pred_t2 jp) \<in> (edges jps)\<^sup>*" "(pred_t1 jp, y) \<in> (edges jps)\<^sup>*"
        using tr [OF xy(1) t(2)] tr [OF t(1) xy(2)] rep by simp_all
      then have "(x, pred_t2 jp) \<in> (edges (jps @ [jp]))\<^sup>*" "(pred_t1 jp, y) \<in> (edges (jps @ [jp]))\<^sup>*"
        by (simp_all only: edges_snoc_mono)
      moreover have "(pred_t2 jp, pred_t1 jp) \<in> edges (jps @ [jp])" by (simp add: edges_snoc)
      ultimately show ?thesis by (meson rtrancl.rtrancl_into_rtrancl rtrancl_trans)
    qed
  next
    assume "(x, y) \<in> (edges (jps @ [jp]))\<^sup>*"
    then show "dsu_rep d' x = dsu_rep d' y"
    proof (induction rule: rtrancl_induct)
      case (step y z)
      have "dsu_rep d' y = dsu_rep d' z" if yz: "(y, z) \<in> edges jps"
      proof -
        have "y \<in> uf.members d" "z \<in> uf.members d" using yz closed by (auto simp: edges_def)
        with yz tr have "dsu_rep d y = dsu_rep d z" by blast
        then show ?thesis by (simp add: d')
      qed
      moreover have "dsu_rep d' (pred_t1 jp) = dsu_rep d' (pred_t2 jp)" using rep by (simp add: d')
      ultimately show ?case using step by (auto simp: edges_snoc)
    qed simp
  }
qed

section \<open>Invariant of the join loop\<close>

definition tree_ok :: "'v engine \<Rightarrow> 'v database \<Rightarrow> LogicalPlanNode list \<Rightarrow> string set \<Rightarrow> LogicalPlanNode \<Rightarrow> bool" where
  "tree_ok eng db js G n \<longleftrightarrow>
     wf_input (Some n) \<and> tables (Some n) = G \<and> rows eng db (Some n) = selected eng db js G"

text \<open>One tree per representative, holding the rows of its group under the predicates \<open>js\<close>.\<close>

definition forest_ok :: "'v engine \<Rightarrow> 'v database \<Rightarrow> LogicalPlanNode list \<Rightarrow> dsu \<Rightarrow> forest \<Rightarrow> bool" where
  "forest_ok eng db js d tree \<longleftrightarrow>
     (\<forall>r. if dsu_rep d r = Some r
          then \<exists>n. tree r = Some (Some n) \<and> tree_ok eng db js (uf.group_of d r) n
          else tree r = None)"

text \<open>Each predicate done was used in a join (\<open>js\<close>) or kept as a filter (\<open>xs\<close>).\<close>

definition join_inv ::
  "'v engine \<Rightarrow> 'v database \<Rightarrow> string set \<Rightarrow> LogicalPlanNode list \<Rightarrow> LogicalPlanNode list \<Rightarrow> join_state \<Rightarrow> bool" where
  "join_inv eng db K ex0 jps st \<longleftrightarrow>
     (case st of (d, tree, extras) \<Rightarrow>
        \<exists>js xs. extras = ex0 @ map as_filter xs \<and> set jps = set js \<union> set xs \<and>
          dsu_inv d \<and> uf.members d = K \<and> tracks d jps \<and> forest_ok eng db js d tree)"

lemma join_invI:
  assumes "extras = ex0 @ map as_filter xs" "set jps = set js \<union> set xs" "dsu_inv d" "uf.members d = K"
    "tracks d jps" "forest_ok eng db js d tree"
  shows "join_inv eng db K ex0 jps (d, tree, extras)"
  unfolding join_inv_def prod.case using assms by blast

lemma same_rep:
  assumes "dsu_rep d' = dsu_rep d"
  shows "uf.members d' = uf.members d" "tracks d' jps = tracks d jps" "forest_ok eng db js d' = forest_ok eng db js d"
  using assms by (simp_all add: uf.members_def tracks_def forest_ok_def uf.group_of_def fun_eq_iff)

lemma selected_skip: "pred_t1 jp \<notin> G \<Longrightarrow> selected eng db (jp # js) G = selected eng db js G"
  by (auto simp: selected_def)

lemma tree_ok_join:
  assumes "tree_ok eng db js A l" "tree_ok eng db js B r" "A \<inter> B = {}" "\<forall>q \<in> set (jp # js). wf_join_pred K q"
    and "pred_t1 jp \<in> A \<union> B" "pred_t2 jp \<in> A \<union> B"
    and "\<forall>q \<in> set js. pred_t1 q \<in> A \<longleftrightarrow> pred_t2 q \<in> A" "\<forall>q \<in> set js. pred_t1 q \<in> B \<longleftrightarrow> pred_t2 q \<in> B"
  shows "tree_ok eng db (jp # js) (A \<union> B) (join_node jp (Some l) (Some r))"
proof -
  obtain d where j: "join_node jp (Some l) (Some r) = LNode d [Some l, Some r]" "node_type d = L_JOIN"
    by (simp add: join_node_def)
  have "sat_node eng d e = sat_node eng (node jp) e" for e
    using sat_node_join_node [of K jp eng "Some l" "Some r" e] assms(4) j(1) by simp
  then have "rows eng db (Some (LNode d [Some l, Some r])) = selected eng db (jp # js) (A \<union> B)"
    using j(2) assms(1,2) selected_join [OF assms(3-8), of eng db] by (simp add: tree_ok_def)
  with j assms(1-3) show ?thesis by (simp add: tree_ok_def)
qed

lemma tracks_pred_groups:
  assumes "tracks d jps" "q \<in> set jps" "pred_t1 q \<in> uf.members d" "pred_t2 q \<in> uf.members d"
  shows "pred_t1 q \<in> uf.group_of d r \<longleftrightarrow> pred_t2 q \<in> uf.group_of d r"
proof -
  have "(pred_t1 q, pred_t2 q) \<in> edges jps" using assms(2) by (auto simp: edges_def)
  then have "dsu_rep d (pred_t1 q) = dsu_rep d (pred_t2 q)" using assms by (auto simp: tracks_def)
  then show ?thesis by (simp add: uf.group_of_def)
qed

lemma forest_ok_unite:
  assumes f: "forest_ok eng db js d tree" and tr: "tracks d jps" and js: "set js \<subseteq> set jps"
    and wf: "\<forall>q \<in> set (jp # jps). wf_join_pred (uf.members d) q"
    and inv: "dsu_inv d" and r: "dsu_rep d (pred_t1 jp) = Some r1" "dsu_rep d (pred_t2 jp) = Some r2" "r1 \<noteq> r2"
    and u: "dsu_unite d r1 r2 = Some (d', ok)"
  shows "forest_ok eng db (jp # js) d' ((tree(r1 := None, r2 := None))
    (r1 \<mapsto> Some (join_node jp (forest_get tree r1) (forest_get tree r2))))"
proof -
  let ?j = "join_node jp (forest_get tree r1) (forest_get tree r2)"
  note rr = uf.rep_rep [OF inv r(1)] uf.rep_rep [OF inv r(2)]
  from uf.unite_law [OF inv rr r(3)] u have d': "dsu_rep d' = (\<lambda>x. map_option (\<lambda>r. if r = r2 then r1 else r) (dsu_rep d x))"
    by auto
  note g = uf.unite_groups [OF inv rr r(3) u]
  from f rr obtain n1 n2 where n: "tree r1 = Some (Some n1)" "tree_ok eng db js (uf.group_of d r1) n1"
    "tree r2 = Some (Some n2)" "tree_ok eng db js (uf.group_of d r2) n2"
    unfolding forest_ok_def by metis
  have mem: "pred_t1 q \<in> uf.members d" "pred_t2 q \<in> uf.members d" if "q \<in> set (jp # jps)" for q
    using wf that by (auto simp: wf_join_pred_def)
  have "tree_ok eng db (jp # js) (uf.group_of d r1 \<union> uf.group_of d r2) (join_node jp (Some n1) (Some n2))"
  proof (rule tree_ok_join [OF n(2,4)])
    show "uf.group_of d r1 \<inter> uf.group_of d r2 = {}" using r(3) by (rule uf.groups_disjoint)
    show "\<forall>q \<in> set (jp # js). wf_join_pred (uf.members d) q" using wf js by auto
    show "pred_t1 jp \<in> uf.group_of d r1 \<union> uf.group_of d r2" "pred_t2 jp \<in> uf.group_of d r1 \<union> uf.group_of d r2"
      using r by (auto simp: uf.group_of_def)
  qed (use js mem tracks_pred_groups [OF tr] in auto)
  then have j: "tree_ok eng db (jp # js) (uf.group_of d' r1) ?j" using g n by (simp add: forest_get_def)
  have old: "tree_ok eng db (jp # js) (uf.group_of d' s) n"
    if "s \<noteq> r1" "s \<noteq> r2" "tree_ok eng db js (uf.group_of d s) n" for s n
  proof -
    have "pred_t1 jp \<notin> uf.group_of d s" using r(1) that(1) by (simp add: uf.group_of_def)
    with that g show ?thesis by (simp add: tree_ok_def selected_skip)
  qed
  show ?thesis
    unfolding forest_ok_def
  proof
    fix s
    consider "s = r1" | "s = r2" | "s \<noteq> r1" "s \<noteq> r2" by blast
    then show "if dsu_rep d' s = Some s
        then \<exists>n. ((tree(r1 := None, r2 := None))(r1 \<mapsto> Some ?j)) s = Some (Some n) \<and> tree_ok eng db (jp # js) (uf.group_of d' s) n
        else ((tree(r1 := None, r2 := None))(r1 \<mapsto> Some ?j)) s = None"
    proof cases
      case 3
      then have "dsu_rep d' s = Some s \<longleftrightarrow> dsu_rep d s = Some s" by (auto simp: d')
      with 3 old f show ?thesis by (simp add: forest_ok_def) metis
    qed (use d' rr r(3) j in auto)
  qed
qed

lemma add_find_pair:
  assumes d: "dsu_inv d" "uf.members d = K" and K: "'''' \<notin> K" "t1 \<in> K" "t2 \<in> K"
  obtains d1 d2 r1 r2 where "dsu_find (dsu_add t2 (dsu_add t1 d)) t1 = Some (d1, r1)" "dsu_find d1 t2 = Some (d2, r2)"
    "dsu_inv d2" "dsu_rep d2 = dsu_rep d" "dsu_rep d t1 = Some r1" "dsu_rep d t2 = Some r2"
proof -
  have t0: "t1 \<noteq> ''''" "t2 \<noteq> ''''" using K by auto
  let ?d0 = "dsu_add t2 (dsu_add t1 d)"
  have a1: "dsu_inv (dsu_add t1 d)" "dsu_rep (dsu_add t1 d) = dsu_rep d"
    using uf.add_known [OF d(1), of t1] d(2) K t0 by simp_all
  then have "t2 \<in> uf.members (dsu_add t1 d)" using d(2) K by (auto simp: uf.members_def)
  then have d0: "dsu_inv ?d0" "dsu_rep ?d0 = dsu_rep d"
    using uf.add_known [OF a1(1), of t2] t0 a1(2) by simp_all
  obtain r1 r2 where r: "dsu_rep d t1 = Some r1" "dsu_rep d t2 = Some r2"
    using K unfolding d(2) [symmetric] uf.members_def by auto
  obtain d1 where d1: "dsu_find ?d0 t1 = Some (d1, r1)" "dsu_inv d1" "dsu_rep d1 = dsu_rep d"
    using uf.find_law [OF d0(1), of t1 r1] d0(2) r(1) by auto
  obtain d2 where "dsu_find d1 t2 = Some (d2, r2)" "dsu_inv d2" "dsu_rep d2 = dsu_rep d"
    using uf.find_law [OF d1(2), of t2 r2] d1(3) r(2) by auto
  with d1 r show ?thesis by (intro that)
qed

lemma join_step_inv:
  assumes inv: "join_inv eng db K ex0 jps st" and wf: "\<forall>q \<in> set (jp # jps). wf_join_pred K q" and K: "'''' \<notin> K"
  shows "\<exists>st'. join_step st jp = Some (Inr st') \<and> join_inv eng db K ex0 (jps @ [jp]) st'"
proof -
  obtain d tree extras where st: "st = (d, tree, extras)" by (cases st)
  from inv obtain js xs where ex: "extras = ex0 @ map as_filter xs" "set jps = set js \<union> set xs" and
    d: "dsu_inv d" "uf.members d = K" and tr: "tracks d jps" and f: "forest_ok eng db js d tree"
    unfolding st join_inv_def by auto
  define t1 t2 where t: "t1 = pred_t1 jp" "t2 = pred_t2 jp"
  have tK: "t1 \<in> K" "t2 \<in> K" using wf by (auto simp: t wf_join_pred_def)
  then have t0: "t1 \<noteq> ''''" "t2 \<noteq> ''''" using K by auto
  obtain d1 d2 r1 r2 where d1: "dsu_find (dsu_add t2 (dsu_add t1 d)) t1 = Some (d1, r1)"
    and d2: "dsu_find d1 t2 = Some (d2, r2)" "dsu_inv d2" "dsu_rep d2 = dsu_rep d"
    and r: "dsu_rep d t1 = Some r1" "dsu_rep d t2 = Some r2"
    by (rule add_find_pair [OF d K tK])
  note s2 = same_rep [OF d2(3)]
  have step: "join_step st jp =
      (if r1 = r2 then Some (Inr (d2, tree, extras @ [as_filter jp]))
       else Option.bind (dsu_unite d2 r1 r2) (\<lambda>(d3, _). Option.bind (dsu_find d3 r1) (\<lambda>(d4, rep).
         Some (Inr (d4, (tree(r1 := None, r2 := None))
           (rep \<mapsto> Some (join_node jp (forest_get tree r1) (forest_get tree r2))), extras)))))"
    using wf t0 d1 d2(1) unfolding st t by (auto simp: join_step_def wf_join_pred_def pred_t1_def pred_t2_def Let_def)
  show ?thesis
  proof (cases "r1 = r2")
    case True
    have "tracks d2 (jps @ [jp])"
      using tr r True tK d(2) s2 d2(3) by (intro tracks_same) (simp_all add: t)
    then have "join_inv eng db K ex0 (jps @ [jp]) (d2, tree, extras @ [as_filter jp])"
      using ex d2(2) d(2) f by (intro join_invI [of _ _ "xs @ [jp]" _ js]) (auto simp: s2)
    with step True show ?thesis by simp
  next
    case False
    note r' = r [folded d2(3)]
    from uf.unite_law [OF d2(2) uf.rep_rep [OF d2(2) r'(1)] uf.rep_rep [OF d2(2) r'(2)] False]
    obtain d3 where d3: "dsu_unite d2 r1 r2 = Some (d3, True)" "dsu_inv d3"
      "dsu_rep d3 = (\<lambda>x. map_option (\<lambda>r. if r = r2 then r1 else r) (dsu_rep d2 x))" by blast
    have "dsu_rep d3 r1 = Some r1" using uf.rep_rep [OF d2(2) r'(1)] False by (simp add: d3(3))
    from uf.find_law [OF d3(2) this] obtain d4 where
      d4: "dsu_find d3 r1 = Some (d4, r1)" "dsu_inv d4" "dsu_rep d4 = dsu_rep d3" by blast
    note s4 = same_rep [OF d4(3)]
    have "forest_ok eng db (jp # js) d3 ((tree(r1 := None, r2 := None))
        (r1 \<mapsto> Some (join_node jp (forest_get tree r1) (forest_get tree r2))))"
      using f tr ex(2) wf d2(2) r' False d3(1) d(2) by (intro forest_ok_unite [of _ _ _ d2 _ jps]) (auto simp: t s2)
    moreover have "tracks d3 (jps @ [jp])"
      using tr r' False d3(3) wf s2 d(2) by (intro tracks_unite [of d2]) (auto simp: t wf_join_pred_def)
    moreover have "uf.members d3 = K" using d(2) s2(1) by (auto simp: uf.members_def d3(3))
    ultimately have "join_inv eng db K ex0 (jps @ [jp]) (d4, (tree(r1 := None, r2 := None))
        (r1 \<mapsto> Some (join_node jp (forest_get tree r1) (forest_get tree r2))), extras)"
      using ex d4(2) by (intro join_invI [of _ _ xs _ "jp # js"]) (auto simp: s4)
    with step False d3(1) d4(1) show ?thesis by simp
  qed
qed

lemma join_loop_inv:
  assumes "join_inv eng db K ex0 don st" "\<forall>q \<in> set (don @ jps). wf_join_pred K q" "'''' \<notin> K"
  shows "\<exists>st'. join_loop st jps = Some (Inr st') \<and> join_inv eng db K ex0 (don @ jps) st'"
  using assms
proof (induction jps arbitrary: don st)
  case (Cons jp jps)
  from join_step_inv [OF Cons.prems(1) _ Cons.prems(3), of jp] Cons.prems(2) obtain st' where
    "join_step st jp = Some (Inr st')" "join_inv eng db K ex0 (don @ [jp]) st'" by auto
  with Cons.IH [of "don @ [jp]" st'] Cons.prems(2,3) show ?case by simp
qed simp

section \<open>Start and end of the join loop\<close>

definition wf_scans :: "scan_map \<Rightarrow> bool" where
  "wf_scans scans \<longleftrightarrow>
     scans \<noteq> [] \<and> distinct (map fst scans) \<and> list_all (\<lambda>(t, s). t \<noteq> '''' \<and> s = scan_node t) scans"

lemma add_all:
  assumes "dsu_inv d" "'''' \<notin> fst ` set scans"
  shows "dsu_inv (fold (\<lambda>(t, _). dsu_add t) scans d) \<and>
    dsu_rep (fold (\<lambda>(t, _). dsu_add t) scans d) =
      (\<lambda>x. if dsu_rep d x = None \<and> x \<in> fst ` set scans then Some x else dsu_rep d x)"
  using assms
proof (induction scans arbitrary: d)
  case (Cons s scans)
  obtain t n where s: "s = (t, n)" by force
  have "t \<noteq> ''''" using Cons.prems(2) s by auto
  note a = uf.add_law [OF Cons.prems(1) this]
  with Cons.IH [of "dsu_add t d"] Cons.prems(2) show ?case by (auto simp: s fun_eq_iff)
qed auto

lemma scan_forest:
  assumes "list_all (\<lambda>(t, s). t \<noteq> '''' \<and> s = scan_node t) scans"
  shows "fold (\<lambda>(t, scan) m. m(t \<mapsto> Some scan)) scans tree =
    (\<lambda>x. if x \<in> fst ` set scans then Some (Some (scan_node x)) else tree x)"
  using assms by (induction scans arbitrary: tree) (auto simp: fun_eq_iff)

lemma tree_ok_scan:
  assumes "t \<noteq> ''''"
  shows "tree_ok eng db [] {t} (scan_node t)"
proof -
  have "(\<lambda>r. [t \<mapsto> r]) ` db t = cross db {t}"
  proof (rule set_eqI, rule iffI)
    fix e assume "e \<in> cross db {t}"
    then obtain r where "dom e = {t}" "r \<in> db t" "e t = Some r" by (auto simp: cross_def)
    then have "e = [t \<mapsto> r]" by (metis dom_eq_singleton_conv fun_upd_same option.inject)
    with \<open>r \<in> db t\<close> show "e \<in> (\<lambda>r. [t \<mapsto> r]) ` db t" by blast
  qed (auto simp: cross_def split: if_split_asm)
  with assms show ?thesis by (simp add: tree_ok_def scan_node_def selected_def)
qed

lemma join_inv_init:
  assumes "wf_scans scans"
  shows "join_inv eng db (fst ` set scans) ex0 []
    (fold (\<lambda>(t, _). dsu_add t) scans Map.empty, fold (\<lambda>(t, scan) m. m(t \<mapsto> Some scan)) scans Map.empty, ex0)"
proof -
  let ?d = "fold (\<lambda>(t, _). dsu_add t) scans Map.empty"
  have ne: "'''' \<notin> fst ` set scans" and l: "list_all (\<lambda>(t, s). t \<noteq> '''' \<and> s = scan_node t) scans"
    using assms by (auto simp: wf_scans_def list_all_iff)
  have "dsu_inv Map.empty" by (simp add: dsu_inv_def)
  moreover have "dsu_rep Map.empty = Map.empty"
    by (rule dsu_rep_eqI) (auto dest: root_of_dom)
  ultimately have d: "dsu_inv ?d" "dsu_rep ?d = (\<lambda>x. if x \<in> fst ` set scans then Some x else None)"
    using add_all [of Map.empty scans, OF _ ne] by (auto simp: fun_eq_iff)
  have mem: "uf.members ?d = fst ` set scans" by (simp add: uf.members_def d(2))
  have grp: "uf.group_of ?d r = {r}" if "r \<in> fst ` set scans" for r
    using that by (auto simp: uf.group_of_def d(2) split: if_split_asm)
  have "forest_ok eng db [] ?d (fold (\<lambda>(t, scan) m. m(t \<mapsto> Some scan)) scans Map.empty)"
    unfolding forest_ok_def scan_forest [OF l] using ne by (force simp: d(2) grp intro!: tree_ok_scan)
  moreover have "tracks ?d []"
    unfolding tracks_def mem by (auto simp: d(2) edges_def)
  ultimately show ?thesis using d(1) mem by (intro join_invI [of _ _ "[]" _ "[]"]) simp_all
qed

lemma rep_loop_first:
  assumes "dsu_inv d" "set ts \<subseteq> uf.members d"
  shows "rep_loop d r ts = Some (if r \<noteq> '''' \<or> ts = [] then r else the (dsu_rep d (hd ts)))"
  using assms
proof (induction ts arbitrary: d r)
  case (Cons t ts)
  then obtain s where s: "dsu_rep d t = Some s" by (auto simp: uf.members_def)
  from uf.find_law [OF Cons.prems(1) this] obtain d' where
    d': "dsu_find d t = Some (d', s)" "dsu_inv d'" "dsu_rep d' = dsu_rep d" by blast
  have "s \<noteq> ''''" using uf.rep_rep [OF Cons.prems(1) s] Cons.prems(1)
    by (auto simp: dsu_rep_iff dsu_inv_def dest: root_of_dom)
  moreover have "set ts \<subseteq> uf.members d'" using Cons.prems(2) d'(3) by (auto simp: uf.members_def)
  ultimately show ?case using Cons.IH [OF d'(2)] d'(1) s by simp
qed simp

lemma component_group:
  assumes "tracks d jps" "t \<in> uf.members d" "dsu_rep d t = Some r" "\<forall>q \<in> set jps. wf_join_pred (uf.members d) q"
  shows "component jps t = uf.group_of d r"
proof -
  have "x \<in> uf.members d" if "(t, x) \<in> (edges jps)\<^sup>*" for x
    using that assms(2,4) by (induction rule: rtrancl_induct) (auto simp: edges_def wf_join_pred_def)
  moreover have "dsu_rep d t = dsu_rep d x \<longleftrightarrow> (t, x) \<in> (edges jps)\<^sup>*" if "x \<in> uf.members d" for x
    using assms(1,2) that by (simp add: tracks_def)
  ultimately have "(t, x) \<in> (edges jps)\<^sup>* \<longleftrightarrow> dsu_rep d x = Some r" for x
    using assms(3) unfolding uf.members_def by (metis (mono_tags, lifting) mem_Collect_eq option.distinct(1))
  then show ?thesis by (simp add: component_def uf.group_of_def)
qed

lemma buildJoinTree_ok:
  assumes scans: "wf_scans scans" and preds: "\<forall>jp \<in> set joinPreds. wf_join_pred (fst ` set scans) jp"
  shows "\<exists>n xs. buildJoinTree scans joinPreds ex0 = Some (Inr (n, ex0 @ map as_filter xs)) \<and> set xs \<subseteq> set joinPreds \<and>
    wf_input (Some n) \<and> set (getProvidedTables (Some n)) = component joinPreds (fst (hd scans)) \<and>
    {e \<in> rows eng db (Some n). \<forall>x \<in> set xs. pred_t1 x \<in> component joinPreds (fst (hd scans)) \<longrightarrow> sat_node eng (node x) e} =
    {e \<in> cross db (component joinPreds (fst (hd scans))).
       \<forall>jp \<in> set joinPreds. pred_t1 jp \<in> component joinPreds (fst (hd scans)) \<longrightarrow> sat_node eng (node jp) e}"
proof -
  let ?K = "fst ` set scans" and ?t = "fst (hd scans)"
  have K: "'''' \<notin> ?K" "?t \<in> ?K" "scans \<noteq> []" using scans by (auto simp: wf_scans_def list_all_iff)
  from join_loop_inv [OF join_inv_init [OF scans, of eng db ex0], of joinPreds] preds K(1) obtain d tree extras where
    run: "join_loop (fold (\<lambda>(t, _). dsu_add t) scans Map.empty,
      fold (\<lambda>(t, scan) m. m(t \<mapsto> Some scan)) scans Map.empty, ex0) joinPreds = Some (Inr (d, tree, extras))"
    "join_inv eng db ?K ex0 joinPreds (d, tree, extras)" by auto
  then obtain js xs where ex: "extras = ex0 @ map as_filter xs" "set joinPreds = set js \<union> set xs" and
    d: "dsu_inv d" "uf.members d = ?K" "tracks d joinPreds" "forest_ok eng db js d tree" by (auto simp: join_inv_def)
  obtain r where r: "dsu_rep d ?t = Some r" using K(2) d(2) by (auto simp: uf.members_def)
  have C: "component joinPreds ?t = uf.group_of d r"
    using d K(2) r preds by (intro component_group) auto
  obtain n where n: "tree r = Some (Some n)" "tree_ok eng db js (uf.group_of d r) n"
    using d(4) uf.rep_rep [OF d(1) r] unfolding forest_ok_def by metis
  have "rep_loop d '''' (map fst scans) = Some r"
    using rep_loop_first [OF d(1), of "map fst scans"] d(2) K(3) r by (simp add: hd_map)
  with run(1) n(1) ex(1) K(3) have res: "buildJoinTree scans joinPreds ex0 = Some (Inr (n, ex0 @ map as_filter xs))"
    by (simp add: buildJoinTree_def)
  have "pred_t1 q \<in> uf.group_of d r \<longleftrightarrow> pred_t2 q \<in> uf.group_of d r" if "q \<in> set joinPreds" for q
    using that preds d(2) by (intro tracks_pred_groups [OF d(3)]) (auto simp: wf_join_pred_def)
  then have "{e \<in> selected eng db js (uf.group_of d r). \<forall>x \<in> set xs. pred_t1 x \<in> uf.group_of d r \<longrightarrow> sat_node eng (node x) e} =
      {e \<in> cross db (uf.group_of d r). \<forall>jp \<in> set joinPreds. pred_t1 jp \<in> uf.group_of d r \<longrightarrow> sat_node eng (node jp) e}"
    using ex(2) by (auto simp: selected_def)
  with res n(2) ex(2) C show ?thesis by (auto simp: tree_ok_def tables_def)
qed

text \<open>
  C4. The greedy join tree is correct and always returns: for a FROM clause with distinct tables, in
  any iteration order, and join predicates between them, \<open>buildJoinTree\<close> (union-find with path
  compression included) produces a well-formed tree whose tables are exactly those the join
  predicates connect to the first table; its rows, filtered by the predicates kept as extra filters,
  are the rows of the cross product of these tables that satisfy all join predicates on them.
\<close>

theorem buildJoinTree_correct:
  assumes scans: "wf_scans scans" and preds: "\<forall>jp \<in> set joinPreds. wf_join_pred (fst ` set scans) jp"
  shows "\<exists>n xs. buildJoinTree scans joinPreds ex0 = Some (Inr (n, ex0 @ map as_filter xs)) \<and> set xs \<subseteq> set joinPreds \<and>
    wf_input (Some n) \<and> set (getProvidedTables (Some n)) = component joinPreds (fst (hd scans)) \<and>
    {e \<in> rows eng db (Some n). \<forall>x \<in> set xs. pred_t1 x \<in> component joinPreds (fst (hd scans)) \<longrightarrow> sat_node eng (node x) e} =
    {e \<in> cross db (component joinPreds (fst (hd scans))).
       \<forall>jp \<in> set joinPreds. pred_t1 jp \<in> component joinPreds (fst (hd scans)) \<longrightarrow> sat_node eng (node jp) e}"
  by (rule buildJoinTree_ok [OF assms])

section \<open>The tree along a given order\<close>

text \<open>
  The names of the tables can be told apart by the matching the code uses: case-insensitively and
  up to a plural \<open>s\<close>.
\<close>

definition distinguishable :: "string set \<Rightarrow> bool" where
  "distinguishable K \<longleftrightarrow> (\<forall>x \<in> K. \<forall>y \<in> K. namesMatch (toLower x) (toLower y) \<longrightarrow> x = y)"

lemma distinguishable_toLower: "distinguishable K \<Longrightarrow> x \<in> K \<Longrightarrow> y \<in> K \<Longrightarrow> toLower x = toLower y \<Longrightarrow> x = y"
  by (auto simp: distinguishable_def namesMatch_def)

lemma order_match_tables:
  assumes "order_pred_matches joined (toLower t) jp" "wf_join_pred K jp" "distinguishable K" "t \<in> K"
    "set joined = toLower ` J" "J \<subseteq> K"
  shows "pred_t1 jp \<in> J \<union> {t}" "pred_t2 jp \<in> J \<union> {t}"
proof -
  have "x \<in> J" if x: "toLower x \<in> set joined" "x \<in> K" for x
  proof -
    from x(1) assms(5) obtain y where "y \<in> J" "toLower x = toLower y" by auto
    with x(2) assms(3,6) show ?thesis using distinguishable_toLower by blast
  qed
  moreover have "namesMatch (toLower x) (toLower t) \<Longrightarrow> x \<in> K \<Longrightarrow> x = t" for x
    using assms(3,4) by (auto simp: distinguishable_def)
  ultimately show "pred_t1 jp \<in> J \<union> {t}" "pred_t2 jp \<in> J \<union> {t}"
    using assms(1,2) unfolding order_pred_matches_def wf_join_pred_def pred_t1_def [symmetric] pred_t2_def [symmetric] Let_def
    by (metis UnI1 UnI2 singletonI)+
qed

lemma map_of_wf_scans:
  "list_all (\<lambda>(t, s). t \<noteq> '''' \<and> s = scan_node t) scans \<Longrightarrow> map_of scans t = Some s \<Longrightarrow>
     t \<noteq> '''' \<and> s = scan_node t \<and> t \<in> fst ` set scans"
  by (drule map_of_SomeD) (force simp: list_all_iff)

text \<open>The predicates marked as used.\<close>

definition used_preds :: "LogicalPlanNode list \<Rightarrow> bool list \<Rightarrow> LogicalPlanNode list" where
  "used_preds jps used = map fst (filter snd (zip jps used))"

lemma used_preds_update:
  "length used = length jps \<Longrightarrow> i < length jps \<Longrightarrow> \<not> used ! i \<Longrightarrow>
     set (used_preds jps (used[i := True])) = insert (jps ! i) (set (used_preds jps used))"
proof -
  assume l: "length used = length jps" "i < length jps" "\<not> used ! i"
  have used: "set (used_preds jps u) = {jps ! k |k. k < length jps \<and> u ! k}" if "length u = length jps" for u
    using that by (auto simp: used_preds_def set_zip image_iff) (metis fst_conv snd_conv)
  show ?thesis using l by (auto simp: used nth_list_update)
qed

lemma selected_cong_set: "set js = set js' \<Longrightarrow> selected eng db js G = selected eng db js' G"
  by (simp add: selected_def)

lemma order_loop_ok:
  assumes run: "order_loop scans jps current joined used ts = Some (n, used')"
    and scans: "list_all (\<lambda>(t, s). t \<noteq> '''' \<and> s = scan_node t) scans"
    and wf: "\<forall>q \<in> set jps. wf_join_pred (fst ` set scans) q" and dist: "distinguishable (fst ` set scans)"
    and ok: "tree_ok eng db (used_preds jps used) J current"
    and inJ: "\<forall>q \<in> set (used_preds jps used). pred_t1 q \<in> J \<and> pred_t2 q \<in> J"
    and J: "set joined = toLower ` J" "J \<subseteq> fst ` set scans" "J \<inter> set ts = {}" "distinct ts"
    and len: "length used = length jps"
  shows "tree_ok eng db (used_preds jps used') (J \<union> set ts) n \<and> length used' = length jps"
  using run ok inJ J len
proof (induction ts arbitrary: current joined used J)
  case (Cons t ts)
  from Cons.prems(1) obtain s i where t: "map_of scans t = Some s"
    and i: "find (\<lambda>i. \<not> used ! i \<and> order_pred_matches joined (toLower t) (jps ! i)) [0..<length jps] = Some i"
    and rest: "order_loop scans jps (join_node (jps ! i) (Some current) (Some s)) (toLower t # joined) (used[i := True]) ts = Some (n, used')"
    by (auto split: option.split_asm)
  let ?jp = "jps ! i" and ?js = "used_preds jps used" and ?K = "fst ` set scans"
  have i': "i < length jps" "\<not> used ! i" "order_pred_matches joined (toLower t) ?jp"
    using i by (auto simp: find_Some_iff)
  note s = map_of_wf_scans [OF scans t]
  have js: "set (used_preds jps (used[i := True])) = set (?jp # ?js)"
    using used_preds_update [OF Cons.prems(8) i'(1,2)] by simp
  have wfs: "\<forall>q \<in> set (?jp # ?js). wf_join_pred ?K q"
    using wf i'(1) by (auto simp: used_preds_def dest: set_zip_leftD)
  have jp: "pred_t1 ?jp \<in> J \<union> {t}" "pred_t2 ?jp \<in> J \<union> {t}"
    using order_match_tables [OF i'(3) _ dist _ Cons.prems(4,5)] wfs s by auto
  have "t \<notin> J" using Cons.prems(6) by auto
  moreover have "tree_ok eng db ?js {t} (scan_node t)"
  proof -
    have "selected eng db ?js {t} = selected eng db [] {t}"
      using Cons.prems(3) \<open>t \<notin> J\<close> by (auto simp: selected_def)
    with s tree_ok_scan [of t eng db] show ?thesis by (simp add: tree_ok_def)
  qed
  ultimately have "tree_ok eng db (?jp # ?js) (J \<union> {t}) (join_node ?jp (Some current) (Some s))"
    using Cons.prems(2,3) wfs jp s by (intro tree_ok_join [of _ _ _ _ _ _ _ _ ?K]) auto
  then have "tree_ok eng db (used_preds jps (used[i := True])) (J \<union> {t}) (join_node ?jp (Some current) (Some s))"
    by (simp add: tree_ok_def selected_cong_set [OF js])
  from Cons.IH [OF rest this] show ?case
    using js jp Cons.prems(3-8) s by auto
qed simp

lemma set_unused:
  assumes "length used = length jps"
  shows "set jps = set (used_preds jps used) \<union> fst ` set (filter (\<lambda>(jp, u). \<not> u) (zip jps used))"
proof -
  have "set jps = fst ` set (zip jps used)" using assms by (metis list.set_map map_fst_zip)
  then show ?thesis by (force simp: used_preds_def image_iff)
qed

lemma buildJoinTreeFromOrder_ok:
  assumes scans: "list_all (\<lambda>(t, s). t \<noteq> '''' \<and> s = scan_node t) scans"
    and wf: "\<forall>q \<in> set joinPreds. wf_join_pred (fst ` set scans) q" and dist: "distinguishable (fst ` set scans)"
    and order: "distinct joinOrder"
  shows "case buildJoinTreeFromOrder scans joinPreds ex0 joinOrder of
      (None, extras, used) \<Rightarrow> extras = ex0 \<and> \<not> used
    | (Some n, extras, used) \<Rightarrow>
        used \<and> wf_input (Some n) \<and> set (getProvidedTables (Some n)) = set joinOrder \<and>
        (\<exists>xs. extras = map as_filter xs \<and> set xs \<subseteq> set joinPreds \<and>
          {e \<in> rows eng db (Some n). \<forall>x \<in> set xs. pred_t1 x \<in> set joinOrder \<longrightarrow> pred_t2 x \<in> set joinOrder \<longrightarrow> sat_node eng (node x) e} =
          {e \<in> cross db (set joinOrder). \<forall>jp \<in> set joinPreds.
             pred_t1 jp \<in> set joinOrder \<longrightarrow> pred_t2 jp \<in> set joinOrder \<longrightarrow> sat_node eng (node jp) e})"
proof (cases "fst (buildJoinTreeFromOrder scans joinPreds ex0 joinOrder)")
  case None
  then show ?thesis
    by (auto simp: buildJoinTreeFromOrder_def split: list.splits option.splits)
next
  case (Some n)
  then obtain t0 ts s used where o: "joinOrder = t0 # ts" "map_of scans t0 = Some s"
    and run: "order_loop scans joinPreds s [toLower t0] (replicate (length joinPreds) False) ts = Some (n, used)"
    and res: "buildJoinTreeFromOrder scans joinPreds ex0 joinOrder =
      (Some n, map (\<lambda>(jp, u). as_filter jp) (filter (\<lambda>(jp, u). \<not> u) (zip joinPreds used)), True)"
    by (auto simp: buildJoinTreeFromOrder_def split: list.splits option.splits)
  note s = map_of_wf_scans [OF scans o(2)]
  have u0: "used_preds joinPreds (replicate (length joinPreds) False) = []"
    by (auto simp: used_preds_def filter_empty_conv dest: set_zip_rightD)
  have "tree_ok eng db (used_preds joinPreds used) ({t0} \<union> set ts) n \<and> length used = length joinPreds"
    using s order o(1) tree_ok_scan [of t0 eng db] by (intro order_loop_ok [OF run scans wf dist]) (auto simp: u0)
  then have ok: "tree_ok eng db (used_preds joinPreds used) (set joinOrder) n" and len: "length used = length joinPreds"
    by (simp_all add: o(1))
  define xs where "xs = map fst (filter (\<lambda>(jp, u). \<not> u) (zip joinPreds used))"
  have xs: "map (\<lambda>(jp, u). as_filter jp) (filter (\<lambda>(jp, u). \<not> u) (zip joinPreds used)) = map as_filter xs"
    by (simp add: xs_def case_prod_beta)
  have preds: "set joinPreds = set (used_preds joinPreds used) \<union> set xs"
    using set_unused [OF len] by (simp add: xs_def)
  have "{e \<in> selected eng db (used_preds joinPreds used) T.
        \<forall>x \<in> set xs. pred_t1 x \<in> T \<longrightarrow> pred_t2 x \<in> T \<longrightarrow> sat_node eng (node x) e} =
      {e \<in> cross db T. \<forall>jp \<in> set joinPreds. pred_t1 jp \<in> T \<longrightarrow> pred_t2 jp \<in> T \<longrightarrow> sat_node eng (node jp) e}" for T
    unfolding preds by (auto simp: selected_def)
  then show ?thesis unfolding res xs using ok preds by (auto simp: tree_ok_def tables_def intro!: exI [of _ xs])
qed

text \<open>
  C5. The join tree along a given order is correct when the order lists no table twice and no two tables of the query
  are confused by \<open>namesMatch\<close>, that is, their names differ also without regard to case and to a final plural s, and
  each join predicate is an equality between columns of two such tables: when \<open>buildJoinTreeFromOrder\<close> follows
  the order, the tree joins exactly these tables, and its rows, filtered by the predicates it leaves over, are
  the rows of their cross product that satisfy all join predicates on them. Otherwise it reports that the order
  was not used and leaves the caller's filters alone. Without the condition on names the builder can take the wrong
  predicate: for tables \<open>a\<close>, \<open>b\<close>, \<open>bs\<close> it may join \<open>a\<close> with \<open>b\<close> on a predicate between \<open>a\<close> and \<open>bs\<close>.
\<close>

theorem buildJoinTreeFromOrder_correct:
  assumes scans: "list_all (\<lambda>(t, s). t \<noteq> '''' \<and> s = scan_node t) scans"
    and wf: "\<forall>q \<in> set joinPreds. wf_join_pred (fst ` set scans) q" and dist: "distinguishable (fst ` set scans)"
    and order: "distinct joinOrder"
  shows "case buildJoinTreeFromOrder scans joinPreds ex0 joinOrder of
      (None, extras, used) \<Rightarrow> extras = ex0 \<and> \<not> used
    | (Some n, extras, used) \<Rightarrow>
        used \<and> wf_input (Some n) \<and> set (getProvidedTables (Some n)) = set joinOrder \<and>
        (\<exists>xs. extras = map as_filter xs \<and> set xs \<subseteq> set joinPreds \<and>
          {e \<in> rows eng db (Some n). \<forall>x \<in> set xs. pred_t1 x \<in> set joinOrder \<longrightarrow> pred_t2 x \<in> set joinOrder \<longrightarrow> sat_node eng (node x) e} =
          {e \<in> cross db (set joinOrder). \<forall>jp \<in> set joinPreds.
             pred_t1 jp \<in> set joinOrder \<longrightarrow> pred_t2 jp \<in> set joinOrder \<longrightarrow> sat_node eng (node jp) e})"
  by (rule buildJoinTreeFromOrder_ok [OF assms])

section \<open>Witnesses\<close>

definition ex_pred :: "string \<Rightarrow> string \<Rightarrow> string \<Rightarrow> string \<Rightarrow> LogicalPlanNode" where
  "ex_pred t c u d = buildJoinPredicate Map.empty (bin_op kOpEquals (col_ref t c) (col_ref u d))"

definition ex_scans :: scan_map where
  "ex_scans = map (\<lambda>t. (t, scan_node t)) [''o'', ''u'', ''p'']"

definition ex_preds :: "LogicalPlanNode list" where
  "ex_preds = [ex_pred ''o'' ''user_id'' ''u'' ''id'', ex_pred ''o'' ''product_id'' ''p'' ''id'', ex_pred ''o'' ''x'' ''u'' ''y'']"

lemma ex_inputs_ok:
  "wf_scans ex_scans" "\<forall>jp \<in> set ex_preds. wf_join_pred (fst ` set ex_scans) jp" "distinguishable (fst ` set ex_scans)"
  by code_simp+

text \<open>The example of the source comment: three tables, the third predicate becomes a filter.\<close>

theorem buildJoinTree_correct_witness:
  "\<exists>n xs. buildJoinTree ex_scans ex_preds [] = Some (Inr (n, [] @ map as_filter xs)) \<and> set xs \<subseteq> set ex_preds \<and>
     wf_input (Some n) \<and> set (getProvidedTables (Some n)) = component ex_preds (fst (hd ex_scans))"
  using buildJoinTree_correct [OF ex_inputs_ok(1,2), of "[]" ex_engine ex_db] by blast

theorem buildJoinTreeFromOrder_correct_witness:
  "case buildJoinTreeFromOrder ex_scans ex_preds [] [''p'', ''o'', ''u''] of
     (None, extras, used) \<Rightarrow> False
   | (Some n, extras, used) \<Rightarrow> used \<and> wf_input (Some n) \<and> set (getProvidedTables (Some n)) = {''p'', ''o'', ''u''}"
proof -
  have "snd (snd (buildJoinTreeFromOrder ex_scans ex_preds [] [''p'', ''o'', ''u'']))" by code_simp
  moreover have "list_all (\<lambda>(t, s). t \<noteq> '''' \<and> s = scan_node t) ex_scans"
    using ex_inputs_ok(1) by (simp add: wf_scans_def)
  ultimately show ?thesis
    using buildJoinTreeFromOrder_correct [OF _ ex_inputs_ok(2,3), of "[''p'', ''o'', ''u'']" "[]" ex_engine ex_db]
    by (auto split: option.splits prod.splits)
qed

end
