(* ===== verification/SelectPlanBuilder.thy ===== *)
theory SelectPlanBuilder
  imports JoinTreeBuilder "HOL-Library.Multiset"
begin

text \<open>
  \<^verbatim>\<open>SelectPlanBuilder.cpp\<close>: aggregate detection, generated aliases, predicate grouping, the input
  tree (scans, joins, pushed selections), the output tree (MAP, AGGREGATE, PROJECTION), SORT, and
  LIMIT. The result type \<open>'a res option\<close> carries exceptions inside and, outside, the possibility
  that the union-find search would not return, which the theorems exclude.
\<close>

section \<open>Data\<close>

record TranslationContext =
  aliasToTable :: "string \<rightharpoonup> string"
  aggAliasCounters :: "PlanAggFunc \<Rightarrow> 32 word"

definition TranslationContext_default :: TranslationContext where
  "TranslationContext_default = \<lparr>aliasToTable = Map.empty, aggAliasCounters = (\<lambda>_. 0)\<rparr>"

record AggPattern =
  ap_func :: PlanAggFunc
  ap_is_star :: bool
  ap_is_col :: bool
  ap_col :: Column
  is_sum_mul :: bool
  is_sum_sub :: bool
  leftCol :: Column
  rightCol :: Column
  ap_alias :: string

definition AggPattern_default :: AggPattern where
  "AggPattern_default =
     \<lparr>ap_func = A_COUNT, ap_is_star = False, ap_is_col = False, ap_col = Column_default,
      is_sum_mul = False, is_sum_sub = False, leftCol = Column_default, rightCol = Column_default,
      ap_alias = ''''\<rparr>"

record AggWithName =
  pattern :: AggPattern
  agg_name :: string

record SelectAnalysis =
  hasAgg :: bool
  projections :: "Column list"
  aggregates :: "AggWithName list"
  aggSpecs :: "AggSpec list"

definition SelectAnalysis_default :: SelectAnalysis where
  "SelectAnalysis_default = \<lparr>hasAgg = False, projections = [], aggregates = [], aggSpecs = []\<rparr>"

section \<open>Aggregation detection\<close>

definition agg_func_of_name :: "string option \<Rightarrow> PlanAggFunc option" where
  "agg_func_of_name nm =
     (if iequals nm (Some ''COUNT'') then Some A_COUNT
      else if iequals nm (Some ''SUM'') then Some A_SUM
      else if iequals nm (Some ''MIN'') then Some A_MIN
      else if iequals nm (Some ''MAX'') then Some A_MAX
      else if iequals nm (Some ''AVG'') then Some A_AVG
      else None)"

text \<open>The branches of \<open>matchAgg\<close> on the first argument.\<close>

definition match_agg_arg :: "(string \<rightharpoonup> string) \<Rightarrow> AggPattern \<Rightarrow> Expr \<Rightarrow> AggPattern option" where
  "match_agg_arg al ap arg =
     (if ap_func ap = A_COUNT \<and>
         (etype (edata arg) = kExprStar \<or> (is_col arg \<and> ename (edata arg) = Some ''*''))
      then Some (ap\<lparr>ap_is_star := True\<rparr>)
      else
        (case (expr arg, expr2 arg) of
           (Some l, Some r) \<Rightarrow>
             if ap_func ap = A_SUM \<and> etype (edata arg) = kExprOperator \<and> is_col l \<and> is_col r then
               (let ap' = ap\<lparr>leftCol := toColumnFromExpr (Some l) al, rightCol := toColumnFromExpr (Some r) al\<rparr> in
                if opType (edata arg) = kOpAsterisk then Some (ap'\<lparr>is_sum_mul := True\<rparr>)
                else if opType (edata arg) = kOpMinus then Some (ap'\<lparr>is_sum_sub := True\<rparr>)
                else None)
             else if is_col arg then Some (ap\<lparr>ap_is_col := True, ap_col := toColumnFromExpr (Some arg) al\<rparr>)
             else None
         | _ \<Rightarrow>
             if is_col arg then Some (ap\<lparr>ap_is_col := True, ap_col := toColumnFromExpr (Some arg) al\<rparr>)
             else None))"

definition matchAgg :: "(string \<rightharpoonup> string) \<Rightarrow> Expr option \<Rightarrow> AggPattern option" where
  "matchAgg al e0 =
     (case e0 of
        None \<Rightarrow> None
      | Some e \<Rightarrow>
          if etype (edata e) \<noteq> kExprFunctionRef \<or> ename (edata e) = None then None
          else (case agg_func_of_name (ename (edata e)) of
              None \<Rightarrow> None
            | Some f \<Rightarrow>
                let ap = AggPattern_default\<lparr>ap_func := f, ap_alias := str_of (ealias (edata e))\<rparr> in
                (case exprList e of
                   None \<Rightarrow> Some (ap\<lparr>ap_is_star := True\<rparr>)
                 | Some [] \<Rightarrow> Some (ap\<lparr>ap_is_star := True\<rparr>)
                 | Some (None # _) \<Rightarrow> None
                 | Some (Some arg # _) \<Rightarrow> match_agg_arg al ap arg)))"

section \<open>Aggregate alias generation\<close>

definition kAggFuncToName :: "PlanAggFunc \<Rightarrow> string" where
  "kAggFuncToName f =
     (case f of A_SUM \<Rightarrow> ''sum'' | A_COUNT \<Rightarrow> ''count'' | A_AVG \<Rightarrow> ''avg'' | A_MIN \<Rightarrow> ''min'' | A_MAX \<Rightarrow> ''max'')"

definition kNameToAggFunc :: "string \<rightharpoonup> PlanAggFunc" where
  "kNameToAggFunc =
     map_of [(''sum'', A_SUM), (''count'', A_COUNT), (''avg'', A_AVG), (''min'', A_MIN), (''max'', A_MAX)]"

text \<open>
  The counter is an \<^verbatim>\<open>int\<close>: a word of 32 bits, read as a signed number. Counting beyond the largest \<^verbatim>\<open>int\<close> is undefined
  in C++ and wraps in the model.
\<close>

definition generateAggAlias :: "TranslationContext \<Rightarrow> PlanAggFunc \<Rightarrow> string \<times> TranslationContext" where
  "generateAggAlias ctx f =
     (let counter = aggAliasCounters ctx f + 1 in
      (kAggFuncToName f @ int_to_string (sint counter),
       ctx\<lparr>aggAliasCounters := (aggAliasCounters ctx)(f := counter)\<rparr>))"

definition generateAggAlias_by_name :: "TranslationContext \<Rightarrow> string \<Rightarrow> string \<times> TranslationContext" where
  "generateAggAlias_by_name ctx funcName =
     (case kNameToAggFunc (toLower funcName) of Some f \<Rightarrow> generateAggAlias ctx f | None \<Rightarrow> (''agg'', ctx))"

section \<open>Context and predicates\<close>

definition initializeSelectContext :: "SelectStatement \<Rightarrow> TranslationContext \<Rightarrow> TranslationContext" where
  "initializeSelectContext sel ctx =
     ctx\<lparr>aliasToTable := collectAliases (fromTable sel) Map.empty, aggAliasCounters := (\<lambda>_. 0)\<rparr>"

definition extractPredicates ::
  "(string \<rightharpoonup> string) \<Rightarrow> Expr option \<Rightarrow> (LogicalPlanNode list \<times> LogicalPlanNode list) res" where
  "extractPredicates al wc =
     foldE (\<lambda>(joinPreds, selectionPreds) p.
       bindE (buildPredicateNode al (Some p)) (\<lambda>n.
         Inr (if node_type (node n) = L_JOIN then (joinPreds @ [n], selectionPreds)
              else (joinPreds, selectionPreds @ [n])))) ([], []) (splitConjuncts wc [])"

section \<open>Input tree\<close>

text \<open>A loop of \<open>pushDownSelectionPredicate\<close> calls on the same root pointer.\<close>

definition push_all :: "LogicalPlanNode list \<Rightarrow> LogicalPlanNode option \<Rightarrow> LogicalPlanNode option" where
  "push_all ps root = fold (\<lambda>p n. pushDownSelectionPredicate n (Some p)) ps root"

definition buildSelectInputTree ::
  "scan_map \<Rightarrow> LogicalPlanNode list \<Rightarrow> string list \<Rightarrow> LogicalPlanNode option res option" where
  "buildSelectInputTree scanByTable joinPreds jsonJoinOrder =
     (let resolved = resolveJoinOrderToScans jsonJoinOrder scanByTable in
      if jsonJoinOrder \<noteq> [] \<and> length resolved \<noteq> length scanByTable
      then Some (Inl (RuntimeError ''JSON join order is missing tables from the SQL FROM clause''))
      else
        (case (if resolved \<noteq> [] then buildJoinTreeFromOrder scanByTable joinPreds [] resolved else (None, [], False)) of
           (Some current, extraJoinFilters, True) \<Rightarrow> Some (Inr (push_all extraJoinFilters (Some current)))
         | _ \<Rightarrow>
             map_option (\<lambda>r. bindE r (\<lambda>(current, extraJoinFilters).
               Inr (push_all extraJoinFilters (Some current)))) (buildJoinTree scanByTable joinPreds [])))"

definition applySelectionPredicates ::
  "LogicalPlanNode option \<Rightarrow> LogicalPlanNode list \<Rightarrow> LogicalPlanNode option" where
  "applySelectionPredicates root selectionPreds =
     push_all (filter (\<lambda>p. node_type (node p) \<noteq> L_SETOPERATION) selectionPreds)
       (push_all (filter (\<lambda>p. node_type (node p) = L_SETOPERATION) selectionPreds) root)"

section \<open>GROUP BY, LIMIT and the SELECT list\<close>

definition collectGroupByColumns :: "(string \<rightharpoonup> string) \<Rightarrow> SelectStatement \<Rightarrow> Column list" where
  "collectGroupByColumns al sel =
     (case groupBy sel of
        Some (Some cols) \<Rightarrow> map (\<lambda>ge. toColumnFromExpr (Some ge) al) (filter is_col (nonnull cols))
      | _ \<Rightarrow> [])"

text \<open>\<^verbatim>\<open>static_cast<int>\<close> of a 64-bit value keeps the low 32 bits.\<close>

definition limit_value :: "string \<Rightarrow> Expr option \<Rightarrow> 32 word option \<Rightarrow> 32 word option res" where
  "limit_value msg e old =
     (case e of
        None \<Rightarrow> Inr old
      | Some le \<Rightarrow>
          if etype (edata le) \<noteq> kExprLiteralInt then Inl (RuntimeError msg)
          else Inr (Some (ucast (ival (edata le)))))"

definition set_expression :: "(Expression \<Rightarrow> Expression) \<Rightarrow> LogicalPlanNode \<Rightarrow> LogicalPlanNode" where
  "set_expression f n = LNode ((node n)\<lparr>expression := f (expression (node n))\<rparr>) (children n)"

definition applyLimitOffset :: "LogicalPlanNode \<Rightarrow> SelectStatement \<Rightarrow> LogicalPlanNode res" where
  "applyLimitOffset root sel =
     (case limit sel of
        None \<Rightarrow> Inr root
      | Some (lim, off) \<Rightarrow>
          bindE (limit_value ''Unsupported LIMIT expression (expected integer literal)'' lim
                   (limit_count (expression (node root)))) (\<lambda>c.
          bindE (limit_value ''Unsupported OFFSET expression (expected integer literal)'' off
                   (limit_offset (expression (node root)))) (\<lambda>k.
            Inr (set_expression (\<lambda>x. x\<lparr>limit_count := c, limit_offset := k\<rparr>) root))))"

definition add_aggregate :: "AggPattern \<Rightarrow> string \<Rightarrow> SelectAnalysis \<Rightarrow> SelectAnalysis" where
  "add_aggregate ap name result =
     result\<lparr>hasAgg := True,
       aggregates := aggregates result @ [\<lparr>pattern = ap, agg_name = name\<rparr>],
       aggSpecs := aggSpecs result @
         [\<lparr>agg_func = ap_func ap, agg_input = (if ap_is_col ap then Some (ap_col ap) else None),
           result_alias = (if name \<noteq> '''' then Some name else None), agg_is_star = ap_is_star ap\<rparr>]\<rparr>"

definition analyze_item ::
  "(string \<rightharpoonup> string) \<Rightarrow> SelectAnalysis \<times> TranslationContext \<Rightarrow> Expr option \<Rightarrow> SelectAnalysis \<times> TranslationContext" where
  "analyze_item al st e =
     (case st of (result, ctx) \<Rightarrow>
      case matchAgg al e of
        Some ap \<Rightarrow>
          (let (name, ctx') = (if ap_alias ap \<noteq> '''' then (ap_alias ap, ctx) else generateAggAlias ctx (ap_func ap)) in
           (add_aggregate ap name result, ctx'))
      | None \<Rightarrow>
          (case e of
             Some x \<Rightarrow>
               if is_col x then
                 (result\<lparr>projections := projections result @
                    [(toColumnFromExpr e al)\<lparr>col_alias := ealias (edata x)\<rparr>]\<rparr>, ctx)
               else (result, ctx)
           | None \<Rightarrow> (result, ctx)))"

definition analyzeSelectClause ::
  "SelectStatement \<Rightarrow> (string \<rightharpoonup> string) \<Rightarrow> TranslationContext \<Rightarrow> SelectAnalysis \<times> TranslationContext" where
  "analyzeSelectClause sel al ctx =
     (case selectList sel of
        None \<Rightarrow> (SelectAnalysis_default, ctx)
      | Some items \<Rightarrow> foldl (analyze_item al) (SelectAnalysis_default, ctx) items)"

section \<open>Output tree\<close>

definition map_node :: "AggPattern \<Rightarrow> LogicalPlanNode option \<Rightarrow> LogicalPlanNode" where
  "map_node ap input =
     LNode ((new_node L_MAP)\<lparr>base_columns := [leftCol ap, rightCol ap],
       expression := Expression_default\<lparr>arith_op := Some (if is_sum_mul ap then O_MUL else O_SUB)\<rparr>\<rparr>) [input]"

text \<open>The loop of \<open>applyMapNodes\<close> from index \<open>aggIdx\<close> on.\<close>

fun map_nodes_loop ::
  "AggWithName list \<Rightarrow> nat \<Rightarrow> LogicalPlanNode option \<Rightarrow> AggSpec list \<Rightarrow> (LogicalPlanNode option \<times> AggSpec list) res" where
  "map_nodes_loop [] aggIdx input specs = Inr (input, specs)"
| "map_nodes_loop (a # as) aggIdx input specs =
     (if is_sum_mul (pattern a) \<or> is_sum_sub (pattern a) then
        (if aggIdx < length specs
         then map_nodes_loop as (aggIdx + 1) (Some (map_node (pattern a) input))
                (specs[aggIdx := (specs ! aggIdx)\<lparr>agg_input := None\<rparr>])
         else Inl OutOfRange)
      else map_nodes_loop as (aggIdx + 1) input specs)"

definition applyMapNodes ::
  "LogicalPlanNode option \<Rightarrow> SelectAnalysis \<Rightarrow> (LogicalPlanNode option \<times> SelectAnalysis) res" where
  "applyMapNodes inputRoot sa =
     bindE (map_nodes_loop (aggregates sa) 0 inputRoot (aggSpecs sa)) (\<lambda>(input, specs).
       Inr (input, sa\<lparr>aggSpecs := specs\<rparr>))"

definition agg_output_column :: "AggWithName \<Rightarrow> Column" where
  "agg_output_column a =
     mkColumn '''' (agg_name a) T_INTEGER (if ap_alias (pattern a) \<noteq> '''' then Some (ap_alias (pattern a)) else None) None"

definition buildSelectOutputTree ::
  "LogicalPlanNode option \<Rightarrow> Column list \<Rightarrow> SelectAnalysis \<Rightarrow> bool \<Rightarrow> (LogicalPlanNode \<times> SelectAnalysis) res" where
  "buildSelectOutputTree inputRoot groupByCols sa needsAggNode =
     (if \<not> needsAggNode then
        Inr (LNode ((new_node L_PROJECTION)\<lparr>projected_columns := projections sa\<rparr>) [inputRoot], sa)
      else
        bindE (applyMapNodes inputRoot sa) (\<lambda>(input, sa').
          let ag = LNode ((new_node L_AGGREGATE)\<lparr>base_columns := groupByCols,
                     expression := Expression_default\<lparr>agg_specs := aggSpecs sa'\<rparr>\<rparr>) [input];
              proj = LNode ((new_node L_PROJECTION)\<lparr>projected_columns :=
                       projections sa' @ map agg_output_column (aggregates sa')\<rparr>) [Some ag]
          in Inr (proj, sa')))"

definition agg_matches :: "PlanAggFunc \<Rightarrow> bool \<Rightarrow> Column option \<Rightarrow> AggPattern \<Rightarrow> bool" where
  "agg_matches f isStar col p \<longleftrightarrow>
     ap_func p = f \<and>
     ((isStar \<and> ap_is_star p) \<or>
      (case col of
         Some c \<Rightarrow> ap_is_col p \<and> column_name (ap_col p) = column_name c \<and>
           (table_name (ap_col p) = '''' \<or> table_name c = '''' \<or> iequals (Some (table_name (ap_col p))) (Some (table_name c)))
       | None \<Rightarrow> \<not> isStar))"

definition findAggAlias :: "AggWithName list \<Rightarrow> PlanAggFunc \<Rightarrow> bool \<Rightarrow> Column option \<Rightarrow> string" where
  "findAggAlias aggs f isStar col =
     (case find (\<lambda>a. agg_matches f isStar col (pattern a)) aggs of
        Some a \<Rightarrow> agg_name a
      | None \<Rightarrow> (case find (\<lambda>a. ap_func (pattern a) = f) aggs of Some a \<Rightarrow> agg_name a | None \<Rightarrow> ''''))"

definition ensureDefaultAggregate :: "SelectAnalysis \<Rightarrow> SelectAnalysis" where
  "ensureDefaultAggregate sa =
     (if aggSpecs sa \<noteq> [] then sa
      else sa\<lparr>
        aggregates := aggregates sa @
          [\<lparr>pattern = AggPattern_default\<lparr>ap_func := A_COUNT, ap_is_star := True\<rparr>, agg_name = ''agg''\<rparr>],
        aggSpecs := aggSpecs sa @
          [\<lparr>agg_func = A_COUNT, agg_input = None, result_alias = Some ''agg'', agg_is_star = True\<rparr>]\<rparr>)"

definition sort_item ::
  "AggWithName list \<Rightarrow> (string \<rightharpoonup> string) \<Rightarrow> Column list \<times> bool list \<times> TranslationContext \<Rightarrow>
     OrderDescription option \<Rightarrow> (Column list \<times> bool list \<times> TranslationContext) res" where
  "sort_item aggs al st od =
     (case st of (cols, dirs, ctx) \<Rightarrow>
      case od of
        None \<Rightarrow> Inr st
      | Some o' \<Rightarrow>
          (case oexpr o' of
             None \<Rightarrow> Inr st
           | Some x \<Rightarrow>
               let asc = (otype o' \<noteq> kOrderDesc) in
               if is_col x then Inr (cols @ [toColumnFromExpr (Some x) al], dirs @ [asc], ctx)
               else if etype (edata x) = kExprFunctionRef \<and> ename (edata x) \<noteq> None then
                 (case matchAgg al (Some x) of
                    None \<Rightarrow> Inl (RuntimeError ''Unsupported ORDER BY function'')
                  | Some ap \<Rightarrow>
                      let found = findAggAlias aggs (ap_func ap) (ap_is_star ap)
                                    (if ap_is_col ap then Some (ap_col ap) else None);
                          (name, ctx') = (if found = '''' then generateAggAlias ctx (ap_func ap) else (found, ctx))
                      in Inr (cols @ [mkColumn '''' name T_INTEGER None None], dirs @ [asc], ctx'))
               else Inl (RuntimeError ''Unsupported ORDER BY expression'')))"

definition applySortNode ::
  "LogicalPlanNode \<Rightarrow> SelectStatement \<Rightarrow> AggWithName list \<Rightarrow> (string \<rightharpoonup> string) \<Rightarrow> TranslationContext \<Rightarrow>
     (LogicalPlanNode \<times> TranslationContext) res" where
  "applySortNode root sel aggs al ctx =
     (case order_by sel of
        None \<Rightarrow> Inr (root, ctx)
      | Some ods \<Rightarrow>
          bindE (foldE (sort_item aggs al) ([], [], ctx) ods) (\<lambda>(cols, dirs, ctx').
            Inr (if cols \<noteq> []
                 then (LNode ((new_node L_SORT)\<lparr>base_columns := cols,
                         expression := Expression_default\<lparr>sort_order := Some dirs\<rparr>\<rparr>) [Some root], ctx')
                 else (root, ctx'))))"

section \<open>Main SELECT builder\<close>

text \<open>Everything of \<open>buildPlanForSelect\<close> above the input tree.\<close>

definition build_select_output ::
  "SelectStatement \<Rightarrow> TranslationContext \<Rightarrow> LogicalPlanNode option \<Rightarrow> (LogicalPlanNode \<times> TranslationContext) res" where
  "build_select_output sel ctx current =
     (let al = aliasToTable ctx;
          groupByCols = collectGroupByColumns al sel;
          (sa, ctx1) = analyzeSelectClause sel al ctx;
          needsAggNode = (hasAgg sa \<or> groupByCols \<noteq> []);
          sa1 = (if needsAggNode then ensureDefaultAggregate sa else sa)
      in bindE (buildSelectOutputTree current groupByCols sa1 needsAggNode) (\<lambda>(root, sa2).
         bindE (applySortNode root sel (aggregates sa2) al ctx1) (\<lambda>(root', ctx2).
         bindE (applyLimitOffset root' sel) (\<lambda>root''. Inr (root'', ctx2)))))"

definition buildPlanForSelect ::
  "(scan_map \<Rightarrow> scan_map) \<Rightarrow> SelectStatement \<Rightarrow> string list \<Rightarrow> TranslationContext \<Rightarrow>
     (LogicalPlanNode \<times> TranslationContext) res option" where
  "buildPlanForSelect hash_order sel jsonJoinOrder ctx =
     (let ctx0 = initializeSelectContext sel ctx; al = aliasToTable ctx0 in
      case bindE (buildScanMap hash_order (fromTable sel)) (\<lambda>scans.
             bindE (extractPredicates al (whereClause sel)) (\<lambda>preds. Inr (scans, preds))) of
        Inl e \<Rightarrow> Some (Inl e)
      | Inr (scanByTable, joinPreds, selectionPreds) \<Rightarrow>
          map_option (\<lambda>r. bindE r (\<lambda>current.
            build_select_output sel ctx0 (applySelectionPredicates current selectionPreds)))
            (buildSelectInputTree scanByTable joinPreds jsonJoinOrder))"

section \<open>Predicate extraction\<close>

lemma list_all2_source: "list_all2 P xs ys \<Longrightarrow> y \<in> set ys \<Longrightarrow> \<exists>x \<in> set xs. P x y"
  by (induction rule: list_all2_induct) auto

lemma extractPredicates_nodes:
  assumes "extractPredicates al wc = Inr (js, ss)"
  obtains ns where "list_all2 (\<lambda>c n. buildPredicateNode al (Some c) = Inr n) (splitConjuncts wc []) ns"
    "js = filter (\<lambda>n. node_type (node n) = L_JOIN) ns" "ss = filter (\<lambda>n. node_type (node n) \<noteq> L_JOIN) ns"
proof -
  have "\<exists>ns. list_all2 (\<lambda>c n. buildPredicateNode al (Some c) = Inr n) cs ns \<and>
      js = j0 @ filter (\<lambda>n. node_type (node n) = L_JOIN) ns \<and> ss = s0 @ filter (\<lambda>n. node_type (node n) \<noteq> L_JOIN) ns"
    if "foldE (\<lambda>(joinPreds, selectionPreds) p. bindE (buildPredicateNode al (Some p)) (\<lambda>n.
         Inr (if node_type (node n) = L_JOIN then (joinPreds @ [n], selectionPreds)
              else (joinPreds, selectionPreds @ [n])))) (j0, s0) cs = Inr (js, ss)" for cs j0 s0
    using that
  proof (induction cs arbitrary: j0 s0)
    case (Cons c cs)
    from Cons.prems obtain n where n: "buildPredicateNode al (Some c) = Inr n" by (auto simp: bindE_Inr_iff)
    obtain j1 s1 where js1: "(if node_type (node n) = L_JOIN then (j0 @ [n], s0) else (j0, s0 @ [n])) = (j1, s1)" by force
    with Cons.prems n Cons.IH [of j1 s1] obtain ns where
      "list_all2 (\<lambda>c n. buildPredicateNode al (Some c) = Inr n) cs ns"
      "js = j1 @ filter (\<lambda>n. node_type (node n) = L_JOIN) ns" "ss = s1 @ filter (\<lambda>n. node_type (node n) \<noteq> L_JOIN) ns"
      by auto
    with n js1 show ?case by (intro exI [of _ "n # ns"]) (auto split: if_split_asm)
  qed simp
  from this [OF assms [unfolded extractPredicates_def]] that show ?thesis by auto
qed

text \<open>All predicate nodes together hold exactly when the WHERE clause does.\<close>

lemma extractPredicates_sat:
  assumes "extractPredicates al wc = Inr (js, ss)" "engine_spec eng lit sqlop"
    and sym: "\<And>a b. sqlop kOpEquals a b = sqlop kOpEquals b a" "\<And>a b. sqlop kOpNotEquals a b = sqlop kOpNotEquals b a"
    and plain: "list_all (\<lambda>c. plain_cond (Some c)) (splitConjuncts wc [])"
  shows "((\<forall>j \<in> set js. sat_node eng (node j) env) \<and> (\<forall>p \<in> set ss. sat eng p env)) = sql_holds al lit sqlop env wc"
proof -
  from extractPredicates_nodes [OF assms(1)] obtain ns where
    ns: "list_all2 (\<lambda>c n. buildPredicateNode al (Some c) = Inr n) (splitConjuncts wc []) ns"
    "js = filter (\<lambda>n. node_type (node n) = L_JOIN) ns" "ss = filter (\<lambda>n. node_type (node n) \<noteq> L_JOIN) ns" by blast
  have one: "sat eng n env = sql_holds al lit sqlop env (Some c)"
    if "plain_cond (Some c)" "buildPredicateNode al (Some c) = Inr n" for c n
    by (rule plain_predicate_sat [where sqlop = sqlop and lit = lit, OF assms(2) sym that])
  have "(\<forall>n \<in> set ns. sat eng n env) = list_all (\<lambda>c. sql_holds al lit sqlop env (Some c)) (splitConjuncts wc [])"
    using ns(1) plain
  proof (induction rule: list_all2_induct)
    case (Cons c cs n ns)
    from Cons.prems have c: "plain_cond (Some c)" and cs: "list_all (\<lambda>c. plain_cond (Some c)) cs" by simp_all
    show ?case using one [OF c Cons.hyps(1)] Cons.IH [OF cs] by simp
  qed simp
  moreover have "(\<forall>n \<in> set ns. sat eng n env) =
      ((\<forall>j \<in> set js. sat_node eng (node j) env) \<and> (\<forall>p \<in> set ss. sat eng p env))"
  proof -
    have "sat eng j env = sat_node eng (node j) env" if "j \<in> set js" for j
      using that by (simp add: ns(2) sat_def)
    then have "(\<forall>j \<in> set js. sat_node eng (node j) env) = (\<forall>j \<in> set js. sat eng j env)" by simp
    then show ?thesis unfolding ns(2,3) by auto
  qed
  ultimately show ?thesis using splitConjuncts_holds [of al lit sqlop env wc "[]"] by simp
qed

lemma extractPredicates_wf:
  assumes "extractPredicates al wc = Inr (js, ss)"
    and "\<And>c p. c \<in> set (splitConjuncts wc []) \<Longrightarrow> buildPredicateNode al (Some c) = Inr p \<Longrightarrow>
      node_type (node p) = L_JOIN \<Longrightarrow> pred_t1 p \<in> K \<and> pred_t2 p \<in> K"
  shows "\<forall>j \<in> set js. wf_join_pred K j" "\<forall>p \<in> set ss. wf_pred p"
proof -
  from extractPredicates_nodes [OF assms(1)] obtain ns where
    ns: "list_all2 (\<lambda>c n. buildPredicateNode al (Some c) = Inr n) (splitConjuncts wc []) ns"
    "js = filter (\<lambda>n. node_type (node n) = L_JOIN) ns" "ss = filter (\<lambda>n. node_type (node n) \<noteq> L_JOIN) ns" by blast
  have n: "\<exists>c \<in> set (splitConjuncts wc []). buildPredicateNode al (Some c) = Inr n" if "n \<in> set ns" for n
    using list_all2_source [OF ns(1) that] .
  show "\<forall>j \<in> set js. wf_join_pred K j"
  proof
    fix j assume "j \<in> set js"
    with n ns(2) obtain c where c: "c \<in> set (splitConjuncts wc [])" "buildPredicateNode al (Some c) = Inr j"
      "node_type (node j) = L_JOIN" by auto
    with assms(2) [OF c] buildPredicateNode_pred_shape [OF c(2)] show "wf_join_pred K j"
      by (auto simp: pred_shape_def wf_join_pred_def is_union_def)
  qed
  show "\<forall>p \<in> set ss. wf_pred p"
  proof
    fix p assume "p \<in> set ss"
    with n ns(3) obtain c where "buildPredicateNode al (Some c) = Inr p" "node_type (node p) \<noteq> L_JOIN" by auto
    then show "wf_pred p" using pred_shape_wf_pred [OF buildPredicateNode_pred_shape] by blast
  qed
qed

section \<open>Pushing a list of predicates\<close>

lemma push_all_ok:
  assumes "wf_input n" "\<forall>p \<in> set ps. wf_pred p"
  shows "wf_input (push_all ps n) \<and> tables (push_all ps n) = tables n \<and>
    rows eng db (push_all ps n) = {e \<in> rows eng db n. \<forall>p \<in> set ps. sat eng p e}"
  using assms
proof (induction ps arbitrary: n)
  case (Cons p ps)
  have "pushed_ok eng db n p (pushDownSelectionPredicate n (Some p))"
    using Cons.prems by (intro pushDown_ok) auto
  with Cons.IH [of "pushDownSelectionPredicate n (Some p)"] Cons.prems(2) show ?case
    by (auto simp: push_all_def pushed_ok_def)
qed (simp add: push_all_def)

lemma applySelectionPredicates_ok:
  assumes "wf_input n" "\<forall>p \<in> set ss. wf_pred p"
  shows "wf_input (applySelectionPredicates n ss) \<and>
    rows eng db (applySelectionPredicates n ss) = {e \<in> rows eng db n. \<forall>p \<in> set ss. sat eng p e}"
proof -
  let ?a = "push_all (filter (\<lambda>p. node_type (node p) = L_SETOPERATION) ss) n"
  have "wf_input ?a" "rows eng db ?a = {e \<in> rows eng db n. \<forall>p \<in> set ss. node_type (node p) = L_SETOPERATION \<longrightarrow> sat eng p e}"
    using push_all_ok [OF assms(1), of "filter (\<lambda>p. node_type (node p) = L_SETOPERATION) ss" eng db] assms(2) by auto
  with push_all_ok [of ?a "filter (\<lambda>p. node_type (node p) \<noteq> L_SETOPERATION) ss" eng db] assms(2) show ?thesis
    by (auto simp: applySelectionPredicates_def)
qed

section \<open>Resolving a JSON join order\<close>

lemma findMatchingScanTable_key: "findMatchingScanTable n scans \<noteq> '''' \<Longrightarrow> findMatchingScanTable n scans \<in> fst ` set scans"
proof -
  let ?b = "normalizeTableToken n"
  let ?ms = "concat (map (\<lambda>cand. filter (\<lambda>key. namesMatch cand (normalizeTableToken key)) (map fst scans))
    ([?b] @ (if starts_with ?b ''dim_'' then [drop 4 ?b] else [])))"
  have f: "findMatchingScanTable n scans = (case ?ms of [] \<Rightarrow> '''' | k # _ \<Rightarrow> k)"
    by (simp only: findMatchingScanTable_def Let_def)
  assume "findMatchingScanTable n scans \<noteq> ''''"
  with f obtain k ks where k: "?ms = k # ks" by (cases ?ms) (simp_all only: list.case refl not_True_eq_False)
  then have "k \<in> set ?ms" by (metis list.set_intros(1))
  then have "k \<in> fst ` set scans" by auto
  with f k show ?thesis by (simp only: list.case)
qed

text \<open>The resolved order lists tables of the FROM clause, none of them twice.\<close>

lemma resolveJoinOrderToScans_ok:
  "distinct (resolveJoinOrderToScans order scans) \<and> set (resolveJoinOrderToScans order scans) \<subseteq> fst ` set scans"
proof -
  define P where "P = (\<lambda>(resolved, seen). seen = map toLower resolved \<and> distinct seen \<and> set resolved \<subseteq> fst ` set scans)"
  have step: "P st \<Longrightarrow> P (resolve_order_step scans st n)" for st n
    using findMatchingScanTable_key [of n scans]
    by (auto simp: P_def resolve_order_step_def Let_def split: prod.splits if_splits)
  have "P (foldl (resolve_order_step scans) st order)" if "P st" for st
    using that by (induction order arbitrary: st) (simp_all add: step)
  from this [of "([], [])"] show ?thesis
    by (auto simp: P_def resolveJoinOrderToScans_def distinct_map split: prod.splits)
qed

lemma resolveJoinOrderToScans_all:
  assumes "distinct (map fst scans)" "length (resolveJoinOrderToScans order scans) = length scans"
  shows "set (resolveJoinOrderToScans order scans) = fst ` set scans"
proof (rule card_seteq)
  show "card (fst ` set scans) \<le> card (set (resolveJoinOrderToScans order scans))"
    using assms resolveJoinOrderToScans_ok [of order scans]
    by (metis card_length distinct_card length_map list.set_map)
qed (use resolveJoinOrderToScans_ok [of order scans] in auto)

section \<open>The input tree\<close>

lemma buildSelectInputTree_empty:
  "buildSelectInputTree [] js order = Some (Inl (RuntimeError ''No tables in FROM''))"
proof -
  have "resolveJoinOrderToScans order [] = []" using resolveJoinOrderToScans_ok [of order "[]"] by simp
  then show ?thesis by (simp add: buildSelectInputTree_def buildJoinTree_def)
qed

definition spans :: "scan_map \<Rightarrow> LogicalPlanNode list \<Rightarrow> bool" where
  "spans scans js \<longleftrightarrow> component js (fst (hd scans)) = fst ` set scans"

lemma wf_pred_as_filter: "wf_pred (as_filter jp)"
  by (simp add: wf_pred_def as_filter_def)

lemma sat_as_filter [simp]: "sat eng (as_filter jp) e = sat_node eng (node jp) e"
  by (simp add: sat_def as_filter_def sat_node_def split: option.split)

definition input_ok :: "'v engine \<Rightarrow> 'v database \<Rightarrow> string set \<Rightarrow> LogicalPlanNode list \<Rightarrow> LogicalPlanNode option \<Rightarrow> bool" where
  "input_ok eng db K js n \<longleftrightarrow>
     wf_input n \<and> rows eng db n = {e \<in> cross db K. \<forall>jp \<in> set js. sat_node eng (node jp) e}"

lemma input_ok_push:
  assumes "wf_input (Some n)"
    and "{e \<in> rows eng db (Some n). \<forall>x \<in> set xs. sat_node eng (node x) e} = {e \<in> cross db K. \<forall>jp \<in> set js. sat_node eng (node jp) e}"
  shows "input_ok eng db K js (push_all (map as_filter xs) (Some n))"
  using push_all_ok [OF assms(1), of "map as_filter xs" eng db] assms(2)
  by (simp add: wf_pred_as_filter input_ok_def)

lemma buildSelectInputTree_ok:
  assumes scans: "wf_scans scans" and wf: "\<forall>j \<in> set js. wf_join_pred (fst ` set scans) j" and span: "spans scans js"
    and json: "order = [] \<or> distinguishable (fst ` set scans)"
  shows "\<exists>r. buildSelectInputTree scans js order = Some r \<and>
    (\<forall>n. r = Inr n \<longrightarrow> input_ok eng db (fst ` set scans) js n)"
proof -
  let ?K = "fst ` set scans" and ?r = "resolveJoinOrderToScans order scans"
  have K: "pred_t1 j \<in> ?K" "pred_t2 j \<in> ?K" if "j \<in> set js" for j using wf that by (auto simp: wf_join_pred_def)
  from buildJoinTree_ok [OF scans wf, of "[]" eng db] obtain n xs where
    n: "buildJoinTree scans js [] = Some (Inr (n, map as_filter xs))" "set xs \<subseteq> set js" "wf_input (Some n)"
    "{e \<in> rows eng db (Some n). \<forall>x \<in> set xs. pred_t1 x \<in> ?K \<longrightarrow> sat_node eng (node x) e} =
     {e \<in> cross db ?K. \<forall>jp \<in> set js. pred_t1 jp \<in> ?K \<longrightarrow> sat_node eng (node jp) e}"
    unfolding span [unfolded spans_def] append_Nil by (elim exE conjE) (rule that)
  then have greedy: "input_ok eng db ?K js (push_all (map as_filter xs) (Some n))"
    using K by (intro input_ok_push) auto
  show ?thesis
  proof (cases "order \<noteq> [] \<and> length ?r \<noteq> length scans")
    case True
    then show ?thesis by (simp add: buildSelectInputTree_def)
  next
    case False
    show ?thesis
    proof (cases "?r \<noteq> [] \<and> fst (buildJoinTreeFromOrder scans js [] ?r) \<noteq> None")
      case True
      then obtain m extras used where m: "buildJoinTreeFromOrder scans js [] ?r = (Some m, extras, used)" by (cases "buildJoinTreeFromOrder scans js [] ?r") auto
      have "order \<noteq> []" using True by (auto simp: resolveJoinOrderToScans_def)
      with False scans json have r: "set ?r = ?K" "distinguishable ?K"
        by (simp_all add: wf_scans_def resolveJoinOrderToScans_all)
      have "list_all (\<lambda>(t, s). t \<noteq> '''' \<and> s = scan_node t) scans" using scans by (simp add: wf_scans_def)
      from buildJoinTreeFromOrder_ok [OF this wf r(2), of ?r "[]" eng db] m r(1) obtain ys where
        ys: "used" "wf_input (Some m)" "extras = map as_filter ys" "set ys \<subseteq> set js"
        "{e \<in> rows eng db (Some m). \<forall>x \<in> set ys. pred_t1 x \<in> ?K \<longrightarrow> pred_t2 x \<in> ?K \<longrightarrow> sat_node eng (node x) e} =
         {e \<in> cross db ?K. \<forall>jp \<in> set js. pred_t1 jp \<in> ?K \<longrightarrow> pred_t2 jp \<in> ?K \<longrightarrow> sat_node eng (node jp) e}"
        using resolveJoinOrderToScans_ok [of order scans] by auto
      then have "input_ok eng db ?K js (push_all (map as_filter ys) (Some m))"
        using K by (intro input_ok_push) auto
      with True False m ys(1,3) show ?thesis by (auto simp: buildSelectInputTree_def)
    next
      case nojson: False
      then have "buildSelectInputTree scans js order = Some (Inr (push_all (map as_filter xs) (Some n)))"
        using False n(1) by (cases "buildJoinTreeFromOrder scans js [] ?r") (auto simp: buildSelectInputTree_def Let_def)
      with greedy show ?thesis by simp
    qed
  qed
qed

section \<open>The scan map\<close>

definition from_tables :: "TableRef option \<Rightarrow> string set" where
  "from_tables from = (base_table \<circ> node) ` set (collectScans from []) - {''''}"

lemma collectScans_scans: "\<forall>s \<in> set scans. \<exists>t. s = scan_node t \<Longrightarrow> \<forall>s \<in> set (collectScans from scans). \<exists>t. s = scan_node t"
proof (induction "from" scans rule: collectScans.induct)
  case (4 ts scans)
  have "\<forall>s \<in> set (fold collectScans us acc). \<exists>t. s = scan_node t"
    if "set us \<subseteq> set ts" "\<forall>s \<in> set acc. \<exists>t. s = scan_node t" for us acc
    using that
  proof (induction us arbitrary: acc)
    case (Cons u us)
    have "\<forall>s \<in> set (collectScans u acc). \<exists>t. s = scan_node t" by (rule "4.IH") (use Cons.prems in simp_all)
    with Cons.IH Cons.prems(1) show ?case by simp
  qed simp
  from this [OF subset_refl 4(2)] show ?case by simp
qed auto

lemma scan_map_fold:
  assumes "\<forall>s \<in> set scans. \<exists>t. s = scan_node t" "distinct (map fst m)" "list_all (\<lambda>(t, s). t \<noteq> '''' \<and> s = scan_node t) m"
  defines "f \<equiv> fold (\<lambda>s m. if node_type (node s) \<noteq> L_SCAN \<or> base_table (node s) = '''' then m
        else amap_put (base_table (node s)) s m) scans m"
  shows "distinct (map fst f) \<and> list_all (\<lambda>(t, s). t \<noteq> '''' \<and> s = scan_node t) f \<and>
    fst ` set f = fst ` set m \<union> ((base_table \<circ> node) ` set scans - {''''})"
  using assms(1-3) unfolding f_def
proof (induction scans arbitrary: m)
  case (Cons s scans)
  then obtain t where s: "s = scan_node t" by auto
  have put: "list_all (\<lambda>(t, s). t \<noteq> '''' \<and> s = scan_node t) (amap_put t (scan_node t) m)"
    if "t \<noteq> ''''" using Cons.prems(3) that by (induction m) auto
  have keys: "fst ` set (amap_put t (scan_node t) m) = insert t (fst ` set m)"
    using keys_amap_put [of t "scan_node t" m] by (simp only: set_map)
  have n: "node_type (node s) = L_SCAN" "base_table (node s) = t" by (simp_all add: s scan_node_def)
  show ?case
  proof (cases "t = ''''")
    case True
    with Cons.IH [of m] Cons.prems n show ?thesis by auto
  next
    case False
    from Cons.IH [of "amap_put t (scan_node t) m"] Cons.prems put [OF False] keys False n show ?thesis
      by (auto simp: s scan_node_def)
  qed
qed auto

lemma buildScanMap_ok:
  assumes "\<And>m. mset (hash_order m) = mset m" "buildScanMap hash_order from = Inr scans"
  shows "fst ` set scans = from_tables from \<and> (scans \<noteq> [] \<longrightarrow> wf_scans scans)"
proof -
  define f where "f = fold (\<lambda>s m. if node_type (node s) \<noteq> L_SCAN \<or> base_table (node s) = '''' then m
        else amap_put (base_table (node s)) s m) (collectScans from []) []"
  have f: "distinct (map fst f) \<and> list_all (\<lambda>(t, s). t \<noteq> '''' \<and> s = scan_node t) f \<and> fst ` set f = from_tables from"
    using scan_map_fold [of "collectScans from []" "[]"] collectScans_scans [of "[]" "from"]
    by (simp add: f_def from_tables_def)
  have "scans = hash_order f" using assms(2) by (simp add: buildScanMap_def Let_def f_def split: if_split_asm)
  then have m: "mset scans = mset f" using assms(1) by simp
  then have "mset (map fst scans) = mset (map fst f)" by simp
  then have "distinct (map fst scans)" using f by (metis mset_eq_imp_distinct_iff)
  moreover have "set scans = set f" using m by (rule mset_eq_setD)
  ultimately show ?thesis using f by (simp add: wf_scans_def list_all_iff)
qed

section \<open>The output tree keeps the input tree\<close>

text \<open>The tree below the output operators of a SELECT plan.\<close>

function (sequential) select_input :: "LogicalPlanNode option \<Rightarrow> LogicalPlanNode option" where
  "select_input None = None"
| "select_input (Some (LNode d ch)) =
     (if node_type d \<in> {L_SORT, L_PROJECTION, L_AGGREGATE, L_MAP}
      then (case ch of [] \<Rightarrow> None | c # _ \<Rightarrow> select_input c)
      else Some (LNode d ch))"
  by pat_completeness auto
termination by (relation "measure (size_option size)") (auto simp only: in_measure size_child wf_measure list.set_intros)

lemma select_input_wf: "wf_input n \<Longrightarrow> select_input n = n"
  by (induction n rule: wf_input_induct) (auto simp: is_union_def)

lemma map_nodes_loop_input:
  "map_nodes_loop as i input specs = Inr (input', specs') \<Longrightarrow> select_input input' = select_input input"
  by (induction as i input specs rule: map_nodes_loop.induct)
    (auto simp: map_node_def split: if_split_asm)

lemma buildSelectOutputTree_input:
  "buildSelectOutputTree cur g sa need = Inr (root, sa') \<Longrightarrow> select_input (Some root) = select_input cur"
  by (auto simp: buildSelectOutputTree_def applyMapNodes_def res_iff Let_def
      dest!: map_nodes_loop_input split: if_split_asm)

lemma applySortNode_input:
  "applySortNode root sel aggs al ctx = Inr (root', ctx') \<Longrightarrow> select_input (Some root') = select_input (Some root)"
  by (auto simp: applySortNode_def res_iff split: option.split_asm if_split_asm)

lemma applyLimitOffset_shape:
  "applyLimitOffset root sel = Inr root' \<Longrightarrow> \<exists>f. root' = set_expression f root \<or> root' = root"
  by (auto simp: applyLimitOffset_def res_iff split: option.split_asm)

lemma select_input_set_expression:
  "select_input (Some (set_expression f n)) =
     (if node_type (node n) \<in> {L_SORT, L_PROJECTION, L_AGGREGATE, L_MAP} then select_input (Some n)
      else Some (set_expression f n))"
  by (cases n) (auto simp: set_expression_def)

lemma buildSelectOutputTree_root:
  "buildSelectOutputTree cur g sa need = Inr (root, sa') \<Longrightarrow> node_type (node root) = L_PROJECTION"
  by (auto simp: buildSelectOutputTree_def res_iff Let_def split: if_split_asm)

lemma applySortNode_root:
  "applySortNode root sel aggs al ctx = Inr (root', ctx') \<Longrightarrow> node_type (node root') = L_SORT \<or> root' = root"
  by (auto simp: applySortNode_def res_iff split: option.split_asm if_split_asm)

lemma build_select_output_input:
  assumes "build_select_output sel ctx cur = Inr (root, ctx')"
  shows "select_input (Some root) = select_input cur"
proof -
  from assms obtain r1 r2 g sa need sa2 aggs ctx1 ctx2 where
    r: "buildSelectOutputTree cur g sa need = Inr (r1, sa2)"
    "applySortNode r1 sel aggs (aliasToTable ctx) ctx1 = Inr (r2, ctx2)" "applyLimitOffset r2 sel = Inr root"
    by (auto simp: build_select_output_def Let_def res_iff split: prod.split_asm)
  have "node_type (node r2) \<in> {L_SORT, L_PROJECTION}"
    using applySortNode_root [OF r(2)] buildSelectOutputTree_root [OF r(1)] by auto
  moreover obtain f where "root = set_expression f r2 \<or> root = r2" using applyLimitOffset_shape [OF r(3)] by blast
  ultimately have "select_input (Some root) = select_input (Some r2)"
    using select_input_set_expression [of f r2] by auto
  with applySortNode_input [OF r(2)] buildSelectOutputTree_input [OF r(1)] show ?thesis by simp
qed

section \<open>End to end: FROM and WHERE\<close>

text \<open>
  The join predicates of the statement connect all its tables (the FROM clause is not a cross
  product), whichever table the traversal of the scan map starts with.
\<close>

definition connected_from :: "(string \<rightharpoonup> string) \<Rightarrow> SelectStatement \<Rightarrow> bool" where
  "connected_from al sel \<longleftrightarrow>
     (\<forall>js ss. extractPredicates al (whereClause sel) = Inr (js, ss) \<longrightarrow>
        (\<forall>t \<in> from_tables (fromTable sel). component js t = from_tables (fromTable sel)))"

text \<open>Every join condition of the WHERE clause is between tables of the FROM clause.\<close>

definition joins_from :: "(string \<rightharpoonup> string) \<Rightarrow> SelectStatement \<Rightarrow> bool" where
  "joins_from al sel \<longleftrightarrow>
     (\<forall>c p. c \<in> set (splitConjuncts (whereClause sel) []) \<longrightarrow> buildPredicateNode al (Some c) = Inr p \<longrightarrow>
        node_type (node p) = L_JOIN \<longrightarrow>
        pred_t1 p \<in> from_tables (fromTable sel) \<and> pred_t2 p \<in> from_tables (fromTable sel))"

lemma buildPlanForSelect_tree:
  assumes hash: "\<And>m. mset (hash_order m) = mset m"
    and al: "al = collectAliases (fromTable sel) Map.empty"
    and joins: "joins_from al sel" and conn: "connected_from al sel"
    and res: "buildPlanForSelect hash_order sel jsonJoinOrder ctx = Some (Inr (root, ctx'))"
  obtains scans js ss r where "extractPredicates al (whereClause sel) = Inr (js, ss)"
    "buildSelectInputTree scans js jsonJoinOrder = Some (Inr r)"
    "build_select_output sel (initializeSelectContext sel ctx) (applySelectionPredicates r ss) = Inr (root, ctx')"
    "wf_scans scans" "fst ` set scans = from_tables (fromTable sel)" "spans scans js"
    "\<forall>j \<in> set js. wf_join_pred (from_tables (fromTable sel)) j" "\<forall>p \<in> set ss. wf_pred p"
proof -
  from res obtain scans js ss r where r: "buildScanMap hash_order (fromTable sel) = Inr scans"
    "extractPredicates al (whereClause sel) = Inr (js, ss)" "buildSelectInputTree scans js jsonJoinOrder = Some (Inr r)"
    "build_select_output sel (initializeSelectContext sel ctx) (applySelectionPredicates r ss) = Inr (root, ctx')"
    by (auto simp: buildPlanForSelect_def Let_def res_iff al initializeSelectContext_def split: sum.split_asm prod.split_asm)
  note scans = buildScanMap_ok [OF hash r(1)]
  have ne: "scans \<noteq> []" using r(3) buildSelectInputTree_empty by auto
  moreover have "spans scans js" using conn r(2) scans ne unfolding connected_from_def spans_def
    by (metis hd_in_set imageI)
  ultimately show ?thesis
    using that r(2-4) scans extractPredicates_wf [OF r(2), of "from_tables (fromTable sel)"] joins by (simp add: joins_from_def)
qed

lemma applySelectionPredicates_sql:
  assumes eng: "engine_spec eng lit sqlop"
    and sym: "\<And>a b. sqlop kOpEquals a b = sqlop kOpEquals b a" "\<And>a b. sqlop kOpNotEquals a b = sqlop kOpNotEquals b a"
    and plain: "list_all (\<lambda>c. plain_cond (Some c)) (splitConjuncts wc [])"
    and r: "extractPredicates al wc = Inr (js, ss)" "buildSelectInputTree scans js order = Some (Inr r)"
    and scans: "wf_scans scans" "fst ` set scans = K" "spans scans js" "\<forall>j \<in> set js. wf_join_pred K j" "\<forall>p \<in> set ss. wf_pred p"
    and json: "order = [] \<or> distinguishable K"
  shows "wf_input (applySelectionPredicates r ss)"
    "rows eng db (applySelectionPredicates r ss) = {e \<in> cross db K. sql_holds al lit sqlop e wc}"
proof -
  have "input_ok eng db K js r"
    using buildSelectInputTree_ok [of scans js order eng db] scans json r(2) by auto
  then show "rows eng db (applySelectionPredicates r ss) = {e \<in> cross db K. sql_holds al lit sqlop e wc}"
    "wf_input (applySelectionPredicates r ss)"
    using applySelectionPredicates_ok [OF _ scans(5), of r eng db]
    by (auto simp: input_ok_def extractPredicates_sat [where sqlop = sqlop and lit = lit, OF r(1) eng sym plain, symmetric])
qed

text \<open>
  C2. A SELECT plan computes its FROM and WHERE clauses: below the output operators of the plan that
  \<open>buildPlanForSelect\<close> returns stands a tree whose rows are exactly the rows of the cross product of
  the FROM tables on which the WHERE clause holds. This composes alias collection, the scan map in any
  hash order, conjunct splitting, predicate construction, both join tree builders (with or without a
  JSON join order) and selection pushdown.
\<close>

theorem buildPlanForSelect_correct:
  assumes hash: "\<And>m. mset (hash_order m) = mset m"
    and eng: "engine_spec eng lit sqlop"
    and sym: "\<And>a b. sqlop kOpEquals a b = sqlop kOpEquals b a" "\<And>a b. sqlop kOpNotEquals a b = sqlop kOpNotEquals b a"
    and al: "al = collectAliases (fromTable sel) Map.empty"
    and plain: "list_all (\<lambda>c. plain_cond (Some c)) (splitConjuncts (whereClause sel) [])"
    and joins: "joins_from al sel" and conn: "connected_from al sel"
    and json: "jsonJoinOrder = [] \<or> distinguishable (from_tables (fromTable sel))"
    and res: "buildPlanForSelect hash_order sel jsonJoinOrder ctx = Some (Inr (root, ctx'))"
  shows "\<exists>n. select_input (Some root) = Some n \<and>
    rows eng db (Some n) = {e \<in> cross db (from_tables (fromTable sel)). sql_holds al lit sqlop e (whereClause sel)}"
proof -
  obtain scans js ss r where r: "extractPredicates al (whereClause sel) = Inr (js, ss)"
    "buildSelectInputTree scans js jsonJoinOrder = Some (Inr r)"
    "build_select_output sel (initializeSelectContext sel ctx) (applySelectionPredicates r ss) = Inr (root, ctx')"
    and scans: "wf_scans scans" "fst ` set scans = from_tables (fromTable sel)" "spans scans js"
      "\<forall>j \<in> set js. wf_join_pred (from_tables (fromTable sel)) j" "\<forall>p \<in> set ss. wf_pred p"
    by (rule buildPlanForSelect_tree [OF hash al joins conn res])
  note tree = applySelectionPredicates_sql [OF eng sym plain r(1,2) scans json]
  then obtain n where "applySelectionPredicates r ss = Some n" by (cases "applySelectionPredicates r ss") auto
  with tree show ?thesis using build_select_output_input [OF r(3)] select_input_wf by metis
qed

section \<open>Witness for the end-to-end theorem\<close>

definition ex_where :: Expr where
  "ex_where = bin_op kOpAnd (bin_op kOpEquals (col_ref ''o'' ''user_id'') (col_ref ''u'' ''id''))
                (bin_op kOpLess (col_ref ''u'' ''name'') (str_lit ''zz''))"

definition ex_select :: SelectStatement where
  "ex_select =
     \<lparr>fromTable = Some (kTableCrossProduct (Some [Some (kTableName (Some ''orders'') (Some (Some ''o''))),
                                                 Some (kTableName (Some ''users'') (Some (Some ''u'')))])),
      selectList = Some [Some (col_ref ''u'' ''name''),
        Some (Expr ((expr_data kExprFunctionRef (kOpOther 0))\<lparr>ename := Some ''count''\<rparr>) None None None)],
      whereClause = Some ex_where,
      groupBy = Some (Some [Some (col_ref ''u'' ''name'')]),
      order_by = Some [Some \<lparr>otype = kOrderDesc, oexpr = Some (col_ref ''u'' ''name'')\<rparr>],
      limit = Some (Some (int_lit 10), None)\<rparr>"

abbreviation ex_al :: "string \<rightharpoonup> string" where
  "ex_al \<equiv> collectAliases (fromTable ex_select) Map.empty"

lemma component_pair:
  assumes "edges js = {(a, b), (b, a)}"
  shows "component js a = {a, b}" "component js b = {a, b}"
proof -
  have "x \<in> {a, b}" if "(t, x) \<in> (edges js)\<^sup>*" "t \<in> {a, b}" for t x
    using that by (induction rule: rtrancl_induct) (auto simp: assms)
  moreover have "(a, b) \<in> (edges js)\<^sup>*" "(b, a) \<in> (edges js)\<^sup>*" by (auto simp: assms)
  ultimately show "component js a = {a, b}" "component js b = {a, b}" unfolding component_def by blast+
qed

lemma ex_from: "from_tables (fromTable ex_select) = {''o'', ''u''}"
  by code_simp

lemma ex_split: "splitConjuncts (whereClause ex_select) [] =
  [bin_op kOpEquals (col_ref ''o'' ''user_id'') (col_ref ''u'' ''id''), bin_op kOpLess (col_ref ''u'' ''name'') (str_lit ''zz'')]"
  by (simp add: ex_select_def ex_where_def bin_op_def expr_data_def)

definition ex_js :: "LogicalPlanNode list" where
  "ex_js = fst (case extractPredicates ex_al (whereClause ex_select) of Inr r \<Rightarrow> r | Inl _ \<Rightarrow> ([], []))"

lemma ex_edges: "edges ex_js = {(''o'', ''u''), (''u'', ''o'')}"
  by code_simp

lemma ex_connected: "connected_from ex_al ex_select"
  unfolding connected_from_def ex_from
proof (intro allI impI ballI)
  fix js ss t assume "extractPredicates ex_al (whereClause ex_select) = Inr (js, ss)" and t: "t \<in> {''o'', ''u''}"
  then have "js = ex_js" unfolding ex_js_def by (simp only: sum.case fst_conv)
  with t component_pair [OF ex_edges] show "component js t = {''o'', ''u''}" by auto
qed

lemma ex_joins: "joins_from ex_al ex_select"
proof -
  have "list_all (\<lambda>c. case buildPredicateNode ex_al (Some c) of Inl _ \<Rightarrow> True
      | Inr p \<Rightarrow> node_type (node p) = L_JOIN \<longrightarrow> pred_t1 p \<in> {''o'', ''u''} \<and> pred_t2 p \<in> {''o'', ''u''})
      (splitConjuncts (whereClause ex_select) [])"
    by code_simp
  then show ?thesis unfolding joins_from_def ex_from by (auto simp: list_all_iff split: sum.split_asm)
qed

text \<open>\<open>SELECT u.name, COUNT(*) FROM orders o, users u WHERE o.user_id = u.id AND u.name < 'zz' GROUP BY u.name ...\<close>\<close>

theorem buildPlanForSelect_correct_witness:
  "\<exists>root ctx' n. buildPlanForSelect id ex_select [] TranslationContext_default = Some (Inr (root, ctx')) \<and>
     select_input (Some root) = Some n \<and>
     rows (spec_engine id ex_sqlop) ex_db (Some n) =
       {e \<in> cross ex_db {''o'', ''u''}. sql_holds ex_al id ex_sqlop e (Some ex_where)}"
proof -
  have "case buildPlanForSelect id ex_select [] TranslationContext_default of Some (Inr _) \<Rightarrow> True | _ \<Rightarrow> False"
    by code_simp
  then obtain root ctx' where res: "buildPlanForSelect id ex_select [] TranslationContext_default = Some (Inr (root, ctx'))"
    by (auto split: option.split_asm sum.split_asm)
  have sym: "ex_sqlop kOpEquals a b = ex_sqlop kOpEquals b a" "ex_sqlop kOpNotEquals a b = ex_sqlop kOpNotEquals b a" for a b
    by (auto simp: ex_sqlop_def)
  have plain: "list_all (\<lambda>c. plain_cond (Some c)) (splitConjuncts (whereClause ex_select) [])" by code_simp
  have wc: "whereClause ex_select = Some ex_where" by (simp add: ex_select_def)
  show ?thesis
    using buildPlanForSelect_correct [where sqlop = ex_sqlop and lit = id and hash_order = id and db = ex_db,
      OF _ spec_engine_ok sym refl plain ex_joins ex_connected _ res] res
    unfolding ex_from wc by auto
qed

end
