(* ===== verification/QueryAnswers.thy ===== *)
theory QueryAnswers
  imports PhysicalSemantics SelectPlanBuilder
begin

text \<open>
  The composition of translator and physical optimizer: for a SELECT statement over plain columns the
  columns of the RESULT node list the rows that SQL asks for. The link is the shape of the tree the
  translator builds: joins that name their left column first, at most two layers of filters above
  each scan, filters over two tables above a join, which are the trees \<open>PhysicalSemantics\<close> covers.
\<close>

section \<open>The layers above a scan\<close>

text \<open>
  A scan under \<open>k\<close> layers of filters; with the flag a UNION stands on top, whose branches have \<open>k\<close> layers
  each. Pushing a predicate down puts it directly above the scan.
\<close>

inductive layered :: "string \<Rightarrow> bool \<Rightarrow> nat \<Rightarrow> LogicalPlanNode option \<Rightarrow> bool" for t where
  bare: "is_scan t n \<Longrightarrow> layered t False 0 n"
| layer: "layered t False k n \<Longrightarrow> filters_table t d \<Longrightarrow> layered t False (Suc k) (Some (LNode d [n]))"
| branches: "is_union d \<Longrightarrow> 2 \<le> length ch \<Longrightarrow> \<forall>n \<in> set ch. layered t False (Suc k) n \<Longrightarrow>
    layered t True (Suc k) (Some (LNode d ch))"

inductive_cases layered_bareE: "layered t False 0 n"

lemma is_scanE:
  assumes "is_scan t n"
  obtains d ch where "n = Some (LNode d ch)" "node_type d = L_SCAN" "base_table d = t" "t \<noteq> ''''"
  using assms by (auto simp: is_scan_def split: option.splits LogicalPlanNode.splits)

lemma layered_wf: "layered t u k n \<Longrightarrow> wf_input n \<and> tables n = {t} \<and> t \<noteq> ''''"
proof (induction rule: layered.induct)
  case (branches d ch k)
  then have ch: "\<forall>c \<in> set ch. wf_input c \<and> tables c = {t} \<and> t \<noteq> ''''" by blast
  moreover have "ch \<noteq> []" using branches.hyps(2) by auto
  ultimately show ?case using branches.hyps(1) tables_union [of d ch "{t}"] by (auto simp: neq_Nil_conv)
qed (auto simp: filters_table_def elim!: is_scanE)

lemma layered_selection:
  assumes "layered t u k n" "k \<le> 2"
  shows "is_scan t n \<or> (\<exists>b. selection t b n)"
proof -
  have one: "is_scan t n" if "layered t False 0 n" for n using that by (rule layered_bareE) auto
  have two: "selection t True n" if "layered t False (Suc 0) n" for n
    using that by cases (auto intro: selection.single one)
  have three: "selection t False n" if "layered t False (Suc (Suc 0)) n" for n
    using that by cases (auto intro: selection.stacked two)
  have flat: "is_scan t n \<or> (\<exists>b. selection t b n)" if "layered t False k n" "k \<le> 2" for k n
  proof -
    have "k = 0 \<or> k = Suc 0 \<or> k = Suc (Suc 0)" using that(2) by auto
    with that(1) one two three show ?thesis by blast
  qed
  have deep: "\<exists>b. selection t b n" if "layered t False (Suc k) n" "Suc k \<le> 2" for k n
  proof -
    have "k = 0 \<or> k = Suc 0" using that(2) by auto
    with that(1) two three show ?thesis by blast
  qed
  show ?thesis
    using assms(1)
  proof cases
    case (branches d ch j)
    then have "selection t False n" using assms(2) deep by (auto intro!: selection.union)
    then show ?thesis by blast
  qed (use assms flat in blast)+
qed

section \<open>Predicates on one and on two tables\<close>

definition on_table :: "string \<Rightarrow> LogicalPlanNode \<Rightarrow> bool" where
  "on_table t p =
     (if is_union (node p)
      then 2 \<le> length (children p) \<and> list_all (\<lambda>c. case c of Some l \<Rightarrow> filters_table t (node l) | None \<Rightarrow> False) (children p)
      else filters_table t (node p))"

definition over_two :: "string set \<Rightarrow> LogicalPlanNode \<Rightarrow> bool" where
  "over_two K p \<longleftrightarrow> node_type (node p) = L_FILTER \<and>
     (case base_columns (node p) of
        [c1, c2] \<Rightarrow> table_name c1 \<noteq> table_name c2 \<and> table_name c1 \<in> K \<and> table_name c2 \<in> K
      | _ \<Rightarrow> False)"

lemma filters_table_unique: "filters_table t d \<Longrightarrow> filters_table t' d \<Longrightarrow> t = t'"
  by (auto simp: filters_table_def neq_Nil_conv)

lemma on_table_unique: "on_table t p \<Longrightarrow> on_table t' p \<Longrightarrow> t = t'"
proof (cases "is_union (node p)")
  case True
  moreover assume "on_table t p" "on_table t' p"
  ultimately obtain c cs where "children p = c # cs" "case c of Some l \<Rightarrow> filters_table t (node l) | None \<Rightarrow> False"
    "case c of Some l \<Rightarrow> filters_table t' (node l) | None \<Rightarrow> False"
    by (auto simp: on_table_def Suc_le_length_iff numeral_2_eq_2)
  then show ?thesis by (auto intro: filters_table_unique split: option.splits)
qed (auto simp: on_table_def intro: filters_table_unique)

lemma over_twoE:
  assumes "over_two K p"
  obtains c1 c2 where "node_type (node p) = L_FILTER" "base_columns (node p) = [c1, c2]" "table_name c1 \<noteq> table_name c2"
    "table_name c1 \<in> K" "table_name c2 \<in> K"
  using assms by (auto simp: over_two_def split: list.splits)

lemma over_two_on_table: "over_two K p \<Longrightarrow> \<not> on_table t p"
  by (auto simp: on_table_def filters_table_def is_union_def elim!: over_twoE)

lemma filter_tables: "filters_table t d \<Longrightarrow> t \<noteq> '''' \<Longrightarrow> resolveTableName ` set (base_columns d) = {t}"
  by (auto simp: filters_table_def list_all_iff neq_Nil_conv)

lemma filter_pred_tables:
  "node_type (node p) = L_FILTER \<Longrightarrow> set (getPredicateTables (Some p)) = resolveTableName ` set (base_columns (node p)) - {''''}"
  by (cases p) simp

lemma on_table_filter:
  assumes "on_table t p" "\<not> is_union (node p)"
  shows "filters_table t (node p)" "node_type (node p) = L_FILTER" "wf_pred p"
  using assms by (auto simp: on_table_def filters_table_def wf_pred_def)

lemma on_table_union:
  assumes "on_table t p" "is_union (node p)"
  shows "\<forall>n \<in> set (nonnull (children p)). filters_table t (node n)" "2 \<le> length (nonnull (children p))" "wf_pred p"
proof -
  have all: "list_all (\<lambda>c. case c of Some l \<Rightarrow> filters_table t (node l) | None \<Rightarrow> False) (children p)" "2 \<le> length (children p)"
    using assms by (auto simp: on_table_def)
  have leaves: "(\<forall>n \<in> set (nonnull cs). filters_table t (node n)) \<and> length (nonnull cs) = length cs"
    if "list_all (\<lambda>c. case c of Some l \<Rightarrow> filters_table t (node l) | None \<Rightarrow> False) cs" for cs
    using that by (induction cs) (auto split: option.splits)
  from leaves [OF all(1)] all(2) show "\<forall>n \<in> set (nonnull (children p)). filters_table t (node n)" "2 \<le> length (nonnull (children p))"
    by auto
  then show "wf_pred p" using assms(2) by (auto simp: wf_pred_def list_all_iff filters_table_def)
qed

lemma on_table_wf: "on_table t p \<Longrightarrow> wf_pred p"
  using on_table_filter(3) on_table_union(3) by blast

lemma on_table_tables:
  assumes "on_table t p" "t \<noteq> ''''"
  shows "set (getPredicateTables (Some p)) = {t}"
proof (cases "is_union (node p)")
  case False
  then show ?thesis using on_table_filter [OF assms(1)] filter_tables assms(2) by (simp add: filter_pred_tables)
next
  case True
  then have c: "\<forall>c \<in> set (children p). \<exists>l. c = Some l \<and> filters_table t (node l)" "children p \<noteq> []"
    using assms(1) by (auto simp: on_table_def list_all_iff split: option.splits)
  have "set (getPredicateTables c) = {t}" if "c \<in> set (children p)" for c
  proof -
    from that c(1) obtain l where l: "c = Some l" "filters_table t (node l)" by blast
    then have "node_type (node l) = L_FILTER" by (simp add: filters_table_def)
    with l filter_tables [OF l(2) assms(2)] assms(2) show ?thesis by (simp add: filter_pred_tables)
  qed
  then have "(\<Union>c \<in> set (children p). set (getPredicateTables c)) = {t}" using c(2) by auto
  then show ?thesis using True by (cases p) (simp add: is_union_def)
qed

lemma over_two_tables: "over_two K p \<Longrightarrow> '''' \<notin> K \<Longrightarrow> wf_pred p \<and> set (getPredicateTables (Some p)) \<subseteq> K \<and>
    (\<forall>t. \<not> set (getPredicateTables (Some p)) \<subseteq> {t})"
proof (erule over_twoE, goal_cases)
  case (1 c1 c2)
  moreover from this have "table_name c1 \<noteq> ''''" "table_name c2 \<noteq> ''''" by auto
  ultimately show ?case by (auto simp: filter_pred_tables wf_pred_def)
qed

section \<open>Pushing a predicate into the layers\<close>

lemma pushDown_scan:
  assumes "is_scan t n" "set (getPredicateTables (Some p)) \<noteq> {}"
  obtains d ch where "n = Some (LNode d ch)" "pushDownSelectionPredicate n (Some p) = Some (attachPredicate (LNode d ch) p)"
  using assms by (elim is_scanE) (simp add: is_union_def Let_def)

lemma pushDown_tables: "wf_input n \<Longrightarrow> wf_pred p \<Longrightarrow> tables (pushDownSelectionPredicate n (Some p)) = tables n"
  using pushDown_ok unfolding pushed_ok_def by blast

lemma pushDown_join:
  assumes "node_type d = L_JOIN" "set (getPredicateTables (Some p)) \<noteq> {}"
  shows "pushDownSelectionPredicate (Some (LNode d [l, r])) (Some p) =
    (if set (getPredicateTables (Some p)) \<subseteq> tables l then Some (LNode d [pushDownSelectionPredicate l (Some p), r])
     else if set (getPredicateTables (Some p)) \<subseteq> tables r then Some (LNode d [l, pushDownSelectionPredicate r (Some p)])
     else Some (attachPredicate (LNode d [l, r]) p))"
proof -
  have ne: "getPredicateTables (Some p) \<noteq> []" using assms(2) by auto
  have d: "\<not> is_union d" "node_type d \<noteq> L_SCAN" using assms(1) by (simp_all add: is_union_def)
  show ?thesis
    unfolding pushDownSelectionPredicate.simps(3) Let_def using ne d assms(1) by (simp add: tables_def)
qed

lemma pushDown_filter:
  assumes "node_type d = L_FILTER" "set (getPredicateTables (Some p)) \<noteq> {}"
  shows "pushDownSelectionPredicate (Some (LNode d [n])) (Some p) = Some (LNode d [pushDownSelectionPredicate n (Some p)])"
  using assms by (auto simp: is_union_def Let_def)

lemma pushDown_union:
  assumes "is_union d" "node_type (node p) = L_FILTER"
  shows "pushDownSelectionPredicate (Some (LNode d ch)) (Some p) =
    Some (LNode d (map (\<lambda>c. pushDownSelectionPredicate c (Some (LNode (node p) []))) ch))"
  using assms by (cases p) simp

declare pushDownSelectionPredicate.simps(3) [simp del]

lemma push_filter_layered:
  assumes "layered t u k n" "on_table t p" "\<not> is_union (node p)"
  shows "layered t u (Suc k) (pushDownSelectionPredicate n (Some p))"
  using assms
proof (induction arbitrary: p rule: layered.induct)
  case (bare n)
  then have "t \<noteq> ''''" by (auto elim: is_scanE)
  then have "set (getPredicateTables (Some p)) \<noteq> {}" using on_table_tables [OF bare(2)] by simp
  then obtain d ch where "n = Some (LNode d ch)" "pushDownSelectionPredicate n (Some p) = Some (attachPredicate (LNode d ch) p)"
    using pushDown_scan [OF bare(1)] by blast
  then show ?case
    using layered.layer [OF layered.bare [OF bare(1)] on_table_filter(1) [OF bare(2,3)]] on_table_filter(2) [OF bare(2,3)]
    by (simp add: attachPredicate_filter)
next
  case (layer k n d)
  have "set (getPredicateTables (Some p)) \<noteq> {}" using on_table_tables [OF layer.prems(1)] layered_wf [OF layer.hyps(1)] by simp
  then have "pushDownSelectionPredicate (Some (LNode d [n])) (Some p) = Some (LNode d [pushDownSelectionPredicate n (Some p)])"
    using layer.hyps(2) by (intro pushDown_filter) (simp_all add: filters_table_def)
  then show ?case using layered.layer [OF layer.IH [OF layer.prems] layer.hyps(2)] by simp
next
  case (branches d ch k)
  let ?p = "LNode (node p) []"
  have "on_table t ?p" "\<not> is_union (node ?p)" using branches.prems by (simp_all add: on_table_def)
  then have "\<forall>n \<in> set ch. layered t False (Suc (Suc k)) (pushDownSelectionPredicate n (Some ?p))"
    using branches.IH by blast
  then have "layered t True (Suc (Suc k)) (Some (LNode d (map (\<lambda>n. pushDownSelectionPredicate n (Some ?p)) ch)))"
    using branches.hyps(1,2) by (intro layered.branches) simp_all
  then show ?case using on_table_filter(2) [OF branches.prems] branches.hyps(1) by (simp add: pushDown_union)
qed

lemma push_union_layered:
  assumes "layered t False 0 n" "on_table t p" "is_union (node p)"
  shows "layered t True (Suc 0) (pushDownSelectionPredicate n (Some p))"
proof -
  have n: "is_scan t n" using assms(1) by (rule layered_bareE)
  then have "t \<noteq> ''''" by (auto elim: is_scanE)
  then have "set (getPredicateTables (Some p)) \<noteq> {}" using on_table_tables [OF assms(2)] by simp
  then obtain d ch where "n = Some (LNode d ch)" "pushDownSelectionPredicate n (Some p) = Some (attachPredicate (LNode d ch) p)"
    using pushDown_scan [OF n] by blast
  moreover from this(1) have "\<forall>l \<in> set (nonnull (children p)). layered t False (Suc 0) (Some (LNode (node l) [Some (LNode d ch)]))"
    using on_table_union(1) [OF assms(2,3)] layered.layer [OF assms(1)] by blast
  ultimately show ?thesis using on_table_union(2) [OF assms(2,3)] assms(3)
    by (simp add: attachPredicate_union layered.branches)
qed

section \<open>Trees with layered leaves\<close>

text \<open>
  \<open>L t\<close> gives the flag and the number of layers of table \<open>t\<close>; the index counts as in \<open>supported\<close>.
\<close>

inductive layered_tree :: "(string \<Rightarrow> bool \<times> nat) \<Rightarrow> nat \<Rightarrow> LogicalPlanNode option \<Rightarrow> bool" for L where
  leaf: "layered t (fst (L t)) (snd (L t)) n \<Longrightarrow> layered_tree L (Suc 0) n"
| join: "layered_tree L k l \<Longrightarrow> layered_tree L m r \<Longrightarrow> equi_join d lc rc \<Longrightarrow> tables l \<inter> tables r = {} \<Longrightarrow>
    table_name lc \<in> tables l \<Longrightarrow> table_name rc \<in> tables r \<Longrightarrow> layered_tree L (Suc (k + m)) (Some (LNode d [l, r]))"
| cross: "layered_tree L k n \<Longrightarrow> node_type d = L_FILTER \<Longrightarrow> base_columns d = [c1, c2] \<Longrightarrow> table_name c1 \<noteq> table_name c2 \<Longrightarrow>
    table_name c1 \<in> tables n \<Longrightarrow> table_name c2 \<in> tables n \<Longrightarrow> layered_tree L (Suc k) (Some (LNode d [n]))"

lemma layered_tree_wf: "layered_tree L k n \<Longrightarrow> wf_input n"
proof (induction rule: layered_tree.induct)
  case (leaf t n)
  then show ?case using layered_wf by blast
qed (auto simp: equi_join_def)

lemma layered_tree_supported: "layered_tree L k n \<Longrightarrow> \<forall>t \<in> tables n. snd (L t) \<le> 2 \<Longrightarrow> supported k n"
proof (induction rule: layered_tree.induct)
  case (leaf t n)
  moreover from this have "tables n = {t}" using layered_wf by blast
  ultimately show ?case using layered_selection [OF leaf(1)] by (auto intro: supported.scan supported.leaf)
next
  case (join k l m r d lc rc)
  then show ?case by (intro supported.join) (auto simp: equi_join_def)
next
  case (cross k n d c1 c2)
  then show ?case by (intro supported.cross [of _ _ _ c1 c2]) auto
qed

lemma layered_tree_cong: "layered_tree L k n \<Longrightarrow> \<forall>t \<in> tables n. L' t = L t \<Longrightarrow> layered_tree L' k n"
proof (induction rule: layered_tree.induct)
  case (leaf t n)
  moreover from this have "tables n = {t}" using layered_wf by blast
  ultimately show ?case by (intro layered_tree.leaf [of t]) auto
next
  case (join k l m r d lc rc)
  then show ?case by (intro layered_tree.join) (auto simp: equi_join_def)
next
  case (cross k n d c1 c2)
  then show ?case by (intro layered_tree.cross [of _ _ _ _ c1 c2]) auto
qed

lemma layered_tree_update: "layered_tree L k n \<Longrightarrow> t \<notin> tables n \<Longrightarrow> layered_tree (L(t := v)) k n"
  by (rule layered_tree_cong) auto

text \<open>A predicate on one table changes the layers of this table only.\<close>

lemma push_on_table:
  assumes "layered_tree L k n" "t \<in> tables n" "on_table t p"
    and "\<forall>n. layered t (fst (L t)) (snd (L t)) n \<longrightarrow> layered t (fst v) (snd v) (pushDownSelectionPredicate n (Some p))"
  shows "layered_tree (L(t := v)) k (pushDownSelectionPredicate n (Some p))"
  using assms(1,2)
proof (induction rule: layered_tree.induct)
  case (leaf s n)
  then have "s = t" using layered_wf [OF leaf(1)] by simp
  with leaf(1) assms(4) show ?case by (intro layered_tree.leaf [of t]) simp
next
  case (join k l m r d lc rc)
  note wf = layered_tree_wf [OF join.hyps(1)] layered_tree_wf [OF join.hyps(2)]
  have t: "set (getPredicateTables (Some p)) = {t}"
    using on_table_tables [OF assms(3)] join.prems wf wf_input_tables join.hyps(3) by (auto simp: equi_join_def)
  note tabs = pushDown_tables [OF wf(1) on_table_wf [OF assms(3)]] pushDown_tables [OF wf(2) on_table_wf [OF assms(3)]]
  have "t \<in> tables l \<and> t \<notin> tables r \<or> t \<notin> tables l \<and> t \<in> tables r"
    using join.prems join.hyps(3,4) by (auto simp: equi_join_def)
  then consider "t \<in> tables l" "t \<notin> tables r" | "t \<notin> tables l" "t \<in> tables r" by blast
  then show ?case
  proof cases
    case 1
    then have "layered_tree (L(t := v)) (Suc (k + m)) (Some (LNode d [pushDownSelectionPredicate l (Some p), r]))"
      using layered_tree.join [OF join.IH(1) layered_tree_update [OF join.hyps(2)] join.hyps(3)] join.hyps(4-6) tabs(1) by (simp del: fun_upd_apply)
    with 1 join.hyps(3) show ?thesis by (simp add: pushDown_join t equi_join_def del: fun_upd_apply)
  next
    case 2
    then have "layered_tree (L(t := v)) (Suc (k + m)) (Some (LNode d [l, pushDownSelectionPredicate r (Some p)]))"
      using layered_tree.join [OF layered_tree_update [OF join.hyps(1)] join.IH(2) join.hyps(3)] join.hyps(4-6) tabs(2) by (simp del: fun_upd_apply)
    with 2 join.hyps(3) show ?thesis by (simp add: pushDown_join t equi_join_def del: fun_upd_apply)
  qed
next
  case (cross k n d c1 c2)
  note wf = layered_tree_wf [OF cross.hyps(1)]
  have n: "t \<in> tables n" using cross.prems cross.hyps(2) by simp
  then have "set (getPredicateTables (Some p)) = {t}"
    using on_table_tables [OF assms(3)] wf_input_tables [OF wf] by auto
  moreover have "layered_tree (L(t := v)) (Suc k) (Some (LNode d [pushDownSelectionPredicate n (Some p)]))"
    using layered_tree.cross [OF cross.IH [OF n] cross.hyps(2-4)] cross.hyps(5,6) pushDown_tables [OF wf on_table_wf [OF assms(3)]]
    by (simp del: fun_upd_apply)
  ultimately show ?case using cross.hyps(2) by (simp add: pushDown_filter del: fun_upd_apply)
qed

text \<open>A predicate on two tables ends above the lowest join of both.\<close>

lemma push_over_two:
  assumes "layered_tree L k n" "over_two (tables n) p"
  shows "layered_tree L (Suc k) (pushDownSelectionPredicate n (Some p))"
  using assms
proof (induction rule: layered_tree.induct)
  case (leaf t n)
  then show ?case using layered_wf over_two_tables [OF leaf(2)] by fastforce
next
  case (join k l m r d lc rc)
  note wf = layered_tree_wf [OF join.hyps(1)] layered_tree_wf [OF join.hyps(2)]
  have d: "node_type d = L_JOIN" using join.hyps(3) by (simp add: equi_join_def)
  have ne: "'''' \<notin> tables l" "'''' \<notin> tables r" "'''' \<notin> tables (Some (LNode d [l, r]))" using wf wf_input_tables d by auto
  note tabs = over_two_tables [OF join.prems ne(3)]
  obtain c1 c2 where c: "node_type (node p) = L_FILTER" "base_columns (node p) = [c1, c2]" "table_name c1 \<noteq> table_name c2"
    "table_name c1 \<in> tables l \<union> tables r" "table_name c2 \<in> tables l \<union> tables r"
    using join.prems d by (auto elim!: over_twoE)
  then have "table_name c1 \<noteq> ''''" "table_name c2 \<noteq> ''''" using ne by auto
  then have p: "set (getPredicateTables (Some p)) = {table_name c1, table_name c2}" using c by (simp add: filter_pred_tables)
  have two: "over_two K p \<longleftrightarrow> set (getPredicateTables (Some p)) \<subseteq> K" for K using c p by (simp add: over_two_def)
  show ?case
  proof (cases "set (getPredicateTables (Some p)) \<subseteq> tables l")
    case True
    then have "layered_tree L (Suc k) (pushDownSelectionPredicate l (Some p))" using join.IH(1) two by blast
    then have "layered_tree L (Suc (Suc k + m)) (Some (LNode d [pushDownSelectionPredicate l (Some p), r]))"
      using join.hyps pushDown_tables [OF wf(1)] tabs by (intro layered_tree.join [of _ _ _ _ _ _ lc rc]) auto
    then show ?thesis using True p d by (simp add: pushDown_join)
  next
    case l: False
    show ?thesis
    proof (cases "set (getPredicateTables (Some p)) \<subseteq> tables r")
      case True
      then have "layered_tree L (Suc m) (pushDownSelectionPredicate r (Some p))" using join.IH(2) two by blast
      then have "layered_tree L (Suc (k + Suc m)) (Some (LNode d [l, pushDownSelectionPredicate r (Some p)]))"
        using join.hyps pushDown_tables [OF wf(2)] tabs by (intro layered_tree.join [of _ _ _ _ _ _ lc rc]) auto
      then show ?thesis using True l p d by (auto simp: pushDown_join)
    next
      case False
      have "layered_tree L (Suc (Suc (k + m))) (Some (LNode (node p) [Some (LNode d [l, r])]))"
        using layered_tree.join [OF join.hyps] c d by (intro layered_tree.cross [of _ _ _ _ c1 c2]) auto
      then show ?thesis using False l p d c(1) by (auto simp: pushDown_join attachPredicate_filter)
    qed
  qed
next
  case (cross k n d c1 c2)
  note wf = layered_tree_wf [OF cross.hyps(1)]
  have p: "over_two (tables n) p" using cross.prems cross.hyps(2) by simp
  note tabs = over_two_tables [OF p] wf_input_tables [OF wf]
  have "layered_tree L (Suc (Suc k)) (Some (LNode d [pushDownSelectionPredicate n (Some p)]))"
    using cross.hyps cross.IH [OF p] pushDown_tables [OF wf] tabs by (intro layered_tree.cross [of _ _ _ _ c1 c2]) auto
  moreover have "set (getPredicateTables (Some p)) \<noteq> {}" using tabs by auto
  ultimately show ?case using cross.hyps(2) by (simp add: pushDown_filter del: fun_upd_apply)
qed

section \<open>Pushing the predicates of a statement\<close>

lemma push_all_Cons: "push_all (p # ps) n = push_all ps (pushDownSelectionPredicate n (Some p))"
  by (simp add: push_all_def)

lemma simple_pred_wf: "(\<exists>t \<in> K. on_table t p) \<or> over_two K p \<Longrightarrow> '''' \<notin> K \<Longrightarrow> wf_pred p"
  using on_table_wf over_two_tables by blast

definition table_preds :: "string \<Rightarrow> LogicalPlanNode list \<Rightarrow> nat" where
  "table_preds t ps = length (filter (on_table t) ps)"

lemma table_preds_Cons [simp]: "table_preds t [] = 0" "table_preds t (p # ps) = (if on_table t p then Suc (table_preds t ps) else table_preds t ps)"
  by (simp_all add: table_preds_def)

text \<open>Filters add a layer to the table they are on.\<close>

lemma push_filters:
  assumes "layered_tree L k n" "\<forall>p \<in> set ps. \<not> is_union (node p) \<and> ((\<exists>t \<in> tables n. on_table t p) \<or> over_two (tables n) p)"
  shows "\<exists>k' \<le> k + length ps. layered_tree (\<lambda>t. (fst (L t), snd (L t) + table_preds t ps)) k' (push_all ps n)"
  using assms
proof (induction ps arbitrary: L k n)
  case (Cons p ps)
  note wf = layered_tree_wf [OF Cons.prems(1)]
  let ?n = "pushDownSelectionPredicate n (Some p)"
  have "wf_pred p" using Cons.prems(2) wf_input_tables [OF wf] by (auto intro: simple_pred_wf)
  then have tabs: "tables ?n = tables n" by (rule pushDown_tables [OF wf])
  have "\<exists>k1 \<le> Suc k. layered_tree (\<lambda>t. (fst (L t), snd (L t) + table_preds t [p])) k1 ?n"
  proof (cases "\<exists>t \<in> tables n. on_table t p")
    case True
    then obtain t where t: "t \<in> tables n" "on_table t p" by blast
    have "layered_tree (L(t := (fst (L t), Suc (snd (L t))))) k ?n"
      using t push_filter_layered [OF _ t(2)] Cons.prems by (intro push_on_table) auto
    moreover have "L(t := (fst (L t), Suc (snd (L t)))) = (\<lambda>t. (fst (L t), snd (L t) + table_preds t [p]))"
    proof
      fix s
      have "on_table s p \<longleftrightarrow> s = t" using on_table_unique [OF t(2)] t(2) by blast
      then show "(L(t := (fst (L t), Suc (snd (L t))))) s = (fst (L s), snd (L s) + table_preds s [p])" by simp
    qed
    ultimately show ?thesis by (intro exI [of _ k]) simp
  next
    case False
    then have two: "over_two (tables n) p" using Cons.prems(2) by simp
    then have "(\<lambda>t. (fst (L t), snd (L t) + table_preds t [p])) = L" using over_two_on_table by (auto simp: fun_eq_iff)
    then show ?thesis using push_over_two [OF Cons.prems(1) two] by (intro exI [of _ "Suc k"]) simp
  qed
  then obtain k1 where k1: "k1 \<le> Suc k" "layered_tree (\<lambda>t. (fst (L t), snd (L t) + table_preds t [p])) k1 ?n" by blast
  from Cons.IH [OF this(2)] Cons.prems(2) tabs obtain k' where
    "k' \<le> k1 + length ps" "layered_tree (\<lambda>t. (fst (L t), snd (L t) + table_preds t [p] + table_preds t ps)) k' (push_all ps ?n)" by auto
  moreover have "(\<lambda>t. (fst (L t), snd (L t) + table_preds t [p] + table_preds t ps)) =
      (\<lambda>t. (fst (L t), snd (L t) + table_preds t (p # ps)))" by (simp add: fun_eq_iff)
  ultimately show ?case using k1(1) by (intro exI [of _ k']) (simp add: push_all_Cons)
qed (auto simp: push_all_def)

text \<open>At most one OR per table, pushed before any other predicate on it.\<close>

lemma push_unions:
  assumes "layered_tree L k n" "\<forall>p \<in> set ps. is_union (node p) \<and> (\<exists>t \<in> tables n. on_table t p)"
    and "\<forall>t. table_preds t ps = 0 \<or> (table_preds t ps = 1 \<and> L t = (False, 0))"
  shows "layered_tree (\<lambda>t. (fst (L t) \<or> 0 < table_preds t ps, snd (L t) + table_preds t ps)) k (push_all ps n)"
  using assms
proof (induction ps arbitrary: L n)
  case (Cons p ps)
  note wf = layered_tree_wf [OF Cons.prems(1)]
  let ?n = "pushDownSelectionPredicate n (Some p)"
  obtain t where t: "t \<in> tables n" "on_table t p" "is_union (node p)" using Cons.prems(2) by auto
  have tabs: "tables ?n = tables n" using on_table_wf [OF t(2)] by (rule pushDown_tables [OF wf])
  have "table_preds t (p # ps) = 1 \<and> L t = (False, 0)" using Cons.prems(3) t(2) by (metis Suc_not_Zero table_preds_Cons(2))
  then have L: "L t = (False, 0)" "table_preds t ps = 0" using t(2) by simp_all
  have other: "on_table s p \<longleftrightarrow> s = t" for s using on_table_unique [OF t(2)] t(2) by blast
  have "layered_tree (L(t := (True, Suc 0))) k ?n"
    using t push_union_layered [OF _ t(2,3)] L Cons.prems(1) by (intro push_on_table) auto
  moreover have "\<forall>s. table_preds s ps = 0 \<or> (table_preds s ps = 1 \<and> (L(t := (True, Suc 0))) s = (False, 0))"
    using Cons.prems(3) L(2) other by (metis fun_upd_apply table_preds_Cons(2))
  ultimately have "layered_tree (\<lambda>s. (fst ((L(t := (True, Suc 0))) s) \<or> 0 < table_preds s ps, snd ((L(t := (True, Suc 0))) s) + table_preds s ps)) k
      (push_all ps ?n)"
    using Cons.IH [of "L(t := (True, Suc 0))" ?n] Cons.prems(2) tabs by (simp del: fun_upd_apply)
  moreover have "(\<lambda>s. (fst ((L(t := (True, Suc 0))) s) \<or> 0 < table_preds s ps, snd ((L(t := (True, Suc 0))) s) + table_preds s ps)) =
      (\<lambda>s. (fst (L s) \<or> 0 < table_preds s (p # ps), snd (L s) + table_preds s (p # ps)))"
    using L other by (auto simp: fun_eq_iff)
  ultimately show ?case by (simp add: push_all_Cons)
qed (auto simp: push_all_def)

text \<open>
  The condition on the selection predicates: each is on one table of \<open>K\<close> or compares columns of two of them;
  a table has at most two predicates of its own, at most one of which is an OR.
\<close>

definition few_preds :: "string set \<Rightarrow> LogicalPlanNode list \<Rightarrow> bool" where
  "few_preds K ss \<longleftrightarrow>
     (\<forall>p \<in> set ss. (\<exists>t \<in> K. on_table t p) \<or> over_two K p) \<and>
     (\<forall>t \<in> K. table_preds t ss \<le> 2 \<and> table_preds t (filter (\<lambda>p. is_union (node p)) ss) \<le> 1)"

lemma table_preds_split:
  "table_preds t (filter P ss) + table_preds t (filter (\<lambda>p. \<not> P p) ss) = table_preds t ss"
  by (induction ss) auto

lemma applySelectionPredicates_supported:
  assumes "layered_tree (\<lambda>_. (False, 0)) k n" "few_preds (tables n) ss"
  shows "\<exists>k' \<le> k + length ss. supported k' (applySelectionPredicates n ss) \<and> tables (applySelectionPredicates n ss) = tables n"
proof -
  let ?K = "tables n" and ?U = "filter (\<lambda>p. is_union (node p)) ss" and ?F = "filter (\<lambda>p. \<not> is_union (node p)) ss"
  note wf = layered_tree_wf [OF assms(1)]
  have p: "(\<exists>t \<in> ?K. on_table t p) \<or> over_two ?K p" if "p \<in> set ss" for p using that assms(2) by (simp add: few_preds_def)
  have wp: "wf_pred p" if "p \<in> set ss" for p
    using p [OF that] wf_input_tables [OF wf] by (blast intro: simple_pred_wf)
  have ty: "node_type (node p) = L_SETOPERATION \<longleftrightarrow> is_union (node p)" if "p \<in> set ss" for p
    using wp [OF that] by (auto simp: wf_pred_def is_union_def)
  have ap: "applySelectionPredicates n ss = push_all ?F (push_all ?U n)"
    unfolding applySelectionPredicates_def by (simp add: ty cong: filter_cong)
  have U: "\<forall>p \<in> set ?U. is_union (node p) \<and> (\<exists>t \<in> ?K. on_table t p)" using p by (fastforce simp: is_union_def elim!: over_twoE)
  have one: "table_preds t ?U = 0 \<or> table_preds t ?U = 1" for t
  proof (cases "t \<in> ?K")
    case True
    then show ?thesis using assms(2) by (auto simp: few_preds_def le_Suc_eq)
  next
    case False
    then show ?thesis using U on_table_unique by (auto simp: table_preds_def filter_empty_conv)
  qed
  then have u: "layered_tree (\<lambda>t. (0 < table_preds t ?U, table_preds t ?U)) k (push_all ?U n)"
    using push_unions [OF assms(1) U] by simp
  have tabs: "tables (push_all ps n) = ?K" if "set ps \<subseteq> set ss" for ps
    using push_all_ok [OF wf, of ps] wp that by blast
  from push_filters [OF u, of ?F] p tabs [of ?U] obtain k' where
    k': "k' \<le> k + length ?F" "layered_tree (\<lambda>t. (0 < table_preds t ?U, table_preds t ?U + table_preds t ?F)) k' (push_all ?F (push_all ?U n))"
    by auto
  have "tables (push_all ?F (push_all ?U n)) = ?K"
    using push_all_ok [of "push_all ?U n" ?F] push_all_ok [OF wf, of ?U] wp tabs [of ?U] by auto
  moreover from this have "supported k' (push_all ?F (push_all ?U n))"
    using layered_tree_supported [OF k'(2)] assms(2) by (simp add: table_preds_split few_preds_def)
  moreover have "k' \<le> k + length ss" using k'(1) length_filter_le [of "\<lambda>p. \<not> is_union (node p)" ss] by linarith
  ultimately show ?thesis unfolding ap by blast
qed

section \<open>The greedy join tree\<close>

text \<open>
  The trees of the join loop name the column of their left subtree first: \<open>join_step\<close> takes the group of the
  first table as the left and that of the second table as the right subtree.
\<close>

abbreviation bare_layers :: "string \<Rightarrow> bool \<times> nat" where
  "bare_layers \<equiv> \<lambda>_. (False, 0)"

definition oriented :: "forest \<Rightarrow> bool" where
  "oriented tree \<longleftrightarrow> (\<forall>r n. tree r = Some (Some n) \<longrightarrow> layered_tree bare_layers (2 * card (tables (Some n)) - 1) (Some n))"

definition equi_pred :: "LogicalPlanNode \<Rightarrow> bool" where
  "equi_pred jp \<longleftrightarrow> comp_type (expression (node jp)) = Some C_EQ \<and>
     list_all (\<lambda>c. resolveTableName c = table_name c) (base_columns (node jp))"

lemma card_tables: "wf_input n \<Longrightarrow> 0 < card (tables n) \<and> finite (tables n)"
  using wf_input_tables [of n] by (auto simp: card_gt_0_iff tables_def)

lemma join_node_oriented:
  assumes "layered_tree bare_layers (2 * card (tables (Some l)) - 1) (Some l)" "layered_tree bare_layers (2 * card (tables (Some r)) - 1) (Some r)"
    and "tables (Some l) \<inter> tables (Some r) = {}" "wf_join_pred K jp" "equi_pred jp"
    and "pred_t1 jp \<in> tables (Some l)" "pred_t2 jp \<in> tables (Some r)"
  shows "layered_tree bare_layers (2 * card (tables (Some (join_node jp (Some l) (Some r)))) - 1) (Some (join_node jp (Some l) (Some r)))"
proof -
  obtain lc rc where c: "base_columns (node jp) = [lc, rc]" using assms(4) by (auto simp: wf_join_pred_def length_2_conv)
  then have t: "table_name lc = pred_t1 jp" "table_name rc = pred_t2 jp" using assms(5) by (simp_all add: equi_pred_def pred_t1_def pred_t2_def)
  obtain d where j: "join_node jp (Some l) (Some r) = LNode d [Some l, Some r]" "equi_join d lc rc"
    using assms(5) c by (simp add: join_node_def equi_join_def equi_pred_def)
  have "card (tables (Some l) \<union> tables (Some r)) = card (tables (Some l)) + card (tables (Some r))"
    using assms(1-3) card_tables layered_tree_wf by (intro card_Un_disjoint) blast+
  moreover have "0 < card (tables (Some l))" "0 < card (tables (Some r))" using assms(1,2) card_tables layered_tree_wf by blast+
  moreover have "tables (Some (LNode d [Some l, Some r])) = tables (Some l) \<union> tables (Some r)" using j(2) by (simp add: equi_join_def)
  ultimately have k: "2 * card (tables (Some (LNode d [Some l, Some r]))) - 1 =
      Suc ((2 * card (tables (Some l)) - 1) + (2 * card (tables (Some r)) - 1))" by simp
  show ?thesis unfolding j(1) k using assms(6,7) t by (intro layered_tree.join [OF assms(1,2) j(2) assms(3)]) simp_all
qed

lemma join_step_oriented:
  assumes inv: "join_inv eng db K ex0 jps (d, tree, extras)" and wf: "\<forall>q \<in> set (jp # jps). wf_join_pred K q" and K: "'''' \<notin> K"
    and eq: "equi_pred jp" and tree: "oriented tree" and step: "join_step (d, tree, extras) jp = Some (Inr (d', tree', extras'))"
  shows "oriented tree'"
proof -
  from inv obtain js where d: "dsu_inv d" "uf.members d = K" and f: "forest_ok eng db js d tree" unfolding join_inv_def by auto
  have jp: "wf_join_pred K jp" using wf by simp
  then have tK: "pred_t1 jp \<in> K" "pred_t2 jp \<in> K" by (auto simp: wf_join_pred_def)
  then have t0: "pred_t1 jp \<noteq> ''''" "pred_t2 jp \<noteq> ''''" using K by auto
  obtain d1 d2 r1 r2 where d1: "dsu_find (dsu_add (pred_t2 jp) (dsu_add (pred_t1 jp) d)) (pred_t1 jp) = Some (d1, r1)"
    "dsu_find d1 (pred_t2 jp) = Some (d2, r2)" and r: "dsu_rep d (pred_t1 jp) = Some r1" "dsu_rep d (pred_t2 jp) = Some r2"
    by (rule add_find_pair [OF d K tK])
  note rr = uf.rep_rep [OF d(1) r(1)] uf.rep_rep [OF d(1) r(2)]
  from f rr obtain n1 n2 where n: "tree r1 = Some (Some n1)" "tree_ok eng db js (uf.group_of d r1) n1"
    "tree r2 = Some (Some n2)" "tree_ok eng db js (uf.group_of d r2) n2" unfolding forest_ok_def by metis
  have "tree' = tree \<or> (r1 \<noteq> r2 \<and> (\<exists>rep. tree' = (tree(r1 := None, r2 := None))(rep \<mapsto> Some (join_node jp (Some n1) (Some n2)))))"
    using step jp t0 d1 n(1,3)
    by (auto simp: join_step_def wf_join_pred_def pred_t1_def pred_t2_def Let_def forest_get_def bind_eq_Some_conv split: if_split_asm)
  then show ?thesis
  proof (elim disjE conjE exE)
    fix rep assume r12: "r1 \<noteq> r2" and t': "tree' = (tree(r1 := None, r2 := None))(rep \<mapsto> Some (join_node jp (Some n1) (Some n2)))"
    have tabs: "tables (Some n1) = uf.group_of d r1" "tables (Some n2) = uf.group_of d r2" using n by (simp_all add: tree_ok_def)
    have "layered_tree bare_layers (2 * card (tables (Some (join_node jp (Some n1) (Some n2)))) - 1) (Some (join_node jp (Some n1) (Some n2)))"
    proof (rule join_node_oriented [OF _ _ _ jp eq])
      show "layered_tree bare_layers (2 * card (tables (Some n1)) - 1) (Some n1)" "layered_tree bare_layers (2 * card (tables (Some n2)) - 1) (Some n2)"
        using tree n by (auto simp: oriented_def)
      show "tables (Some n1) \<inter> tables (Some n2) = {}" unfolding tabs using r12 by (rule uf.groups_disjoint)
      show "pred_t1 jp \<in> tables (Some n1)" "pred_t2 jp \<in> tables (Some n2)" unfolding tabs using r by (simp_all add: uf.group_of_def)
    qed
    then show ?thesis using tree by (auto simp: t' oriented_def)
  qed (use tree in simp)
qed

lemma join_loop_oriented:
  assumes "join_inv eng db K ex0 don st" "\<forall>q \<in> set (don @ jps). wf_join_pred K q" "'''' \<notin> K" "\<forall>q \<in> set jps. equi_pred q"
    and "oriented (fst (snd st))" "join_loop st jps = Some (Inr st')"
  shows "oriented (fst (snd st'))"
  using assms
proof (induction jps arbitrary: don st)
  case (Cons jp jps)
  from join_step_inv [OF Cons.prems(1) _ Cons.prems(3), of jp] Cons.prems(2) obtain s where
    s: "join_step st jp = Some (Inr s)" "join_inv eng db K ex0 (don @ [jp]) s" by auto
  have "oriented (fst (snd s))"
    using join_step_oriented [of eng db K ex0 don "fst st" "fst (snd st)" "snd (snd st)" jp "fst s" "fst (snd s)" "snd (snd s)"] Cons.prems s(1)
    by simp
  with Cons.IH [of "don @ [jp]" s] Cons.prems s show ?case by simp
qed simp

lemma join_loop_extras:
  "join_loop st jps = Some (Inr st') \<Longrightarrow> length (snd (snd st')) \<le> length (snd (snd st)) + length jps"
proof (induction jps arbitrary: st)
  case (Cons jp jps)
  from Cons.prems obtain s where s: "join_step st jp = Some (Inr s)" "join_loop s jps = Some (Inr st')"
    by (cases "join_step st jp") (auto split: sum.split_asm)
  have "length (snd (snd s)) \<le> Suc (length (snd (snd st)))"
    using s(1) by (auto simp: join_step_def Let_def bind_eq_Some_conv split: prod.split_asm if_split_asm)
  with Cons.IH [OF s(2)] show ?case by simp
qed simp

lemma buildJoinTree_oriented:
  assumes scans: "wf_scans scans" and wf: "\<forall>j \<in> set js. wf_join_pred (fst ` set scans) j" and eq: "\<forall>q \<in> set js. equi_pred q"
    and res: "buildJoinTree scans js ex0 = Some (Inr (n, extras))"
  shows "layered_tree bare_layers (2 * card (tables (Some n)) - 1) (Some n) \<and> length extras \<le> length ex0 + length js"
proof -
  let ?tree = "fold (\<lambda>(t, scan) m. m(t \<mapsto> Some scan)) scans Map.empty"
  let ?st = "(fold (\<lambda>(t, _). dsu_add t) scans Map.empty, ?tree, ex0)"
  have l: "list_all (\<lambda>(t, s). t \<noteq> '''' \<and> s = scan_node t) scans" and K: "'''' \<notin> fst ` set scans" and ne: "scans \<noteq> []"
    using scans by (auto simp: wf_scans_def list_all_iff)
  obtain d tree ex where loop: "join_loop ?st js = Some (Inr (d, tree, ex))"
    using join_loop_inv [OF join_inv_init [OF scans, of ex_engine ex_db ex0], of js] wf K by auto
  with res ne obtain rep where rep: "rep_loop d '''' (map fst scans) = Some rep" "tree rep = Some (Some n)" "ex = extras"
    by (auto simp: buildJoinTree_def bind_eq_Some_conv split: option.split_asm)
  have leaf: "layered_tree bare_layers (Suc 0) (Some (scan_node t)) \<and> tables (Some (scan_node t)) = {t}" if "t \<noteq> ''''" for t
    using that by (auto simp: scan_node_def is_scan_def intro!: layered_tree.leaf [of t] layered.bare)
  have "oriented ?tree"
    unfolding oriented_def scan_forest [OF l]
  proof (intro allI impI)
    fix t n assume "(if t \<in> fst ` set scans then Some (Some (scan_node t)) else None) = Some (Some n)"
    then have "n = scan_node t" "t \<in> fst ` set scans" by (simp_all split: if_split_asm)
    moreover from this(2) have "t \<noteq> ''''" using K by metis
    ultimately show "layered_tree bare_layers (2 * card (tables (Some n)) - 1) (Some n)" using leaf [of t] by simp
  qed
  then have "oriented tree"
    using join_loop_oriented [OF join_inv_init [OF scans, of ex_engine ex_db ex0] _ K eq _ loop] wf by simp
  then show ?thesis using rep join_loop_extras [OF loop] by (simp add: oriented_def)
qed

lemma over_two_as_filter:
  assumes "wf_join_pred K x" "equi_pred x" "pred_t1 x \<noteq> pred_t2 x"
  shows "over_two K (as_filter x)"
proof -
  obtain c1 c2 where c: "base_columns (node x) = [c1, c2]" using assms(1) by (auto simp: wf_join_pred_def length_2_conv)
  then have "table_name c1 = pred_t1 x" "table_name c2 = pred_t2 x" using assms(2) by (simp_all add: equi_pred_def pred_t1_def pred_t2_def)
  then show ?thesis using c assms by (simp add: over_two_def as_filter_def wf_join_pred_def)
qed

text \<open>The input tree of a statement without JSON order: the extra join filters are over two tables.\<close>

lemma buildSelectInputTree_layered:
  assumes scans: "wf_scans scans" and wf: "\<forall>j \<in> set js. wf_join_pred (fst ` set scans) j" and span: "spans scans js"
    and eq: "\<forall>q \<in> set js. equi_pred q \<and> pred_t1 q \<noteq> pred_t2 q"
    and res: "buildSelectInputTree scans js [] = Some (Inr r)"
  shows "\<exists>k < 2 * card (fst ` set scans) + length js. layered_tree bare_layers k r \<and> tables r = fst ` set scans"
proof -
  let ?K = "fst ` set scans"
  from buildJoinTree_ok [OF scans wf, of "[]" ex_engine ex_db] obtain n xs where
    n: "buildJoinTree scans js [] = Some (Inr (n, map as_filter xs))" "set xs \<subseteq> set js" "set (getProvidedTables (Some n)) = ?K"
    unfolding span [unfolded spans_def] append_Nil by (elim exE conjE) (rule that; assumption)
  have r: "r = push_all (map as_filter xs) (Some n)" using res n(1) by (simp add: buildSelectInputTree_def resolveJoinOrderToScans_def)
  have tabs: "tables (Some n) = ?K" using n(3) by (simp add: tables_def)
  have t: "layered_tree bare_layers (2 * card ?K - 1) (Some n)" "length xs \<le> length js"
    using buildJoinTree_oriented [OF scans wf _ n(1)] eq tabs by simp_all
  have two: "over_two ?K (as_filter x)" if "x \<in> set js" for x
    using that wf eq by (intro over_two_as_filter) auto
  have "\<forall>p \<in> set (map as_filter xs). \<not> is_union (node p) \<and> ((\<exists>t \<in> tables (Some n). on_table t p) \<or> over_two (tables (Some n)) p)"
    using two n(2) tabs by (auto simp: is_union_def as_filter_def)
  from push_filters [OF t(1) this] obtain k where
    k: "k \<le> 2 * card ?K - 1 + length xs" "layered_tree (\<lambda>t. (False, table_preds t (map as_filter xs))) k r"
    by (auto simp: r)
  have "table_preds t (map as_filter xs) = 0" for t
    using two n(2) over_two_on_table by (fastforce simp: table_preds_def filter_empty_conv)
  then have "layered_tree bare_layers k r" using k(2) by simp
  moreover have "tables r = ?K"
    unfolding r using push_all_ok [OF layered_tree_wf [OF t(1)], of "map as_filter xs" ex_engine ex_db] by (simp add: wf_pred_as_filter tabs)
  moreover have "0 < card ?K" using scans by (auto simp: wf_scans_def card_gt_0_iff)
  ultimately show ?thesis using k(1) t(2) by (intro exI [of _ k]) auto
qed

section \<open>The SELECT list\<close>

text \<open>Statements that list columns of their tables, without grouping and ordering.\<close>

definition plain_select :: "(string \<rightharpoonup> string) \<Rightarrow> SelectStatement \<Rightarrow> bool" where
  "plain_select al sel \<longleftrightarrow>
     groupBy sel = None \<and> order_by sel = None \<and>
     (case selectList sel of
        None \<Rightarrow> False
      | Some items \<Rightarrow> items \<noteq> [] \<and>
          list_all (\<lambda>i. case i of
              None \<Rightarrow> False
            | Some e \<Rightarrow> is_col e \<and> table_name (toColumnFromExpr i al) \<in> from_tables (fromTable sel)) items)"

definition select_columns :: "(string \<rightharpoonup> string) \<Rightarrow> Expr list \<Rightarrow> Column list" where
  "select_columns al es = map (\<lambda>e. (toColumnFromExpr (Some e) al)\<lparr>col_alias := ealias (edata e)\<rparr>) es"

definition select_exprs :: "SelectStatement \<Rightarrow> Expr list" where
  "select_exprs sel = (case selectList sel of Some items \<Rightarrow> nonnull items | None \<Rightarrow> [])"

lemma analyze_columns:
  assumes "list_all (\<lambda>i. case i of None \<Rightarrow> False | Some e \<Rightarrow> is_col e) items"
  shows "foldl (analyze_item al) (sa, tc) items = (sa\<lparr>projections := projections sa @ select_columns al (nonnull items)\<rparr>, tc)"
  using assms
proof (induction items arbitrary: sa)
  case (Cons i items)
  then obtain e where e: "i = Some e" "is_col e" by (auto split: option.split_asm)
  then have "matchAgg al i = None" by (simp add: matchAgg_def is_col_def)
  with e have "analyze_item al (sa, tc) i = (sa\<lparr>projections := projections sa @ select_columns al [e]\<rparr>, tc)"
    by (simp add: analyze_item_def select_columns_def)
  with Cons e(1) show ?case by (simp add: select_columns_def)
qed (simp add: select_columns_def)

lemma plain_output:
  assumes "plain_select al sel" "build_select_output sel tc cur = Inr (root, tc')" "aliasToTable tc = al"
  shows "\<exists>d. root = LNode d [cur] \<and> node_type d = L_PROJECTION \<and> projected_columns d = select_columns al (select_exprs sel)"
proof -
  from assms(1) obtain items where sel: "selectList sel = Some items" "groupBy sel = None" "order_by sel = None"
    and all: "\<forall>i \<in> set items. \<exists>e. i = Some e \<and> is_col e"
    by (auto simp: plain_select_def list_all_iff split: option.splits)
  have cols: "list_all (\<lambda>i. case i of None \<Rightarrow> False | Some e \<Rightarrow> is_col e) items" using all by (auto simp: list_all_iff)
  have "analyzeSelectClause sel al tc = (SelectAnalysis_default\<lparr>projections := select_columns al (select_exprs sel)\<rparr>, tc)"
    using analyze_columns [OF cols] sel(1) by (simp add: analyzeSelectClause_def select_exprs_def SelectAnalysis_default_def)
  then have "\<exists>r. applyLimitOffset (LNode ((new_node L_PROJECTION)\<lparr>projected_columns := select_columns al (select_exprs sel)\<rparr>) [cur]) sel = Inr root"
    using assms(2,3) sel(2,3)
    by (auto simp: build_select_output_def collectGroupByColumns_def buildSelectOutputTree_def applySortNode_def SelectAnalysis_default_def bindE_Inr_iff)
  then show ?thesis using applyLimitOffset_shape by (fastforce simp: set_expression_def)
qed

section \<open>Join predicates\<close>

lemma toColumnFromExpr_table: "resolveTableName (toColumnFromExpr e al) = table_name (toColumnFromExpr e al)"
proof -
  have "prefix_table kPrefixToTable '''' = ''''" by code_simp
  then show ?thesis by (auto simp: toColumnFromExpr_def resolveTableName_def Let_def split: option.split)
qed

lemma join_predicate_built:
  assumes "buildPredicateNode al (Some c) = Inr p" "node_type (node p) = L_JOIN"
  shows "p = buildJoinPredicate al c"
proof -
  from assms(1) consider "buildInPredicate al c = Inr p" | "buildOrPredicate al c = Inr p"
    | "p = buildJoinPredicate al c" | "p = buildBetweenPredicate al c"
    | cmp where "buildComparisonPredicate al c cmp = Inr (Some p)"
    by (auto simp: buildPredicateNode.simps(2) res_iff split: if_split_asm option.split_asm)
  then show ?thesis
  proof cases
    case 2
    then have "node_type (node p) \<noteq> L_JOIN"
      by (cases c) (auto simp: buildOrPredicate.simps res_iff union_node_def split: prod.splits if_splits dest!: combine_or_shape)
    with assms(2) show ?thesis by simp
  qed (use assms(2) in \<open>auto dest!: in_predicate_shape comparison_filter\<close>)
qed

lemma buildJoinPredicate_equi: "equi_pred (buildJoinPredicate al c)"
  by (simp add: equi_pred_def buildJoinPredicate_def toColumnFromExpr_table)

lemma extractPredicates_equi:
  assumes "extractPredicates al wc = Inr (js, ss)"
  shows "\<forall>j \<in> set js. equi_pred j" "length js + length ss = length (splitConjuncts wc [])"
proof -
  from extractPredicates_nodes [OF assms] obtain ns where
    ns: "list_all2 (\<lambda>c n. buildPredicateNode al (Some c) = Inr n) (splitConjuncts wc []) ns"
    "js = filter (\<lambda>n. node_type (node n) = L_JOIN) ns" "ss = filter (\<lambda>n. node_type (node n) \<noteq> L_JOIN) ns" by blast
  show "\<forall>j \<in> set js. equi_pred j"
  proof
    fix j assume "j \<in> set js"
    then have "j \<in> set ns" "node_type (node j) = L_JOIN" by (simp_all add: ns(2))
    moreover from list_all2_source [OF ns(1) this(1)] obtain c where "buildPredicateNode al (Some c) = Inr j" by blast
    ultimately show "equi_pred j" using join_predicate_built buildJoinPredicate_equi by metis
  qed
  show "length js + length ss = length (splitConjuncts wc [])"
    unfolding ns(2,3) using list_all2_lengthD [OF ns(1)] sum_length_filter_compl [of "\<lambda>n. node_type (node n) = L_JOIN" ns] by simp
qed

section \<open>From SQL to the result columns\<close>

text \<open>
  A statement asks for one row per choice of positions, one for each table of the FROM clause, at which the WHERE
  clause and the ON conditions of explicit joins hold; the answer is a list of values per item of the SELECT list, all
  in the same order of rows. Tables occur once in the FROM clause, under their names or aliases.
\<close>

fun on_conditions :: "TableRef option \<Rightarrow> Expr list" where
  "on_conditions (Some (kTableCrossProduct (Some ts))) = concat (map on_conditions ts)"
| "on_conditions (Some (kTableJoin (Some (l, r, _, c)))) =
     on_conditions l @ on_conditions r @ (case c of Some e \<Rightarrow> [e] | None \<Rightarrow> [])"
| "on_conditions _ = []"

text \<open>The explicit joins of a FROM clause are cross joins; for other kinds the rows above are not what SQL defines.\<close>

fun only_cross_joins :: "TableRef option \<Rightarrow> bool" where
  "only_cross_joins (Some (kTableCrossProduct (Some ts))) \<longleftrightarrow> list_all only_cross_joins ts"
| "only_cross_joins (Some (kTableJoin (Some (l, r, k, c)))) \<longleftrightarrow>
     only_cross_joins l \<and> only_cross_joins r \<and> k = kJoinCross \<and> c = None"
| "only_cross_joins _ \<longleftrightarrow> True"

lemma only_cross_no_conditions: "only_cross_joins t \<Longrightarrow> on_conditions t = []"
  by (induction t rule: on_conditions.induct) (auto simp: list_all_iff)

definition query_positions ::
  "(string \<rightharpoonup> string) \<Rightarrow> (string \<Rightarrow> nat) \<Rightarrow> (OperatorType \<Rightarrow> nat \<Rightarrow> nat \<Rightarrow> bool) \<Rightarrow> (string \<Rightarrow> nat) \<Rightarrow>
     MaterializationSemantics.env \<Rightarrow> SelectStatement \<Rightarrow> (string \<rightharpoonup> nat) set" where
  "query_positions al lit sqlop sz \<sigma> sel =
     {v. in_tables sz (from_tables (fromTable sel)) v \<and> sql_holds al lit sqlop (row_of \<sigma> v) (whereClause sel) \<and>
        (\<forall>c \<in> set (on_conditions (fromTable sel)). sql_holds al lit sqlop (row_of \<sigma> v) (Some c))}"

definition query_answer ::
  "(string \<rightharpoonup> string) \<Rightarrow> (string \<Rightarrow> nat) \<Rightarrow> (OperatorType \<Rightarrow> nat \<Rightarrow> nat \<Rightarrow> bool) \<Rightarrow> (string \<Rightarrow> nat) \<Rightarrow>
     MaterializationSemantics.env \<Rightarrow> SelectStatement \<Rightarrow> nat list list \<Rightarrow> bool" where
  "query_answer al lit sqlop sz \<sigma> sel out \<longleftrightarrow>
     (\<exists>N v. bij_betw v {..<N} (query_positions al lit sqlop sz \<sigma> sel) \<and>
        list_all2 (\<lambda>e xs. map Some xs = map (\<lambda>k. operand_value al lit (row_of \<sigma> (v k)) (Some e)) [0..<N]) (select_exprs sel) out)"

text \<open>
  At most two predicates per table, at most one of them an OR, all over one or two tables of the FROM clause, and no
  equality of two columns of one table.
\<close>

definition few_filters :: "(string \<rightharpoonup> string) \<Rightarrow> SelectStatement \<Rightarrow> bool" where
  "few_filters al sel \<longleftrightarrow>
     (\<forall>js ss. extractPredicates al (whereClause sel) = Inr (js, ss) \<longrightarrow>
        few_preds (from_tables (fromTable sel)) ss \<and> (\<forall>j \<in> set js. pred_t1 j \<noteq> pred_t2 j))"

lemma row_of_cross: "in_tables sz K v \<Longrightarrow> row_of \<sigma> v \<in> cross (stored_rows sz \<sigma>) K"
  by (fastforce simp: in_tables_def cross_def row_of_def stored_rows_def dom_def)

lemma plain_columns:
  assumes "plain_select al sel"
  shows "select_columns al (select_exprs sel) \<noteq> []" "\<forall>e \<in> set (select_exprs sel). is_col e"
    "\<forall>c \<in> set (select_columns al (select_exprs sel)). table_name c \<in> from_tables (fromTable sel)"
proof -
  from assms obtain items where sel: "selectList sel = Some items" "items \<noteq> []"
    and all: "\<forall>i \<in> set items. \<exists>e. i = Some e \<and> is_col e \<and> table_name (toColumnFromExpr (Some e) al) \<in> from_tables (fromTable sel)"
    by (auto simp: plain_select_def list_all_iff split: option.splits)
  then show "\<forall>e \<in> set (select_exprs sel). is_col e"
    "\<forall>c \<in> set (select_columns al (select_exprs sel)). table_name c \<in> from_tables (fromTable sel)"
    by (auto simp: select_exprs_def select_columns_def)
  from sel(2) all obtain e where "Some e \<in> set items" by (cases items) auto
  then have "e \<in> set (select_exprs sel)" by (simp add: select_exprs_def sel(1))
  then show "select_columns al (select_exprs sel) \<noteq> []" by (auto simp: select_columns_def)
qed

lemma answers_query:
  assumes "answers eng sz \<sigma> n (select_columns al (select_exprs sel)) out" "tables n = from_tables (fromTable sel)"
    and "plain_select al sel" "only_cross_joins (fromTable sel)"
    and "rows eng (stored_rows sz \<sigma>) n = {e \<in> cross (stored_rows sz \<sigma>) (from_tables (fromTable sel)). sql_holds al lit sqlop e (whereClause sel)}"
  shows "query_answer al lit sqlop sz \<sigma> sel (map (val \<sigma>) out)"
proof -
  have pos: "matches eng \<sigma> sz n = query_positions al lit sqlop sz \<sigma> sel"
    using row_of_cross assms(2,5) only_cross_no_conditions [OF assms(4)] by (auto simp: matches_def query_positions_def)
  have val: "colval env ((toColumnFromExpr (Some e) al)\<lparr>col_alias := a\<rparr>) = operand_value al lit env (Some e)"
    if "e \<in> set (select_exprs sel)" for env e a
    using that plain_columns(2) [OF assms(3)] by (simp add: operand_value_def colval_def resolveTableName_def)
  obtain N v where v: "bij_betw v {..<N} (query_positions al lit sqlop sz \<sigma> sel)"
    "list_all2 (\<lambda>c r. map Some (val \<sigma> r) = map (\<lambda>k. colval (row_of \<sigma> (v k)) c) [0..<N]) (select_columns al (select_exprs sel)) out"
    using assms(1) pos by (auto simp: answers_def)
  from v(2) have "list_all2 (\<lambda>e r. map Some (val \<sigma> r) = map (\<lambda>k. operand_value al lit (row_of \<sigma> (v k)) (Some e)) [0..<N])
      (select_exprs sel) out"
    using val by (auto simp: select_columns_def list_all2_conv_all_nth)
  then have "list_all2 (\<lambda>e xs. map Some xs = map (\<lambda>k. operand_value al lit (row_of \<sigma> (v k)) (Some e)) [0..<N])
      (select_exprs sel) (map (val \<sigma>) out)" by (simp add: list_all2_map2)
  then show ?thesis using v(1) unfolding query_answer_def by blast
qed

text \<open>
  C1. From SQL to result columns, for a fragment of SQL. The statement selects plain columns of its FROM tables, without
  aggregates, grouping and ordering. Its FROM clause has no explicit joins other than cross joins. Its WHERE clause is a
  conjunction of plain conditions (the column stands first unless the operator is symmetric, and no function is applied
  to an operand), its join conditions are between tables of the FROM clause and connect all of them, none equates two
  columns of one table, and at most two other conditions are on the same table, at most one of them an OR. No
  JSON join order is given, join outputs are not trimmed, and twice the number of tables plus the number of conditions is
  at most \<open>2\<^sup>3\<^sup>1\<close>. Then, whatever the hash order, node identifiers and the choice between chained and optimized
  materialization, the plan that \<open>buildPlanForSelect\<close> builds converts to a physical plan with a RESULT node, and in every
  environment in which the engine keeps its promises for the nodes of that plan the result columns are the answer SQL
  defines: one row for each choice of rows of the FROM tables on which the WHERE clause holds, duplicates
  included, each with the values of the SELECT list. A LIMIT, if any, is still to be applied to these rows. This
  composes alias collection, scan map, predicate construction, greedy join tree, pushdown, the node handlers and
  materialization. What SQL defines is stated with the code's own reading of column references and literals
  (\<open>toColumnFromExpr\<close>, \<open>literal_text\<close>). Outside the fragment the code can be wrong: a literal on the left does not mirror
  the operator, ON conditions are dropped, tables that no join condition connects are lost, and the position list of a
  third filter on a table is chained behind the first two.
\<close>

theorem select_physical_correct:
  assumes hash: "\<And>m. mset (hash_order m) = mset m"
    and eng: "engine_spec eng lit sqlop"
    and eq: "\<And>a b. sqlop kOpEquals a b \<longleftrightarrow> a = b" "\<And>a b. sqlop kOpNotEquals a b = sqlop kOpNotEquals b a"
    and al: "al = collectAliases (fromTable sel) Map.empty"
    and plain: "list_all (\<lambda>c. plain_cond (Some c)) (splitConjuncts (whereClause sel) [])"
    and cross: "only_cross_joins (fromTable sel)"
    and joins: "joins_from al sel" and conn: "connected_from al sel"
    and sel: "plain_select al sel" and few: "few_filters al sel"
    and size: "2 * card (from_tables (fromTable sel)) + length (splitConjuncts (whereClause sel) []) \<le> 2 ^ 31"
    and res: "buildPlanForSelect hash_order sel [] tc = Some (Inr (root, tc'))"
  shows "\<exists>a h. ConvertToPhys (Some root) oc False tab ids = Some (Inr (Some (Some a, h))) \<and> p_type (h ! a) = P_RESULT \<and>
    (\<forall>sz \<sigma>. stored sz \<sigma> (from_tables (fromTable sel)) \<longrightarrow> runs eng \<sigma> h \<longrightarrow>
       query_answer al lit sqlop sz \<sigma> sel (map (val \<sigma>) (result_columns (h ! a))))"
proof -
  let ?K = "from_tables (fromTable sel)"
  have equal: "compares_equal eng" using eng eq(1) by (simp add: engine_spec_def compares_equal_def cmp2_def plan_cmp_def)
  obtain scans js ss r where r: "extractPredicates al (whereClause sel) = Inr (js, ss)"
    "buildSelectInputTree scans js [] = Some (Inr r)"
    "build_select_output sel (initializeSelectContext sel tc) (applySelectionPredicates r ss) = Inr (root, tc')"
    and scans: "wf_scans scans" "fst ` set scans = ?K" "spans scans js" and wf: "\<forall>j \<in> set js. wf_join_pred ?K j" "\<forall>p \<in> set ss. wf_pred p"
    by (rule buildPlanForSelect_tree [OF hash al joins conn res])
  let ?n = "applySelectionPredicates r ss"
  have few': "few_preds ?K ss" "\<forall>j \<in> set js. pred_t1 j \<noteq> pred_t2 j" using few r(1) by (auto simp: few_filters_def)
  obtain k where k: "k < 2 * card ?K + length js" "layered_tree bare_layers k r" "tables r = ?K"
    using buildSelectInputTree_layered [OF scans(1) _ scans(3) _ r(2)] wf(1) few'(2) extractPredicates_equi(1) [OF r(1)] scans(2) by auto
  obtain m where m: "m \<le> k + length ss" "supported m ?n" "tables ?n = ?K"
    using applySelectionPredicates_supported [OF k(2), of ss] few'(1) k(3) by auto
  have "m < 2 ^ 31" using m(1) k(1) size extractPredicates_equi(2) [OF r(1)] by linarith
  obtain d where d: "root = LNode d [?n]" "node_type d = L_PROJECTION" "projected_columns d = select_columns al (select_exprs sel)"
    using plain_output [OF sel r(3)] al by (auto simp: initializeSelectContext_def)
  have cols: "projected_columns d \<noteq> []" "\<forall>c \<in> set (projected_columns d). table_name c \<in> tables ?n"
    using plain_columns [OF sel] d(3) m(3) by simp_all
  have rows: "rows eng db ?n = {e \<in> cross db ?K. sql_holds al lit sqlop e (whereClause sel)}" for db
    using applySelectionPredicates_sql(2) [OF eng _ eq(2) plain r(1,2) scans wf] eq(1) by auto
  have "query_answer al lit sqlop sz \<sigma> sel (map (val \<sigma>) out)" if "answers eng sz \<sigma> ?n (projected_columns d) out" for sz \<sigma> out
    using answers_query [OF _ m(3) sel cross rows] that d(3) by simp
  moreover obtain a h where "ConvertToPhys (Some root) oc False tab ids = Some (Inr (Some (Some a, h)))" "p_type (h ! a) = P_RESULT"
    "\<forall>eng sz \<sigma>. stored sz \<sigma> ?K \<longrightarrow> compares_equal eng \<longrightarrow> runs eng \<sigma> h \<longrightarrow> answers eng sz \<sigma> ?n (projected_columns d) (result_columns (h ! a))"
    using ConvertToPhys_answers [OF m(2) \<open>m < 2 ^ 31\<close> d(2) cols, of oc tab ids] unfolding d(1) m(3) by auto
  ultimately show ?thesis using equal by blast
qed

section \<open>A concrete query\<close>

text \<open>\<open>SELECT lineorder.r FROM lineorder, customer WHERE lineorder.k = customer.k AND lineorder.q < 25\<close>\<close>

definition qa_select :: SelectStatement where
  "qa_select =
     \<lparr>fromTable = Some (kTableCrossProduct (Some [Some (kTableName (Some ''lineorder'') None), Some (kTableName (Some ''customer'') None)])),
      selectList = Some [Some (col_ref ''lineorder'' ''r'')],
      whereClause = Some (bin_op kOpAnd (bin_op kOpEquals (col_ref ''lineorder'' ''k'') (col_ref ''customer'' ''k''))
        (bin_op kOpLess (col_ref ''lineorder'' ''q'') (int_lit 25))),
      groupBy = None, order_by = None, limit = None\<rparr>"

abbreviation qa_al :: "string \<rightharpoonup> string" where
  "qa_al \<equiv> collectAliases (fromTable qa_select) Map.empty"

definition qa_lit :: "string \<Rightarrow> nat" where
  "qa_lit l = (if l = ''25'' then 25 else 0)"

definition qa_op :: "OperatorType \<Rightarrow> nat \<Rightarrow> nat \<Rightarrow> bool" where
  "qa_op oper a b =
     (if oper = kOpEquals then a = b else if oper = kOpNotEquals then a \<noteq> b else if oper = kOpLess then a < b else False)"

definition qa_env :: "MaterializationSemantics.env" where
  "qa_env = sem_env sem_cells sem_size"

definition qa_run :: "(bool \<times> nat list list) option" where
  "qa_run =
     (case buildPlanForSelect id qa_select [] TranslationContext_default of
        Some (Inr (root, tc)) \<Rightarrow>
          (case ConvertToPhys (Some root) True False ''t'' int of
             Some (Inr (Some (Some a, h))) \<Rightarrow>
               Some (runs (spec_engine qa_lit qa_op) qa_env h, map (val qa_env) (result_columns (h ! a)))
           | _ \<Rightarrow> None)
      | _ \<Rightarrow> None)"

lemma qa_run_demo: "qa_run = Some (True, [[400, 100, 300]])"
  by code_simp

lemma qa_from: "from_tables (fromTable qa_select) = {''lineorder'', ''customer''}"
  by code_simp

definition qa_preds :: "LogicalPlanNode list \<times> LogicalPlanNode list" where
  "qa_preds = (case extractPredicates qa_al (whereClause qa_select) of Inr r \<Rightarrow> r | Inl _ \<Rightarrow> ([], []))"

lemma qa_predsD: "extractPredicates qa_al (whereClause qa_select) = Inr (js, ss) \<Longrightarrow> js = fst qa_preds \<and> ss = snd qa_preds"
  unfolding qa_preds_def by (simp only: sum.case fst_conv snd_conv)

lemma qa_edges: "edges (fst qa_preds) = {(''lineorder'', ''customer''), (''customer'', ''lineorder'')}"
  by code_simp

lemma qa_connected: "connected_from qa_al qa_select"
  unfolding connected_from_def qa_from using component_pair [OF qa_edges] by (auto dest!: qa_predsD)

lemma qa_joins: "joins_from qa_al qa_select"
proof -
  have "list_all (\<lambda>c. case buildPredicateNode qa_al (Some c) of Inl _ \<Rightarrow> True
      | Inr p \<Rightarrow> node_type (node p) = L_JOIN \<longrightarrow> pred_t1 p \<in> {''lineorder'', ''customer''} \<and> pred_t2 p \<in> {''lineorder'', ''customer''})
      (splitConjuncts (whereClause qa_select) [])"
    by code_simp
  then show ?thesis unfolding joins_from_def qa_from by (auto simp: list_all_iff split: sum.split_asm)
qed

lemma qa_few: "few_filters qa_al qa_select"
proof -
  have "few_preds {''lineorder'', ''customer''} (snd qa_preds) \<and> (\<forall>j \<in> set (fst qa_preds). pred_t1 j \<noteq> pred_t2 j)"
    by code_simp
  then show ?thesis unfolding few_filters_def qa_from by (auto dest!: qa_predsD)
qed

lemma qa_plain: "plain_select qa_al qa_select" "list_all (\<lambda>c. plain_cond (Some c)) (splitConjuncts (whereClause qa_select) [])"
  "length (splitConjuncts (whereClause qa_select) []) = 2"
  by code_simp+

lemma qa_cross: "only_cross_joins (fromTable qa_select)"
  by code_simp

theorem select_physical_correct_witness:
  "\<exists>root tc a h. buildPlanForSelect id qa_select [] TranslationContext_default = Some (Inr (root, tc)) \<and>
     ConvertToPhys (Some root) True False ''t'' int = Some (Inr (Some (Some a, h))) \<and>
     runs (spec_engine qa_lit qa_op) qa_env h \<and>
     query_answer qa_al qa_lit qa_op sem_size qa_env qa_select (map (val qa_env) (result_columns (h ! a))) \<and>
     map (val qa_env) (result_columns (h ! a)) = [[400, 100, 300]]"
proof -
  have "case buildPlanForSelect id qa_select [] TranslationContext_default of Some (Inr _) \<Rightarrow> True | _ \<Rightarrow> False"
    by code_simp
  then obtain root tc where res: "buildPlanForSelect id qa_select [] TranslationContext_default = Some (Inr (root, tc))"
    by (auto split: option.split_asm sum.split_asm)
  have eq: "qa_op kOpEquals a b \<longleftrightarrow> a = b" "qa_op kOpNotEquals a b = qa_op kOpNotEquals b a" for a b by (auto simp: qa_op_def)
  have size: "2 * card (from_tables (fromTable qa_select)) + length (splitConjuncts (whereClause qa_select) []) \<le> 2 ^ 31"
    unfolding qa_from qa_plain(3) by simp
  obtain a h where conv: "ConvertToPhys (Some root) True False ''t'' int = Some (Inr (Some (Some a, h)))"
    "\<forall>sz \<sigma>. stored sz \<sigma> (from_tables (fromTable qa_select)) \<longrightarrow> runs (spec_engine qa_lit qa_op) \<sigma> h \<longrightarrow>
       query_answer qa_al qa_lit qa_op sz \<sigma> qa_select (map (val \<sigma>) (result_columns (h ! a)))"
    using select_physical_correct [of id "spec_engine qa_lit qa_op" qa_lit qa_op, OF _ spec_engine_ok eq refl qa_plain(2) qa_cross qa_joins qa_connected qa_plain(1) qa_few size res,
      of True "''t''" int] by auto
  have run: "runs (spec_engine qa_lit qa_op) qa_env h" "map (val qa_env) (result_columns (h ! a)) = [[400, 100, 300]]"
    using qa_run_demo by (simp_all add: qa_run_def res conv(1))
  have "stored sem_size qa_env (from_tables (fromTable qa_select))"
    unfolding qa_from qa_env_def by (rule sem_stored) code_simp
  then have "query_answer qa_al qa_lit qa_op sem_size qa_env qa_select (map (val qa_env) (result_columns (h ! a)))"
    using conv(2) run(1) by blast
  then show ?thesis using res conv(1) run by (intro exI conjI)
qed

end
