(* ===== verification/Framing.thy ===== *)
theory Framing
  imports Prelude
begin

text \<open>
  Message framing on the TCP channel: \<^verbatim>\<open>TCPMetaInfo\<close> (\<^verbatim>\<open>TCPServer.hpp\<close>), \<^verbatim>\<open>serializeItemToMemory\<close> and
  \<^verbatim>\<open>extractItemsModifyBuffer\<close> (\<^verbatim>\<open>Utility\<close>), and the receive loops of \<^verbatim>\<open>TCPServer\<close> and \<^verbatim>\<open>TCPClient\<close>, which
  collect arbitrary segments of the byte stream in one buffer. A protobuf message is the list of bytes it
  serializes to; the buffer is the list of all its bytes, so that reading past its end is visible.
\<close>

section \<open>Bytes\<close>

type_synonym byte = "8 word"

text \<open>Little-endian integers.\<close>

fun le_bytes :: "nat \<Rightarrow> nat \<Rightarrow> byte list" where
  "le_bytes 0 v = []"
| "le_bytes (Suc n) v = of_nat (v mod 256) # le_bytes n (v div 256)"

fun le_nat :: "byte list \<Rightarrow> nat" where
  "le_nat [] = 0"
| "le_nat (b # bs) = unat b + 256 * le_nat bs"

lemma length_le_bytes [simp]: "length (le_bytes n v) = n"
  by (induction n arbitrary: v) simp_all

lemma unat_byte_mod [simp]: "unat (of_nat (v mod 256) :: byte) = v mod 256"
  by (simp add: unat_of_nat)

lemma le_nat_le_bytes: "le_nat (le_bytes n v) = v mod 256 ^ n"
  by (induction n arbitrary: v) (simp_all add: mod_mult2_eq)

lemma unat_word32_less: "unat (w :: 32 word) < 4294967296"
  by (rule order_less_le_trans [OF unsigned_less]) simp

lemma unat_word64_less: "unat (w :: 64 word) < 18446744073709551616"
  by (rule order_less_le_trans [OF unsigned_less]) simp

lemma le_nat_word32 [simp]: "le_nat (le_bytes 4 (unat (w :: 32 word))) = unat w"
  using unat_word32_less [of w] by (simp add: le_nat_le_bytes)

lemma le_nat_word64 [simp]: "le_nat (le_bytes 8 (unat (w :: 64 word))) = unat w"
  using unat_word64_less [of w] by (simp add: le_nat_le_bytes)

text \<open>An unsigned integer of \<open>n\<close> bytes at an address of the buffer.\<close>

definition field :: "nat \<Rightarrow> byte list \<Rightarrow> nat \<Rightarrow> nat res" where
  "field n mem i = (if i + n \<le> length mem then Inr (le_nat (take n (drop i mem))) else Inl OutOfRange)"

section \<open>Messages\<close>

definition TCP_START_DELIM :: "32 word" where
  "TCP_START_DELIM = 0x5ADB0BB1"

record TCPMetaInfo =
  message_delimiter :: "32 word"
  unit_type :: "32 word"
  payload_size :: "32 word"
  package_type :: "32 word"
  src_uuid :: "64 word"
  tgt_uuid :: "64 word"

text \<open>\<^verbatim>\<open>sizeof(TCPMetaInfo)\<close>: four 32-bit and two 64-bit fields, without padding.\<close>

definition meta_size :: nat where
  "meta_size = 32"

definition TCPMetaInfo_default :: TCPMetaInfo where
  "TCPMetaInfo_default = \<lparr>message_delimiter = TCP_START_DELIM, unit_type = 0, payload_size = 0, package_type = 0,
     src_uuid = 0, tgt_uuid = 0\<rparr>"

definition bytesize :: "TCPMetaInfo \<Rightarrow> nat" where
  "bytesize info = meta_size + unat (payload_size info)"

definition struct_bytes :: "TCPMetaInfo \<Rightarrow> byte list" where
  "struct_bytes info =
     le_bytes 4 (unat (message_delimiter info)) @ le_bytes 4 (unat (unit_type info)) @
     le_bytes 4 (unat (payload_size info)) @ le_bytes 4 (unat (package_type info)) @
     le_bytes 8 (unat (src_uuid info)) @ le_bytes 8 (unat (tgt_uuid info))"

text \<open>\<^verbatim>\<open>reinterpret_cast<TCPMetaInfo*>\<close> of an address, with all fields read.\<close>

definition read_info :: "byte list \<Rightarrow> nat \<Rightarrow> TCPMetaInfo res" where
  "read_info mem i =
     bindE (field 4 mem i) (\<lambda>d. bindE (field 4 mem (i + 4)) (\<lambda>u. bindE (field 4 mem (i + 8)) (\<lambda>s.
     bindE (field 4 mem (i + 12)) (\<lambda>p. bindE (field 8 mem (i + 16)) (\<lambda>src. bindE (field 8 mem (i + 24)) (\<lambda>tgt.
     Inr \<lparr>message_delimiter = of_nat d, unit_type = of_nat u, payload_size = of_nat s, package_type = of_nat p,
          src_uuid = of_nat src, tgt_uuid = of_nat tgt\<rparr>))))))"

text \<open>\<^verbatim>\<open>payload_size\<close> has 32 bits: the size of a larger payload wraps.\<close>

definition serializeItemToMemory :: "byte list \<Rightarrow> TCPMetaInfo \<Rightarrow> byte list \<times> nat" where
  "serializeItemToMemory item info =
     (struct_bytes (info\<lparr>payload_size := of_nat (length item)\<rparr>) @ item, length item + meta_size)"

text \<open>A text message of a client (package type 4).\<close>

definition textResponse :: "64 word \<Rightarrow> string \<Rightarrow> 64 word \<Rightarrow> byte list \<times> nat" where
  "textResponse uuid txt tgt =
     (let info = TCPMetaInfo_default\<lparr>package_type := 4, payload_size := of_nat (length txt), src_uuid := uuid, tgt_uuid := tgt\<rparr> in
      (struct_bytes info @ map of_char txt, meta_size + length txt))"

section \<open>Extracting messages from the buffer\<close>

text \<open>
  The search for the first delimiter has no bound of its own. Its result is discarded, since the data pointer
  is set back to the start of the buffer, and the check that follows never fires.
\<close>

function find_delimiter :: "byte list \<Rightarrow> nat \<Rightarrow> nat res" where
  "find_delimiter mem p =
     bindE (field 4 mem p) (\<lambda>d. if d = unat TCP_START_DELIM then Inr p else find_delimiter mem (Suc p))"
  by pat_completeness auto
termination
  by (relation "measure (\<lambda>(mem, p). length mem - p)") (auto simp: field_def split: if_splits)

type_synonym message = "TCPMetaInfo \<times> byte list"

text \<open>
  The extraction loop. The size field of the next header is read before the number of remaining bytes is
  checked. \<open>log\<close> records the invocations of the registered callbacks.
\<close>

function extract_loop :: "32 word set \<Rightarrow> byte list \<Rightarrow> nat \<Rightarrow> nat \<Rightarrow> message list \<Rightarrow> (nat \<times> nat \<times> message list) res" where
  "extract_loop callbacks mem data_ptr remaining log =
     bindE (field 4 mem (data_ptr + 8)) (\<lambda>size.
     if size + meta_size \<le> remaining \<and> 0 < remaining then
       bindE (read_info mem data_ptr) (\<lambda>info.
       let payload = take size (drop (data_ptr + meta_size) mem);
           log' = (if package_type info \<in> callbacks then log @ [(info, payload)] else log) in
       extract_loop callbacks mem (data_ptr + meta_size + size) (remaining - (size + meta_size)) log')
     else Inr (data_ptr, remaining, log))"
  by pat_completeness auto
termination
  by (relation "measure (\<lambda>(_, _, _, remaining, _). remaining)") (auto simp: meta_size_def)

declare find_delimiter.simps [simp del] extract_loop.simps [simp del]

text \<open>
  Both callers pass the same buffer as input and output: the bytes of an incomplete message move to its
  start. \<^verbatim>\<open>memcpy\<close> is undefined when the two areas overlap, also when they are the same.
\<close>

definition move_to_front :: "byte list \<Rightarrow> nat \<Rightarrow> nat \<Rightarrow> byte list res" where
  "move_to_front mem p n = (if p < n then Inl OverlappingCopy else Inr (take n (drop p mem) @ drop n mem))"

definition extractItemsModifyBuffer :: "32 word set \<Rightarrow> byte list \<Rightarrow> nat \<Rightarrow> (byte list \<times> nat \<times> message list) res" where
  "extractItemsModifyBuffer callbacks mem received =
     bindE (find_delimiter mem 0) (\<lambda>_.
     bindE (extract_loop callbacks mem 0 received []) (\<lambda>(data_ptr, remaining, log).
     bindE (if 0 < remaining then move_to_front mem data_ptr remaining else Inr mem) (\<lambda>mem'.
     Inr (mem', remaining, log))))"

section \<open>Receive loops\<close>

datatype recv_result = Received "byte list" | Closed | TryAgain | Failed

record channel =
  msg_buffer :: "byte list"
  unprocessed_bytes :: nat
  aborted :: bool
  listening :: bool
  delivered :: "message list"

text \<open>\<^verbatim>\<open>recv\<close> stores the segment behind the unprocessed bytes.\<close>

definition store_segment :: "byte list \<Rightarrow> nat \<Rightarrow> byte list \<Rightarrow> byte list" where
  "store_segment mem k seg = take k mem @ seg @ drop (k + length seg) mem"

definition process_segment :: "32 word set \<Rightarrow> byte list \<Rightarrow> channel \<Rightarrow> channel res" where
  "process_segment callbacks seg s =
     bindE (extractItemsModifyBuffer callbacks (store_segment (msg_buffer s) (unprocessed_bytes s) seg)
              (length seg + unprocessed_bytes s)) (\<lambda>(mem, rest, log).
     Inr (s\<lparr>msg_buffer := mem, unprocessed_bytes := rest, delivered := delivered s @ log\<rparr>))"

text \<open>One iteration of the server's loop for a client.\<close>

definition server_receive :: "32 word set \<Rightarrow> channel \<Rightarrow> recv_result \<Rightarrow> channel res" where
  "server_receive callbacks s r =
     (if \<not> listening s \<or> aborted s then Inr (s\<lparr>listening := False\<rparr>)
      else if length (msg_buffer s) \<le> unprocessed_bytes s then Inr (s\<lparr>aborted := True, listening := False\<rparr>)
      else (case r of
              Closed \<Rightarrow> Inr (s\<lparr>aborted := True, listening := False\<rparr>)
            | TryAgain \<Rightarrow> Inr s
            | Failed \<Rightarrow> Inr (s\<lparr>listening := False\<rparr>)
            | Received seg \<Rightarrow> process_segment callbacks seg s))"

text \<open>
  One iteration of the client's loop: it offers one byte less, and treats every result of \<^verbatim>\<open>recv\<close> that is
  not positive, also for a full buffer, as a closed channel.
\<close>

definition client_receive :: "32 word set \<Rightarrow> channel \<Rightarrow> recv_result \<Rightarrow> channel res" where
  "client_receive callbacks s r =
     (if \<not> listening s \<or> aborted s then Inr (s\<lparr>listening := False\<rparr>)
      else (case r of
              Received seg \<Rightarrow>
                if length (msg_buffer s) - 1 - unprocessed_bytes s = 0 then Inr (s\<lparr>aborted := True, listening := False\<rparr>)
                else process_segment callbacks seg s
            | _ \<Rightarrow> Inr (s\<lparr>aborted := True, listening := False\<rparr>)))"

section \<open>The messages of a byte stream\<close>

text \<open>
  The specification: a stream is decoded from its start as long as it begins with a complete message. No
  buffer, addresses or segments occur here.
\<close>

definition info_of :: "byte list \<Rightarrow> TCPMetaInfo" where
  "info_of bs =
     \<lparr>message_delimiter = of_nat (le_nat (take 4 bs)), unit_type = of_nat (le_nat (take 4 (drop 4 bs))),
      payload_size = of_nat (le_nat (take 4 (drop 8 bs))), package_type = of_nat (le_nat (take 4 (drop 12 bs))),
      src_uuid = of_nat (le_nat (take 8 (drop 16 bs))), tgt_uuid = of_nat (le_nat (take 8 (drop 24 bs)))\<rparr>"

definition size_of :: "byte list \<Rightarrow> nat" where
  "size_of bs = le_nat (take 4 (drop 8 bs))"

function parse_stream :: "byte list \<Rightarrow> message list \<times> byte list" where
  "parse_stream bs =
     (if size_of bs + meta_size \<le> length bs
      then let (ms, rest) = parse_stream (drop (size_of bs + meta_size) bs)
           in ((info_of bs, take (size_of bs) (drop meta_size bs)) # ms, rest)
      else ([], bs))"
  by pat_completeness auto
termination
  by (relation "measure length") (auto simp: meta_size_def)

declare parse_stream.simps [simp del]

lemma parse_stream_complete:
  "size_of bs + meta_size \<le> length bs \<Longrightarrow> parse_stream (drop (size_of bs + meta_size) bs) = (ms, rest) \<Longrightarrow>
   parse_stream bs = ((info_of bs, take (size_of bs) (drop meta_size bs)) # ms, rest)"
  by (subst parse_stream.simps) simp

lemma parse_stream_incomplete: "\<not> size_of bs + meta_size \<le> length bs \<Longrightarrow> parse_stream bs = ([], bs)"
  by (subst parse_stream.simps) simp

lemma size_of_append: "meta_size \<le> length a \<Longrightarrow> size_of (a @ b) = size_of a"
  by (simp add: size_of_def meta_size_def)

lemma info_of_append: "meta_size \<le> length a \<Longrightarrow> info_of (a @ b) = info_of a"
  by (simp add: info_of_def meta_size_def)

lemma parse_stream_append:
  "parse_stream a = (ms, r) \<Longrightarrow> parse_stream (r @ b) = (ms', r') \<Longrightarrow> parse_stream (a @ b) = (ms @ ms', r')"
proof (induction a arbitrary: ms rule: parse_stream.induct)
  case (1 a)
  show ?case
  proof (cases "size_of a + meta_size \<le> length a")
    case True
    obtain ms1 r1 where p: "parse_stream (drop (size_of a + meta_size) a) = (ms1, r1)" by fastforce
    have m: "ms = (info_of a, take (size_of a) (drop meta_size a)) # ms1" "r = r1"
      using parse_stream_complete [OF True p] "1.prems"(1) by simp_all
    have "parse_stream (drop (size_of a + meta_size) a @ b) = (ms1 @ ms', r')"
      by (rule "1.IH" [OF True p [folded m(2)] "1.prems"(2)])
    then show ?thesis using True m(1) parse_stream_complete [of "a @ b"]
      by (simp add: size_of_append info_of_append)
  next
    case False
    then show ?thesis using "1.prems" by (simp add: parse_stream_incomplete)
  qed
qed

lemma parse_stream_Nil: "parse_stream [] = ([], [])"
  by (simp add: parse_stream_incomplete meta_size_def)

text \<open>
  A decoder that may be fed a stream in segments, keeping the undecoded bytes in between, delivers the same
  messages for every segmentation.
\<close>

locale stream_decoder =
  fixes decode :: "'b list \<Rightarrow> 'm list \<times> 'b list"
  assumes decode_Nil: "decode [] = ([], [])"
    and decode_append: "decode a = (ms, r) \<Longrightarrow> decode (r @ b) = (ms', r') \<Longrightarrow> decode (a @ b) = (ms @ ms', r')"
begin

definition feed :: "'b list \<Rightarrow> 'm list \<times> 'b list \<Rightarrow> 'm list \<times> 'b list" where
  "feed seg st = (let (ms', r') = decode (snd st @ seg) in (fst st @ ms', r'))"

lemma feed_decode: "feed seg (decode a) = decode (a @ seg)"
  by (cases "decode a"; cases "decode (snd (decode a) @ seg)") (auto simp: feed_def intro!: decode_append [symmetric])

lemma feed_all: "fold feed segs (decode a) = decode (a @ concat segs)"
  by (induction segs arbitrary: a) (simp_all add: feed_decode)

lemma segmentation_independent: "concat segs = concat segs' \<Longrightarrow> fold feed segs (decode []) = fold feed segs' (decode [])"
  by (simp add: feed_all)

end

interpretation stream: stream_decoder parse_stream
  by unfold_locales (rule parse_stream_Nil, rule parse_stream_append)

section \<open>The buffer implements the specification\<close>

lemma field_at: "length pre + i + n \<le> length (pre @ bs) \<Longrightarrow> field n (pre @ bs) (length pre + i) = Inr (le_nat (take n (drop i bs)))"
  by (simp add: field_def)

lemma read_info_at: "meta_size \<le> length bs \<Longrightarrow> read_info (pre @ bs) (length pre) = Inr (info_of bs)"
  using field_at [of pre 0 4 bs] field_at [of pre 4 4 bs] field_at [of pre 8 4 bs] field_at [of pre 12 4 bs]
    field_at [of pre 16 8 bs] field_at [of pre 24 8 bs]
  by (simp add: read_info_def info_of_def meta_size_def)

definition registered :: "32 word set \<Rightarrow> message \<Rightarrow> bool" where
  "registered callbacks m \<longleftrightarrow> package_type (fst m) \<in> callbacks"

lemma extract_loop_correct:
  "parse_stream bs = (ms, rest) \<Longrightarrow> 12 \<le> length junk \<Longrightarrow>
   \<exists>pre'. extract_loop callbacks (pre @ bs @ junk) (length pre) (length bs) log =
       Inr (length pre', length rest, log @ filter (registered callbacks) ms) \<and> pre @ bs = pre' @ rest"
proof (induction bs arbitrary: pre ms log rule: parse_stream.induct)
  case (1 bs)
  have fld: "field 4 (pre @ bs @ junk) (length pre + 8) = Inr (size_of (bs @ junk))"
    using field_at [of pre 8 4 "bs @ junk"] "1.prems"(2) by (simp add: size_of_def)
  show ?case
  proof (cases "size_of bs + meta_size \<le> length bs")
    case True
    let ?n = "size_of bs + meta_size"
    let ?m = "(info_of bs, take (size_of bs) (drop meta_size bs))"
    obtain ms1 r1 where p: "parse_stream (drop ?n bs) = (ms1, r1)" by fastforce
    have m: "ms = ?m # ms1" "rest = r1" using parse_stream_complete [OF True p] "1.prems"(1) by simp_all
    have info: "read_info (pre @ bs @ junk) (length pre) = Inr (info_of bs)"
      using read_info_at [of "bs @ junk" pre] True by (simp add: info_of_append)
    have split: "(pre @ take ?n bs) @ drop ?n bs @ junk = pre @ bs @ junk" "(pre @ take ?n bs) @ drop ?n bs = pre @ bs"
      by simp_all
    have len: "length (pre @ take ?n bs) = length pre + meta_size + size_of bs" "length (drop ?n bs) = length bs - ?n"
      using True by simp_all
    define log' where "log' = log @ filter (registered callbacks) [?m]"
    from "1.IH" [OF True p [folded m(2)] "1.prems"(2), of "pre @ take ?n bs" log'] obtain pre' where
      pre': "extract_loop callbacks (pre @ bs @ junk) (length pre + meta_size + size_of bs) (length bs - ?n) log' =
         Inr (length pre', length rest, log' @ filter (registered callbacks) ms1)" "pre @ bs = pre' @ rest"
      unfolding split len by blast
    have "bs \<noteq> []" using True by (auto simp: meta_size_def)
    then have "extract_loop callbacks (pre @ bs @ junk) (length pre) (length bs) log =
        extract_loop callbacks (pre @ bs @ junk) (length pre + meta_size + size_of bs) (length bs - ?n) log'"
      by (subst extract_loop.simps) (use True info fld in \<open>simp add: size_of_append log'_def registered_def meta_size_def\<close>)
    then show ?thesis using pre' m(1) by (intro exI [of _ pre']) (simp add: log'_def)
  next
    case False
    then have "\<not> (size_of (bs @ junk) + meta_size \<le> length bs)"
      by (cases "meta_size \<le> length bs") (simp_all add: size_of_append)
    then show ?thesis using False "1.prems"(1) fld
      by (subst extract_loop.simps) (auto simp: parse_stream_incomplete)
  qed
qed

text \<open>A delimiter at the start of the buffer.\<close>

definition delimited :: "byte list \<Rightarrow> bool" where
  "delimited bs \<longleftrightarrow> 4 \<le> length bs \<and> le_nat (take 4 bs) = unat TCP_START_DELIM"

lemma find_delimiter_first: "delimited bs \<Longrightarrow> find_delimiter (bs @ junk) 0 = Inr 0"
  by (subst find_delimiter.simps) (simp add: delimited_def field_def)

text \<open>The rest of the buffered bytes is not longer than what was consumed before it, so that moving it is defined.\<close>

definition movable :: "byte list \<Rightarrow> byte list \<Rightarrow> bool" where
  "movable bs rest \<longleftrightarrow> 2 * length rest \<le> length bs"

lemma extractItems_parses:
  assumes "delimited bs" "12 \<le> length junk" "parse_stream bs = (ms, rest)"
  shows "if movable bs rest
    then \<exists>junk'. extractItemsModifyBuffer callbacks (bs @ junk) (length bs) =
      Inr (rest @ junk', length rest, filter (registered callbacks) ms) \<and> length (rest @ junk') = length (bs @ junk)
    else extractItemsModifyBuffer callbacks (bs @ junk) (length bs) = Inl OverlappingCopy"
proof -
  from extract_loop_correct [OF assms(3,2), of callbacks "[]" "[]"] obtain pre where
    pre: "extract_loop callbacks (bs @ junk) 0 (length bs) [] = Inr (length pre, length rest, filter (registered callbacks) ms)"
    "bs = pre @ rest" by auto
  have run: "extractItemsModifyBuffer callbacks (bs @ junk) (length bs) =
      bindE (if 0 < length rest then move_to_front (bs @ junk) (length pre) (length rest) else Inr (bs @ junk))
        (\<lambda>mem'. Inr (mem', length rest, filter (registered callbacks) ms))"
    using pre(1) find_delimiter_first [OF assms(1), of junk] by (simp add: extractItemsModifyBuffer_def)
  show ?thesis
  proof (cases "movable bs rest")
    case True
    then have "(if 0 < length rest then move_to_front (bs @ junk) (length pre) (length rest) else Inr (bs @ junk)) =
        Inr (rest @ (if rest = [] then bs @ junk else drop (length rest) (bs @ junk)))"
      using pre(2) by (auto simp: move_to_front_def movable_def)
    then show ?thesis using True pre(2) unfolding run by auto
  next
    case False
    then show ?thesis using pre(2) unfolding run by (auto simp: move_to_front_def movable_def)
  qed
qed

text \<open>
  The state of a channel that has received the bytes \<open>bs\<close> so far: what is delivered and what is
  kept in the buffer are those of the specification.
\<close>

definition channel_ok :: "32 word set \<Rightarrow> nat \<Rightarrow> byte list \<Rightarrow> channel \<Rightarrow> bool" where
  "channel_ok callbacks cap bs s \<longleftrightarrow>
     length (msg_buffer s) = cap \<and> \<not> aborted s \<and> listening s \<and>
     delivered s = filter (registered callbacks) (fst (parse_stream bs)) \<and>
     unprocessed_bytes s = length (snd (parse_stream bs)) \<and>
     take (unprocessed_bytes s) (msg_buffer s) = snd (parse_stream bs)"

lemma process_segment_ok:
  assumes "channel_ok callbacks cap bs s" "delimited (snd (parse_stream bs) @ seg)"
    and "length (snd (parse_stream bs) @ seg) + 12 \<le> cap"
  shows "if movable (snd (parse_stream bs) @ seg) (snd (parse_stream (bs @ seg)))
    then \<exists>s'. process_segment callbacks seg s = Inr s' \<and> channel_ok callbacks cap (bs @ seg) s'
    else process_segment callbacks seg s = Inl OverlappingCopy"
proof -
  obtain ms r where p: "parse_stream bs = (ms, r)" by fastforce
  obtain ms' r' where p': "parse_stream (r @ seg) = (ms', r')" by fastforce
  note all = parse_stream_append [OF p p']
  have s: "length (msg_buffer s) = cap" "unprocessed_bytes s = length r" "take (length r) (msg_buffer s) = r"
    "delivered s = filter (registered callbacks) ms" "\<not> aborted s" "listening s"
    using assms(1) p by (auto simp: channel_ok_def)
  let ?junk = "drop (length r + length seg) (msg_buffer s)"
  have st: "store_segment (msg_buffer s) (unprocessed_bytes s) seg = (r @ seg) @ ?junk"
    by (simp add: store_segment_def s(2,3))
  have "12 \<le> length ?junk" "length ((r @ seg) @ ?junk) = cap" using assms(3) p s(1) by simp_all
  moreover have "delimited (r @ seg)" using assms(2) p by simp
  ultimately have ex: "if movable (r @ seg) r'
    then \<exists>junk'. extractItemsModifyBuffer callbacks ((r @ seg) @ ?junk) (length (r @ seg)) =
      Inr (r' @ junk', length r', filter (registered callbacks) ms') \<and> length (r' @ junk') = cap
    else extractItemsModifyBuffer callbacks ((r @ seg) @ ?junk) (length (r @ seg)) = Inl OverlappingCopy"
    using extractItems_parses [of "r @ seg" ?junk ms' r' callbacks] p' by metis
  show ?thesis
  proof (cases "movable (r @ seg) r'")
    case True
    with ex obtain junk' where e: "extractItemsModifyBuffer callbacks ((r @ seg) @ ?junk) (length (r @ seg)) =
        Inr (r' @ junk', length r', filter (registered callbacks) ms')" "length (r' @ junk') = cap" by auto
    have "process_segment callbacks seg s =
        Inr (s\<lparr>msg_buffer := r' @ junk', unprocessed_bytes := length r', delivered := delivered s @ filter (registered callbacks) ms'\<rparr>)"
      unfolding process_segment_def st using e(1) by (simp add: s(2) add.commute)
    then show ?thesis using True e(2) s all p by (auto simp: channel_ok_def)
  next
    case False
    then have "process_segment callbacks seg s = Inl OverlappingCopy"
      unfolding process_segment_def st using ex by (simp add: s(2) add.commute)
    then show ?thesis using False all p by simp
  qed
qed

text \<open>
  A segmentation the receive loops can handle: at every reception the buffered bytes begin with a complete
  delimiter, and 12 bytes of the buffer stay free, so that the size field read at the end of the data lies
  inside the allocation.
\<close>

fun segments_fit :: "nat \<Rightarrow> byte list \<Rightarrow> byte list list \<Rightarrow> bool" where
  "segments_fit cap bs [] \<longleftrightarrow> True"
| "segments_fit cap bs (seg # segs) \<longleftrightarrow>
     (let buffered = snd (parse_stream bs) @ seg in
      delimited buffered \<and> length buffered + 12 \<le> cap \<and> segments_fit cap (bs @ seg) segs)"

text \<open>
  At every reception, what stays in the buffer is at most as long as the complete messages in front of it. This fails
  in particular when a reception completes no message.
\<close>

fun segments_movable :: "byte list \<Rightarrow> byte list list \<Rightarrow> bool" where
  "segments_movable bs [] \<longleftrightarrow> True"
| "segments_movable bs (seg # segs) \<longleftrightarrow>
     movable (snd (parse_stream bs) @ seg) (snd (parse_stream (bs @ seg))) \<and> segments_movable (bs @ seg) segs"

definition new_channel :: "byte list \<Rightarrow> channel" where
  "new_channel mem = \<lparr>msg_buffer = mem, unprocessed_bytes = 0, aborted = False, listening = True, delivered = []\<rparr>"

lemma new_channel_ok: "channel_ok callbacks (length mem) [] (new_channel mem)"
  by (simp add: channel_ok_def new_channel_def parse_stream_Nil)

lemma receive_all_ok:
  assumes step: "\<And>bs seg s. channel_ok callbacks cap bs s \<Longrightarrow> length (snd (parse_stream bs) @ seg) + 12 \<le> cap \<Longrightarrow>
      receive s (Received seg) = process_segment callbacks seg s"
  shows "channel_ok callbacks cap bs s \<Longrightarrow> segments_fit cap bs segs \<Longrightarrow>
    if segments_movable bs segs
    then \<exists>s'. foldE receive s (map Received segs) = Inr s' \<and> channel_ok callbacks cap (bs @ concat segs) s'
    else foldE receive s (map Received segs) = Inl OverlappingCopy"
proof (induction segs arbitrary: bs s)
  case Nil
  then show ?case by simp
next
  case (Cons seg segs)
  then have fit: "delimited (snd (parse_stream bs) @ seg)" "length (snd (parse_stream bs) @ seg) + 12 \<le> cap"
    "segments_fit cap (bs @ seg) segs" by (simp_all add: Let_def)
  note one = process_segment_ok [OF Cons.prems(1) fit(1,2)] and run = step [OF Cons.prems(1) fit(2)]
  show ?case
  proof (cases "movable (snd (parse_stream bs) @ seg) (snd (parse_stream (bs @ seg)))")
    case True
    with one obtain s1 where s1: "process_segment callbacks seg s = Inr s1" "channel_ok callbacks cap (bs @ seg) s1" by auto
    from Cons.IH [OF s1(2) fit(3)] show ?thesis using True s1(1) run by (simp split: if_split_asm)
  next
    case False
    then show ?thesis using one run by simp
  qed
qed

lemma server_receive_step:
  "channel_ok callbacks cap bs s \<Longrightarrow> length (snd (parse_stream bs) @ seg) + 12 \<le> cap \<Longrightarrow>
   server_receive callbacks s (Received seg) = process_segment callbacks seg s"
  by (auto simp: server_receive_def channel_ok_def)

lemma client_receive_step:
  "channel_ok callbacks cap bs s \<Longrightarrow> length (snd (parse_stream bs) @ seg) + 12 \<le> cap \<Longrightarrow>
   client_receive callbacks s (Received seg) = process_segment callbacks seg s"
  by (auto simp: client_receive_def channel_ok_def)

section \<open>Round trips\<close>

text \<open>What a message looks like on the wire, and to the callback that receives it.\<close>

definition wire :: "message \<Rightarrow> byte list" where
  "wire m = fst (serializeItemToMemory (snd m) (fst m))"

definition received :: "message \<Rightarrow> message" where
  "received m = ((fst m)\<lparr>payload_size := of_nat (length (snd m))\<rparr>, snd m)"

definition sendable :: "message \<Rightarrow> bool" where
  "sendable m \<longleftrightarrow> message_delimiter (fst m) = TCP_START_DELIM \<and> length (snd m) < 2 ^ 32"

lemma length_struct_bytes [simp]: "length (struct_bytes info) = meta_size"
  by (simp add: struct_bytes_def meta_size_def)

lemma info_of_struct_bytes: "info_of (struct_bytes info @ bs) = info"
  by (simp add: info_of_def struct_bytes_def)

lemma size_of_struct_bytes: "size_of (struct_bytes info @ bs) = unat (payload_size info)"
  by (simp add: size_of_def struct_bytes_def)

lemma parse_wire:
  assumes "sendable m" "parse_stream bs = (ms, rest)"
  shows "parse_stream (wire m @ bs) = (received m # ms, rest)"
proof -
  let ?info = "(fst m)\<lparr>payload_size := of_nat (length (snd m))\<rparr>"
  have w: "wire m @ bs = struct_bytes ?info @ snd m @ bs" by (simp add: wire_def serializeItemToMemory_def)
  have sz: "size_of (wire m @ bs) = length (snd m)" unfolding w size_of_struct_bytes
    using assms(1) by (simp add: sendable_def unat_of_nat)
  have "drop (size_of (wire m @ bs) + meta_size) (wire m @ bs) = bs" unfolding sz by (simp add: w)
  then show ?thesis using parse_stream_complete [of "wire m @ bs" ms rest] assms(2) unfolding sz
    by (simp add: w info_of_struct_bytes received_def)
qed

lemma parse_wires:
  "list_all sendable ms \<Longrightarrow> parse_stream (concat (map wire ms)) = (map received ms, [])"
  by (induction ms) (simp_all add: parse_stream_Nil parse_wire)

lemma delimited_wire: "sendable m \<Longrightarrow> delimited (wire m @ bs)"
  by (simp add: delimited_def wire_def serializeItemToMemory_def sendable_def struct_bytes_def)

text \<open>
  C26. What the channel does to messages. A sequence of messages is serialized one after the other, and the network
  cuts the byte stream into segments such that every reception leaves a whole delimiter and 12 free bytes in
  the buffer. If after every reception the incomplete rest is at most as long as the complete messages in front
  of it, the receive loops of server and client run without error, invoke the registered callbacks with exactly
  these messages in order, header and payload intact, and end with an empty buffer. For every other segmentation,
  in particular when a reception completes no message, the rest is copied onto itself with overlap, which is undefined.
\<close>

theorem framing_roundtrip:
  assumes "list_all sendable ms" "concat segs = concat (map wire ms)" "segments_fit (length mem) [] segs"
    and "receive \<in> {server_receive callbacks, client_receive callbacks}"
  shows "if segments_movable [] segs
    then \<exists>s. foldE receive (new_channel mem) (map Received segs) = Inr s \<and>
      delivered s = filter (registered callbacks) (map received ms) \<and> unprocessed_bytes s = 0 \<and> \<not> aborted s
    else foldE receive (new_channel mem) (map Received segs) = Inl OverlappingCopy"
proof -
  have "if segments_movable [] segs
    then \<exists>s. foldE receive (new_channel mem) (map Received segs) = Inr s \<and> channel_ok callbacks (length mem) ([] @ concat segs) s
    else foldE receive (new_channel mem) (map Received segs) = Inl OverlappingCopy"
  proof (rule receive_all_ok [OF _ new_channel_ok assms(3)])
    fix bs seg s
    assume a: "channel_ok callbacks (length mem) bs s" "length (snd (parse_stream bs) @ seg) + 12 \<le> length mem"
    show "receive s (Received seg) = process_segment callbacks seg s"
      using assms(4) server_receive_step [OF a] client_receive_step [OF a] by blast
  qed
  then show ?thesis using parse_wires [OF assms(1)] assms(2) by (auto simp: channel_ok_def split: if_splits)
qed

text \<open>The search overruns a buffer in which only the first three bytes are not zero.\<close>

lemma le_nat_append: "le_nat (a @ b) = le_nat a + 256 ^ length a * le_nat b"
  by (induction a) (simp_all add: algebra_simps)

lemma le_nat_less: "le_nat bs < 256 ^ length bs"
proof (induction bs)
  case (Cons b bs)
  have "unat b < 256" by (rule order_less_le_trans [OF unsigned_less]) simp
  then show ?case using Cons by simp
qed simp

lemma window_no_delimiter:
  assumes "p + 4 \<le> length mem" "mem ! (p + 3) = 0"
  shows "le_nat (take 4 (drop p mem)) \<noteq> unat TCP_START_DELIM"
proof -
  have "take 4 (drop p mem) = take 3 (drop p mem) @ [mem ! (p + 3)]"
    using assms(1) take_Suc_conv_app_nth [of 3 "drop p mem"] by (simp add: numeral_eq_Suc)
  then have "le_nat (take 4 (drop p mem)) = le_nat (take 3 (drop p mem))" using assms(2) by (simp add: le_nat_append)
  also have "\<dots> < 256 ^ length (take 3 (drop p mem))" by (rule le_nat_less)
  also have "\<dots> \<le> 256 ^ 3" using assms(1) by simp
  finally show ?thesis by (simp add: TCP_START_DELIM_def)
qed

lemma find_delimiter_overruns:
  "(\<And>i. 3 \<le> i \<Longrightarrow> i < length mem \<Longrightarrow> mem ! i = 0) \<Longrightarrow> find_delimiter mem p = Inl OutOfRange"
proof (induction mem p rule: find_delimiter.induct)
  case (1 mem p)
  show ?case
  proof (cases "p + 4 \<le> length mem")
    case True
    then have "le_nat (take 4 (drop p mem)) \<noteq> unat TCP_START_DELIM" by (intro window_no_delimiter "1.prems") simp_all
    moreover from this True have "find_delimiter mem (Suc p) = Inl OutOfRange"
      by (intro "1.IH" "1.prems") (simp_all add: field_def)
    ultimately show ?thesis using True by (subst find_delimiter.simps) (simp add: field_def)
  next
    case False
    then show ?thesis by (subst find_delimiter.simps) (simp add: field_def)
  qed
qed

text \<open>
  C38. A segment that ends inside the first delimiter is fatal. On the zeroed buffer of a client, a first
  reception of one to three bytes, such as the beginning of any message, makes the search for the delimiter
  run past the end of the buffer, whatever its size.
\<close>

theorem short_segment_overruns:
  assumes "0 < length seg" "length seg < 4" "length seg < cap"
  shows "client_receive callbacks (new_channel (replicate cap 0)) (Received seg) = Inl OutOfRange"
proof -
  have "store_segment (replicate cap 0) 0 seg = seg @ replicate (cap - length seg) 0"
    by (simp add: store_segment_def)
  moreover have "find_delimiter (seg @ replicate (cap - length seg) 0) 0 = Inl OutOfRange"
    using assms(2) by (intro find_delimiter_overruns) (simp add: nth_append)
  moreover have "cap - 1 \<noteq> 0" using assms(1,3) by linarith
  ultimately show ?thesis
    by (simp add: client_receive_def new_channel_def process_segment_def extractItemsModifyBuffer_def)
qed

section \<open>A concrete channel\<close>

definition demo_info :: TCPMetaInfo where
  "demo_info = TCPMetaInfo_default\<lparr>package_type := 1, src_uuid := 77\<rparr>"

text \<open>Three messages; the middle one, whose type has no callback, is cut after ten bytes.\<close>

definition demo_a :: message where "demo_a = (demo_info, [1, 2, 3])"

definition demo_b :: message where "demo_b = (demo_info\<lparr>package_type := 9\<rparr>, [])"

definition demo_c :: message where "demo_c = (demo_info, [4])"

lemmas demo_defs = demo_a_def demo_b_def demo_c_def demo_info_def TCPMetaInfo_default_def

definition demo_segs :: "byte list list" where
  "demo_segs = [wire demo_a @ take 10 (wire demo_b), drop 10 (wire demo_b) @ wire demo_c]"

lemma demo_sendable: "sendable demo_a" "sendable demo_b" "sendable demo_c"
  by (simp_all add: demo_defs sendable_def)

lemma demo_lengths: "length (wire demo_a) = 35" "length (wire demo_b) = 32" "length (wire demo_c) = 33"
  by (simp_all add: demo_defs wire_def serializeItemToMemory_def meta_size_def)

lemma demo_segs_fit: "segments_fit 128 [] demo_segs"
proof -
  have "parse_stream (take 10 (wire demo_b)) = ([], take 10 (wire demo_b))"
    by (rule parse_stream_incomplete) (simp add: meta_size_def demo_lengths)
  then have "snd (parse_stream (wire demo_a @ take 10 (wire demo_b))) = take 10 (wire demo_b)"
    using parse_wire [OF demo_sendable(1)] by simp
  moreover
  have app: "take 10 (wire demo_b) @ drop 10 (wire demo_b) @ wire demo_c = wire demo_b @ wire demo_c"
    by (simp flip: append_assoc)
  then have "delimited (take 10 (wire demo_b) @ drop 10 (wire demo_b) @ wire demo_c)" by (simp only: delimited_wire demo_sendable)
  ultimately show ?thesis
    by (simp add: demo_segs_def parse_stream_Nil delimited_wire demo_sendable demo_lengths)
qed

lemma demo_segs_movable: "segments_movable [] demo_segs"
proof -
  have "parse_stream (take 10 (wire demo_b)) = ([], take 10 (wire demo_b))"
    by (rule parse_stream_incomplete) (simp add: meta_size_def demo_lengths)
  then have "snd (parse_stream (wire demo_a @ take 10 (wire demo_b))) = take 10 (wire demo_b)"
    using parse_wire [OF demo_sendable(1)] by simp
  moreover have "snd (parse_stream (wire demo_a @ wire demo_b @ wire demo_c)) = []"
    using parse_wires [of "[demo_a, demo_b, demo_c]"] demo_sendable by simp
  moreover have app: "take 10 (wire demo_b) @ drop 10 (wire demo_b) @ wire demo_c = wire demo_b @ wire demo_c"
    by (simp flip: append_assoc)
  ultimately show ?thesis by (simp add: demo_segs_def parse_stream_Nil demo_lengths movable_def app)
qed

theorem framing_roundtrip_witness:
  "\<exists>s. foldE (server_receive {1}) (new_channel (replicate 128 7)) (map Received demo_segs) = Inr s \<and>
     map snd (delivered s) = [[1, 2, 3], [4]]"
proof -
  let ?ms = "[demo_a, demo_b, demo_c]"
  have "list_all sendable ?ms" using demo_sendable by simp
  moreover have "concat demo_segs = concat (map wire ?ms)" by (simp add: demo_segs_def)
  moreover have "segments_fit (length (replicate 128 (7 :: byte))) [] demo_segs" using demo_segs_fit by simp
  ultimately obtain s where "foldE (server_receive {1}) (new_channel (replicate 128 7)) (map Received demo_segs) = Inr s"
    "delivered s = filter (registered {1}) (map received ?ms)"
    using framing_roundtrip [of ?ms demo_segs "replicate 128 7" "server_receive {1}" "{1}"] demo_segs_movable by auto
  then show ?thesis
    by (simp add: demo_defs registered_def received_def)
qed

theorem short_segment_overruns_witness:
  "client_receive {} (new_channel (replicate 2097152 0)) (Received [0xB1, 0x0B]) = Inl OutOfRange"
  using short_segment_overruns [of "[0xB1, 0x0B]" 2097152 "{}"] by simp

end
