(* ===== verification/ClientRegistry.thy ===== *)
theory ClientRegistry
  imports Framing "HOL-Library.Multiset"
begin

text \<open>
  The client registry of \<^verbatim>\<open>TCPServer\<close>: clients per unit type, the map from UUIDs to clients, registration with
  resolution of UUID collisions, removal, and the operations that send to one, any or all clients. The
  socket itself is a parameter: \<open>send_ok\<close> tells for a handle whether \<^verbatim>\<open>send\<close> succeeds.

  Client information is allocated on the heap and referenced by pointers, which are addresses into a store;
  a pointer without an object is dangling, and using it is undefined. Iterators into a vector are positions.
\<close>

section \<open>State\<close>

record ClientInfo =
  client_handle :: int
  client_type :: "32 word"
  client_uuid :: "64 word"
  prettyName :: string
  client_abort :: bool

text \<open>\<open>attempts\<close> records what was handed to the sockets, \<open>closed\<close> the handles that were closed.\<close>

record server =
  clientMap :: "(32 word \<times> nat list) list"
  clientUuidMap :: "64 word \<rightharpoonup> nat"
  objects :: "nat \<rightharpoonup> ClientInfo"
  next_object :: nat
  attempts :: "(int \<times> byte list) list"
  closed :: "int set"

definition new_server :: server where
  "new_server = \<lparr>clientMap = [], clientUuidMap = Map.empty, objects = Map.empty, next_object = 0, attempts = [], closed = {}\<rparr>"

text \<open>The vector of a type; \<^verbatim>\<open>operator[]\<close> inserts an empty one for a missing key, in the order of the keys.\<close>

definition vec :: "32 word \<Rightarrow> server \<Rightarrow> nat list" where
  "vec ty s = (case map_of (clientMap s) ty of Some v \<Rightarrow> v | None \<Rightarrow> [])"

definition contains :: "32 word \<Rightarrow> server \<Rightarrow> bool" where
  "contains ty s \<longleftrightarrow> ty \<in> fst ` set (clientMap s)"

fun insert_key :: "32 word \<Rightarrow> (32 word \<times> nat list) list \<Rightarrow> (32 word \<times> nat list) list" where
  "insert_key ty [] = [(ty, [])]"
| "insert_key ty ((k, v) # m) =
     (if ty < k then (ty, []) # (k, v) # m else if ty = k then (k, v) # m else (k, v) # insert_key ty m)"

definition update_vec :: "32 word \<Rightarrow> (nat list \<Rightarrow> nat list) \<Rightarrow> server \<Rightarrow> server" where
  "update_vec ty f s = s\<lparr>clientMap := map (\<lambda>(k, v). (k, if k = ty then f v else v)) (insert_key ty (clientMap s))\<rparr>"

definition all_clients :: "server \<Rightarrow> nat list" where
  "all_clients s = concat (map snd (clientMap s))"

section \<open>Queries and removal\<close>

definition hasClients :: "server \<Rightarrow> bool" where
  "hasClients s \<longleftrightarrow> 0 < sum_list (map (\<lambda>(_, v). length v) (clientMap s))"

definition getClientByUuid :: "64 word \<Rightarrow> server \<Rightarrow> nat option" where
  "getClientByUuid u s = clientUuidMap s u"

text \<open>
  Deleting the client object closes its handle and joins its receiver thread; the join, which blocks until that thread
  has returned, is left out: an operation of this model stands for one whose joins have come to an end.
\<close>

definition removeClientOfType :: "32 word \<Rightarrow> nat \<Rightarrow> server \<Rightarrow> server res" where
  "removeClientOfType ty p s =
     (if p \<in> set (vec ty s)
      then bindE (deref (objects s p)) (\<lambda>info.
        Inr (update_vec ty (remove1 p)
          (s\<lparr>clientUuidMap := (clientUuidMap s)(client_uuid info := None), objects := (objects s)(p := None),
             closed := insert (client_handle info) (closed s)\<rparr>)))
      else Inr (update_vec ty id s))"

fun find_handle :: "server \<Rightarrow> int \<Rightarrow> (32 word \<times> nat) list \<Rightarrow> (32 word \<times> nat) option res" where
  "find_handle s h [] = Inr None"
| "find_handle s h ((ty, p) # ps) =
     bindE (deref (objects s p)) (\<lambda>info. if client_handle info = h then Inr (Some (ty, p)) else find_handle s h ps)"

definition entries :: "server \<Rightarrow> (32 word \<times> nat) list" where
  "entries s = concat (map (\<lambda>(ty, v). map (Pair ty) v) (clientMap s))"

definition removeClient :: "nat \<Rightarrow> server \<Rightarrow> server res" where
  "removeClient p s =
     (if entries s = [] then Inr s else
     bindE (deref (objects s p)) (\<lambda>info.
     bindE (find_handle s (client_handle info) (entries s)) (\<lambda>found.
     case found of None \<Rightarrow> Inr s | Some (ty, q) \<Rightarrow> removeClientOfType ty q s)))"

text \<open>
  The loops of \<^verbatim>\<open>clear_aborted\<close> and \<^verbatim>\<open>sendToAll\<close> walk through a vector with an iterator, a position of the model.
  Removing a client erases its element from this very vector, which invalidates the iterator; the loop goes on
  with it, which is undefined. \<open>visit\<close> is the loop body: whether the client goes, and the new state.
\<close>

partial_function (option) sweep_vec ::
  "(ClientInfo \<Rightarrow> server \<Rightarrow> bool \<times> server) \<Rightarrow> 32 word \<Rightarrow> nat \<Rightarrow> server \<Rightarrow> server res option" where
  "sweep_vec visit ty i s =
     (if i < length (vec ty s) then
        (case objects s (vec ty s ! i) of
           None \<Rightarrow> Some (Inl NullDeref)
         | Some info \<Rightarrow>
             (case visit info s of
                (gone, s') \<Rightarrow>
                  if gone then (case removeClientOfType ty (vec ty s ! i) s' of
                                  Inl e \<Rightarrow> Some (Inl e)
                                | Inr s'' \<Rightarrow> Some (Inl InvalidIterator))
                  else sweep_vec visit ty (Suc i) s'))
      else Some (Inr s))"

fun sweep_types :: "(ClientInfo \<Rightarrow> server \<Rightarrow> bool \<times> server) \<Rightarrow> 32 word list \<Rightarrow> server \<Rightarrow> server res option" where
  "sweep_types visit [] s = Some (Inr s)"
| "sweep_types visit (ty # tys) s =
     Option.bind (sweep_vec visit ty 0 s) (\<lambda>r. case r of Inl e \<Rightarrow> Some (Inl e) | Inr s' \<Rightarrow> sweep_types visit tys s')"

definition clear_aborted :: "server \<Rightarrow> server res option" where
  "clear_aborted s = sweep_types (\<lambda>info s. (client_abort info, s)) (map fst (clientMap s)) s"

definition names_and_uuids :: "server \<Rightarrow> nat list \<Rightarrow> (string \<times> 64 word) list res" where
  "names_and_uuids s ps = mapE (\<lambda>p. bindE (deref (objects s p)) (\<lambda>info. Inr (prettyName info, client_uuid info))) ps"

definition getUuidForUnitType :: "32 word \<Rightarrow> server \<Rightarrow> ((string \<times> 64 word) list \<times> server) res option" where
  "getUuidForUnitType ty s =
     (if \<not> hasClients s then Some (Inr ([], s))
      else map_option (\<lambda>r. bindE r (\<lambda>s'.
        if ty = 0 then bindE (names_and_uuids s' (all_clients s')) (\<lambda>us. Inr (us, s'))
        else if contains ty s' then bindE (names_and_uuids s' (vec ty s')) (\<lambda>us. Inr (us, s'))
        else Inr ([], s'))) (clear_aborted s))"

section \<open>Sending\<close>

definition attempt :: "byte list \<Rightarrow> int \<Rightarrow> server \<Rightarrow> server" where
  "attempt data h s = s\<lparr>attempts := attempts s @ [(h, data)]\<rparr>"

text \<open>
  The data are the bytes that the length parameter, a 32-bit integer, announces; callers convert their sizes to this
  width before.
\<close>

definition sendTo :: "(int \<Rightarrow> bool) \<Rightarrow> byte list \<Rightarrow> nat \<Rightarrow> server \<Rightarrow> (bool \<times> server) res" where
  "sendTo send_ok data p s =
     bindE (deref (objects s p)) (\<lambda>info.
     if client_abort info then bindE (removeClient p s) (\<lambda>s'. Inr (False, s'))
     else let s' = attempt data (client_handle info) s in
       if send_ok (client_handle info) then Inr (True, s')
       else bindE (removeClient p s') (\<lambda>s''. Inr (False, s'')))"

definition sendToAll :: "(int \<Rightarrow> bool) \<Rightarrow> byte list \<Rightarrow> server \<Rightarrow> server res option" where
  "sendToAll send_ok data s =
     (if \<not> hasClients s then Some (Inr s)
      else sweep_types (\<lambda>info s. (\<not> send_ok (client_handle info), attempt data (client_handle info) s)) (map fst (clientMap s)) s)"

text \<open>This loop walks through a copy of the vector: a removal does not change it.\<close>

partial_function (option) send_copy :: "(int \<Rightarrow> bool) \<Rightarrow> byte list \<Rightarrow> 32 word \<Rightarrow> nat list \<Rightarrow> server \<Rightarrow> server res option" where
  "send_copy send_ok data ty cl_info_vec s =
     (case cl_info_vec of
        [] \<Rightarrow> Some (Inr s)
      | p # ps \<Rightarrow>
          (case objects s p of
             None \<Rightarrow> Some (Inl NullDeref)
           | Some info \<Rightarrow>
               if send_ok (client_handle info) then send_copy send_ok data ty ps (attempt data (client_handle info) s)
               else (case removeClientOfType ty p (attempt data (client_handle info) s) of
                       Inl e \<Rightarrow> Some (Inl e)
                     | Inr s' \<Rightarrow> send_copy send_ok data ty (p # ps) s')))"

definition sendToAllOfType :: "(int \<Rightarrow> bool) \<Rightarrow> byte list \<Rightarrow> 32 word \<Rightarrow> server \<Rightarrow> server res option" where
  "sendToAllOfType send_ok data ty s =
     (if \<not> hasClients s then Some (Inr s)
      else if contains ty s then send_copy send_ok data ty (vec ty s) s
      else Some (Inr s))"

text \<open>
  \<open>pick k n\<close> is the \<open>k\<close>-th random number, below \<open>n\<close>. The result tells whether a client has accepted
  the data.
\<close>

partial_function (option) send_any ::
  "(int \<Rightarrow> bool) \<Rightarrow> byte list \<Rightarrow> (nat \<Rightarrow> nat \<Rightarrow> nat) \<Rightarrow> 32 word \<Rightarrow> nat \<Rightarrow> server \<Rightarrow> (bool \<times> server) res option" where
  "send_any send_ok data pick ty k s =
     (if vec ty s = [] then Some (Inr (False, s))
      else (case sendTo send_ok data (vec ty s ! pick k (length (vec ty s))) s of
              Inl e \<Rightarrow> Some (Inl e)
            | Inr (ok, s') \<Rightarrow> if ok then Some (Inr (True, s')) else send_any send_ok data pick ty (Suc k) s'))"

definition sendToAnyOfType ::
  "(int \<Rightarrow> bool) \<Rightarrow> byte list \<Rightarrow> (nat \<Rightarrow> nat \<Rightarrow> nat) \<Rightarrow> 32 word \<Rightarrow> server \<Rightarrow> (bool \<times> server) res option" where
  "sendToAnyOfType send_ok data pick ty s =
     (if hasClients s \<and> contains ty s then send_any send_ok data pick ty 0 s else Some (Inr (False, s)))"

text \<open>Rerouting indexes the vector up to a bound computed before clients are removed.\<close>

function find_and_send :: "(int \<Rightarrow> bool) \<Rightarrow> byte list \<Rightarrow> 64 word \<Rightarrow> 32 word \<Rightarrow> nat \<Rightarrow> nat \<Rightarrow> server \<Rightarrow> (bool \<times> server) res" where
  "find_and_send send_ok data original ty i stop_at s =
     (if stop_at \<le> i then Inr (False, s)
      else if length (vec ty s) \<le> i then Inl OutOfRange
      else bindE (deref (objects s (vec ty s ! i))) (\<lambda>info.
        if client_uuid info = original then find_and_send send_ok data original ty (Suc i) stop_at s
        else bindE (sendTo send_ok data (vec ty s ! i) s) (\<lambda>(ok, s').
          if ok then Inr (True, s') else find_and_send send_ok data original ty (Suc i) stop_at s')))"
  by pat_completeness auto
termination
  by (relation "measure (\<lambda>(_, _, _, _, i, stop_at, _). stop_at - i)") auto

declare find_and_send.simps [simp del]

definition rerouteToAnyOfType ::
  "(int \<Rightarrow> bool) \<Rightarrow> byte list \<Rightarrow> nat \<Rightarrow> 32 word \<Rightarrow> 64 word \<Rightarrow> server \<Rightarrow> (bool \<times> server) res" where
  "rerouteToAnyOfType send_ok data idx ty original s =
     (if \<not> hasClients s \<or> \<not> contains ty s \<or> vec ty s = [] then Inr (False, s)
      else bindE (find_and_send send_ok data original ty idx (length (vec ty s)) s) (\<lambda>(ok, s').
        if ok then Inr (True, s') else find_and_send send_ok data original ty 0 idx s'))"

section \<open>Registration\<close>

definition add_client :: "int \<Rightarrow> 32 word \<Rightarrow> string \<Rightarrow> 64 word \<Rightarrow> server \<Rightarrow> server" where
  "add_client h ty name u s =
     (let p = next_object s;
          info = \<lparr>client_handle = h, client_type = ty, client_uuid = u, prettyName = name, client_abort = False\<rparr> in
      update_vec ty (\<lambda>v. v @ [p])
        (s\<lparr>objects := (objects s)(p \<mapsto> info), next_object := Suc p, clientUuidMap := (clientUuidMap s)(u \<mapsto> p)\<rparr>))"

definition drop_connection :: "int \<Rightarrow> server \<Rightarrow> server" where
  "drop_connection h s = s\<lparr>closed := insert h (closed s)\<rparr>"

text \<open>
  The collision loop: as long as the UUID is taken, the client is asked for another one. \<open>answers\<close> are its
  responses in order, \<^const>\<open>None\<close> for a failed \<^verbatim>\<open>send\<close> or \<^verbatim>\<open>recv\<close>; the end of the list is a timeout. Only a message
  of type \<^verbatim>\<open>UUID_COLLISION\<close> (13) with a correct delimiter continues.
\<close>

fun resolve_uuid :: "int \<Rightarrow> 32 word \<Rightarrow> string \<Rightarrow> 64 word \<Rightarrow> TCPMetaInfo option list \<Rightarrow> server \<Rightarrow> server" where
  "resolve_uuid h ty name u answers s =
     (if clientUuidMap s u = None then add_client h ty name u s
      else (case answers of
              Some info # rest \<Rightarrow>
                if message_delimiter info = TCP_START_DELIM \<and> package_type info = 13
                then resolve_uuid h ty name (src_uuid info) rest s
                else drop_connection h s
            | _ \<Rightarrow> drop_connection h s))"

declare resolve_uuid.simps [simp del]

text \<open>
  The connect callback after the unit definition was requested: \<open>answer\<close> is the received header with the
  number of received bytes and the parsed unit type and name. A wrong package type closes the handle, but
  the registration goes on. An incomplete message ends the process.
\<close>

definition connect_callback ::
  "int \<Rightarrow> (TCPMetaInfo \<times> nat \<times> 32 word \<times> string) option \<Rightarrow> TCPMetaInfo option list \<Rightarrow> server \<Rightarrow> server res" where
  "connect_callback h answer answers s =
     (case answer of
        None \<Rightarrow> Inr (drop_connection h s)
      | Some (info, received_bytes, ty, name) \<Rightarrow>
          if message_delimiter info \<noteq> TCP_START_DELIM then Inr (drop_connection h s)
          else if received_bytes < bytesize info then Inl (RuntimeError ''exit(-1)'')
          else let s' = (if package_type info \<noteq> 5 then drop_connection h s else s) in
            Inr (resolve_uuid h ty name (src_uuid info) answers s'))"

text \<open>Shutting down releases all clients; the map of UUIDs is not cleared.\<close>

definition closeConnection :: "server \<Rightarrow> server" where
  "closeConnection s =
     s\<lparr>clientMap := map (\<lambda>(k, _). (k, [])) (clientMap s),
       objects := (\<lambda>p. if p \<in> set (all_clients s) then None else objects s p),
       closed := closed s \<union> {h. \<exists>p \<in> set (all_clients s). \<exists>info. objects s p = Some info \<and> client_handle info = h}\<rparr>"

section \<open>The registry invariant\<close>

text \<open>
  Keys are sorted; the listed clients are exactly the live objects, each listed once and under its type; the
  map of UUIDs is the inverse of the clients' UUIDs. That handles identify clients is a separate condition: it
  depends on the handles the operating system gives to new connections.
\<close>

definition registry_core :: "server \<Rightarrow> bool" where
  "registry_core s \<longleftrightarrow>
     sorted_wrt (<) (map fst (clientMap s)) \<and> distinct (all_clients s) \<and> dom (objects s) = set (all_clients s) \<and>
     (\<forall>(k, v) \<in> set (clientMap s). \<forall>p \<in> set v. \<forall>info. objects s p = Some info \<longrightarrow> client_type info = k) \<and>
     (\<forall>u p. clientUuidMap s u = Some p \<longleftrightarrow> (\<exists>info. objects s p = Some info \<and> client_uuid info = u)) \<and>
     (\<forall>p \<in> dom (objects s). p < next_object s)"

definition distinct_handles :: "server \<Rightarrow> bool" where
  "distinct_handles s \<longleftrightarrow>
     (\<forall>p q i j. objects s p = Some i \<longrightarrow> objects s q = Some j \<longrightarrow> client_handle i = client_handle j \<longrightarrow> p = q)"

definition registry_ok :: "server \<Rightarrow> bool" where
  "registry_ok s \<longleftrightarrow> registry_core s \<and> distinct_handles s"

text \<open>Removing a set of clients from everything.\<close>

definition drop_clients :: "nat set \<Rightarrow> server \<Rightarrow> server" where
  "drop_clients D s =
     s\<lparr>clientMap := map (\<lambda>(k, v). (k, filter (\<lambda>p. p \<notin> D) v)) (clientMap s),
       clientUuidMap := (\<lambda>u. case clientUuidMap s u of Some p \<Rightarrow> if p \<in> D then None else Some p | None \<Rightarrow> None),
       objects := objects s |` (- D),
       closed := closed s \<union> {h. \<exists>p \<in> D. \<exists>info. objects s p = Some info \<and> client_handle info = h}\<rparr>"

lemma all_clients_drop: "all_clients (drop_clients D s) = filter (\<lambda>p. p \<notin> D) (all_clients s)"
  by (simp add: all_clients_def drop_clients_def filter_concat comp_def case_prod_beta)

lemma map_of_map_snd: "map_of (map (\<lambda>(k, v). (k, f k v)) m) ty = map_option (f ty) (map_of m ty)"
  by (induction m) auto

lemma vec_drop: "vec ty (drop_clients D s) = filter (\<lambda>p. p \<notin> D) (vec ty s)"
  by (simp add: vec_def drop_clients_def map_of_map_snd split: option.split)

lemma keys_drop [simp]: "map fst (clientMap (drop_clients D s)) = map fst (clientMap s)"
  by (simp add: drop_clients_def comp_def case_prod_beta)

lemma objects_drop [simp]: "objects (drop_clients D s) p = (if p \<in> D then None else objects s p)"
  by (simp add: drop_clients_def restrict_map_def)

lemma drop_clients_fields [simp]: "attempts (drop_clients D s) = attempts s" "next_object (drop_clients D s) = next_object s"
  by (simp_all add: drop_clients_def)

lemma drop_clients_attempts: "drop_clients D (s\<lparr>attempts := as\<rparr>) = (drop_clients D s)\<lparr>attempts := as\<rparr>"
  by (simp add: drop_clients_def)

lemma drop_clients_empty: "drop_clients {} s = s"
proof -
  have "map (\<lambda>(k, v). (k, filter (\<lambda>p. p \<notin> {}) v)) (clientMap s) = clientMap s" by (induction "clientMap s") auto
  moreover have "(\<lambda>u. case clientUuidMap s u of Some p \<Rightarrow> if p \<in> {} then None else Some p | None \<Rightarrow> None) = clientUuidMap s"
    by (auto split: option.split)
  moreover have "objects s |` (- {}) = objects s" by (simp add: restrict_map_def)
  ultimately show ?thesis unfolding drop_clients_def by simp
qed

lemma drop_clients_drop: "drop_clients E (drop_clients D s) = drop_clients (D \<union> E) s"
proof (rule server.equality)
  show "clientMap (drop_clients E (drop_clients D s)) = clientMap (drop_clients (D \<union> E) s)"
    by (simp add: drop_clients_def comp_def case_prod_beta)
  show "clientUuidMap (drop_clients E (drop_clients D s)) = clientUuidMap (drop_clients (D \<union> E) s)"
    by (auto simp: drop_clients_def split: option.split)
  show "objects (drop_clients E (drop_clients D s)) = objects (drop_clients (D \<union> E) s)" by auto
  show "closed (drop_clients E (drop_clients D s)) = closed (drop_clients (D \<union> E) s)"
    by (auto simp: drop_clients_def restrict_map_def)
qed (simp_all add: drop_clients_def)

lemma vec_attempts [simp]: "vec ty (s\<lparr>attempts := as\<rparr>) = vec ty s"
  by (simp add: vec_def)

lemma all_clients_attempts [simp]: "all_clients (s\<lparr>attempts := as\<rparr>) = all_clients s"
  by (simp add: all_clients_def)

lemma registry_core_attempts [simp]: "registry_core (s\<lparr>attempts := as\<rparr>) = registry_core s"
  by (simp add: registry_core_def)

lemma distinct_handles_attempts [simp]: "distinct_handles (s\<lparr>attempts := as\<rparr>) = distinct_handles s"
  by (simp add: distinct_handles_def)

lemma registry_ok_attempts [simp]: "registry_ok (s\<lparr>attempts := as\<rparr>) = registry_ok s"
  by (simp add: registry_ok_def)

lemma uuid_drop [simp]: "clientUuidMap (drop_clients D s) u = Some p \<longleftrightarrow> clientUuidMap s u = Some p \<and> p \<notin> D"
  by (auto simp: drop_clients_def split: option.split)

lemma registry_coreD:
  assumes "registry_core s"
  shows "sorted_wrt (<) (map fst (clientMap s))" "distinct (all_clients s)" "dom (objects s) = set (all_clients s)"
    "(k, v) \<in> set (clientMap s) \<Longrightarrow> p \<in> set v \<Longrightarrow> objects s p = Some info \<Longrightarrow> client_type info = k"
    "clientUuidMap s u = Some p \<longleftrightarrow> (\<exists>info. objects s p = Some info \<and> client_uuid info = u)"
    "p \<in> dom (objects s) \<Longrightarrow> p < next_object s"
  using assms unfolding registry_core_def by blast+

lemma registry_okD:
  assumes "registry_ok s"
  shows "registry_core s" "distinct_handles s"
    "objects s p = Some i \<Longrightarrow> objects s q = Some j \<Longrightarrow> client_handle i = client_handle j \<Longrightarrow> p = q"
  using assms unfolding registry_ok_def distinct_handles_def by blast+

lemma registry_core_drop:
  assumes "registry_core s"
  shows "registry_core (drop_clients D s)"
  unfolding registry_core_def all_clients_drop keys_drop
proof (intro conjI)
  note ok = registry_coreD [OF assms]
  show "sorted_wrt (<) (map fst (clientMap s))" by (rule ok(1))
  show "distinct (filter (\<lambda>p. p \<notin> D) (all_clients s))" using ok(2) by simp
  show "dom (objects (drop_clients D s)) = set (filter (\<lambda>p. p \<notin> D) (all_clients s))"
    using ok(3) by (auto simp: drop_clients_def)
  show "\<forall>(k, v) \<in> set (clientMap (drop_clients D s)). \<forall>p \<in> set v. \<forall>info. objects (drop_clients D s) p = Some info \<longrightarrow> client_type info = k"
    using ok(4) by (auto simp: drop_clients_def restrict_map_def split: if_split_asm)
  show "\<forall>u p. clientUuidMap (drop_clients D s) u = Some p \<longleftrightarrow> (\<exists>info. objects (drop_clients D s) p = Some info \<and> client_uuid info = u)"
    using ok(5) by auto
  show "\<forall>p \<in> dom (objects (drop_clients D s)). p < next_object (drop_clients D s)"
    using ok(6) [OF domI] by (auto split: if_split_asm)
qed

lemma distinct_handles_drop: "distinct_handles s \<Longrightarrow> distinct_handles (drop_clients D s)"
  by (auto simp: distinct_handles_def split: if_split_asm)

lemma registry_ok_drop: "registry_ok s \<Longrightarrow> registry_ok (drop_clients D s)"
  by (simp add: registry_ok_def registry_core_drop distinct_handles_drop)

lemma insert_key_present: "sorted_wrt (<) (map fst m) \<Longrightarrow> ty \<in> fst ` set m \<Longrightarrow> insert_key ty m = m"
  by (induction ty m rule: insert_key.induct) auto

lemma vec_entry:
  assumes "p \<in> set (vec ty s)"
  obtains v where "(ty, v) \<in> set (clientMap s)" "p \<in> set v" "vec ty s = v"
proof (cases "map_of (clientMap s) ty")
  case (Some v)
  then show ?thesis using assms that [OF map_of_SomeD [OF Some]] by (simp add: vec_def)
qed (use assms in \<open>simp add: vec_def\<close>)

lemma vec_nonempty:
  assumes "p \<in> set (vec ty s)"
  shows "contains ty s" "hasClients s"
proof -
  obtain v where v: "(ty, v) \<in> set (clientMap s)" "p \<in> set v" using assms by (rule vec_entry)
  then show "contains ty s" by (force simp: contains_def)
  obtain m1 m2 where "clientMap s = m1 @ (ty, v) # m2" using v(1) by (meson split_list)
  then show "hasClients s" using v(2) by (auto simp: hasClients_def intro: length_pos_if_in_set)
qed

lemma vec_all_clients: "set (vec ty s) \<subseteq> set (all_clients s)"
proof
  fix p assume "p \<in> set (vec ty s)"
  then obtain v where "(ty, v) \<in> set (clientMap s)" "p \<in> set v" by (rule vec_entry)
  then show "p \<in> set (all_clients s)" unfolding all_clients_def by force
qed

lemma vec_object:
  assumes "registry_core s" "p \<in> set (vec ty s)"
  obtains info where "objects s p = Some info" "client_type info = ty"
proof -
  from assms(2) obtain v where v: "(ty, v) \<in> set (clientMap s)" "p \<in> set v" by (rule vec_entry)
  have "p \<in> dom (objects s)" using assms(2) vec_all_clients [of ty s] registry_coreD(3) [OF assms(1)] by blast
  then obtain info where "objects s p = Some info" by blast
  then show ?thesis using that registry_coreD(4) [OF assms(1) v] by blast
qed

lemma distinct_vec:
  assumes "registry_core s"
  shows "distinct (vec ty s)"
proof (cases "vec ty s")
  case (Cons p ps)
  then have "p \<in> set (vec ty s)" by simp
  then obtain v where v: "(ty, v) \<in> set (clientMap s)" "vec ty s = v" by (rule vec_entry)
  then obtain m1 m2 where "clientMap s = m1 @ (ty, v) # m2" by (meson split_list)
  then show ?thesis using registry_coreD(2) [OF assms] v by (simp add: all_clients_def)
qed simp

lemma removeClientOfType_drop:
  assumes "registry_core s" "p \<in> set (vec ty s)"
  shows "removeClientOfType ty p s = Inr (drop_clients {p} s)"
proof -
  note ok = registry_coreD [OF assms(1)]
  obtain info where info: "objects s p = Some info" "client_type info = ty" by (rule vec_object [OF assms])
  obtain v where v: "(ty, v) \<in> set (clientMap s)" "vec ty s = v" using assms(2) by (rule vec_entry)
  have "insert_key ty (clientMap s) = clientMap s" using ok(1) v(1) by (intro insert_key_present) force+
  moreover have "(if k = ty then remove1 p w else w) = filter (\<lambda>q. q \<notin> {p}) w" if kw: "(k, w) \<in> set (clientMap s)" for k w
  proof (cases "k = ty")
    case True
    have "w = v" using kw v(1) True ok(1) eq_key_imp_eq_value [of "clientMap s" ty w v] by (simp add: strict_sorted_iff)
    then show ?thesis using True distinct_vec [OF assms(1), of ty] v(2)
      by (simp add: distinct_remove1_removeAll removeAll_filter_not_eq eq_commute [of p])
  next
    case False
    then have "p \<notin> set w" using ok(4) [OF kw _ info(1)] info(2) by auto
    then have "filter (\<lambda>q. q \<notin> {p}) w = w" by (simp add: filter_id_conv) blast
    then show ?thesis using False by simp
  qed
  ultimately have map: "map (\<lambda>(k, w). (k, if k = ty then remove1 p w else w)) (insert_key ty (clientMap s)) =
      map (\<lambda>(k, w). (k, filter (\<lambda>q. q \<notin> {p}) w)) (clientMap s)" by auto
  have uuid: "(clientUuidMap s)(client_uuid info := None) =
      (\<lambda>u. case clientUuidMap s u of Some q \<Rightarrow> if q \<in> {p} then None else Some q | None \<Rightarrow> None)"
  proof
    fix u
    have "clientUuidMap s u = Some p \<longleftrightarrow> u = client_uuid info" using ok(5) [of u p] info(1) by auto
    then show "((clientUuidMap s)(client_uuid info := None)) u =
        (case clientUuidMap s u of Some q \<Rightarrow> if q \<in> {p} then None else Some q | None \<Rightarrow> None)"
      by (cases "clientUuidMap s u") auto
  qed
  have obj: "(objects s)(p := None) = objects s |` (- {p})" by (auto simp: restrict_map_def)
  have "removeClientOfType ty p s = Inr (update_vec ty (remove1 p)
      (s\<lparr>clientUuidMap := (clientUuidMap s)(client_uuid info := None), objects := (objects s)(p := None),
         closed := insert (client_handle info) (closed s)\<rparr>))"
    using assms(2) info(1) by (simp add: removeClientOfType_def deref_def)
  also have "\<dots> = Inr (drop_clients {p} s)" unfolding update_vec_def drop_clients_def uuid obj
    using map info(1) by (intro arg_cong [of _ _ Inr] server.equality) simp_all
  finally show ?thesis .
qed

section \<open>What the operations do\<close>

definition info_of_client :: "server \<Rightarrow> nat \<Rightarrow> ClientInfo" where
  "info_of_client s p = the (objects s p)"

abbreviation noting :: "(ClientInfo \<Rightarrow> bool) \<Rightarrow> (ClientInfo \<Rightarrow> (int \<times> byte list) list) \<Rightarrow> ClientInfo \<Rightarrow> server \<Rightarrow> bool \<times> server" where
  "noting bad hs \<equiv> (\<lambda>info s. (bad info, s\<lparr>attempts := attempts s @ hs info\<rparr>))"

lemma info_of_attempts [simp]: "info_of_client (s\<lparr>attempts := as\<rparr>) = info_of_client s"
  by (simp add: info_of_client_def fun_eq_iff)

lemma sweep_vec_result:
  assumes "registry_core s" "vec ty s = pre @ rest"
  shows "sweep_vec (noting bad hs) ty (length pre) s =
    Some (if \<exists>p \<in> set rest. bad (info_of_client s p) then Inl InvalidIterator
      else Inr (s\<lparr>attempts := attempts s @ concat (map (hs \<circ> info_of_client s) rest)\<rparr>))"
  using assms
proof (induction rest arbitrary: pre s)
  case Nil
  then show ?case by (subst sweep_vec.simps) simp
next
  case (Cons p rest)
  have pv: "p \<in> set (vec ty s)" using Cons.prems(2) by simp
  obtain info where info: "objects s p = Some info" by (rule vec_object [OF Cons.prems(1) pv])
  let ?s = "s\<lparr>attempts := attempts s @ hs info\<rparr>"
  have ip: "info_of_client s p = info" by (simp add: info_of_client_def info)
  show ?case
  proof (cases "bad info")
    case True
    have "removeClientOfType ty p ?s = Inr (drop_clients {p} ?s)"
      using Cons.prems(1) pv by (intro removeClientOfType_drop) simp_all
    then show ?thesis by (subst sweep_vec.simps) (use Cons.prems(2) info True ip in \<open>simp add: nth_append\<close>)
  next
    case False
    have "sweep_vec (noting bad hs) ty (length pre) s = sweep_vec (noting bad hs) ty (length (pre @ [p])) ?s"
      by (subst sweep_vec.simps) (use Cons.prems(2) info False in \<open>simp add: nth_append\<close>)
    then show ?thesis using Cons.IH [of ?s "pre @ [p]"] Cons.prems ip False by simp
  qed
qed

lemma sweep_types_result:
  assumes "registry_core s"
  shows "sweep_types (noting bad hs) tys s =
    (let ps = concat (map (\<lambda>ty. vec ty s) tys) in
     Some (if \<exists>p \<in> set ps. bad (info_of_client s p) then Inl InvalidIterator
       else Inr (s\<lparr>attempts := attempts s @ concat (map (hs \<circ> info_of_client s) ps)\<rparr>)))"
  using assms
proof (induction tys arbitrary: s)
  case Nil
  then show ?case by simp
next
  case (Cons ty tys)
  have sweep: "sweep_vec (noting bad hs) ty 0 s =
      Some (if \<exists>p \<in> set (vec ty s). bad (info_of_client s p) then Inl InvalidIterator
        else Inr (s\<lparr>attempts := attempts s @ concat (map (hs \<circ> info_of_client s) (vec ty s))\<rparr>))"
    using sweep_vec_result [OF Cons.prems, of ty "[]"] by simp
  show ?case
  proof (cases "\<exists>p \<in> set (vec ty s). bad (info_of_client s p)")
    case True
    then show ?thesis using sweep by auto
  next
    case False
    let ?s = "s\<lparr>attempts := attempts s @ concat (map (hs \<circ> info_of_client s) (vec ty s))\<rparr>"
    have "sweep_types (noting bad hs) (ty # tys) s = sweep_types (noting bad hs) tys ?s" using sweep False by simp
    then show ?thesis using Cons.IH [of ?s] Cons.prems False by (auto simp: Let_def)
  qed
qed

lemma vecs_all_clients:
  assumes "registry_core s"
  shows "concat (map (\<lambda>ty. vec ty s) (map fst (clientMap s))) = all_clients s"
proof -
  have "distinct (map fst (clientMap s))" using registry_coreD(1) [OF assms] by (simp add: strict_sorted_iff)
  then have "vec k s = v" if "(k, v) \<in> set (clientMap s)" for k v using that by (simp add: vec_def)
  then show ?thesis unfolding all_clients_def by (auto intro!: arg_cong [of _ _ concat])
qed

lemma sweep_all:
  assumes "registry_core s"
  shows "sweep_types (noting bad hs) (map fst (clientMap s)) s =
    Some (if \<exists>p \<in> set (all_clients s). bad (info_of_client s p) then Inl InvalidIterator
      else Inr (s\<lparr>attempts := attempts s @ concat (map (hs \<circ> info_of_client s) (all_clients s))\<rparr>))"
  unfolding sweep_types_result [OF assms] Let_def vecs_all_clients [OF assms] by (rule refl)

lemma find_handle_find:
  "\<forall>(k, q) \<in> set es. q \<in> dom (objects s) \<Longrightarrow>
   find_handle s h es = Inr (find (\<lambda>(k, q). client_handle (info_of_client s q) = h) es)"
  by (induction es) (auto simp: deref_def info_of_client_def)

lemma find_map: "find P (map f xs) = map_option f (find (P \<circ> f) xs)"
  by (induction xs) auto

lemma entries_vec: "registry_core s \<Longrightarrow> (k, p) \<in> set (entries s) \<Longrightarrow> p \<in> set (vec k s)"
  using registry_coreD(1) [of s] by (auto simp: entries_def vec_def strict_sorted_iff)

lemma entries_clients: "snd ` set (entries s) = set (all_clients s)"
  by (force simp: entries_def all_clients_def image_iff)

lemma map_snd_entries: "map snd (entries s) = all_clients s"
proof -
  have "map snd (concat (map (\<lambda>(ty, v). map (Pair ty) v) m)) = concat (map snd m)" for m :: "(32 word \<times> nat list) list"
    by (induction m) (auto simp: comp_def)
  then show ?thesis by (simp add: entries_def all_clients_def)
qed

text \<open>Removing a client by its information removes the first listed client with the same handle.\<close>

lemma removeClient_find:
  assumes "registry_core s" "p \<in> set (all_clients s)"
  obtains q where "find (\<lambda>q. client_handle (info_of_client s q) = client_handle (info_of_client s p)) (all_clients s) = Some q"
    "q \<in> set (all_clients s)" "client_handle (info_of_client s q) = client_handle (info_of_client s p)"
    "removeClient p s = Inr (drop_clients {q} s)"
proof -
  let ?P = "\<lambda>q. client_handle (info_of_client s q) = client_handle (info_of_client s p)"
  note ok = registry_coreD [OF assms(1)]
  obtain info where info: "objects s p = Some info" using ok(3) assms(2) by blast
  then have ip: "info_of_client s p = info" by (simp add: info_of_client_def)
  have live: "\<forall>(k, q) \<in> set (entries s). q \<in> dom (objects s)" using entries_clients [of s] ok(3) by force
  obtain q where q: "find ?P (all_clients s) = Some q" using assms(2) by (fastforce simp: find_None_iff)
  then have qP: "q \<in> set (all_clients s)" "?P q" by (auto simp: find_Some_iff)
  have "find ?P (map snd (entries s)) = Some q" unfolding map_snd_entries by (rule q)
  then obtain k where kq: "find (\<lambda>(k, q). ?P q) (entries s) = Some (k, q)"
    by (auto simp: find_map comp_def case_prod_unfold)
  then have "(k, q) \<in> set (entries s)" unfolding find_Some_iff by (metis nth_mem)
  then have "removeClientOfType k q s = Inr (drop_clients {q} s)"
    using removeClientOfType_drop [OF assms(1) entries_vec [OF assms(1)]] by blast
  moreover have "entries s \<noteq> []" using kq by auto
  ultimately have "removeClient p s = Inr (drop_clients {q} s)"
    using find_handle_find [OF live, of "client_handle info"] kq info ip by (simp add: removeClient_def deref_def)
  then show ?thesis using that [OF q qP] by blast
qed

lemma removeClient_drop:
  assumes "registry_ok s" "p \<in> set (all_clients s)"
  shows "removeClient p s = Inr (drop_clients {p} s)"
proof -
  note core = registry_okD(1) [OF assms(1)]
  obtain q where q: "q \<in> set (all_clients s)" "client_handle (info_of_client s q) = client_handle (info_of_client s p)"
    "removeClient p s = Inr (drop_clients {q} s)" by (rule removeClient_find [OF core assms(2)])
  obtain i j where "objects s p = Some i" "objects s q = Some j" using assms(2) q(1) registry_coreD(3) [OF core] by blast
  then have "q = p" using q(2) registry_okD(3) [OF assms(1), of q j p i] by (simp add: info_of_client_def)
  then show ?thesis using q(3) by simp
qed

text \<open>A client takes data when it is not marked for removal and the socket accepts them.\<close>

definition reachable_client :: "(int \<Rightarrow> bool) \<Rightarrow> server \<Rightarrow> nat \<Rightarrow> bool" where
  "reachable_client send_ok s p \<longleftrightarrow> \<not> client_abort (info_of_client s p) \<and> send_ok (client_handle (info_of_client s p))"

lemma sendTo_cases:
  assumes "registry_ok s" "p \<in> set (all_clients s)"
  obtains (sent) "sendTo send_ok data p s = Inr (True, attempt data (client_handle (info_of_client s p)) s)" "reachable_client send_ok s p"
  | (gone) hs where "sendTo send_ok data p s = Inr (False, (drop_clients {p} s)\<lparr>attempts := attempts s @ hs\<rparr>)"
      "\<not> reachable_client send_ok s p" "set hs \<subseteq> {(client_handle (info_of_client s p), data)}"
proof -
  obtain info where info: "objects s p = Some info" using registry_coreD(3) [OF registry_okD(1) [OF assms(1)]] assms(2) by blast
  then have ip: "info_of_client s p = info" by (simp add: info_of_client_def)
  have rm: "removeClient p s = Inr (drop_clients {p} s)"
    "removeClient p (attempt data h s) = Inr ((drop_clients {p} s)\<lparr>attempts := attempts s @ [(h, data)]\<rparr>)" for h
    using removeClient_drop [OF assms] removeClient_drop [of "attempt data h s" p] assms
    by (simp_all add: attempt_def drop_clients_attempts)
  consider (a) "client_abort info" | (b) "\<not> client_abort info" "send_ok (client_handle info)"
    | (c) "\<not> client_abort info" "\<not> send_ok (client_handle info)" by blast
  then show thesis
  proof cases
    case a
    then have "sendTo send_ok data p s = Inr (False, (drop_clients {p} s)\<lparr>attempts := attempts s @ []\<rparr>)"
      using info rm(1) by (simp add: sendTo_def deref_def)
    then show thesis using gone [of "[]"] a ip by (simp add: reachable_client_def)
  next
    case b
    then show thesis using sent info ip by (simp add: sendTo_def deref_def reachable_client_def Let_def)
  next
    case c
    then show thesis using gone [of "[(client_handle info, data)]"] info ip rm(2) by (simp add: sendTo_def deref_def reachable_client_def Let_def)
  qed
qed

text \<open>
  What \<^verbatim>\<open>sendToAnyOfType\<close> achieves: some unreachable clients are dropped, and either one reachable client was
  reached or every client of the type was dropped.
\<close>

definition sent_to_one :: "(int \<Rightarrow> bool) \<Rightarrow> byte list \<Rightarrow> 32 word \<Rightarrow> server \<Rightarrow> bool \<Rightarrow> server \<Rightarrow> bool" where
  "sent_to_one send_ok data ty s ok s' \<longleftrightarrow>
     (\<exists>D hs. D \<subseteq> {p \<in> set (vec ty s). \<not> reachable_client send_ok s p} \<and> s' = (drop_clients D s)\<lparr>attempts := attempts s @ hs\<rparr> \<and>
        (if ok then \<exists>p \<in> set (vec ty s). reachable_client send_ok s p \<and> hs \<noteq> [] \<and> last hs = (client_handle (info_of_client s p), data) \<and>
              set (butlast hs) \<subseteq> (\<lambda>q. (client_handle (info_of_client s q), data)) ` D
         else D = set (vec ty s)))"

lemma sent_to_one_step:
  assumes "p \<in> set (vec ty s)" "\<not> reachable_client send_ok s p" "set hs \<subseteq> {(client_handle (info_of_client s p), data)}"
    and "sent_to_one send_ok data ty ((drop_clients {p} s)\<lparr>attempts := attempts s @ hs\<rparr>) ok s'"
  shows "sent_to_one send_ok data ty s ok s'"
proof -
  let ?s = "(drop_clients {p} s)\<lparr>attempts := attempts s @ hs\<rparr>"
  have info: "info_of_client ?s q = info_of_client s q" "reachable_client send_ok ?s q = reachable_client send_ok s q" if "q \<noteq> p" for q
    using that by (simp_all add: info_of_client_def reachable_client_def)
  have v: "set (vec ty ?s) = set (vec ty s) - {p}" by (auto simp: vec_drop)
  from assms(4) obtain D hs' where D: "D \<subseteq> {q \<in> set (vec ty ?s). \<not> reachable_client send_ok ?s q}"
    "s' = (drop_clients D ?s)\<lparr>attempts := attempts ?s @ hs'\<rparr>"
    "if ok then \<exists>q \<in> set (vec ty ?s). reachable_client send_ok ?s q \<and> hs' \<noteq> [] \<and> last hs' = (client_handle (info_of_client ?s q), data) \<and>
        set (butlast hs') \<subseteq> (\<lambda>q. (client_handle (info_of_client ?s q), data)) ` D
     else D = set (vec ty ?s)"
    unfolding sent_to_one_def by blast
  let ?D = "{p} \<union> D"
  have "?D \<subseteq> {q \<in> set (vec ty s). \<not> reachable_client send_ok s q}" using D(1) v info(2) assms(1,2) by blast
  moreover have "s' = (drop_clients ?D s)\<lparr>attempts := attempts s @ (hs @ hs')\<rparr>"
    using D(2) by (simp add: drop_clients_attempts drop_clients_drop)
  moreover have "if ok then \<exists>q \<in> set (vec ty s). reachable_client send_ok s q \<and> hs @ hs' \<noteq> [] \<and>
        last (hs @ hs') = (client_handle (info_of_client s q), data) \<and>
        set (butlast (hs @ hs')) \<subseteq> (\<lambda>q. (client_handle (info_of_client s q), data)) ` ?D
      else ?D = set (vec ty s)"
  proof (cases ok)
    case True
    from D(3) True obtain q where q: "q \<in> set (vec ty ?s)" "reachable_client send_ok ?s q" "hs' \<noteq> []"
      "last hs' = (client_handle (info_of_client ?s q), data)" "set (butlast hs') \<subseteq> (\<lambda>q. (client_handle (info_of_client ?s q), data)) ` D" by auto
    have "q \<noteq> p" using q(1) v by blast
    moreover have "(\<lambda>q. (client_handle (info_of_client ?s q), data)) ` D = (\<lambda>q. (client_handle (info_of_client s q), data)) ` D"
      using D(1) v info(1) by (intro image_cong) auto
    ultimately have "reachable_client send_ok s q" "last (hs @ hs') = (client_handle (info_of_client s q), data)"
      "set (butlast (hs @ hs')) \<subseteq> (\<lambda>q. (client_handle (info_of_client s q), data)) ` ?D"
      using q assms(3) info by (auto simp: butlast_append)
    then show ?thesis using True q(1,3) v by auto
  next
    case False
    then show ?thesis using D(3) v assms(1) by auto
  qed
  ultimately show ?thesis unfolding sent_to_one_def by blast
qed

lemma send_any_correct:
  assumes "\<And>k n. 0 < n \<Longrightarrow> pick k n < n" "registry_ok s"
  shows "\<exists>s'. send_any send_ok data pick ty k s = Some (Inr (\<exists>p \<in> set (vec ty s). reachable_client send_ok s p, s')) \<and>
    sent_to_one send_ok data ty s (\<exists>p \<in> set (vec ty s). reachable_client send_ok s p) s'"
  using assms(2)
proof (induction "length (vec ty s)" arbitrary: s k rule: less_induct)
  case less
  show ?case
  proof (cases "vec ty s = []")
    case True
    then show ?thesis
      by (subst send_any.simps) (auto simp: sent_to_one_def drop_clients_empty intro!: exI [of _ "{}"] exI [of _ "[]"])
  next
    case False
    let ?p = "vec ty s ! pick k (length (vec ty s))"
    have p: "?p \<in> set (vec ty s)" using assms(1) False by simp
    then have "?p \<in> set (all_clients s)" using vec_all_clients by blast
    from less.prems this show ?thesis
    proof (cases rule: sendTo_cases [where send_ok = send_ok and data = data])
      case sent
      then have "send_any send_ok data pick ty k s = Some (Inr (True, attempt data (client_handle (info_of_client s ?p)) s))"
        using False by (subst send_any.simps) simp
      moreover have "sent_to_one send_ok data ty s True (attempt data (client_handle (info_of_client s ?p)) s)"
        unfolding sent_to_one_def using p sent(2)
        by (intro exI [of _ "{}"] exI [of _ "[(client_handle (info_of_client s ?p), data)]"]) (auto simp: attempt_def drop_clients_empty)
      moreover have "(\<exists>p \<in> set (vec ty s). reachable_client send_ok s p) = True" using p sent(2) by blast
      ultimately show ?thesis by auto
    next
      case (gone hs)
      let ?s = "(drop_clients {?p} s)\<lparr>attempts := attempts s @ hs\<rparr>"
      have v: "vec ty ?s = filter (\<lambda>q. q \<noteq> ?p) (vec ty s)" by (simp add: vec_drop)
      then have "length (vec ty ?s) < length (vec ty s)" using p by (simp add: length_filter_less)
      from less.hyps [OF this, of "Suc k"] obtain s' where
        s': "send_any send_ok data pick ty (Suc k) ?s = Some (Inr (\<exists>q \<in> set (vec ty ?s). reachable_client send_ok ?s q, s'))"
        "sent_to_one send_ok data ty ?s (\<exists>q \<in> set (vec ty ?s). reachable_client send_ok ?s q) s'"
        using less.prems by (auto simp: registry_ok_drop)
      have "reachable_client send_ok ?s q = reachable_client send_ok s q" if "q \<noteq> ?p" for q
        using that by (simp add: reachable_client_def info_of_client_def)
      then have "(\<exists>q \<in> set (vec ty ?s). reachable_client send_ok ?s q) = (\<exists>q \<in> set (vec ty s). reachable_client send_ok s q)"
        unfolding v using gone(2) by auto
      moreover have "send_any send_ok data pick ty k s = send_any send_ok data pick ty (Suc k) ?s"
        using False gone(1) by (subst send_any.simps) simp
      ultimately show ?thesis using s' sent_to_one_step [OF p gone(2,3)] by auto
    qed
  qed
qed

lemma send_copy_all_ok:
  assumes "registry_core s" "set ps \<subseteq> set (all_clients s)" "\<forall>p \<in> set ps. send_ok (client_handle (info_of_client s p))"
  shows "send_copy send_ok data ty ps s =
    Some (Inr (s\<lparr>attempts := attempts s @ map (\<lambda>p. (client_handle (info_of_client s p), data)) ps\<rparr>))"
  using assms
proof (induction ps arbitrary: s)
  case Nil
  then show ?case by (subst send_copy.simps) simp
next
  case (Cons p ps)
  obtain info where info: "objects s p = Some info" using registry_coreD(3) [OF Cons.prems(1)] Cons.prems(2) by auto
  let ?s = "attempt data (client_handle info) s"
  have i: "info_of_client ?s = info_of_client s" by (simp add: info_of_client_def attempt_def fun_eq_iff)
  have "send_copy send_ok data ty ps ?s = Some (Inr (?s\<lparr>attempts := attempts ?s @ map (\<lambda>p. (client_handle (info_of_client ?s p), data)) ps\<rparr>))"
    using Cons.prems i by (intro Cons.IH) (simp_all add: attempt_def)
  then show ?case using info Cons.prems(3) unfolding i by (subst send_copy.simps) (simp add: info_of_client_def attempt_def)
qed

lemma send_copy_failure:
  assumes "registry_core s" "set ps \<subseteq> set (vec ty s)" "\<exists>p \<in> set ps. \<not> send_ok (client_handle (info_of_client s p))"
  shows "send_copy send_ok data ty ps s = Some (Inl NullDeref)"
  using assms
proof (induction ps arbitrary: s)
  case (Cons p ps)
  have pv: "p \<in> set (vec ty s)" using Cons.prems(2) by simp
  obtain info where info: "objects s p = Some info" by (rule vec_object [OF Cons.prems(1) pv])
  let ?s = "attempt data (client_handle info) s"
  show ?case
  proof (cases "send_ok (client_handle info)")
    case True
    have i: "info_of_client ?s = info_of_client s" by (simp add: info_of_client_def attempt_def fun_eq_iff)
    have "send_copy send_ok data ty ps ?s = Some (Inl NullDeref)"
      using Cons.prems True info i by (intro Cons.IH) (auto simp: attempt_def info_of_client_def)
    then show ?thesis using True info by (subst send_copy.simps) simp
  next
    case False
    have "removeClientOfType ty p ?s = Inr (drop_clients {p} ?s)"
      using Cons.prems(1) pv by (intro removeClientOfType_drop) (simp_all add: attempt_def)
    moreover have "send_copy send_ok data ty (p # ps) (drop_clients {p} ?s) = Some (Inl NullDeref)"
      by (subst send_copy.simps) simp
    ultimately show ?thesis using False info by (subst send_copy.simps) simp
  qed
qed simp

section \<open>Every operation keeps the invariant\<close>

lemma insert_key_keys: "fst ` set (insert_key ty m) = insert ty (fst ` set m)"
  by (induction ty m rule: insert_key.induct) auto

lemma insert_key_sorted: "sorted_wrt (<) (map fst m) \<Longrightarrow> sorted_wrt (<) (map fst (insert_key ty m))"
proof (induction ty m rule: insert_key.induct)
  case (2 ty k v m)
  have "\<forall>x \<in> fst ` set (insert_key ty m). k < x" if "\<not> ty < k" "ty \<noteq> k"
    using that 2(2) unfolding insert_key_keys by auto
  then show ?case using 2 by auto
qed simp

lemma insert_key_concat: "concat (map snd (insert_key ty m)) = concat (map snd m)"
  by (induction ty m rule: insert_key.induct) auto

lemma insert_key_entries: "set (insert_key ty m) \<subseteq> insert (ty, []) (set m)"
  by (induction ty m rule: insert_key.induct) auto

lemma push_back_clients:
  "distinct (map fst m) \<Longrightarrow> ty \<in> fst ` set m \<Longrightarrow>
   mset (concat (map snd (map (\<lambda>(k, v). (k, if k = ty then v @ [p] else v)) m))) = add_mset p (mset (concat (map snd m)))"
proof (induction m)
  case (Cons e m)
  obtain k v where e: "e = (k, v)" by force
  show ?case
  proof (cases "k = ty")
    case True
    then have "map (\<lambda>(k, v). (k, if k = ty then v @ [p] else v)) m = m" using Cons.prems e by (force intro: map_idI)
    then show ?thesis using True e by simp
  next
    case False
    then show ?thesis using Cons e by auto
  qed
qed simp

lemma registry_core_closed [simp]: "registry_core (s\<lparr>closed := c\<rparr>) = registry_core s"
  by (simp add: registry_core_def all_clients_def)

lemma add_client_core:
  assumes "registry_core s" "clientUuidMap s u = None"
  shows "registry_core (add_client h ty name u s)"
proof -
  note ok = registry_coreD [OF assms(1)]
  let ?p = "next_object s" and ?s = "add_client h ty name u s"
  let ?m = "insert_key ty (clientMap s)"
  have fresh: "objects s ?p = None" using ok(6) [of ?p] by fastforce
  have map: "clientMap ?s = map (\<lambda>(k, v). (k, if k = ty then v @ [?p] else v)) ?m"
    by (simp add: add_client_def Let_def update_vec_def)
  have sorted: "sorted_wrt (<) (map fst ?m)" by (rule insert_key_sorted [OF ok(1)])
  have "mset (all_clients ?s) = add_mset ?p (mset (concat (map snd ?m)))"
    unfolding all_clients_def map using sorted by (intro push_back_clients) (simp_all add: strict_sorted_iff insert_key_keys)
  then have clients: "mset (all_clients ?s) = add_mset ?p (mset (all_clients s))"
    by (simp add: insert_key_concat all_clients_def)
  then have set: "set (all_clients ?s) = insert ?p (set (all_clients s))" by (metis set_mset_add_mset_insert set_mset_mset)
  obtain info where obj: "objects ?s = (objects s)(?p \<mapsto> info)" "client_type info = ty" "client_uuid info = u"
    by (simp add: add_client_def Let_def update_vec_def)
  have uuid: "clientUuidMap ?s = (clientUuidMap s)(u \<mapsto> ?p)" "next_object ?s = Suc ?p"
    by (simp_all add: add_client_def Let_def update_vec_def)
  have pn: "?p \<notin> set (all_clients s)" using fresh ok(3) by auto
  show ?thesis unfolding registry_core_def
  proof (intro conjI)
    show "sorted_wrt (<) (map fst (clientMap ?s))" using sorted by (simp add: map comp_def case_prod_beta)
    have "distinct (?p # all_clients s)" using ok(2) pn by simp
    then show "distinct (all_clients ?s)" using clients mset_eq_imp_distinct_iff [of "?p # all_clients s"] by simp
    show "dom (objects ?s) = set (all_clients ?s)" using obj(1) set ok(3) by simp
    show "\<forall>(k, v) \<in> set (clientMap ?s). \<forall>p \<in> set v. \<forall>i. objects ?s p = Some i \<longrightarrow> client_type i = k"
    proof (clarify)
      fix k v p i assume kv: "(k, v) \<in> set (clientMap ?s)" "p \<in> set v" "objects ?s p = Some i"
      then obtain w where w: "(k, w) \<in> set ?m" "v = (if k = ty then w @ [?p] else w)" unfolding map by auto
      show "client_type i = k"
      proof (cases "p \<in> set w")
        case True
        then have "(k, w) \<in> set (clientMap s)" using w(1) insert_key_entries by fastforce
        moreover from this True have "p \<in> set (all_clients s)" unfolding all_clients_def by force
        ultimately show ?thesis using ok(4) True kv(3) obj(1) pn by (metis fun_upd_other)
      next
        case False
        then show ?thesis using w(2) kv(2,3) obj by (auto split: if_split_asm)
      qed
    qed
    show "\<forall>u' p. clientUuidMap ?s u' = Some p \<longleftrightarrow> (\<exists>i. objects ?s p = Some i \<and> client_uuid i = u')"
      using ok(5) assms(2) fresh unfolding obj(1) uuid by (auto simp: obj(3)) (metis option.distinct(1))+
    show "\<forall>p \<in> dom (objects ?s). p < next_object ?s" using ok(6) unfolding obj(1) uuid by (auto simp: less_Suc_eq)
  qed
qed

section \<open>Operations and histories\<close>

text \<open>
  The operations between two connections. Their only effects on the clients are removals, which a state \<open>shrunk\<close>
  from another one describes.
\<close>

inductive server_op :: "server \<Rightarrow> server \<Rightarrow> bool" where
  clear: "clear_aborted s = Some (Inr s') \<Longrightarrow> server_op s s'"
| uuids: "getUuidForUnitType ty s = Some (Inr (us, s')) \<Longrightarrow> server_op s s'"
| send: "p \<in> set (all_clients s) \<Longrightarrow> sendTo send_ok data p s = Inr (ok, s') \<Longrightarrow> server_op s s'"
| all: "sendToAll send_ok data s = Some (Inr s') \<Longrightarrow> server_op s s'"
| all_of_type: "sendToAllOfType send_ok data ty s = Some (Inr s') \<Longrightarrow> server_op s s'"
| any_of_type: "\<forall>k n. 0 < n \<longrightarrow> pick k n < n \<Longrightarrow> sendToAnyOfType send_ok data pick ty s = Some (Inr (ok, s')) \<Longrightarrow> server_op s s'"
| reroute: "rerouteToAnyOfType send_ok data idx ty original s = Inr (ok, s') \<Longrightarrow> server_op s s'"
| remove: "p \<in> set (all_clients s) \<Longrightarrow> removeClient p s = Inr s' \<Longrightarrow> server_op s s'"
| remove_of_type: "p \<in> set (vec ty s) \<Longrightarrow> removeClientOfType ty p s = Inr s' \<Longrightarrow> server_op s s'"

text \<open>
  A step is an operation, a connection, or a receiver thread that marks a client whose connection has ended. Nothing
  is assumed about the handle of a new connection: a client that was registered although its handle had been closed may
  find its handle given to a later one.
\<close>

inductive server_step :: "server \<Rightarrow> server \<Rightarrow> bool" where
  connect: "connect_callback h answer answers s = Inr s' \<Longrightarrow> server_step s s'"
| disconnected: "objects s p = Some info \<Longrightarrow> server_step s (s\<lparr>objects := (objects s)(p \<mapsto> info\<lparr>client_abort := True\<rparr>)\<rparr>)"
| operate: "server_op s s' \<Longrightarrow> server_step s s'"

definition shrunk :: "server \<Rightarrow> server \<Rightarrow> bool" where
  "shrunk s s' \<longleftrightarrow> (\<exists>D as. s' = (drop_clients D s)\<lparr>attempts := as\<rparr>)"

lemma shrunk_refl [simp]: "shrunk s s"
  unfolding shrunk_def by (rule exI [of _ "{}"], rule exI [of _ "attempts s"]) (simp add: drop_clients_empty)

lemma shrunk_attempts [simp]: "shrunk s (s\<lparr>attempts := as\<rparr>)"
  unfolding shrunk_def by (rule exI [of _ "{}"], rule exI [of _ as]) (simp add: drop_clients_empty)

lemma shrunk_drop [simp]: "shrunk s (drop_clients D s)" "shrunk s ((drop_clients D s)\<lparr>attempts := as\<rparr>)"
  unfolding shrunk_def using drop_clients_attempts [of D "attempts s" s] by (metis drop_clients_fields(1) server.surjective server.update_convs(5), blast)

lemma shrunk_trans: "shrunk s s' \<Longrightarrow> shrunk s' s'' \<Longrightarrow> shrunk s s''"
  unfolding shrunk_def by (metis drop_clients_attempts drop_clients_drop server.update_convs(5) server.surjective)

lemma shrunk_ok:
  assumes "shrunk s s'"
  shows "registry_core s \<Longrightarrow> registry_core s'" "distinct_handles s \<Longrightarrow> distinct_handles s'" "registry_ok s \<Longrightarrow> registry_ok s'"
  using assms by (auto simp: shrunk_def registry_core_drop distinct_handles_drop registry_ok_drop)

lemma sendTo_shrunk:
  assumes "registry_core s" "sendTo send_ok data p s = Inr (ok, s')"
  shows "shrunk s s' \<and> (\<not> ok \<longrightarrow> length (all_clients s') < length (all_clients s))"
proof -
  obtain info where info: "objects s p = Some info" using assms(2) by (cases "objects s p") (auto simp: sendTo_def deref_def)
  then have p: "p \<in> set (all_clients s)" using registry_coreD(3) [OF assms(1)] by blast
  have gone: "\<exists>q. q \<in> set (all_clients s) \<and> removeClient p (s\<lparr>attempts := as\<rparr>) = Inr (drop_clients {q} (s\<lparr>attempts := as\<rparr>))" for as
    using removeClient_find [of "s\<lparr>attempts := as\<rparr>" p] assms(1) p by auto
  have less: "length (filter (\<lambda>r. r \<noteq> q) (all_clients s)) < length (all_clients s)" if "q \<in> set (all_clients s)" for q
    using that by (simp add: length_filter_less)
  from assms(2) info show ?thesis
    using gone [of "attempts s"] gone [of "attempts s @ [(client_handle info, data)]"] less
    by (auto simp: sendTo_def deref_def attempt_def Let_def all_clients_drop drop_clients_attempts split: if_split_asm)
qed

lemma send_any_shrunk:
  "registry_core s \<Longrightarrow> send_any send_ok data pick ty k s = Some (Inr (ok, s')) \<Longrightarrow> shrunk s s'"
proof (induction "length (all_clients s)" arbitrary: s k rule: less_induct)
  case less
  show ?case
  proof (cases "vec ty s = []")
    case True
    then show ?thesis using less.prems(2) by (subst (asm) send_any.simps) simp
  next
    case False
    obtain ok1 s1 where s1: "sendTo send_ok data (vec ty s ! pick k (length (vec ty s))) s = Inr (ok1, s1)"
      using less.prems(2) False by (subst (asm) send_any.simps) (auto split: sum.split_asm)
    note sh = sendTo_shrunk [OF less.prems(1) s1]
    show ?thesis
    proof (cases ok1)
      case True
      then show ?thesis using less.prems(2) False s1 sh by (subst (asm) send_any.simps) simp
    next
      case failed: False
      have "send_any send_ok data pick ty (Suc k) s1 = Some (Inr (ok, s'))"
        using less.prems(2) False s1 failed by (subst (asm) send_any.simps) simp
      moreover have "registry_core s1" using shrunk_ok(1) sh less.prems(1) by blast
      ultimately have "shrunk s1 s'" using less.hyps sh failed by blast
      then show ?thesis using shrunk_trans sh by blast
    qed
  qed
qed

lemma find_and_send_shrunk:
  "registry_core s \<Longrightarrow> find_and_send send_ok data original ty i stop_at s = Inr (ok, s') \<Longrightarrow> shrunk s s'"
proof (induction send_ok data original ty i stop_at s rule: find_and_send.induct)
  case (1 send_ok data original ty i stop_at s)

  note res = "1.prems"(2) [unfolded find_and_send.simps [of send_ok data original ty i stop_at s]]
  show ?case
  proof (cases "stop_at \<le> i")
    case True
    then show ?thesis using res by simp
  next
    case more: False
    then obtain info where info: "i < length (vec ty s)" "objects s (vec ty s ! i) = Some info"
      using res by (auto simp: deref_def split: if_split_asm option.split_asm)
    show ?thesis
    proof (cases "client_uuid info = original")
      case True
      then show ?thesis using "1.IH"(1) [of info] "1.prems"(1) res more info by (simp add: deref_def)
    next
      case False
      then obtain ok1 s1 where s1: "sendTo send_ok data (vec ty s ! i) s = Inr (ok1, s1)"
        "if ok1 then ok \<and> s' = s1 else find_and_send send_ok data original ty (Suc i) stop_at s1 = Inr (ok, s')"
        using res more info by (auto simp: deref_def bindE_Inr_iff split: if_split_asm)
      have sh: "shrunk s s1" using sendTo_shrunk [OF "1.prems"(1) s1(1)] by blast
      show ?thesis
      proof (cases ok1)
        case True
        then show ?thesis using s1(2) sh by simp
      next
        case failed: False
        then have "shrunk s1 s'"
          using "1.IH"(2) [of info "(ok1, s1)" ok1 s1] shrunk_ok(1) [OF sh "1.prems"(1)] s1 False more info by (simp add: deref_def)
        then show ?thesis by (rule shrunk_trans [OF sh])
      qed
    qed
  qed
qed

lemma reroute_shrunk:
  assumes "registry_core s" "rerouteToAnyOfType send_ok data idx ty original s = Inr (ok, s')"
  shows "shrunk s s'"
proof (cases "\<not> hasClients s \<or> \<not> contains ty s \<or> vec ty s = []")
  case True
  then show ?thesis using assms(2) by (auto simp: rerouteToAnyOfType_def)
next
  case False
  then obtain ok1 s1 where s1: "find_and_send send_ok data original ty idx (length (vec ty s)) s = Inr (ok1, s1)"
    "s' = s1 \<or> find_and_send send_ok data original ty 0 idx s1 = Inr (ok, s')"
    using assms(2) by (auto simp: rerouteToAnyOfType_def bindE_Inr_iff split: if_split_asm)
  have sh: "shrunk s s1" by (rule find_and_send_shrunk [OF assms(1) s1(1)])
  then show ?thesis using s1(2) find_and_send_shrunk [OF shrunk_ok(1) [OF sh assms(1)]] shrunk_trans by blast
qed

lemma clear_aborted_result:
  assumes "registry_core s"
  shows "clear_aborted s =
    Some (if \<exists>p \<in> set (all_clients s). client_abort (info_of_client s p) then Inl InvalidIterator else Inr s)"
  using sweep_all [OF assms, of client_abort "\<lambda>_. []"] by (simp add: clear_aborted_def comp_def)

lemma sendToAll_result:
  assumes "registry_core s"
  shows "sendToAll send_ok data s =
    Some (if \<forall>p \<in> set (all_clients s). send_ok (client_handle (info_of_client s p))
      then Inr (s\<lparr>attempts := attempts s @ map (\<lambda>p. (client_handle (info_of_client s p), data)) (all_clients s)\<rparr>)
      else Inl InvalidIterator)"
proof (cases "hasClients s")
  case True
  have "concat (map ((\<lambda>info. [(client_handle info, data)]) \<circ> info_of_client s) ps) = map (\<lambda>p. (client_handle (info_of_client s p), data)) ps" for ps
    by (induction ps) simp_all
  then show ?thesis using True
      sweep_all [OF assms, of "\<lambda>info. \<not> send_ok (client_handle info)" "\<lambda>info. [(client_handle info, data)]"]
    by (auto simp: sendToAll_def attempt_def)
next
  case False
  then have "all_clients s = []" by (auto simp: hasClients_def all_clients_def)
  then show ?thesis using False by (simp add: sendToAll_def)
qed

lemma getUuidForUnitType_same: "registry_core s \<Longrightarrow> getUuidForUnitType ty s = Some (Inr (us, s')) \<Longrightarrow> s' = s"
  by (auto simp: getUuidForUnitType_def clear_aborted_result bindE_Inr_iff split: if_split_asm)

lemma sendToAllOfType_attempts:
  assumes "registry_core s" "sendToAllOfType send_ok data ty s = Some (Inr s')"
  shows "shrunk s s'"
  using assms(2) send_copy_all_ok [OF assms(1), of "vec ty s" send_ok data ty] send_copy_failure [OF assms(1), of "vec ty s" ty send_ok data]
    vec_all_clients [of ty s]
  by (cases "\<forall>p \<in> set (vec ty s). send_ok (client_handle (info_of_client s p))") (auto simp: sendToAllOfType_def split: if_split_asm)

lemma server_op_shrunk: "server_op s s' \<Longrightarrow> registry_core s \<Longrightarrow> shrunk s s'"
proof (induction rule: server_op.induct)
  case (remove p s s')
  obtain q where "removeClient p s = Inr (drop_clients {q} s)" by (rule removeClient_find [OF remove(3,1)])
  then show ?case using remove(2) by simp
next
  case (any_of_type pick send_ok data ty s ok s')
  then show ?case using send_any_shrunk by (auto simp: sendToAnyOfType_def split: if_split_asm)
qed (auto simp: clear_aborted_result sendToAll_result removeClientOfType_drop split: if_split_asm
    dest: getUuidForUnitType_same sendTo_shrunk sendToAllOfType_attempts reroute_shrunk)

lemma resolve_uuid_core: "registry_core s \<Longrightarrow> registry_core (resolve_uuid h ty name u answers s)"
  by (induction h ty name u answers s rule: resolve_uuid.induct, subst resolve_uuid.simps)
    (auto simp: add_client_core drop_connection_def split: list.split option.split)

lemma connect_core:
  assumes "registry_core s" "connect_callback h answer answers s = Inr s'"
  shows "registry_core s'"
proof -
  have "registry_core (drop_connection h s)" using assms(1) by (simp add: drop_connection_def)
  then show ?thesis using assms resolve_uuid_core
    by (auto simp: connect_callback_def Let_def split: option.split_asm prod.split_asm if_split_asm)
qed

lemma disconnected_core:
  assumes "registry_core s" "objects s p = Some info"
  shows "registry_core (s\<lparr>objects := (objects s)(p \<mapsto> info\<lparr>client_abort := True\<rparr>)\<rparr>)"
proof -
  let ?s = "s\<lparr>objects := (objects s)(p \<mapsto> info\<lparr>client_abort := True\<rparr>)\<rparr>"
  note ok = registry_coreD [OF assms(1)]
  have old: "\<exists>i. objects s q = Some i \<and> client_type i = client_type j" if "objects ?s q = Some j" for q j
    using that assms(2) by (auto split: if_split_asm)
  show ?thesis unfolding registry_core_def
  proof (intro conjI)
    show "dom (objects ?s) = set (all_clients ?s)" using ok(3) assms(2) by (auto simp: all_clients_def)
    show "\<forall>(k, v) \<in> set (clientMap ?s). \<forall>q \<in> set v. \<forall>j. objects ?s q = Some j \<longrightarrow> client_type j = k"
    proof (clarify)
      fix k v q j assume a: "(k, v) \<in> set (clientMap ?s)" "q \<in> set v" "objects ?s q = Some j"
      from old [OF a(3)] obtain i where "objects s q = Some i" "client_type i = client_type j" by blast
      then show "client_type j = k" using ok(4) [of k v q i] a by simp
    qed
    show "\<forall>u q. clientUuidMap ?s u = Some q \<longleftrightarrow> (\<exists>j. objects ?s q = Some j \<and> client_uuid j = u)"
    proof (intro allI)
      fix u q
      have "(\<exists>j. objects ?s q = Some j \<and> client_uuid j = u) \<longleftrightarrow> (\<exists>i. objects s q = Some i \<and> client_uuid i = u)"
        using assms(2) by (cases "q = p") auto
      then show "clientUuidMap ?s u = Some q \<longleftrightarrow> (\<exists>j. objects ?s q = Some j \<and> client_uuid j = u)" using ok(5) [of u q] by simp
    qed
    show "\<forall>q \<in> dom (objects ?s). q < next_object ?s" using ok(6) assms(2) by auto
  qed (use ok(1,2) in \<open>simp_all add: all_clients_def\<close>)
qed

lemma server_step_core: "server_step s s' \<Longrightarrow> registry_core s \<Longrightarrow> registry_core s'"
  by (induction rule: server_step.induct) (auto intro: connect_core disconnected_core shrunk_ok(1) server_op_shrunk)

lemma new_server_ok: "registry_ok new_server"
  by (simp add: registry_ok_def registry_core_def distinct_handles_def new_server_def all_clients_def)

text \<open>
  A history is any sequence of steps up to the shutdown of the server. A run is a history in which no two clients are
  registered with the same handle at the same time; this is so as long as a new connection gets a handle that no
  registered client has.
\<close>

definition server_history :: "server \<Rightarrow> bool" where
  "server_history s \<longleftrightarrow> server_step\<^sup>*\<^sup>* new_server s"

definition server_run :: "server \<Rightarrow> bool" where
  "server_run s \<longleftrightarrow> (\<lambda>s s'. server_step s s' \<and> distinct_handles s')\<^sup>*\<^sup>* new_server s"

lemma server_history_core: "server_history s \<Longrightarrow> registry_core s"
  unfolding server_history_def
  by (induction rule: rtranclp_induct) (auto intro: registry_okD(1) [OF new_server_ok] server_step_core)

lemma server_run_history: "server_run s \<Longrightarrow> server_history s"
  unfolding server_run_def server_history_def by (erule rtranclp_mono [THEN predicate2D, rotated]) blast

lemma server_run_ok: "server_run s \<Longrightarrow> registry_ok s"
  unfolding registry_ok_def
proof
  show "server_run s \<Longrightarrow> registry_core s" using server_run_history server_history_core by blast
  assume "server_run s"
  then show "distinct_handles s" unfolding server_run_def
    by (induction rule: rtranclp_induct) (auto intro: registry_okD(2) [OF new_server_ok])
qed

lemma server_run_core: "server_run s \<Longrightarrow> registry_core s"
  by (rule registry_okD(1) [OF server_run_ok])

lemma server_run_step: "server_run s \<Longrightarrow> server_step s s' \<Longrightarrow> distinct_handles s' \<Longrightarrow> server_run s'"
  unfolding server_run_def by (rule rtranclp.rtrancl_into_rtrancl) simp_all

lemma server_run_op: "server_run s \<Longrightarrow> server_op s s' \<Longrightarrow> server_run s'"
  using server_run_step [OF _ server_step.operate] server_op_shrunk shrunk_ok(2) registry_okD(1,2) [OF server_run_ok] by blast

lemma distinct_handles_add:
  "distinct_handles s \<Longrightarrow> \<forall>p info. objects s p = Some info \<longrightarrow> client_handle info \<noteq> h \<Longrightarrow> distinct_handles (add_client h ty name u s)"
  by (auto simp: distinct_handles_def add_client_def Let_def update_vec_def split: if_split_asm)

lemma drop_connection_distinct [simp]: "distinct_handles (drop_connection h s) = distinct_handles s"
  by (simp add: drop_connection_def distinct_handles_def)

lemma resolve_uuid_distinct:
  "distinct_handles s \<Longrightarrow> \<forall>p info. objects s p = Some info \<longrightarrow> client_handle info \<noteq> h \<Longrightarrow>
   distinct_handles (resolve_uuid h ty name u answers s)"
  by (induction h ty name u answers s rule: resolve_uuid.induct, subst resolve_uuid.simps)
    (auto simp: distinct_handles_add drop_connection_distinct split: list.split option.split)

lemma server_run_connect:
  assumes "server_run s" "\<forall>p info. objects s p = Some info \<longrightarrow> client_handle info \<noteq> h" "connect_callback h answer answers s = Inr s'"
  shows "server_run s'"
proof (rule server_run_step [OF assms(1) server_step.connect [OF assms(3)]])
  have d: "distinct_handles s" using server_run_ok [OF assms(1)] by (simp add: registry_ok_def)
  then have "distinct_handles (drop_connection h s)" "objects (drop_connection h s) = objects s"
    by (simp_all add: drop_connection_def distinct_handles_def)
  then show "distinct_handles s'" using d assms(2,3) resolve_uuid_distinct
    by (auto simp: connect_callback_def Let_def split: option.split_asm prod.split_asm if_split_asm)
qed

text \<open>
  C30. The registry stays consistent up to the shutdown. After every sequence of connections, disconnections,
  removals, clean-ups, sends and reroutings, whatever handles the connections have, a UUID leads to a client exactly
  when that client is listed and carries the UUID, every listed client is a live object filed under its own unit type,
  and no client is listed twice. Shutting down deletes all clients but leaves the map of UUIDs as it was, so that
  every UUID registered before leads to a deleted client afterwards.
\<close>

theorem registry_invariant:
  assumes "server_history s"
  shows "(\<forall>u p. getClientByUuid u s = Some p \<longleftrightarrow> p \<in> set (all_clients s) \<and> client_uuid (info_of_client s p) = u) \<and>
    (\<forall>ty. \<forall>p \<in> set (vec ty s). \<exists>info. objects s p = Some info \<and> client_type info = ty) \<and>
    distinct (all_clients s) \<and>
    \<not> hasClients (closeConnection s) \<and> objects (closeConnection s) = Map.empty \<and>
    (\<forall>u. getClientByUuid u (closeConnection s) = getClientByUuid u s)"
proof (intro conjI allI ballI)
  note core = server_history_core [OF assms] and ok = registry_coreD [OF server_history_core [OF assms]]
  have info: "p \<in> set (all_clients s) \<longleftrightarrow> objects s p = Some (info_of_client s p)" for p
    unfolding ok(3) [symmetric] by (auto simp: info_of_client_def)
  show "getClientByUuid u s = Some p \<longleftrightarrow> p \<in> set (all_clients s) \<and> client_uuid (info_of_client s p) = u" for u p
    using ok(5) [of u p] info [of p] by (auto simp: getClientByUuid_def info_of_client_def)
  show "\<exists>info. objects s p = Some info \<and> client_type info = ty" if "p \<in> set (vec ty s)" for ty p
    using vec_object [OF core that] by blast
  show "distinct (all_clients s)" by (rule ok(2))
  have "sum_list (map (\<lambda>(_, v). length v) (map (\<lambda>(k, _). (k, [])) m)) = 0" for m :: "(32 word \<times> nat list) list"
    by (induction m) auto
  then show "\<not> hasClients (closeConnection s)" by (simp add: hasClients_def closeConnection_def)
  show "objects (closeConnection s) = Map.empty"
    using ok(3) by (auto simp: closeConnection_def fun_eq_iff)
  show "getClientByUuid u (closeConnection s) = getClientByUuid u s" for u
    by (simp add: closeConnection_def getClientByUuid_def)
qed

text \<open>
  C32. Broadcasting works exactly when every client accepts. If the sockets of all registered clients accept
  the data, \<open>sendToAll\<close> sends them to every client once, in registry order, and changes nothing else. As soon as one
  does not, its removal invalidates the iterator with which the loop goes on, and the behaviour is undefined.
\<close>

theorem sendToAll_correct:
  assumes "server_history s"
  shows "sendToAll send_ok data s =
    Some (if \<forall>p \<in> set (all_clients s). send_ok (client_handle (info_of_client s p))
      then Inr (s\<lparr>attempts := attempts s @ map (\<lambda>p. (client_handle (info_of_client s p), data)) (all_clients s)\<rparr>)
      else Inl InvalidIterator)"
  by (rule sendToAll_result [OF server_history_core [OF assms]])

text \<open>
  C33. A failed send may remove another client. When two registered clients share a handle, as after the
  registration of a client whose handle was closed, sending to the second one without success removes the first one:
  the client that failed stays registered, and the first client listed with its handle is gone.
\<close>

theorem shared_handle_removes_other:
  assumes "server_history s" "all_clients s = xs @ q # ys @ p # zs"
    and "client_handle (info_of_client s q) = client_handle (info_of_client s p)"
    and "\<forall>r \<in> set xs. client_handle (info_of_client s r) \<noteq> client_handle (info_of_client s p)" "\<not> reachable_client send_ok s p"
  shows "\<exists>s'. sendTo send_ok data p s = Inr (False, s') \<and> all_clients s' = xs @ ys @ p # zs \<and>
    getClientByUuid (client_uuid (info_of_client s q)) s' = None \<and> getClientByUuid (client_uuid (info_of_client s p)) s' = Some p"
proof -
  note core = server_history_core [OF assms(1)] and ok = registry_coreD [OF server_history_core [OF assms(1)]]
  have d: "q \<noteq> p" "q \<notin> set (xs @ ys @ zs)" using ok(2) assms(2) by auto
  obtain i j where ij: "objects s p = Some i" "objects s q = Some j" using ok(3) assms(2) by (metis domD in_set_conv_decomp append.assoc append_Cons)
  then have ii: "info_of_client s p = i" "info_of_client s q = j" by (simp_all add: info_of_client_def)
  have "find (\<lambda>r. client_handle (info_of_client s r) = client_handle (info_of_client s p)) (xs @ q # ys @ p # zs) = Some q"
    using assms(4) by (induction xs) (simp_all add: assms(3))
  then have first: "find (\<lambda>r. client_handle (info_of_client s r) = client_handle (info_of_client s p)) (all_clients s) = Some q"
    unfolding assms(2) .
  have rm: "removeClient p (s\<lparr>attempts := as\<rparr>) = Inr ((drop_clients {q} s)\<lparr>attempts := as\<rparr>)" for as
  proof -
    have "registry_core (s\<lparr>attempts := as\<rparr>)" "p \<in> set (all_clients (s\<lparr>attempts := as\<rparr>))" using core assms(2) by simp_all
    then obtain r where "find (\<lambda>r. client_handle (info_of_client s r) = client_handle (info_of_client s p)) (all_clients s) = Some r"
      "removeClient p (s\<lparr>attempts := as\<rparr>) = Inr (drop_clients {r} (s\<lparr>attempts := as\<rparr>))"
      by (rule removeClient_find) simp
    then show ?thesis using first by (simp add: drop_clients_attempts)
  qed
  let ?as = "if client_abort i then attempts s else attempts s @ [(client_handle i, data)]"
  let ?s = "(drop_clients {q} s)\<lparr>attempts := ?as\<rparr>"
  have "sendTo send_ok data p s = Inr (False, ?s)"
    using ij(1) rm [of "attempts s"] rm [of "attempts s @ [(client_handle i, data)]"] assms(5) ii(1)
    by (auto simp: sendTo_def deref_def attempt_def reachable_client_def)
  moreover have "filter (\<lambda>r. r \<noteq> q) (xs @ ys @ p # zs) = xs @ ys @ p # zs" using d by (intro filter_True) auto
  then have "all_clients ?s = xs @ ys @ p # zs" using assms(2) by (simp add: all_clients_drop)
  moreover have "clientUuidMap s (client_uuid j) = Some q" "clientUuidMap s (client_uuid i) = Some p" using ok(5) ij by blast+
  ultimately show ?thesis using d ii by (intro exI [of _ ?s]) (auto simp: getClientByUuid_def drop_clients_def)
qed

text \<open>
  C34. Sending to any client of a type finds one if there is one. Whatever random choices are made, and provided no
  two registered clients share a handle, \<open>sendToAnyOfType\<close> returns; it succeeds exactly when some client of the type can be reached, in which case
  the last attempt went to such a client and all attempts before went to clients now removed, and otherwise
  every client of the type has been removed. No other client is affected.
\<close>

theorem sendToAnyOfType_correct:
  assumes "server_run s" "\<And>k n. 0 < n \<Longrightarrow> pick k n < n"
  shows "\<exists>s'. sendToAnyOfType send_ok data pick ty s = Some (Inr (\<exists>p \<in> set (vec ty s). reachable_client send_ok s p, s')) \<and>
    sent_to_one send_ok data ty s (\<exists>p \<in> set (vec ty s). reachable_client send_ok s p) s'"
proof (cases "hasClients s \<and> contains ty s")
  case True
  then show ?thesis using send_any_correct [OF assms(2) server_run_ok [OF assms(1)]] by (simp add: sendToAnyOfType_def)
next
  case False
  have "vec ty s = []"
  proof (rule ccontr)
    assume "vec ty s \<noteq> []"
    then obtain p where "p \<in> set (vec ty s)" by (cases "vec ty s") auto
    then show False using vec_nonempty False by blast
  qed
  then show ?thesis using False
    by (auto simp: sendToAnyOfType_def sent_to_one_def drop_clients_empty intro!: exI [of _ "{}"] exI [of _ "[]"])
qed

text \<open>
  C36. Broadcasting to one type breaks on the first dead client. Whatever the server has done before, when every
  client of the type accepts the data, \<open>sendToAllOfType\<close> sends to each of them; as soon as one does not, the loop uses the
  client information it has just deleted.
\<close>

theorem sendToAllOfType_failure:
  assumes "server_history s" "vec ty s \<noteq> []"
  shows "sendToAllOfType send_ok data ty s =
    Some (if \<forall>p \<in> set (vec ty s). send_ok (client_handle (info_of_client s p))
          then Inr (s\<lparr>attempts := attempts s @ map (\<lambda>p. (client_handle (info_of_client s p), data)) (vec ty s)\<rparr>)
          else Inl NullDeref)"
proof -
  note reg = server_history_core [OF assms(1)]
  obtain p where "p \<in> set (vec ty s)" using assms(2) by (cases "vec ty s") auto
  then have "contains ty s" "hasClients s" by (rule vec_nonempty)+
  then show ?thesis
    using send_copy_all_ok [OF reg vec_all_clients, of ty send_ok data ty] send_copy_failure [OF reg subset_refl, of ty send_ok data]
    by (auto simp: sendToAllOfType_def)
qed

text \<open>
  Rerouting runs past the end of the client list. With two clients of a type, when the first one tried
  is at the front, is not the original recipient and cannot be reached, \<open>rerouteToAnyOfType\<close> indexes the
  shortened list out of range instead of trying the second client.
\<close>

theorem reroute_overruns:
  assumes "server_run s" "vec ty s = [p, q]" "client_uuid (info_of_client s p) \<noteq> original" "\<not> reachable_client send_ok s p"
  shows "rerouteToAnyOfType send_ok data 0 ty original s = Inl OutOfRange"
proof -
  note reg = server_run_ok [OF assms(1)]
  have p: "p \<in> set (vec ty s)" "p \<in> set (all_clients s)" using assms(2) vec_all_clients [of ty s] by auto
  note has = vec_nonempty [OF p(1)]
  obtain info where info: "objects s p = Some info" by (rule vec_object [OF registry_okD(1) [OF reg] p(1)])
  have neq: "q \<noteq> p" using distinct_vec [OF registry_okD(1) [OF reg], of ty] assms(2) by auto
  from reg p(2) show ?thesis
  proof (cases rule: sendTo_cases [where send_ok = send_ok and data = data])
    case sent
    then show ?thesis using assms(4) by simp
  next
    case (gone hs)
    let ?s = "(drop_clients {p} s)\<lparr>attempts := attempts s @ hs\<rparr>"
    have "find_and_send send_ok data original ty (Suc 0) 2 ?s = Inl OutOfRange"
      using assms(2) neq by (subst find_and_send.simps) (simp add: vec_drop)
    then have "find_and_send send_ok data original ty 0 2 s = Inl OutOfRange"
      using gone(1) info assms(2,3) by (subst find_and_send.simps) (simp add: deref_def info_of_client_def)
    then show ?thesis using has assms(2) by (simp add: rerouteToAnyOfType_def numeral_2_eq_2)
  qed
qed

section \<open>A concrete server\<close>

text \<open>Two compute units (type 2) with handles 4 and 5.\<close>

definition unit_answer :: "64 word \<Rightarrow> TCPMetaInfo" where
  "unit_answer u = TCPMetaInfo_default\<lparr>package_type := 5, src_uuid := u\<rparr>"

definition demo_server :: server where
  "demo_server = add_client 5 2 ''b'' 22 (add_client 4 2 ''a'' 11 new_server)"

lemma connect_unit:
  "clientUuidMap s u = None \<Longrightarrow> connect_callback h (Some (unit_answer u, 40, ty, name)) [] s = Inr (add_client h ty name u s)"
  by (simp add: connect_callback_def unit_answer_def TCPMetaInfo_default_def bytesize_def meta_size_def resolve_uuid.simps)

lemma server_run_add:
  assumes "server_run s" "clientUuidMap s u = None" "\<forall>p info. objects s p = Some info \<longrightarrow> client_handle info \<noteq> h"
  shows "server_run (add_client h ty name u s)"
  by (rule server_run_connect [OF assms(1,3) connect_unit [OF assms(2)]])

lemma server_run_new: "server_run new_server"
  by (simp add: server_run_def)

lemma demo_server_run: "server_run demo_server"
  unfolding demo_server_def
  by (intro server_run_add server_run_new) (simp_all add: add_client_def Let_def update_vec_def new_server_def)

text \<open>
  The first unit answered with a wrong package type: its handle 4 was closed, but it is registered. The next connection
  gets the handle 4 again.
\<close>

definition shared_server :: server where
  "shared_server = add_client 4 2 ''b'' 22 (add_client 4 2 ''a'' 11 (drop_connection 4 new_server))"

lemma shared_server_history: "server_history shared_server"
proof -
  let ?s = "add_client 4 2 ''a'' 11 (drop_connection 4 new_server)"
  have "connect_callback 4 (Some (unit_answer 11\<lparr>package_type := 4\<rparr>, 40, 2, ''a'')) [] new_server = Inr ?s"
    by (simp add: connect_callback_def unit_answer_def TCPMetaInfo_default_def bytesize_def meta_size_def resolve_uuid.simps
        new_server_def drop_connection_def)
  moreover have "connect_callback 4 (Some (unit_answer 22, 40, 2, ''b'')) [] ?s = Inr shared_server" unfolding shared_server_def
    by (rule connect_unit) (simp add: add_client_def Let_def update_vec_def new_server_def drop_connection_def)
  ultimately show ?thesis unfolding server_history_def
    by (meson converse_rtranclp_into_rtranclp r_into_rtranclp server_step.connect)
qed

lemmas demo_server_defs = demo_server_def add_client_def Let_def update_vec_def new_server_def vec_def all_clients_def
  info_of_client_def reachable_client_def getClientByUuid_def

theorem registry_invariant_witness:
  "getClientByUuid 22 shared_server = Some 1 \<and> (\<exists>info. objects shared_server 1 = Some info \<and> client_type info = 2) \<and>
   getClientByUuid 22 (closeConnection shared_server) = Some 1 \<and> objects (closeConnection shared_server) 1 = None"
  using registry_invariant [OF shared_server_history]
  by (simp add: demo_server_defs shared_server_def drop_connection_def)

theorem sendToAll_correct_witness:
  "sendToAll (\<lambda>h. True) [7] demo_server = Some (Inr (demo_server\<lparr>attempts := [(4, [7]), (5, [7])]\<rparr>)) \<and>
   sendToAll (\<lambda>h. h = 5) [7] demo_server = Some (Inl InvalidIterator)"
  using sendToAll_correct [OF server_run_history [OF demo_server_run], of "\<lambda>h. True" "[7]"]
    sendToAll_correct [OF server_run_history [OF demo_server_run], of "\<lambda>h. h = 5" "[7]"]
  by (simp add: demo_server_defs)

theorem shared_handle_removes_other_witness:
  "\<exists>s. sendTo (\<lambda>h. False) [7] 1 shared_server = Inr (False, s) \<and> all_clients s = [1] \<and> getClientByUuid 11 s = None"
proof -
  have "all_clients shared_server = [] @ 0 # [] @ 1 # []" "client_uuid (info_of_client shared_server 0) = 11"
    "client_handle (info_of_client shared_server 0) = client_handle (info_of_client shared_server 1)"
    "\<not> reachable_client (\<lambda>h. False) shared_server 1"
    by (simp_all add: demo_server_defs shared_server_def drop_connection_def)
  then show ?thesis using shared_handle_removes_other [OF shared_server_history, of "[]" 0 "[]" 1 "[]" "\<lambda>h. False" "[7]"] by auto
qed

theorem sendToAnyOfType_correct_witness:
  "\<exists>s. sendToAnyOfType (\<lambda>h. h = 5) [7] (\<lambda>k n. 0) 2 demo_server = Some (Inr (True, s)) \<and> sent_to_one (\<lambda>h. h = 5) [7] 2 demo_server True s"
proof -
  have "(\<exists>p \<in> set (vec 2 demo_server). reachable_client (\<lambda>h. h = 5) demo_server p) = True" by (simp add: demo_server_defs)
  then show ?thesis using sendToAnyOfType_correct [OF demo_server_run, of "\<lambda>k n. 0" "\<lambda>h. h = 5" "[7]" 2] by auto
qed

theorem sendToAllOfType_failure_witness:
  "sendToAllOfType (\<lambda>h. h = 5) [7] 2 demo_server = Some (Inl NullDeref)"
  using sendToAllOfType_failure [OF server_run_history [OF demo_server_run], of 2 "\<lambda>h. h = 5" "[7]"] by (simp add: demo_server_defs)

theorem reroute_overruns_witness:
  "rerouteToAnyOfType (\<lambda>h. h = 5) [7] 0 2 99 demo_server = Inl OutOfRange"
  using reroute_overruns [OF demo_server_run, of 2 0 1 99 "\<lambda>h. h = 5" "[7]"] by (simp add: demo_server_defs)

end
