(* ===== verification/WorkItems.thy ===== *)
theory WorkItems
  imports PostProcess "HOL-Library.Multiset"
begin

text \<open>
  \<^verbatim>\<open>include/Translator.hpp\<close>: a physical plan becomes a list of work items, one per node, in an order
  that puts every item after the items it depends on. The messages mirror \<^verbatim>\<open>proto/WorkItem.proto\<close>: an
  optional field is an \<open>option\<close>, a repeated one a list, a \<^verbatim>\<open>oneof\<close> a datatype.
\<close>

section \<open>Messages\<close>

datatype ColumnType = TYPE_INTEGER | TYPE_FLOAT | TYPE_STRING | TYPE_BITMASK | TYPE_POSLIST | TYPE_PAIR_POSLIST

datatype CompType = COMP_LT | COMP_LE | COMP_EQ | COMP_GE | COMP_GT | COMP_NE | COMP_BETWEEN | COMP_IN | COMP_LIKE

datatype OperatorType =
    OP_FILTER | OP_IDXSCAN | OP_NLJ | OP_HASHJOIN | OP_MERGEJOIN | OP_AGGREGATE | OP_SETOPERATION | OP_SORT
  | OP_MAP | OP_MATERIALIZE | OP_GROUPBY | OP_RESULT

datatype StringOperation = STR_LOWER | STR_UPPER

datatype AggFunc = AGG_COUNT | AGG_SUM | AGG_MIN | AGG_MAX | AGG_AVG

datatype RelOp = REL_UNION | REL_INTERSECTION | REL_NEGATION

datatype ArithOp = ARITH_ADD | ARITH_SUB | ARITH_MUL | ARITH_DIV | ARITH_MOD

record ColumnMessage =
  tabName :: string
  colName :: string
  colType :: ColumnType
  isBase :: "bool option"

record FilterItem =
  filter_input :: ColumnMessage
  filter_output :: ColumnMessage
  filterType :: CompType
  filterValue :: "string list"
  stringOp :: "StringOperation list"
  compareColumn :: "ColumnMessage option"

record JoinItem =
  join_inner :: ColumnMessage
  join_outer :: ColumnMessage
  join_output :: ColumnMessage
  joinPredicate :: CompType
  produceInnerOutput :: "bool option"
  produceOuterOutput :: "bool option"

record AggItem =
  agg_item_input :: ColumnMessage
  agg_item_output :: ColumnMessage
  aggFunc :: AggFunc

record SetOperationItem =
  operation :: RelOp
  set_inner :: ColumnMessage
  set_outer :: ColumnMessage
  set_output :: ColumnMessage

record SortItem =
  sort_inputs :: "ColumnMessage list"
  sortOrder :: "bool list"
  indexOutput :: ColumnMessage

datatype partnerVal = PartnerColumn ColumnMessage | StaticVal string

record MapItem =
  map_input :: ColumnMessage
  map_item_output :: ColumnMessage
  operatorType :: ArithOp
  map_partner :: "partnerVal option"

record MultiGroupItem =
  groupColumns :: "ColumnMessage list"
  outputIndex :: ColumnMessage
  outputClusters :: ColumnMessage
  aggregationMessage :: ColumnMessage
  aggregationResultColumn :: ColumnMessage
  sortOrders :: "bool list"

record MaterializeItem =
  indexColumn :: ColumnMessage
  filterColumn :: ColumnMessage
  mat_output :: ColumnMessage

record ResultItem =
  filename :: string
  resultColumns :: "ColumnMessage list"
  resultHeader :: "string list"
  limitCount :: "32 word option"
  offsetCount :: "32 word option"

datatype opData =
    FilterData FilterItem | JoinData JoinItem | AggData AggItem | SetData SetOperationItem | SortData SortItem
  | MapData MapItem | MultiGroupData MultiGroupItem | MaterializeData MaterializeItem | ResultData ResultItem

record WorkItem =
  planId :: "32 word"
  itemId :: "32 word"
  dependsOn :: "32 word list"
  operatorId :: "OperatorType option"
  op_data :: "opData option"

record QueryPlan =
  plan_planid :: "32 word"
  planitems :: "WorkItem list"

section \<open>Conversions\<close>

fun columnTypeToProto :: "PlanColumnType \<Rightarrow> ColumnType" where
  "columnTypeToProto T_INTEGER = TYPE_INTEGER"
| "columnTypeToProto T_FLOAT = TYPE_FLOAT"
| "columnTypeToProto T_STRING = TYPE_STRING"
| "columnTypeToProto T_BITMASK = TYPE_BITMASK"
| "columnTypeToProto T_POSLIST = TYPE_POSLIST"
| "columnTypeToProto T_PAIR_POSLIST = TYPE_PAIR_POSLIST"

fun compTypeToProto :: "PlanCompType \<Rightarrow> CompType" where
  "compTypeToProto C_LT = COMP_LT"
| "compTypeToProto C_LE = COMP_LE"
| "compTypeToProto C_EQ = COMP_EQ"
| "compTypeToProto C_GE = COMP_GE"
| "compTypeToProto C_GT = COMP_GT"
| "compTypeToProto C_NE = COMP_NE"
| "compTypeToProto C_BETWEEN = COMP_BETWEEN"
| "compTypeToProto C_IN = COMP_IN"
| "compTypeToProto C_LIKE = COMP_LIKE"

fun stringOpToProto :: "PlanStringOp \<Rightarrow> StringOperation" where
  "stringOpToProto S_LOWER = STR_LOWER"
| "stringOpToProto S_UPPER = STR_UPPER"

fun relOpToProto :: "PlanLogicalRelOp \<Rightarrow> RelOp" where
  "relOpToProto R_UNION = REL_UNION"
| "relOpToProto R_INTERSECTION = REL_INTERSECTION"
| "relOpToProto R_NEGATION = REL_NEGATION"

fun arithOpToProto :: "PlanArithOp \<Rightarrow> ArithOp" where
  "arithOpToProto O_ADD = ARITH_ADD"
| "arithOpToProto O_SUB = ARITH_SUB"
| "arithOpToProto O_MUL = ARITH_MUL"
| "arithOpToProto O_DIV = ARITH_DIV"
| "arithOpToProto O_MOD = ARITH_MOD"

fun aggFuncToProto :: "PlanAggFunc \<Rightarrow> AggFunc" where
  "aggFuncToProto A_COUNT = AGG_COUNT"
| "aggFuncToProto A_SUM = AGG_SUM"
| "aggFuncToProto A_MIN = AGG_MIN"
| "aggFuncToProto A_MAX = AGG_MAX"
| "aggFuncToProto A_AVG = AGG_AVG"

definition columnToProto :: "Column \<Rightarrow> ColumnMessage" where
  "columnToProto c =
     \<lparr>tabName = getBaseTableName c, colName = column_name c, colType = columnTypeToProto (col_type c), isBase = is_base c\<rparr>"

text \<open>Indexing a vector.\<close>

definition at :: "'a list \<Rightarrow> nat \<Rightarrow> 'a res" where
  "at xs k = (if k < length xs then Inr (xs ! k) else Inl OutOfRange)"

section \<open>One work item\<close>

definition filter_data :: "PhysicalPlanNode \<Rightarrow> opData res" where
  "filter_data n =
     bindE (at (p_base_columns n) 0) (\<lambda>inp.
     bindE (at (result_columns n) 0) (\<lambda>out.
     bindE (deref (comp_type (p_expression n))) (\<lambda>comp.
     let base = \<lparr>filter_input = columnToProto inp, filter_output = columnToProto out, filterType = compTypeToProto comp,
                 filterValue = [], stringOp = [], compareColumn = None\<rparr> in
     Inr (FilterData
       (case p_base_columns n of
          _ # c2 # _ \<Rightarrow> base\<lparr>compareColumn := Some (columnToProto c2)\<rparr>
        | _ \<Rightarrow> base\<lparr>filterValue := literals (p_expression n),
                   stringOp := map stringOpToProto (case string_op (p_expression n) of Some s \<Rightarrow> [s] | None \<Rightarrow> [])\<rparr>)))))"

text \<open>
  The join's output is named after its first result column without the two-character suffix;
  \<^verbatim>\<open>name.size() - 2\<close> wraps for shorter names, and \<^verbatim>\<open>substr\<close> then takes the whole name.
\<close>

definition drop_suffix :: "string \<Rightarrow> string" where
  "drop_suffix name = (if length name < 2 then name else take (length name - 2) name)"

definition join_data :: "PhysicalPlanNode \<Rightarrow> opData res" where
  "join_data n =
     bindE (at (p_base_columns n) 0) (\<lambda>inner.
     bindE (at (p_base_columns n) 1) (\<lambda>outer.
     bindE (at (result_columns n) 0) (\<lambda>r.
     bindE (deref (comp_type (p_expression n))) (\<lambda>comp.
     let name = column_name r;
         is_inner = (2 \<le> length name \<and> drop (length name - 2) name = ''_i'');
         single = (length (result_columns n) = 1) in
     Inr (JoinData
       \<lparr>join_inner = columnToProto inner, join_outer = columnToProto outer,
        join_output = \<lparr>tabName = table_name r, colName = drop_suffix name,
          colType = columnTypeToProto (col_type r), isBase = None\<rparr>,
        joinPredicate = compTypeToProto comp,
        produceInnerOutput = (if single then Some is_inner else None),
        produceOuterOutput = (if single then Some (\<not> is_inner) else None)\<rparr>)))))"

definition aggregate_data :: "PhysicalPlanNode \<Rightarrow> opData res" where
  "aggregate_data n =
     bindE (at (p_base_columns n) 0) (\<lambda>inp.
     bindE (at (result_columns n) 0) (\<lambda>out.
     bindE (at (agg_specs (p_expression n)) 0) (\<lambda>spec.
     Inr (AggData \<lparr>agg_item_input = columnToProto inp, agg_item_output = columnToProto out,
       aggFunc = aggFuncToProto (agg_func spec)\<rparr>))))"

definition setop_data :: "PhysicalPlanNode \<Rightarrow> opData res" where
  "setop_data n =
     bindE (at (p_base_columns n) 0) (\<lambda>inner.
     bindE (at (p_base_columns n) 1) (\<lambda>outer.
     bindE (at (result_columns n) 0) (\<lambda>out.
     bindE (deref (logical_rel_op (p_expression n))) (\<lambda>op.
     Inr (SetData \<lparr>operation = relOpToProto op, set_inner = columnToProto inner, set_outer = columnToProto outer,
       set_output = columnToProto out\<rparr>)))))"

definition sort_data :: "PhysicalPlanNode \<Rightarrow> opData res" where
  "sort_data n =
     bindE (deref (sort_order (p_expression n))) (\<lambda>orders.
     bindE (at (result_columns n) 0) (\<lambda>out.
     Inr (SortData \<lparr>sort_inputs = map columnToProto (p_base_columns n), sortOrder = orders, indexOutput = columnToProto out\<rparr>)))"

definition map_data :: "PhysicalPlanNode \<Rightarrow> opData res" where
  "map_data n =
     bindE (at (p_base_columns n) 0) (\<lambda>inp.
     bindE (at (result_columns n) 0) (\<lambda>out.
     bindE (deref (arith_op (p_expression n))) (\<lambda>op.
     Inr (MapData \<lparr>map_input = columnToProto inp, map_item_output = columnToProto out, operatorType = arithOpToProto op,
       map_partner = (case p_base_columns n of
           _ # c2 # _ \<Rightarrow> Some (PartnerColumn (columnToProto c2))
         | _ \<Rightarrow> (case literals (p_expression n) of [] \<Rightarrow> None | v # _ \<Rightarrow> Some (StaticVal v)))\<rparr>))))"

definition groupby_data :: "PhysicalPlanNode \<Rightarrow> opData res" where
  "groupby_data n =
     bindE (deref (aggregationColumn n)) (\<lambda>agg.
     bindE (at (result_columns n) 0) (\<lambda>r.
     let aux = (\<lambda>suffix. \<lparr>tabName = table_name r, colName = column_name r @ suffix, colType = TYPE_POSLIST, isBase = None\<rparr>) in
     Inr (MultiGroupData
       \<lparr>groupColumns = map columnToProto (p_base_columns n),
        outputIndex = aux ''_idx'', outputClusters = aux ''_cluster'',
        aggregationMessage = columnToProto agg, aggregationResultColumn = columnToProto r,
        sortOrders = (case sort_order (p_expression n) of Some os \<Rightarrow> os | None \<Rightarrow> [])\<rparr>)))"

text \<open>\<^verbatim>\<open>index.value()\<close> throws \<^verbatim>\<open>std::bad_optional_access\<close> when there is no index column.\<close>

definition materialize_data :: "PhysicalPlanNode \<Rightarrow> opData res" where
  "materialize_data n =
     bindE (at (p_base_columns n) 0) (\<lambda>base.
     bindE (case p_index n of Some idx \<Rightarrow> Inr idx | None \<Rightarrow> Inl (RuntimeError ''bad optional access'')) (\<lambda>idx.
     bindE (at (result_columns n) 0) (\<lambda>out.
     Inr (MaterializeData \<lparr>indexColumn = columnToProto idx, filterColumn = columnToProto base, mat_output = columnToProto out\<rparr>))))"

definition result_data :: "PhysicalPlanNode \<Rightarrow> opData res" where
  "result_data n =
     bindE (deref (resultName n)) (\<lambda>name.
     bindE (mapE (\<lambda>c. deref (col_alias c)) (result_columns n)) (\<lambda>headers.
     Inr (ResultData \<lparr>filename = name, resultColumns = map columnToProto (result_columns n), resultHeader = headers,
       limitCount = limit_count (p_expression n), offsetCount = limit_offset (p_expression n)\<rparr>)))"

text \<open>The switch over the node type.\<close>

definition operator_part :: "PhysicalPlanNode \<Rightarrow> (OperatorType option \<times> opData option) res" where
  "operator_part n =
     (let data = (\<lambda>oper d. bindE d (\<lambda>x. Inr (Some oper, Some x))) in
      case p_type n of
        P_FILTER \<Rightarrow> data OP_FILTER (filter_data n)
      | P_IDXSCAN \<Rightarrow> Inr (Some OP_IDXSCAN, None)
      | P_NLJ \<Rightarrow> data OP_NLJ (join_data n)
      | P_MERGEJOIN \<Rightarrow> data OP_MERGEJOIN (join_data n)
      | P_HASHJOIN \<Rightarrow> data OP_HASHJOIN (join_data n)
      | P_AGGREGATE \<Rightarrow> data OP_AGGREGATE (aggregate_data n)
      | P_SETOPERATION \<Rightarrow> data OP_SETOPERATION (setop_data n)
      | P_SORT \<Rightarrow> data OP_SORT (sort_data n)
      | P_MAP \<Rightarrow> data OP_MAP (map_data n)
      | P_GROUPBY \<Rightarrow> data OP_GROUPBY (groupby_data n)
      | P_MATERIALIZE \<Rightarrow> data OP_MATERIALIZE (materialize_data n)
      | P_RESULT \<Rightarrow> data OP_RESULT (result_data n)
      | P_INTERMEDIATE \<Rightarrow> Inr (None, None))"

definition work_item :: "heap \<Rightarrow> 32 word \<Rightarrow> nat \<Rightarrow> WorkItem res" where
  "work_item h pid a =
     bindE (operator_part (h ! a)) (\<lambda>(oper, d).
     Inr \<lparr>planId = pid, itemId = of_int (node_id (h ! a)),
          dependsOn = map (\<lambda>c. of_int (node_id (h ! c))) (nonnull (p_children (h ! a))),
          operatorId = oper, op_data = d\<rparr>)"

section \<open>The traversal\<close>

text \<open>
  The loop over an explicit stack of frames: a node and the index of its next child. A node is marked
  seen when it is pushed and appended to the order when its frame is popped.
\<close>

partial_function (option) postorder_loop ::
  "heap \<Rightarrow> (nat \<times> nat) list \<Rightarrow> nat set \<Rightarrow> nat list \<Rightarrow> nat list option" where
  "postorder_loop h st seen order =
     (case st of
        [] \<Rightarrow> Some order
      | (n, k) # st' \<Rightarrow>
          if k < length (p_children (h ! n)) then
            (case p_children (h ! n) ! k of
               Some c \<Rightarrow> if c \<notin> seen then postorder_loop h ((c, 0) # (n, Suc k) # st') (insert c seen) order
                         else postorder_loop h ((n, Suc k) # st') seen order
             | None \<Rightarrow> postorder_loop h ((n, Suc k) # st') seen order)
          else postorder_loop h st' seen (order @ [n]))"

declare postorder_loop.simps [code]

definition crateWorkItems :: "heap \<Rightarrow> ptr \<Rightarrow> int \<Rightarrow> WorkItem list res option" where
  "crateWorkItems h root pid =
     (case root of
        None \<Rightarrow> Some (Inl NullDeref)
      | Some r \<Rightarrow> map_option (mapE (work_item h (of_int pid))) (postorder_loop h [(r, 0)] {r} []))"

section \<open>Levels\<close>

definition dep_level :: "(32 word \<rightharpoonup> nat) \<Rightarrow> WorkItem \<Rightarrow> nat" where
  "dep_level level wi =
     foldl (\<lambda>cur d. case level d of Some l \<Rightarrow> max cur (l + 1) | None \<Rightarrow> cur) 0 (dependsOn wi)"

fun level_loop :: "(32 word \<rightharpoonup> nat) \<Rightarrow> nat \<Rightarrow> WorkItem list \<Rightarrow> (32 word \<rightharpoonup> nat) \<times> nat" where
  "level_loop level maxLevel [] = (level, maxLevel)"
| "level_loop level maxLevel (wi # wis) =
     (let l = dep_level level wi in level_loop (level(itemId wi \<mapsto> l)) (max maxLevel l) wis)"

definition group_levels :: "WorkItem list \<Rightarrow> WorkItem list list" where
  "group_levels linear =
     (if linear = [] then []
      else let (level, maxLevel) = level_loop Map.empty 0 linear in
        map (\<lambda>l. filter (\<lambda>wi. level (itemId wi) = Some l) linear) [0..<maxLevel + 1])"

definition crateWorkItemsParallel :: "heap \<Rightarrow> ptr \<Rightarrow> int \<Rightarrow> WorkItem list list res option" where
  "crateWorkItemsParallel h root pid = map_option (map_sum id group_levels) (crateWorkItems h root pid)"

definition createQueryPlan :: "heap \<Rightarrow> ptr \<Rightarrow> int \<Rightarrow> QueryPlan res option" where
  "createQueryPlan h root pid =
     map_option (map_sum id (\<lambda>items. \<lparr>plan_planid = of_int pid, planitems = items\<rparr>)) (crateWorkItems h root pid)"

section \<open>The order is topological\<close>

lemma postorder_loop_Nil: "postorder_loop h [] seen order = Some order"
  by (subst postorder_loop.simps) simp

lemma postorder_loop_pop:
  "k \<ge> length (p_children (h ! n)) \<Longrightarrow> postorder_loop h ((n, k) # st) seen order = postorder_loop h st seen (order @ [n])"
  by (subst postorder_loop.simps) simp

lemma postorder_loop_push:
  "k < length (p_children (h ! n)) \<Longrightarrow> p_children (h ! n) ! k = Some c \<Longrightarrow> c \<notin> seen \<Longrightarrow>
   postorder_loop h ((n, k) # st) seen order = postorder_loop h ((c, 0) # (n, Suc k) # st) (insert c seen) order"
  by (subst postorder_loop.simps) simp

lemma postorder_loop_skip:
  "k < length (p_children (h ! n)) \<Longrightarrow> (\<And>c. p_children (h ! n) ! k = Some c \<Longrightarrow> c \<in> seen) \<Longrightarrow>
   postorder_loop h ((n, k) # st) seen order = postorder_loop h ((n, Suc k) # st) seen order"
  by (subst postorder_loop.simps) (auto split: option.split)

text \<open>Every child of a listed node is listed before it.\<close>

definition topological :: "heap \<Rightarrow> nat list \<Rightarrow> bool" where
  "topological h order \<longleftrightarrow>
     (\<forall>i < length order. \<forall>c. Some c \<in> set (p_children (h ! (order ! i))) \<longrightarrow> c \<in> set (take i order))"

lemma topological_snoc:
  "topological h (order @ [a]) \<longleftrightarrow>
     topological h order \<and> (\<forall>c. Some c \<in> set (p_children (h ! a)) \<longrightarrow> c \<in> set order)"
  by (auto simp: topological_def nth_append less_Suc_eq)

text \<open>
  The state of the loop when the frame of \<open>a\<close> is on top: listed nodes are seen, and seen nodes that are
  not listed yet are on the stack, at addresses from \<open>a\<close> on.
\<close>

definition loop_inv :: "heap \<Rightarrow> nat \<Rightarrow> nat set \<Rightarrow> nat list \<Rightarrow> bool" where
  "loop_inv h a seen order \<longleftrightarrow>
     distinct order \<and> topological h order \<and> set order \<subseteq> seen \<and> (\<forall>x \<in> seen. x \<notin> set order \<longrightarrow> a \<le> x)"

lemma visit_children:
  assumes ok: "heap_ok h" "a < length h"
    and IH: "\<And>c seen order st. c < a \<Longrightarrow> loop_inv h c seen order \<Longrightarrow> c \<in> seen \<Longrightarrow> c \<notin> set order \<Longrightarrow>
      \<exists>ext. postorder_loop h ((c, 0) # st) seen order = postorder_loop h st (seen \<union> set ext) (order @ ext @ [c]) \<and>
        loop_inv h (Suc c) (seen \<union> set ext) (order @ ext @ [c]) \<and> set ext \<inter> seen = {} \<and> set ext \<subseteq> reach_set h c"
  shows "loop_inv h a seen order \<Longrightarrow> a \<in> seen \<Longrightarrow> a \<notin> set order \<Longrightarrow> k \<le> length (p_children (h ! a)) \<Longrightarrow>
    (\<forall>j < k. \<forall>c. p_children (h ! a) ! j = Some c \<longrightarrow> c \<in> set order) \<Longrightarrow>
    \<exists>ext. postorder_loop h ((a, k) # st) seen order = postorder_loop h st (seen \<union> set ext) (order @ ext @ [a]) \<and>
      loop_inv h (Suc a) (seen \<union> set ext) (order @ ext @ [a]) \<and> set ext \<inter> seen = {} \<and> set ext \<subseteq> reach_set h a"
proof (induction "length (p_children (h ! a)) - k" arbitrary: k seen order)
  case 0
  then have k: "k = length (p_children (h ! a))" by simp
  have "\<forall>c. Some c \<in> set (p_children (h ! a)) \<longrightarrow> c \<in> set order"
    using 0(6) k by (auto simp: in_set_conv_nth)
  then have "loop_inv h (Suc a) seen (order @ [a])"
    using 0(2-4) by (auto simp: loop_inv_def topological_snoc Suc_le_eq intro: le_neq_implies_less)
  then show ?case using k by (intro exI [of _ "[]"]) (simp add: postorder_loop_pop)
next
  case (Suc m)
  then have k: "k < length (p_children (h ! a))" and m: "m = length (p_children (h ! a)) - Suc k" by simp_all
  show ?case
  proof (cases "\<exists>c. p_children (h ! a) ! k = Some c \<and> c \<notin> seen")
    case False
    have listed: "c \<in> set order" if "p_children (h ! a) ! k = Some c" for c
    proof -
      have "Some c \<in> set (p_children (h ! a))" using that k nth_mem by metis
      then have "c < a" using heap_ok_child [OF ok] by blast
      then show ?thesis using Suc.prems(1) False that by (auto simp: loop_inv_def)
    qed
    have "postorder_loop h ((a, k) # st) seen order = postorder_loop h ((a, Suc k) # st) seen order"
      using False k by (intro postorder_loop_skip) auto
    then show ?thesis using Suc.hyps(1) [of "Suc k" seen order] Suc.hyps(2) Suc.prems listed k
      by (auto simp: less_Suc_eq)
  next
    case True
    then obtain c where c: "p_children (h ! a) ! k = Some c" "c \<notin> seen" by blast
    have "Some c \<in> set (p_children (h ! a))" using c(1) k nth_mem by metis
    then have ca: "c < a" "reach h a c" using heap_ok_child [OF ok] by (auto intro: reach.intros)
    have "loop_inv h c (insert c seen) order" using Suc.prems(1) ca by (auto simp: loop_inv_def)
    moreover have "c \<notin> set order" using c(2) Suc.prems(1) by (auto simp: loop_inv_def)
    ultimately obtain ext where ext:
      "postorder_loop h ((c, 0) # (a, Suc k) # st) (insert c seen) order =
         postorder_loop h ((a, Suc k) # st) (insert c seen \<union> set ext) (order @ ext @ [c])"
      "loop_inv h (Suc c) (insert c seen \<union> set ext) (order @ ext @ [c])"
      "set ext \<inter> insert c seen = {}" "set ext \<subseteq> reach_set h c"
      using IH [OF ca(1), of "insert c seen" order "(a, Suc k) # st"] by blast
    let ?seen = "insert c seen \<union> set ext" and ?order = "order @ ext @ [c]"
    have "loop_inv h a ?seen ?order" using ext(2) Suc.prems(1) by (auto simp: loop_inv_def)
    moreover have "\<forall>j < Suc k. \<forall>x. p_children (h ! a) ! j = Some x \<longrightarrow> x \<in> set ?order"
      using Suc.prems(5) c(1) by (auto simp: less_Suc_eq)
    moreover have "a \<notin> set ?order" using Suc.prems(2,3) ca ext(3) by auto
    moreover have "a \<in> ?seen" "Suc k \<le> length (p_children (h ! a))" using Suc.prems(2) k by simp_all
    ultimately obtain ext' where ext':
      "postorder_loop h ((a, Suc k) # st) ?seen ?order = postorder_loop h st (?seen \<union> set ext') (?order @ ext' @ [a])"
      "loop_inv h (Suc a) (?seen \<union> set ext') (?order @ ext' @ [a])" "set ext' \<inter> ?seen = {}" "set ext' \<subseteq> reach_set h a"
      using Suc.hyps(1) [OF m, of ?seen ?order] by blast
    have "reach_set h c \<subseteq> reach_set h a"
      using \<open>Some c \<in> set (p_children (h ! a))\<close> by (auto simp: reach_set_unfold [of h a])
    then have "set (ext @ [c] @ ext') \<subseteq> reach_set h a" using ext(4) ext'(4) ca(2) by (auto simp: reach_set_def)
    moreover have "?seen \<union> set ext' = seen \<union> set (ext @ [c] @ ext')" by auto
    moreover have "set (ext @ [c] @ ext') \<inter> seen = {}" using ext(3) ext'(3) c(2) by auto
    ultimately show ?thesis using ext(1) ext'(1,2) postorder_loop_push [OF k c]
      by (intro exI [of _ "ext @ [c] @ ext'"]) simp
  qed
qed

lemma visit_node:
  assumes "heap_ok h" "a < length h" "loop_inv h a seen order" "a \<in> seen" "a \<notin> set order"
  shows "\<exists>ext. postorder_loop h ((a, 0) # st) seen order = postorder_loop h st (seen \<union> set ext) (order @ ext @ [a]) \<and>
     loop_inv h (Suc a) (seen \<union> set ext) (order @ ext @ [a]) \<and> set ext \<inter> seen = {} \<and> set ext \<subseteq> reach_set h a"
  using assms
proof (induction a arbitrary: seen order st rule: less_induct)
  case (less a)
  have "\<exists>ext. postorder_loop h ((c, 0) # st) seen order = postorder_loop h st (seen \<union> set ext) (order @ ext @ [c]) \<and>
        loop_inv h (Suc c) (seen \<union> set ext) (order @ ext @ [c]) \<and> set ext \<inter> seen = {} \<and> set ext \<subseteq> reach_set h c"
    if "c < a" "loop_inv h c seen order" "c \<in> seen" "c \<notin> set order" for c seen order st
    using less.IH [OF that(1) less.prems(1) _ that(2-4)] that(1) less.prems(2) by simp
  from visit_children [OF less.prems(1,2) this less.prems(3-5), of 0 st] show ?case by simp
qed

lemma postorder_loop_correct:
  assumes "heap_ok h" "root < length h"
  obtains order where "postorder_loop h [(root, 0)] {root} [] = Some order"
    "distinct order" "topological h order" "set order = reach_set h root"
proof -
  have "loop_inv h root {root} []" by (simp add: loop_inv_def topological_def)
  from visit_node [OF assms this, of "[]"] obtain ext where e:
    "postorder_loop h [(root, 0)] {root} [] = Some (ext @ [root])" "loop_inv h (Suc root) ({root} \<union> set ext) (ext @ [root])"
    "set ext \<subseteq> reach_set h root" by (auto simp: postorder_loop_Nil)
  have closed: "b \<in> set (ext @ [root])" if "reach h a b" "a \<in> set (ext @ [root])" for a b
    using that
  proof (induction rule: reach.induct)
    case (child c a b)
    then obtain i where "i < length (ext @ [root])" "(ext @ [root]) ! i = a" by (metis in_set_conv_nth)
    then have "c \<in> set (take i (ext @ [root]))" using e(2) child.hyps(1) unfolding loop_inv_def topological_def by blast
    then show ?case using child.IH in_set_takeD by metis
  qed simp
  have "set (ext @ [root]) = reach_set h root"
    using e(3) closed [of root] by (auto simp: reach_set_def intro: reach.self)
  then show ?thesis using that [OF e(1)] e(2) by (simp add: loop_inv_def)
qed

text \<open>Items depend only on items before them, by identifier.\<close>

definition deps_before :: "WorkItem list \<Rightarrow> bool" where
  "deps_before items \<longleftrightarrow> (\<forall>i < length items. set (dependsOn (items ! i)) \<subseteq> itemId ` set (take i items))"

lemma work_item_fields:
  assumes "work_item h pid a = Inr wi"
  shows "itemId wi = of_int (node_id (h ! a))" "planId wi = pid"
    "dependsOn wi = map (\<lambda>c. of_int (node_id (h ! c))) (nonnull (p_children (h ! a)))"
  using assms by (auto simp: work_item_def bindE_Inr_iff)

lemma items_deps_before:
  assumes "topological h order" "list_all2 (\<lambda>a wi. work_item h pid a = Inr wi) order items"
  shows "deps_before items"
  unfolding deps_before_def
proof (intro allI impI subsetI)
  fix i d assume i: "i < length items" "d \<in> set (dependsOn (items ! i))"
  have len: "length items = length order" using assms(2) by (simp add: list_all2_lengthD)
  have item: "work_item h pid (order ! j) = Inr (items ! j)" if "j < length items" for j
    using assms(2) that len by (simp add: list_all2_conv_all_nth)
  obtain c where c: "Some c \<in> set (p_children (h ! (order ! i)))" "d = of_int (node_id (h ! c))"
    using i(2) work_item_fields(3) [OF item [OF i(1)]] by auto
  then have "c \<in> set (take i order)" using assms(1) i(1) len by (auto simp: topological_def)
  then obtain j where j: "j < i" "order ! j = c" using i(1) len by (auto simp: in_set_conv_nth)
  then have "itemId (items ! j) = d" using c(2) work_item_fields(1) [OF item [of j]] i(1) by simp
  moreover have "items ! j \<in> set (take i items)" using j(1) i(1) by (auto simp: in_set_conv_nth)
  ultimately show "d \<in> itemId ` set (take i items)" by force
qed

lemma mapE_Inl: "mapE f xs = Inl e \<Longrightarrow> \<exists>x \<in> set xs. f x = Inl e"
  by (induction xs) (auto simp: bindE_Inl_iff)

lemma crateWorkItems_cases:
  assumes "heap_ok h" "root < length h"
  obtains (items) order items where "crateWorkItems h (Some root) pid = Some (Inr items)"
    "distinct order" "topological h order" "set order = reach_set h root"
    "list_all2 (\<lambda>a wi. work_item h (of_int pid) a = Inr wi) order items"
  | (err) e a where "crateWorkItems h (Some root) pid = Some (Inl e)" "reach h root a" "operator_part (h ! a) = Inl e"
proof -
  obtain order where o: "postorder_loop h [(root, 0)] {root} [] = Some order"
    "distinct order" "topological h order" "set order = reach_set h root"
    using postorder_loop_correct [OF assms] by blast
  show ?thesis
  proof (cases "mapE (work_item h (of_int pid)) order")
    case (Inl e)
    then obtain a where "a \<in> set order" "work_item h (of_int pid) a = Inl e" using mapE_Inl by blast
    then show ?thesis using err o Inl by (auto simp: crateWorkItems_def work_item_def bindE_Inl_iff reach_set_def)
  next
    case (Inr its)
    then show ?thesis using items [OF _ o(2-4)] o(1) by (simp add: crateWorkItems_def mapE_Inr_iff)
  qed
qed

text \<open>
  C18. Work items of a plan. On an acyclic plan \<open>crateWorkItems\<close> terminates. It produces exactly one item
  for every node below the root, in an order in which every item comes after all items it depends on, and
  an item depends on exactly its node's children. It fails only when the translation of some node fails.
\<close>

theorem crateWorkItems_correct:
  assumes "heap_ok h" "root < length h"
  shows "case crateWorkItems h (Some root) pid of
      None \<Rightarrow> False
    | Some (Inl e) \<Rightarrow> \<exists>a. reach h root a \<and> operator_part (h ! a) = Inl e
    | Some (Inr items) \<Rightarrow> deps_before items \<and>
        (\<exists>order. distinct order \<and> set order = reach_set h root \<and>
           map itemId items = map (\<lambda>a. of_int (node_id (h ! a))) order \<and>
           map dependsOn items = map (\<lambda>a. map (\<lambda>c. of_int (node_id (h ! c))) (nonnull (p_children (h ! a)))) order)"
proof (rule crateWorkItems_cases [OF assms, of pid])
  fix e a assume "crateWorkItems h (Some root) pid = Some (Inl e)" "reach h root a" "operator_part (h ! a) = Inl e"
  then show ?thesis by auto
next
  fix order items assume items: "crateWorkItems h (Some root) pid = Some (Inr items)" "distinct order"
    "topological h order" "set order = reach_set h root"
    "list_all2 (\<lambda>a wi. work_item h (of_int pid) a = Inr wi) order items"
  have "map itemId items = map (\<lambda>a. of_int (node_id (h ! a))) order"
    "map dependsOn items = map (\<lambda>a. map (\<lambda>c. of_int (node_id (h ! c))) (nonnull (p_children (h ! a)))) order"
    using items(5) by (induction rule: list_all2_induct) (simp_all add: work_item_fields)
  then show ?thesis using items items_deps_before [OF items(3,5)] by auto
qed

section \<open>Levels respect dependencies\<close>

lemma dep_level_bound:
  assumes "d \<in> set (dependsOn wi)" "level d = Some l"
  shows "l < dep_level level wi"
proof -
  have mono: "x \<le> foldl (\<lambda>cur d. case level d of Some l \<Rightarrow> max cur (l + 1) | None \<Rightarrow> cur) x ds" for x ds
    by (induction ds arbitrary: x) (auto split: option.split intro: order.trans [OF max.cobounded1])
  have "d \<in> set ds \<Longrightarrow> l < foldl (\<lambda>cur d. case level d of Some l \<Rightarrow> max cur (l + 1) | None \<Rightarrow> cur) x ds" for x ds
  proof (induction ds arbitrary: x)
    case (Cons e ds)
    then show ?case using assms(2) mono [of "max x (l + 1)" ds] by auto
  qed simp
  then show ?thesis using assms(1) by (simp add: dep_level_def)
qed

lemma level_loop_correct:
  assumes "level_loop level m items = (level', m')" "distinct (map itemId items)" "itemId ` set items \<inter> dom level = {}"
    and "\<forall>i < length items. set (dependsOn (items ! i)) \<subseteq> dom level \<union> itemId ` set (take i items)"
  shows "level \<subseteq>\<^sub>m level' \<and> m \<le> m' \<and> dom level' = dom level \<union> itemId ` set items \<and>
    (\<forall>wi \<in> set items. \<exists>l. level' (itemId wi) = Some l \<and> l \<le> m' \<and> (\<forall>d \<in> set (dependsOn wi). \<exists>k < l. level' d = Some k))"
  using assms
proof (induction level m items rule: level_loop.induct)
  case (2 level m wi wis)
  let ?l = "dep_level level wi" and ?level = "level(itemId wi \<mapsto> dep_level level wi)"
  have prems: "level_loop ?level (max m ?l) wis = (level', m')" "distinct (map itemId wis)"
    "itemId ` set wis \<inter> dom ?level = {}" using 2(2,3,4) by (auto simp: Let_def)
  have "\<forall>i < length wis. set (dependsOn (wis ! i)) \<subseteq> dom ?level \<union> itemId ` set (take i wis)"
  proof (intro allI impI)
    fix i assume "i < length wis"
    then show "set (dependsOn (wis ! i)) \<subseteq> dom ?level \<union> itemId ` set (take i wis)"
      using 2(5) [rule_format, of "Suc i"] by auto
  qed
  note IH = 2(1) [OF refl prems this]
  then have le: "?level \<subseteq>\<^sub>m level'" by blast
  have deps: "\<exists>k < ?l. level' d = Some k" if "d \<in> set (dependsOn wi)" for d
  proof -
    have "d \<in> dom level" using 2(5) [rule_format, of 0] that by auto
    then obtain k where k: "level d = Some k" by auto
    have "d \<noteq> itemId wi" using \<open>d \<in> dom level\<close> 2(4) by auto
    then have "level' d = Some k" using le k unfolding map_le_def by (metis domI fun_upd_other)
    then show ?thesis using dep_level_bound [of d wi level k] that k by blast
  qed
  have lwi: "level' (itemId wi) = Some ?l" using le unfolding map_le_def by (metis domI fun_upd_same)
  have "itemId wi \<notin> dom level" using 2(4) by simp
  then have "level \<subseteq>\<^sub>m level'" using le map_le_trans upd_None_map_le map_le_imp_upd_le
    by (metis domIff fun_upd_triv fun_upd_upd)
  then show ?case using IH lwi deps by auto
qed auto

lemma mset_concat_filter:
  assumes "\<forall>x \<in> set xs. \<exists>l < n. f x = Some l"
  shows "mset (concat (map (\<lambda>l. filter (\<lambda>x. f x = Some l) xs) [0..<n])) = mset xs"
  using assms
proof (induction n arbitrary: xs)
  case (Suc n)
  let ?ys = "filter (\<lambda>x. f x \<noteq> Some n) xs"
  have "filter (\<lambda>x. f x = Some l) xs = filter (\<lambda>x. f x = Some l) ?ys" if "l < n" for l
    using that by (auto simp: intro: filter_cong)
  then have eq: "map (\<lambda>l. filter (\<lambda>x. f x = Some l) xs) [0..<n] = map (\<lambda>l. filter (\<lambda>x. f x = Some l) ?ys) [0..<n]"
    by (intro map_cong refl) simp_all
  have "\<forall>x \<in> set ?ys. \<exists>l < n. f x = Some l" using Suc.prems less_Suc_eq by auto
  then have "mset (concat (map (\<lambda>l. filter (\<lambda>x. f x = Some l) xs) [0..<n])) = mset ?ys"
    unfolding eq by (rule Suc.IH)
  then have "mset (concat (map (\<lambda>l. filter (\<lambda>x. f x = Some l) xs) [0..<Suc n])) =
      mset (filter (\<lambda>x. f x \<noteq> Some n) xs) + mset (filter (\<lambda>x. f x = Some n) xs)" by simp
  also have "\<dots> = mset xs" using multiset_partition [of "mset xs" "\<lambda>x. f x \<noteq> Some n"] by simp
  finally show ?case .
qed simp

text \<open>Whatever the identifiers, no item is lost or duplicated.\<close>

lemma level_loop_bounded:
  "level_loop level m items = (level', m') \<Longrightarrow> \<forall>d l. level d = Some l \<longrightarrow> l \<le> m \<Longrightarrow>
   (\<forall>d l. level' d = Some l \<longrightarrow> l \<le> m') \<and> dom level \<union> itemId ` set items \<subseteq> dom level'"
proof (induction level m items rule: level_loop.induct)
  case (2 level m wi wis)
  have "\<forall>d l. (level(itemId wi \<mapsto> dep_level level wi)) d = Some l \<longrightarrow> l \<le> max m (dep_level level wi)"
    using 2(3) by (auto simp: le_max_iff_disj)
  moreover have "level_loop (level(itemId wi \<mapsto> dep_level level wi)) (max m (dep_level level wi)) wis = (level', m')"
    using 2(2) by (simp add: Let_def)
  ultimately have "(\<forall>d l. level' d = Some l \<longrightarrow> l \<le> m') \<and>
      dom (level(itemId wi \<mapsto> dep_level level wi)) \<union> itemId ` set wis \<subseteq> dom level'" by (rule 2(1) [OF refl, rotated])
  then show ?case by simp
qed auto

lemma group_levels_mset: "mset (concat (group_levels items)) = mset items"
proof (cases "items = []")
  case False
  obtain level m where lm: "level_loop Map.empty 0 items = (level, m)" by force
  from level_loop_bounded [OF lm] have "\<forall>wi \<in> set items. \<exists>l < Suc m. level (itemId wi) = Some l"
    by (auto simp: less_Suc_eq_le)
  then show ?thesis using False mset_concat_filter [of items "Suc m" "\<lambda>wi. level (itemId wi)"]
    by (simp add: group_levels_def lm del: upt_Suc)
qed (simp add: group_levels_def)

text \<open>Groups are level-ordered: what an item depends on lies in an earlier group.\<close>

definition levelled :: "WorkItem list list \<Rightarrow> bool" where
  "levelled groups \<longleftrightarrow> (\<forall>l < length groups. \<forall>wi \<in> set (groups ! l). \<forall>d \<in> set (dependsOn wi).
     \<exists>k < l. d \<in> itemId ` set (groups ! k))"

lemma group_levels_correct:
  assumes "items \<noteq> []" "distinct (map itemId items)" "deps_before items"
  shows "levelled (group_levels items)"
    "group_levels items \<noteq> []" "group_levels items ! 0 \<noteq> []"
proof -
  obtain level m where lm: "level_loop Map.empty 0 items = (level, m)" by force
  let ?g = "\<lambda>l. filter (\<lambda>wi. level (itemId wi) = Some l) items"
  have groups: "group_levels items = map ?g [0..<Suc m]" using assms(1) lm by (simp add: group_levels_def)
  have lev: "\<forall>wi \<in> set items. \<exists>l. level (itemId wi) = Some l \<and> l \<le> m \<and> (\<forall>d \<in> set (dependsOn wi). \<exists>k < l. level d = Some k)"
    "dom level = itemId ` set items"
    using level_loop_correct [OF lm assms(2)] assms(3) by (simp_all add: deps_before_def)
  show "levelled (group_levels items)"
    unfolding levelled_def groups
  proof (intro allI impI ballI)
    fix l wi d assume l: "l < length (map ?g [0..<Suc m])" and wi: "wi \<in> set (map ?g [0..<Suc m] ! l)" and d: "d \<in> set (dependsOn wi)"
    then have "wi \<in> set items" "level (itemId wi) = Some l" by (simp_all del: upt_Suc)
    moreover from this(1) obtain l' where "level (itemId wi) = Some l'" "\<forall>d \<in> set (dependsOn wi). \<exists>k < l'. level d = Some k"
      using lev(1) by blast
    ultimately obtain k where k: "k < l" "level d = Some k" using d by auto
    have "d \<in> dom level" using k(2) by (rule domI)
    then obtain wj where "wj \<in> set items" "itemId wj = d" unfolding lev(2) by (elim imageE) simp
    then have "d \<in> itemId ` set (?g k)" using k(2) by force
    then show "\<exists>k < l. d \<in> itemId ` set (map ?g [0..<Suc m] ! k)" using k(1) l by (intro exI [of _ k]) (simp del: upt_Suc)
  qed
  show "group_levels items \<noteq> []" by (simp add: groups)
  obtain wi wis where items: "items = wi # wis" using assms(1) by (cases items) auto
  then have "dependsOn wi = []" using assms(3) [unfolded deps_before_def, rule_format, of 0] by simp
  then have "level (itemId wi) = Some 0"
  proof -
    have "level_loop [itemId wi \<mapsto> 0] 0 wis = (level, m)" using lm items \<open>dependsOn wi = []\<close> by (simp add: dep_level_def)
    moreover have "\<forall>i < length wis. set (dependsOn (wis ! i)) \<subseteq> dom [itemId wi \<mapsto> 0] \<union> itemId ` set (take i wis)"
    proof (intro allI impI)
      fix i assume "i < length wis"
      then show "set (dependsOn (wis ! i)) \<subseteq> dom [itemId wi \<mapsto> 0] \<union> itemId ` set (take i wis)"
        using assms(3) [unfolded deps_before_def, rule_format, of "Suc i"] items by simp
    qed
    ultimately have "[itemId wi \<mapsto> 0] \<subseteq>\<^sub>m level" using level_loop_correct [of "[itemId wi \<mapsto> 0]" 0 wis] assms(2) items by force
    then show ?thesis by (simp add: map_le_def)
  qed
  then have "wi \<in> set (group_levels items ! 0)" unfolding groups by (simp add: items del: upt_Suc)
  then show "group_levels items ! 0 \<noteq> []" by auto
qed

lemma plan_items:
  assumes "heap_ok h" "root < length h" "crateWorkItems h (Some root) pid = Some (Inr items)"
  shows "deps_before items" "items \<noteq> []" "\<forall>wi \<in> set items. planId wi = of_int pid"
proof -
  obtain order where o: "topological h order" "set order = reach_set h root"
    "list_all2 (\<lambda>a wi. work_item h (of_int pid) a = Inr wi) order items"
    by (rule crateWorkItems_cases [OF assms(1,2), of pid]) (use assms(3) in auto)
  moreover from o(2) have "order \<noteq> []" by (auto simp: reach_set_unfold [of h root])
  ultimately show "deps_before items" "items \<noteq> []" using items_deps_before by auto
  show "\<forall>wi \<in> set items. planId wi = of_int pid"
    using o(3) by (induction rule: list_all2_induct) (auto simp: work_item_fields)
qed

text \<open>
  C19. Levels of work items. When the items of a plan carry distinct identifiers, \<open>crateWorkItemsParallel\<close>
  distributes exactly the items of the plan over its groups, the first group is not empty, and everything
  an item depends on lies in an earlier group.
\<close>

theorem crateWorkItemsParallel_correct:
  assumes "heap_ok h" "root < length h"
    and "crateWorkItems h (Some root) pid = Some (Inr items)" "distinct (map itemId items)"
  shows "\<exists>groups. crateWorkItemsParallel h (Some root) pid = Some (Inr groups) \<and>
     mset (concat groups) = mset items \<and> levelled groups \<and> groups \<noteq> [] \<and> groups ! 0 \<noteq> []"
proof -
  have "deps_before items" "items \<noteq> []" using plan_items [OF assms(1-3)] by blast+
  then show ?thesis using assms(3) group_levels_mset [of items] group_levels_correct [OF _ assms(4)] by (simp add: crateWorkItemsParallel_def)
qed

text \<open>A filter on one column, and another column read at its positions.\<close>

definition demo_items_heap :: heap where
  "demo_items_heap =
     [(new_phys P_FILTER 7)\<lparr>
        p_base_columns := [mkColumn ''c'' ''r'' T_STRING None None],
        p_expression := Expression_default\<lparr>comp_type := Some C_EQ, literals := [''ASIA'']\<rparr>,
        result_columns := [mkColumn ''t'' ''i7'' T_POSLIST None None]\<rparr>,
      (new_phys P_MATERIALIZE 9)\<lparr>
        p_base_columns := [mkColumn ''c'' ''n'' T_STRING None None],
        p_index := Some (mkColumn ''t'' ''i7'' T_POSLIST None None),
        p_children := [Some 0],
        result_columns := [mkColumn ''t'' ''i9'' T_STRING None None]\<rparr>]"

lemma demo_items_heap_ok: "heap_ok demo_items_heap" "1 < length demo_items_heap"
  by (simp_all add: heap_ok_def demo_items_heap_def nth_Cons split: nat.split)

lemma demo_items:
  "\<exists>items. crateWorkItems demo_items_heap (Some 1) 5 = Some (Inr items) \<and>
     map itemId items = [7, 9] \<and> map dependsOn items = [[], [7]]"
proof -
  have p: "p_children (demo_items_heap ! Suc 0) = [Some 0]" "p_children (demo_items_heap ! 0) = []"
    by (simp_all add: demo_items_heap_def)
  have "postorder_loop demo_items_heap [(1, 0)] {1} [] = Some [0, 1]"
    by (simp add: postorder_loop_push [where c = 0] postorder_loop_pop postorder_loop_Nil p)
  moreover have "case mapE (work_item demo_items_heap 5) [0, 1] of
      Inr items \<Rightarrow> map itemId items = [7, 9] \<and> map dependsOn items = [[], [7]] | Inl _ \<Rightarrow> False" by code_simp
  ultimately show ?thesis by (auto simp: crateWorkItems_def split: sum.split_asm)
qed

theorem crateWorkItems_correct_witness:
  "heap_ok demo_items_heap \<and> 1 < length demo_items_heap \<and>
   (\<exists>items. crateWorkItems demo_items_heap (Some 1) 5 = Some (Inr items) \<and> deps_before items \<and>
     map itemId items = [7, 9] \<and> map dependsOn items = [[], [7]])"
proof -
  obtain items where i: "crateWorkItems demo_items_heap (Some 1) 5 = Some (Inr items)" "map itemId items = [7, 9]"
    "map dependsOn items = [[], [7]]" using demo_items by (elim exE conjE) (rule that)
  have "deps_before items" using crateWorkItems_correct [OF demo_items_heap_ok, of 5] unfolding i(1) option.case sum.case by blast
  then show ?thesis by (intro conjI demo_items_heap_ok exI [of _ items] i)
qed

theorem crateWorkItemsParallel_correct_witness:
  "\<exists>groups. crateWorkItemsParallel demo_items_heap (Some 1) 5 = Some (Inr groups) \<and> levelled groups \<and>
     set (map itemId (concat groups)) = {7, 9}"
proof -
  obtain items where i: "crateWorkItems demo_items_heap (Some 1) 5 = Some (Inr items)" "map itemId items = [7, 9]"
    using demo_items by (elim exE conjE) (rule that)
  have "distinct (map itemId items)" unfolding i(2) by simp
  from crateWorkItemsParallel_correct [OF demo_items_heap_ok i(1) this] obtain groups where g:
    "crateWorkItemsParallel demo_items_heap (Some 1) 5 = Some (Inr groups)" "mset (concat groups) = mset items" "levelled groups"
    by blast
  have "set (map itemId (concat groups)) = itemId ` set items" using mset_eq_setD [OF g(2)] by simp
  also have "\<dots> = set (map itemId items)" by simp
  finally show ?thesis using g i(2) by auto
qed

end
