(* ===== verification/Dispatch.thy ===== *)
theory Dispatch
  imports WorkItems
begin

text \<open>
  \<^verbatim>\<open>WorkCompletionTracker.h\<close> and the parallel dispatch of a plan (\<^verbatim>\<open>QueryManager::sendQueryPlanParallel\<close>):
  the groups of work items are sent one after the other, and a group is followed by a blocking wait until
  the compute units have reported all its items. Sending, waiting, the reports and the activity of other
  queries on the shared tracker interleave; a step relation allows every interleaving.
\<close>

section \<open>The completion tracker\<close>

type_synonym work_id = "32 word \<times> 32 word"

record tracker =
  completed_ids :: "work_id set"
  stopped :: bool

definition new_tracker :: tracker where
  "new_tracker = \<lparr>completed_ids = {}, stopped = False\<rparr>"

definition markCompleted :: "work_id \<Rightarrow> tracker \<Rightarrow> tracker" where
  "markCompleted i t = t\<lparr>completed_ids := insert i (completed_ids t)\<rparr>"

text \<open>
  The condition variable blocks until the predicate holds: \<^const>\<open>None\<close> means that the caller keeps waiting.
\<close>

definition waitNextCompletions :: "work_id list \<Rightarrow> tracker \<Rightarrow> (bool \<times> tracker) option" where
  "waitNextCompletions ids t =
     (if stopped t then Some (False, t)
      else if list_all (\<lambda>i. i \<in> completed_ids t) ids
      then Some (True, t\<lparr>completed_ids := completed_ids t - set ids\<rparr>)
      else None)"

definition stop :: "tracker \<Rightarrow> tracker" where
  "stop t = t\<lparr>stopped := True\<rparr>"

text \<open>What the dispatcher relies on.\<close>

locale completion_tracker =
  fixes reported :: "'t \<Rightarrow> 'i set"
    and halted :: "'t \<Rightarrow> bool"
    and mark :: "'i \<Rightarrow> 't \<Rightarrow> 't"
    and await :: "'i list \<Rightarrow> 't \<Rightarrow> (bool \<times> 't) option"
    and halt :: "'t \<Rightarrow> 't"
  assumes mark: "reported (mark i t) = insert i (reported t)" "halted (mark i t) = halted t"
    and halt: "halted (halt t)" "reported (halt t) = reported t"
    and await_halted: "halted t \<Longrightarrow> await ids t = Some (False, t)"
    and await_ready: "\<not> halted t \<Longrightarrow> set ids \<subseteq> reported t \<Longrightarrow>
      \<exists>t'. await ids t = Some (True, t') \<and> reported t' = reported t - set ids \<and> halted t' = halted t"
    and await_blocked: "\<not> halted t \<Longrightarrow> \<not> set ids \<subseteq> reported t \<Longrightarrow> await ids t = None"
begin

lemma await_TrueD:
  assumes "await ids t = Some (True, t')"
  shows "set ids \<subseteq> reported t" "reported t' = reported t - set ids" "halted t' = halted t" "\<not> halted t"
proof -
  show nh: "\<not> halted t"
  proof
    assume "halted t"
    from await_halted [OF this] assms show False by simp
  qed
  show sub: "set ids \<subseteq> reported t"
  proof (rule ccontr)
    assume "\<not> set ids \<subseteq> reported t"
    from await_blocked [OF nh this] assms show False by simp
  qed
  from await_ready [OF nh sub] obtain u where
    u: "await ids t = Some (True, u)" "reported u = reported t - set ids" "halted u = halted t" by blast
  with assms have "u = t'" by simp
  with u show "reported t' = reported t - set ids" "halted t' = halted t" by simp_all
qed

lemma await_FalseD:
  assumes "await ids t = Some (False, t')"
  shows "halted t" "t' = t"
proof -
  show h: "halted t"
  proof (rule ccontr)
    assume "\<not> halted t"
    then show False using assms await_ready [of t ids] await_blocked [of t ids] by (cases "set ids \<subseteq> reported t") auto
  qed
  show "t' = t" using assms await_halted [OF h, of ids] by simp
qed

text \<open>Reports in any order, with repetitions, let the wait return.\<close>

lemma await_after_marks:
  assumes "\<not> halted t" "set ids \<subseteq> set done_ids"
  shows "\<exists>t'. await ids (fold mark done_ids t) = Some (True, t')"
proof -
  have "reported (fold mark xs t) = reported t \<union> set xs \<and> halted (fold mark xs t) = halted t" for xs
    by (induction xs arbitrary: t) (auto simp: mark)
  then show ?thesis using await_ready assms by (metis le_supI2)
qed

end

interpretation ct: completion_tracker completed_ids stopped markCompleted waitNextCompletions stop
  by unfold_locales (auto simp: markCompleted_def waitNextCompletions_def stop_def list_all_iff)

section \<open>Dispatching a plan\<close>

text \<open>
  The dispatcher: items of the current group still to be sent, the identifiers collected for the wait, the
  later groups, and how it ended. \<open>sent\<close> and \<open>executed\<close> record what went over the wire and what compute
  units have reported.
\<close>

datatype phase = Running | Finished | Aborted

record dispatch =
  current :: "WorkItem list"
  wait_ids :: "work_id list"
  later :: "WorkItem list list"
  phase :: phase
  tracker_of :: tracker
  sent :: "WorkItem list"
  executed :: "32 word set"

text \<open>
  The start: \<^verbatim>\<open>workItems.at(0).at(0).planid()\<close> throws \<^verbatim>\<open>std::out_of_range\<close> when there is no first item.
\<close>

definition start_dispatch :: "WorkItem list list \<Rightarrow> tracker \<Rightarrow> (32 word \<times> dispatch) res" where
  "start_dispatch groups t =
     (case groups of
        [] \<Rightarrow> Inl (RuntimeError ''vector::_M_range_check'')
      | [] # _ \<Rightarrow> Inl (RuntimeError ''vector::_M_range_check'')
      | (wi # ws) # gs \<Rightarrow> Inr (planId wi,
          \<lparr>current = wi # ws, wait_ids = [], later = gs, phase = Running, tracker_of = t, sent = [], executed = {}\<rparr>))"

definition send_item :: "32 word \<Rightarrow> dispatch \<Rightarrow> dispatch" where
  "send_item pid s =
     (case current s of
        [] \<Rightarrow> s
      | wi # ws \<Rightarrow> s\<lparr>current := ws, wait_ids := wait_ids s @ [(pid, itemId wi)], sent := sent s @ [wi]\<rparr>)"

definition end_group :: "bool \<Rightarrow> tracker \<Rightarrow> dispatch \<Rightarrow> dispatch" where
  "end_group ok t s =
     (if \<not> ok then s\<lparr>tracker_of := t, phase := Aborted\<rparr>
      else (case later s of
              [] \<Rightarrow> s\<lparr>tracker_of := t, wait_ids := [], phase := Finished\<rparr>
            | g # gs \<Rightarrow> s\<lparr>tracker_of := t, wait_ids := [], current := g, later := gs\<rparr>))"

text \<open>
  Steps: the dispatcher sends or returns from its wait; a compute unit reports an item it was sent; the
  tracker is stopped; other queries report and consume identifiers of other plans.
\<close>

inductive step :: "32 word \<Rightarrow> dispatch \<Rightarrow> dispatch \<Rightarrow> bool" for pid :: "32 word" where
  send: "phase s = Running \<Longrightarrow> current s \<noteq> [] \<Longrightarrow> step pid s (send_item pid s)"
| wait: "phase s = Running \<Longrightarrow> current s = [] \<Longrightarrow> waitNextCompletions (wait_ids s) (tracker_of s) = Some (ok, t) \<Longrightarrow>
    step pid s (end_group ok t s)"
| report: "wi \<in> set (sent s) \<Longrightarrow> itemId wi \<notin> executed s \<Longrightarrow>
    step pid s (s\<lparr>tracker_of := markCompleted (pid, itemId wi) (tracker_of s), executed := insert (itemId wi) (executed s)\<rparr>)"
| shutdown: "step pid s (s\<lparr>tracker_of := stop (tracker_of s)\<rparr>)"
| other: "\<forall>i. (pid, i) \<in> completed_ids t \<longleftrightarrow> (pid, i) \<in> completed_ids (tracker_of s) \<Longrightarrow> stopped t = stopped (tracker_of s) \<Longrightarrow>
    step pid s (s\<lparr>tracker_of := t\<rparr>)"

inductive_cases stepE: "step pid s s'"

definition steps :: "32 word \<Rightarrow> dispatch \<Rightarrow> dispatch \<Rightarrow> bool" where
  "steps pid = (step pid)\<^sup>*\<^sup>*"

section \<open>Safety\<close>

definition ids_of :: "WorkItem list \<Rightarrow> 32 word set" where
  "ids_of ws = itemId ` set ws"

text \<open>
  The invariant. The groups before the current one have been sent and executed; the current group is what
  was sent since, followed by what is still to be sent; only executed items are reported.
\<close>

definition dispatch_inv :: "32 word \<Rightarrow> WorkItem list list \<Rightarrow> dispatch \<Rightarrow> bool" where
  "dispatch_inv pid groups s \<longleftrightarrow> (\<exists>before part.
     groups = before @ (part @ current s) # later s \<and>
     sent s = concat before @ part \<and>
     wait_ids s = (if phase s = Finished then [] else map (\<lambda>wi. (pid, itemId wi)) part) \<and>
     executed s \<subseteq> ids_of (sent s) \<and>
     ids_of (concat before) \<subseteq> executed s \<and>
     (phase s = Finished \<longrightarrow> current s = [] \<and> later s = [] \<and> ids_of part \<subseteq> executed s) \<and>
     (\<forall>i. (pid, i) \<in> completed_ids (tracker_of s) \<longrightarrow> i \<in> executed s))"

lemma ids_of_simps [simp]: "ids_of [] = {}" "ids_of (x # xs) = insert (itemId x) (ids_of xs)" "ids_of (xs @ ys) = ids_of xs \<union> ids_of ys"
  by (auto simp: ids_of_def)

lemma dispatch_inv_send:
  assumes "dispatch_inv pid groups s" "phase s = Running" "current s = wi # ws"
  shows "dispatch_inv pid groups (send_item pid s)"
proof -
  from assms obtain before part where inv: "groups = before @ (part @ wi # ws) # later s" "sent s = concat before @ part"
    "wait_ids s = map (\<lambda>wi. (pid, itemId wi)) part" "executed s \<subseteq> ids_of (sent s)" "ids_of (concat before) \<subseteq> executed s"
    "\<forall>i. (pid, i) \<in> completed_ids (tracker_of s) \<longrightarrow> i \<in> executed s"
    by (auto simp: dispatch_inv_def)
  then show ?thesis unfolding dispatch_inv_def using assms(2,3)
    by (intro exI [of _ before] exI [of _ "part @ [wi]"]) (auto simp: send_item_def)
qed

lemma dispatch_inv_wait:
  assumes "dispatch_inv pid groups s" "phase s = Running" "current s = []"
    and "waitNextCompletions (wait_ids s) (tracker_of s) = Some (ok, t)"
  shows "dispatch_inv pid groups (end_group ok t s)"
proof -
  from assms obtain before part where inv: "groups = before @ part # later s" "sent s = concat before @ part"
    "wait_ids s = map (\<lambda>wi. (pid, itemId wi)) part" "executed s \<subseteq> ids_of (sent s)" "ids_of (concat before) \<subseteq> executed s"
    "\<forall>i. (pid, i) \<in> completed_ids (tracker_of s) \<longrightarrow> i \<in> executed s"
    by (auto simp: dispatch_inv_def)
  show ?thesis
  proof (cases ok)
    case False
    then have "t = tracker_of s" using ct.await_FalseD(2) assms(4) by simp
    then show ?thesis unfolding dispatch_inv_def using False inv assms(3)
      by (intro exI [of _ before] exI [of _ part]) (auto simp: end_group_def)
  next
    case True
    note w = ct.await_TrueD [OF assms(4) [unfolded eqTrueI [OF True]]]
    have part: "ids_of part \<subseteq> executed s"
    proof
      fix i assume "i \<in> ids_of part"
      then have "(pid, i) \<in> set (wait_ids s)" using inv(3) by (auto simp: ids_of_def)
      then show "i \<in> executed s" using w(1) inv(6) by blast
    qed
    have tr: "\<forall>i. (pid, i) \<in> completed_ids t \<longrightarrow> i \<in> executed s" using w(2) inv(6) by blast
    show ?thesis
    proof (cases "later s")
      case Nil
      then show ?thesis unfolding dispatch_inv_def using True inv assms(3) part tr
        by (intro exI [of _ before] exI [of _ part]) (auto simp: end_group_def)
    next
      case (Cons g gs)
      then show ?thesis unfolding dispatch_inv_def using True inv assms(2,3) part tr
        by (intro exI [of _ "before @ [part]"] exI [of _ "[]"]) (auto simp: end_group_def)
    qed
  qed
qed

lemma dispatch_inv_step:
  assumes "step pid s s'" "dispatch_inv pid groups s"
  shows "dispatch_inv pid groups s'"
  using assms
proof (cases rule: step.cases)
  case send
  then show ?thesis using dispatch_inv_send assms(2) by (auto simp: neq_Nil_conv)
next
  case (wait ok t)
  then show ?thesis using dispatch_inv_wait assms(2) by blast
next
  case (report wi)
  have "itemId wi \<in> ids_of (sent s)" using report(2) by (auto simp: ids_of_def)
  moreover obtain before part where "groups = before @ (part @ current s) # later s" "sent s = concat before @ part"
    "wait_ids s = (if phase s = Finished then [] else map (\<lambda>wi. (pid, itemId wi)) part)" "executed s \<subseteq> ids_of (sent s)"
    "ids_of (concat before) \<subseteq> executed s"
    "phase s = Finished \<longrightarrow> current s = [] \<and> later s = [] \<and> ids_of part \<subseteq> executed s"
    "\<forall>i. (pid, i) \<in> completed_ids (tracker_of s) \<longrightarrow> i \<in> executed s"
    using assms(2) unfolding dispatch_inv_def by blast
  ultimately show ?thesis unfolding dispatch_inv_def report(1)
    by (intro exI [of _ before] exI [of _ part]) (auto simp: ct.mark)
next
  case shutdown
  then show ?thesis using assms(2) by (simp add: dispatch_inv_def ct.halt)
next
  case (other t)
  then show ?thesis using assms(2) by (simp add: dispatch_inv_def)
qed

lemma dispatch_inv_start:
  assumes "start_dispatch groups t = Inr (pid, s)" "\<forall>i. (pid, i) \<notin> completed_ids t"
  shows "dispatch_inv pid groups s"
  using assms unfolding dispatch_inv_def
  by (intro exI [of _ "[]"] exI [of _ "[]"]) (auto simp: start_dispatch_def split: list.split_asm)

lemma dispatch_inv_steps: "steps pid s s' \<Longrightarrow> dispatch_inv pid groups s \<Longrightarrow> dispatch_inv pid groups s'"
  unfolding steps_def by (induction rule: rtranclp_induct) (auto intro: dispatch_inv_step)

lemma dispatch_inv_deps:
  assumes "dispatch_inv pid groups s" "levelled groups" "current s = wi # ws"
  shows "set (dependsOn wi) \<subseteq> executed s"
proof
  fix d assume d: "d \<in> set (dependsOn wi)"
  obtain before part where g: "groups = before @ (part @ wi # ws) # later s" "ids_of (concat before) \<subseteq> executed s"
    using assms(1,3) unfolding dispatch_inv_def by auto
  have "wi \<in> set (groups ! length before)" "length before < length groups" using g(1) by simp_all
  then obtain k where "k < length before" "d \<in> itemId ` set (groups ! k)"
    using assms(2) d unfolding levelled_def by blast
  then have "d \<in> itemId ` set (before ! k)" "before ! k \<in> set before" using g(1) by (simp_all add: nth_append)
  then have "d \<in> ids_of (concat before)" by (auto simp: ids_of_def)
  then show "d \<in> executed s" using g(2) by blast
qed

lemma dispatch_order:
  assumes "levelled groups" "start_dispatch groups t = Inr (pid, s0)" "\<forall>i. (pid, i) \<notin> completed_ids t"
    and "steps pid s0 s"
  shows "(case current s of [] \<Rightarrow> True | wi # _ \<Rightarrow> set (dependsOn wi) \<subseteq> executed s) \<and>
    (phase s = Finished \<longrightarrow> sent s = concat groups \<and> executed s = itemId ` set (concat groups))"
proof -
  have inv: "dispatch_inv pid groups s"
    using dispatch_inv_steps [OF assms(4) dispatch_inv_start [OF assms(2,3)]] .
  moreover have "sent s = concat groups \<and> executed s = itemId ` set (concat groups)" if fin: "phase s = Finished"
  proof -
    obtain before part where b: "groups = before @ [part]" "sent s = concat before @ part" "executed s \<subseteq> ids_of (sent s)"
      "ids_of (concat before) \<subseteq> executed s" "ids_of part \<subseteq> executed s"
      using inv fin unfolding dispatch_inv_def by auto
    then show ?thesis by (auto simp: ids_of_def)
  qed
  ultimately show ?thesis using dispatch_inv_deps [OF _ assms(1)] by (auto split: list.split)
qed

text \<open>
  C20. Parallel dispatch respects dependencies under every interleaving with compute units and other
  queries: whenever the dispatcher is about to send an item of a level-ordered plan, every item it depends
  on has been reported as executed. When the dispatch has finished, every item of the plan has been sent,
  in group order, and executed.
\<close>

theorem dispatch_safe:
  assumes "levelled groups" "start_dispatch groups t = Inr (pid, s0)" "\<forall>i. (pid, i) \<notin> completed_ids t"
    and "steps pid s0 s"
  shows "(case current s of [] \<Rightarrow> True | wi # _ \<Rightarrow> set (dependsOn wi) \<subseteq> executed s) \<and>
    (phase s = Finished \<longrightarrow> sent s = concat groups \<and> executed s = itemId ` set (concat groups))"
  by (rule dispatch_order [OF assms])

section \<open>Progress\<close>

text \<open>Reports of items being waited for are still there: with distinct identifiers nobody else consumes them.\<close>

definition unconsumed :: "32 word \<Rightarrow> dispatch \<Rightarrow> bool" where
  "unconsumed pid s \<longleftrightarrow> (\<forall>i \<in> executed s. (pid, i) \<in> set (wait_ids s) \<longrightarrow> (pid, i) \<in> completed_ids (tracker_of s))"

lemma unconsumed_step:
  assumes "step pid s s'" "dispatch_inv pid groups s" "unconsumed pid s" "distinct (map itemId (concat groups))"
  shows "unconsumed pid s'"
  using assms(1)
proof (cases rule: step.cases)
  case send
  then obtain wi ws where c: "current s = wi # ws" by (auto simp: neq_Nil_conv)
  obtain before part where g: "groups = before @ (part @ wi # ws) # later s" "sent s = concat before @ part"
    "executed s \<subseteq> ids_of (sent s)" using assms(2) c unfolding dispatch_inv_def by auto
  then have "itemId wi \<notin> ids_of (sent s)" using assms(4) by (auto simp: ids_of_def)
  then have "itemId wi \<notin> executed s" using g(3) by blast
  then show ?thesis using assms(3) send(1) c by (auto simp: unconsumed_def send_item_def)
next
  case (wait ok t)
  show ?thesis
  proof (cases ok)
    case True
    then show ?thesis using wait(1) by (auto simp: unconsumed_def end_group_def split: list.split)
  next
    case False
    then have "t = tracker_of s" using ct.await_FalseD(2) wait(4) by simp
    then show ?thesis using False wait(1) assms(3) by (simp add: unconsumed_def end_group_def)
  qed
next
  case (report wi)
  then show ?thesis using assms(3) by (auto simp: unconsumed_def ct.mark)
next
  case shutdown
  then show ?thesis using assms(3) by (simp add: unconsumed_def ct.halt)
next
  case (other t)
  then show ?thesis using assms(3) by (simp add: unconsumed_def)
qed

lemma steps_trans: "steps pid a b \<Longrightarrow> steps pid b c \<Longrightarrow> steps pid a c"
  by (simp add: steps_def)

lemma steps_step: "steps pid a b \<Longrightarrow> step pid b c \<Longrightarrow> steps pid a c"
  unfolding steps_def by (rule rtranclp.rtrancl_into_rtrancl)

lemma steps_refl [simp]: "steps pid a a"
  by (simp add: steps_def)

lemma unconsumed_steps:
  assumes "steps pid s s'" "dispatch_inv pid groups s" "unconsumed pid s" "distinct (map itemId (concat groups))"
  shows "dispatch_inv pid groups s' \<and> unconsumed pid s'"
  using assms unfolding steps_def
proof (induction rule: rtranclp_induct)
  case (step y z)
  then show ?case using dispatch_inv_step unconsumed_step by blast
qed simp

lemma send_all:
  "phase s = Running \<Longrightarrow> \<exists>s'. steps pid s s' \<and> phase s' = Running \<and> current s' = [] \<and> later s' = later s \<and>
     tracker_of s' = tracker_of s"
proof (induction "current s" arbitrary: s)
  case Nil
  then show ?case by (intro exI [of _ s]) simp
next
  case (Cons wi ws)
  let ?s = "send_item pid s"
  have "step pid s ?s" using Cons.hyps(2) Cons.prems by (intro step.send) auto
  moreover have "ws = current ?s" "phase ?s = Running" "later ?s = later s" "tracker_of ?s = tracker_of s"
    using Cons.hyps(2) [symmetric] Cons.prems by (simp_all add: send_item_def)
  ultimately show ?case using Cons.hyps(1) [of ?s] steps_trans steps_step [OF steps_refl] by metis
qed

lemma report_all:
  "set ws \<subseteq> set (sent s) \<Longrightarrow> \<exists>s'. steps pid s s' \<and> phase s' = phase s \<and> current s' = current s \<and> later s' = later s \<and>
     wait_ids s' = wait_ids s \<and> sent s' = sent s \<and> stopped (tracker_of s') = stopped (tracker_of s) \<and>
     executed s' = executed s \<union> ids_of ws"
proof (induction ws arbitrary: s)
  case Nil
  show ?case by (intro exI [of _ s]) simp
next
  case (Cons wi ws)
  let ?s = "if itemId wi \<in> executed s then s else
    s\<lparr>tracker_of := markCompleted (pid, itemId wi) (tracker_of s), executed := insert (itemId wi) (executed s)\<rparr>"
  have "steps pid s ?s" using Cons.prems steps_step [OF steps_refl step.report [of wi s pid]] by simp
  moreover have "set ws \<subseteq> set (sent ?s)" using Cons.prems by simp
  ultimately show ?case using Cons.IH [of ?s] steps_trans [of pid s ?s]
    by (auto simp: ct.mark split: if_split_asm)
qed

lemma drain_group:
  assumes "dispatch_inv pid groups s" "unconsumed pid s" "distinct (map itemId (concat groups))"
    and "phase s = Running" "\<not> stopped (tracker_of s)"
  obtains s' t where "steps pid s s'" "later s' = later s" "\<not> stopped t"
    "step pid s' (end_group True t s')" "dispatch_inv pid groups s'" "unconsumed pid s'" "phase s' = Running"
proof -
  obtain s1 where s1: "steps pid s s1" "phase s1 = Running" "current s1 = []" "later s1 = later s" "tracker_of s1 = tracker_of s"
    using send_all [OF assms(4)] by blast
  obtain s2 where s2: "steps pid s1 s2" "phase s2 = Running" "current s2 = []" "later s2 = later s" "wait_ids s2 = wait_ids s1"
    "sent s2 = sent s1" "\<not> stopped (tracker_of s2)" "executed s2 = executed s1 \<union> ids_of (sent s1)"
    using report_all [of "sent s1" s1 pid] s1 assms(5) by auto
  have steps: "steps pid s s2" using s1(1) s2(1) by (rule steps_trans)
  have inv: "dispatch_inv pid groups s2" "unconsumed pid s2"
    using unconsumed_steps [OF steps assms(1-3)] by blast+
  have "set (wait_ids s2) \<subseteq> completed_ids (tracker_of s2)"
  proof
    fix i assume i: "i \<in> set (wait_ids s2)"
    obtain before part where "sent s2 = concat before @ part" "wait_ids s2 = map (\<lambda>wi. (pid, itemId wi)) part"
      using inv(1) s2(2) unfolding dispatch_inv_def by auto
    then have "fst i = pid" "snd i \<in> executed s2" using i s2(6,8) by (auto simp: ids_of_def)
    then show "i \<in> completed_ids (tracker_of s2)" using inv(2) i by (cases i) (auto simp: unconsumed_def)
  qed
  from ct.await_ready [OF s2(7) this] obtain t where
    t: "waitNextCompletions (wait_ids s2) (tracker_of s2) = Some (True, t)" "\<not> stopped t" using s2(7) by auto
  then show ?thesis using that [OF steps s2(4) t(2) step.wait [OF s2(2,3) t(1)] inv s2(2)] by simp
qed

lemma finish_groups:
  assumes "distinct (map itemId (concat groups))"
  shows "dispatch_inv pid groups s \<Longrightarrow> unconsumed pid s \<Longrightarrow> phase s = Running \<Longrightarrow> \<not> stopped (tracker_of s) \<Longrightarrow>
    \<exists>s'. steps pid s s' \<and> phase s' = Finished"
proof (induction "later s" arbitrary: s)
  case Nil
  from drain_group [OF Nil.prems(1,2) assms Nil.prems(3,4)] obtain s' t where
    s': "steps pid s s'" "later s' = []" "step pid s' (end_group True t s')" using Nil.hyps by metis
  then have "phase (end_group True t s') = Finished" by (simp add: end_group_def)
  then show ?case using steps_step [OF s'(1,3)] by blast
next
  case (Cons g gs)
  from drain_group [OF Cons.prems(1,2) assms Cons.prems(3,4)] obtain s' t where
    s': "steps pid s s'" "later s' = g # gs" "\<not> stopped t" "step pid s' (end_group True t s')" "phase s' = Running"
    "dispatch_inv pid groups s'" "unconsumed pid s'" using Cons.hyps(2) by metis
  let ?s = "end_group True t s'"
  have run: "steps pid s ?s" by (rule steps_step [OF s'(1,4)])
  have "dispatch_inv pid groups ?s" "unconsumed pid ?s"
    using dispatch_inv_step [OF s'(4,6)] unconsumed_step [OF s'(4,6,7) assms] by blast+
  moreover have "gs = later ?s" "phase ?s = Running" "\<not> stopped (tracker_of ?s)"
    using s'(2,3,5) by (simp_all add: end_group_def)
  ultimately obtain s'' where "steps pid ?s s''" "phase s'' = Finished" using Cons.hyps(1) [of ?s] by blast
  then show ?case using steps_trans [OF run] by blast
qed

lemma dispatch_end:
  assumes "distinct (map itemId (concat groups))" "start_dispatch groups t = Inr (pid, s0)"
    and "\<forall>i. (pid, i) \<notin> completed_ids t" "steps pid s0 s" "phase s = Running" "\<not> stopped (tracker_of s)"
  shows "\<exists>s'. steps pid s s' \<and> phase s' = Finished \<and> sent s' = concat groups"
proof -
  note start = dispatch_inv_start [OF assms(2,3)]
  have "unconsumed pid s0"
    using assms(2) by (auto simp: unconsumed_def start_dispatch_def split: list.split_asm)
  from unconsumed_steps [OF assms(4) start this assms(1)] have inv: "dispatch_inv pid groups s" "unconsumed pid s" by blast+
  from finish_groups [OF assms(1) inv assms(5,6)] obtain s' where s': "steps pid s s'" "phase s' = Finished" by blast
  have "dispatch_inv pid groups s'" by (rule dispatch_inv_steps [OF s'(1) inv(1)])
  then have "sent s' = concat groups" using s'(2) unfolding dispatch_inv_def by auto
  with s' show ?thesis by blast
qed

text \<open>
  C21. Parallel dispatch cannot get stuck: from every reachable state in which it is still running and the
  tracker is not stopped, it can run to its end when compute units report what they were sent, and then
  every item of the plan has been sent exactly once.
\<close>

theorem dispatch_completes:
  assumes "distinct (map itemId (concat groups))" "start_dispatch groups t = Inr (pid, s0)"
    and "\<forall>i. (pid, i) \<notin> completed_ids t" "steps pid s0 s" "phase s = Running" "\<not> stopped (tracker_of s)"
  shows "\<exists>s'. steps pid s s' \<and> phase s' = Finished \<and> sent s' = concat groups"
  by (rule dispatch_end [OF assms])

section \<open>A concrete dispatch\<close>

definition demo_item :: "32 word \<Rightarrow> 32 word list \<Rightarrow> WorkItem" where
  "demo_item i deps = \<lparr>planId = 3, itemId = i, dependsOn = deps, operatorId = None, op_data = None\<rparr>"

definition demo_groups :: "WorkItem list list" where
  "demo_groups = [[demo_item 7 [], demo_item 8 []], [demo_item 9 [7, 8]]]"

definition demo_start :: dispatch where
  "demo_start = \<lparr>current = [demo_item 7 [], demo_item 8 []], wait_ids = [], later = [[demo_item 9 [7, 8]]],
     phase = Running, tracker_of = new_tracker, sent = [], executed = {}\<rparr>"

lemma demo_start: "start_dispatch demo_groups new_tracker = Inr (3, demo_start)" "levelled demo_groups"
  "distinct (map itemId (concat demo_groups))" "\<forall>i. (3, i) \<notin> completed_ids new_tracker"
  by (simp_all add: start_dispatch_def demo_groups_def demo_start_def demo_item_def new_tracker_def levelled_def less_Suc_eq)

theorem dispatch_completes_witness:
  "\<exists>s. steps 3 demo_start s \<and> phase s = Finished \<and> sent s = [demo_item 7 [], demo_item 8 [], demo_item 9 [7, 8]]"
  using dispatch_completes [OF demo_start(3,1,4) steps_refl]
  by (simp add: demo_start_def demo_groups_def new_tracker_def)

theorem dispatch_safe_witness:
  "\<exists>s. steps 3 demo_start s \<and> phase s = Finished \<and> executed s = {7, 8, 9}"
proof -
  obtain s where s: "steps 3 demo_start s" "phase s = Finished"
    using finish_groups [OF demo_start(3) dispatch_inv_start [OF demo_start(1,4)]]
    by (auto simp: unconsumed_def demo_start_def new_tracker_def)
  then have "executed s = itemId ` set (concat demo_groups)"
    using dispatch_safe [OF demo_start(2,1,4) s(1)] by blast
  then show ?thesis using s by (auto simp: demo_groups_def demo_item_def)
qed

end
