(* ===== verification/ServerRouting.thy ===== *)
theory ServerRouting
  imports ClientRegistry Dispatch
begin

text \<open>
  The executables around the registry: the callbacks of the server (\<^verbatim>\<open>tcp_server_example.cpp\<close>), which forward
  messages between optimizers, compute units and monitors, the work callback of a compute unit
  (\<^verbatim>\<open>ComputeUnit.cpp\<close>) and the completion callback of an optimizer (\<^verbatim>\<open>OptimizerUnit.cpp\<close>). Together they carry a
  work item to a compute unit and its report back to the completion tracker.

  Protobuf serialization is a parameter: a pair of functions between messages and bytes.
\<close>

section \<open>Message and unit types\<close>

abbreviation (input) WORK :: "32 word" where "WORK \<equiv> 1"
abbreviation (input) REROUTE_WORK :: "32 word" where "REROUTE_WORK \<equiv> 2"
abbreviation (input) TASK_FINISHED :: "32 word" where "TASK_FINISHED \<equiv> 3"
abbreviation (input) TEXT :: "32 word" where "TEXT \<equiv> 4"
abbreviation (input) MONITOR_REQUEST :: "32 word" where "MONITOR_REQUEST \<equiv> 7"
abbreviation (input) CONNECT_ACTION :: "32 word" where "CONNECT_ACTION \<equiv> 8"
abbreviation (input) CONNECT_ACTION_INFO :: "32 word" where "CONNECT_ACTION_INFO \<equiv> 9"
abbreviation (input) CONFIGURATION_ACTION :: "32 word" where "CONFIGURATION_ACTION \<equiv> 10"
abbreviation (input) UUID_FOR_UNIT_REQUEST :: "32 word" where "UUID_FOR_UNIT_REQUEST \<equiv> 11"
abbreviation (input) UUID_FOR_UNIT_RESPONSE :: "32 word" where "UUID_FOR_UNIT_RESPONSE \<equiv> 12"

abbreviation (input) COMPUTE_UNIT :: "32 word" where "COMPUTE_UNIT \<equiv> 2"
abbreviation (input) MONITOR_UNIT :: "32 word" where "MONITOR_UNIT \<equiv> 5"

definition unitTypeToString :: "32 word \<Rightarrow> string" where
  "unitTypeToString ty =
     (if ty = 0 then ''Undefined'' else if ty = 1 then ''QueryPlaner'' else if ty = 2 then ''ComputeUnit''
      else if ty = 3 then ''MemoryUnit'' else if ty = 4 then ''MetaUnit'' else if ty = 5 then ''MonitorUnit''
      else if ty = 6 then ''DatabaseUnit'' else if ty = 7 then ''OptimizerUnit'' else ''Unknown unit type'')"

definition packageTypeToString :: "32 word \<Rightarrow> string" where
  "packageTypeToString ty =
     (if ty = 0 then ''Undefined'' else if ty = 1 then ''Work'' else if ty = 2 then ''RerouteWork''
      else if ty = 3 then ''TaskFinished'' else if ty = 4 then ''Text'' else if ty = 5 then ''UpdateUnitType''
      else if ty = 6 then ''QueryPlan'' else if ty = 7 then ''MonitorRequest'' else if ty = 8 then ''ConnectAction''
      else if ty = 9 then ''ConnectActionInfo'' else if ty = 10 then ''ConfigurationAction''
      else if ty = 11 then ''UuidForTypeRequest'' else if ty = 12 then ''UuidForTypeResponse''
      else if ty = 13 then ''UuidCollision'' else ''Unknown package type'')"

text \<open>The text a monitor receives; \<open>peer\<close> is the address text of a handle.\<close>

definition monitorInfo :: "(int \<Rightarrow> string) \<Rightarrow> server \<Rightarrow> string res" where
  "monitorInfo peer s =
     bindE (mapE (\<lambda>(ty, v).
        bindE (mapE (\<lambda>p. bindE (deref (objects s p)) (\<lambda>info.
            Inr (''  '' @ prettyName info @ '' ('' @ peer (client_handle info) @ '')'' @ [CHR 0x0A]))) v)
          (\<lambda>rows. Inr (unitTypeToString ty @ '' ['' @ [CHR 0x0A] @ concat rows @ '']'' @ [CHR 0x0A]))) (clientMap s))
       (\<lambda>blocks. Inr (concat blocks))"

section \<open>Server callbacks\<close>

text \<open>Sequencing of operations that may be undefined or not return.\<close>

definition bindO :: "'a res option \<Rightarrow> ('a \<Rightarrow> 'b res option) \<Rightarrow> 'b res option" where
  "bindO m f = (case m of None \<Rightarrow> None | Some (Inl e) \<Rightarrow> Some (Inl e) | Some (Inr x) \<Rightarrow> f x)"

lemma bindO_simps [simp]:
  "bindO None f = None" "bindO (Some (Inl e)) f = Some (Inl e)" "bindO (Some (Inr x)) f = f x"
  by (simp_all add: bindO_def)

definition monitorInfoToString :: "(int \<Rightarrow> string) \<Rightarrow> server \<Rightarrow> (string \<times> server) res option" where
  "monitorInfoToString peer s =
     bindO (clear_aborted s) (\<lambda>s'. Some (bindE (monitorInfo peer s') (\<lambda>txt. Inr (txt, s'))))"

text \<open>The copy of a message that the callbacks build: a fresh header and the payload.\<close>

definition message_info :: "32 word \<Rightarrow> 64 word \<Rightarrow> 64 word \<Rightarrow> nat \<Rightarrow> TCPMetaInfo" where
  "message_info ty src tgt len =
     TCPMetaInfo_default\<lparr>package_type := ty, payload_size := of_nat len, src_uuid := src, tgt_uuid := tgt\<rparr>"

definition message_for :: "32 word \<Rightarrow> 64 word \<Rightarrow> 64 word \<Rightarrow> byte list \<Rightarrow> byte list" where
  "message_for ty src tgt data = struct_bytes (message_info ty src tgt (length data)) @ data"

text \<open>
  The sizes of the buffers have 64 bits, the length parameters of the sending operations 32: what is sent is the part
  of the buffer up to its size modulo \<open>2\<^sup>3\<^sup>2\<close>.
\<close>

definition uint32_len :: "byte list \<Rightarrow> byte list" where
  "uint32_len buf = take (length buf mod 2 ^ 32) buf"

text \<open>Every forwarded message also goes to all monitors.\<close>

definition send_and_copy :: "(int \<Rightarrow> bool) \<Rightarrow> byte list \<Rightarrow> nat \<Rightarrow> server \<Rightarrow> server res option" where
  "send_and_copy send_ok buf p s =
     bindO (Some (sendTo send_ok (uint32_len buf) p s)) (\<lambda>(_, s'). sendToAllOfType send_ok (uint32_len buf) MONITOR_UNIT s')"

definition forward_to :: "(int \<Rightarrow> bool) \<Rightarrow> 32 word \<Rightarrow> TCPMetaInfo \<Rightarrow> byte list \<Rightarrow> server \<Rightarrow> server res option" where
  "forward_to send_ok ty meta data s =
     (case getClientByUuid (tgt_uuid meta) s of
        None \<Rightarrow> Some (Inr s)
      | Some p \<Rightarrow> send_and_copy send_ok (message_for ty (src_uuid meta) (tgt_uuid meta) data) p s)"

definition text_cb :: "(int \<Rightarrow> bool) \<Rightarrow> TCPMetaInfo \<Rightarrow> byte list \<Rightarrow> server \<Rightarrow> server res option" where
  "text_cb send_ok meta data s = (if tgt_uuid meta = 0 then Some (Inr s) else forward_to send_ok TEXT meta data s)"

definition reroute_work_cb :: "(int \<Rightarrow> bool) \<Rightarrow> nat \<Rightarrow> TCPMetaInfo \<Rightarrow> byte list \<Rightarrow> server \<Rightarrow> server res option" where
  "reroute_work_cb send_ok idx meta data s =
     (let buf = uint32_len (message_for REROUTE_WORK (tgt_uuid meta) 0 data) in
      bindO (Some (rerouteToAnyOfType send_ok buf idx COMPUTE_UNIT (src_uuid meta) s)) (\<lambda>(_, s').
      sendToAllOfType send_ok buf MONITOR_UNIT s'))"

definition work_forward_cb ::
  "(int \<Rightarrow> bool) \<Rightarrow> (nat \<Rightarrow> nat \<Rightarrow> nat) \<Rightarrow> TCPMetaInfo \<Rightarrow> byte list \<Rightarrow> server \<Rightarrow> server res option" where
  "work_forward_cb send_ok pick meta data s =
     (if tgt_uuid meta = 0 then
        let buf = uint32_len (message_for WORK (src_uuid meta) 0 data) in
        bindO (sendToAnyOfType send_ok buf pick COMPUTE_UNIT s) (\<lambda>(_, s'). sendToAllOfType send_ok buf MONITOR_UNIT s')
      else forward_to send_ok WORK meta data s)"

definition connect_forward_cb :: "(int \<Rightarrow> bool) \<Rightarrow> TCPMetaInfo \<Rightarrow> byte list \<Rightarrow> server \<Rightarrow> server res option" where
  "connect_forward_cb send_ok = forward_to send_ok CONNECT_ACTION"

definition config_forward_cb :: "(int \<Rightarrow> bool) \<Rightarrow> TCPMetaInfo \<Rightarrow> byte list \<Rightarrow> server \<Rightarrow> server res option" where
  "config_forward_cb send_ok = forward_to send_ok CONFIGURATION_ACTION"

definition connect_info_forward_cb :: "(int \<Rightarrow> bool) \<Rightarrow> TCPMetaInfo \<Rightarrow> byte list \<Rightarrow> server \<Rightarrow> server res option" where
  "connect_info_forward_cb send_ok = forward_to send_ok CONNECT_ACTION_INFO"

definition finished_forward_cb :: "(int \<Rightarrow> bool) \<Rightarrow> TCPMetaInfo \<Rightarrow> byte list \<Rightarrow> server \<Rightarrow> server res option" where
  "finished_forward_cb send_ok = forward_to send_ok TASK_FINISHED"

text \<open>The monitor is looked up before aborted clients are removed.\<close>

definition monitor_cb :: "(int \<Rightarrow> bool) \<Rightarrow> (int \<Rightarrow> string) \<Rightarrow> TCPMetaInfo \<Rightarrow> server \<Rightarrow> server res option" where
  "monitor_cb send_ok peer meta s =
     (case getClientByUuid (src_uuid meta) s of
        None \<Rightarrow> Some (Inr s)
      | Some p \<Rightarrow> bindO (monitorInfoToString peer s) (\<lambda>(txt, s').
          send_and_copy send_ok (message_for TEXT (src_uuid meta) (tgt_uuid meta) (map of_char txt)) p s'))"

text \<open>
  The buffer for the response is allocated while the header still has payload size 0: it holds the header
  only, and serializing a payload writes past its end.
\<close>

definition uuid_per_client_cb ::
  "(int \<Rightarrow> bool) \<Rightarrow> (byte list \<Rightarrow> 32 word) \<Rightarrow> (32 word \<Rightarrow> (string \<times> 64 word) list \<Rightarrow> byte list) \<Rightarrow>
     TCPMetaInfo \<Rightarrow> byte list \<Rightarrow> server \<Rightarrow> server res option" where
  "uuid_per_client_cb send_ok parse_request ser_response meta data s =
     (let ty = parse_request data in
      bindO (getUuidForUnitType ty s) (\<lambda>(uuids, s').
      let response = ser_response ty uuids;
          info = TCPMetaInfo_default\<lparr>package_type := UUID_FOR_UNIT_RESPONSE, src_uuid := src_uuid meta, tgt_uuid := tgt_uuid meta\<rparr>;
          (bytes, size) = serializeItemToMemory response info in
      if bytesize info < size then Some (Inl OutOfRange)
      else (case getClientByUuid (src_uuid meta) s' of
              None \<Rightarrow> Some (Inr s')
            | Some p \<Rightarrow> send_and_copy send_ok bytes p s')))"

text \<open>What the callbacks need from outside: sockets, random choices, peer addresses, protobuf.\<close>

record environment =
  accepts :: "int \<Rightarrow> bool"
  random_pick :: "nat \<Rightarrow> nat \<Rightarrow> nat"
  random_start :: nat
  peer_address :: "int \<Rightarrow> string"
  request_parser :: "byte list \<Rightarrow> 32 word"
  response_bytes :: "32 word \<Rightarrow> (string \<times> 64 word) list \<Rightarrow> byte list"

text \<open>The table of callbacks registered in \<^verbatim>\<open>main\<close>, applied to a received message.\<close>

definition server_callback :: "environment \<Rightarrow> message \<Rightarrow> server \<Rightarrow> server res option" where
  "server_callback env m s =
     (let meta = fst m; data = snd m; ty = package_type meta in
      if ty = TEXT then text_cb (accepts env) meta data s
      else if ty = WORK then work_forward_cb (accepts env) (random_pick env) meta data s
      else if ty = REROUTE_WORK then reroute_work_cb (accepts env) (random_start env) meta data s
      else if ty = TASK_FINISHED then finished_forward_cb (accepts env) meta data s
      else if ty = MONITOR_REQUEST then monitor_cb (accepts env) (peer_address env) meta s
      else if ty = CONNECT_ACTION then connect_forward_cb (accepts env) meta data s
      else if ty = CONNECT_ACTION_INFO then connect_info_forward_cb (accepts env) meta data s
      else if ty = UUID_FOR_UNIT_REQUEST then uuid_per_client_cb (accepts env) (request_parser env) (response_bytes env) meta data s
      else if ty = CONFIGURATION_ACTION then config_forward_cb (accepts env) meta data s
      else Some (Inr s))"

section \<open>The console of the server\<close>

text \<open>
  \<^verbatim>\<open>std::stol\<close>: leading white space, an optional sign and at least one digit; a value that does not fit 64 bits
  throws like a text without a number.
\<close>

definition isspace :: "char \<Rightarrow> bool" where
  "isspace c \<longleftrightarrow> c = CHR '' '' \<or> (9 \<le> (of_char c :: nat) \<and> (of_char c :: nat) \<le> 13)"

definition isdigit :: "char \<Rightarrow> bool" where
  "isdigit c \<longleftrightarrow> 48 \<le> (of_char c :: nat) \<and> (of_char c :: nat) \<le> 57"

definition decimal :: "string \<Rightarrow> int" where
  "decimal ds = foldl (\<lambda>v c. 10 * v + (of_char c - 48)) 0 ds"

definition stol :: "string \<Rightarrow> int option" where
  "stol s =
     (let s' = dropWhile isspace s;
          negative = (take 1 s' = ''-'');
          ds = takeWhile isdigit (if negative \<or> take 1 s' = ''+'' then drop 1 s' else s');
          v = (if negative then - decimal ds else decimal ds) in
      if ds \<noteq> [] \<and> - (2 ^ 63) \<le> v \<and> v < 2 ^ 63 then Some v else None)"

text \<open>The message of test 3 goes out in three parts: a third, half of the rest, and the remainder.\<close>

definition three_parts :: "byte list \<Rightarrow> byte list list" where
  "three_parts buf =
     (let n = length buf div 3; rest = drop n buf; m = length rest div 2 in [take n buf, take m rest, drop m rest])"

text \<open>
  The tests behind the numbers 1 to 4; \<open>items\<close> are the serialized random work items that test 2 or 3 draws.
\<close>

definition console_test :: "(int \<Rightarrow> bool) \<Rightarrow> byte list list \<Rightarrow> int \<Rightarrow> server \<Rightarrow> server res option" where
  "console_test send_ok items n s =
     (let buf = concat (map (message_for WORK 0 0) items) in
      if n = 1 then sendToAll send_ok (message_for TEXT 0 0 (map of_char ''Hi from the server.'')) s
      else if n = 2 then sendToAllOfType send_ok (uint32_len buf) COMPUTE_UNIT s
      else if n = 3 then
        (case three_parts buf of
           [a, b, c] \<Rightarrow>
             bindO (sendToAllOfType send_ok (uint32_len a) COMPUTE_UNIT s) (\<lambda>s1.
             bindO (sendToAllOfType send_ok (uint32_len b) COMPUTE_UNIT s1) (\<lambda>s2.
             sendToAllOfType send_ok (uint32_len c) COMPUTE_UNIT s2))
         | _ \<Rightarrow> Some (Inr s))
      else if n = 4 then clear_aborted s
      else Some (Inr s))"

text \<open>
  One line of input: \<^const>\<open>None\<close> as the command to leave the loop. A line \<^verbatim>\<open>-1\<close> counts as the end of input.
\<close>

definition console_line :: "(int \<Rightarrow> bool) \<Rightarrow> byte list list \<Rightarrow> string \<Rightarrow> server \<Rightarrow> server option res option" where
  "console_line send_ok items op s =
     (if op = ''-1'' \<or> map tolower op = ''exit'' then Some (Inr None)
      else (case stol (map tolower op) of
              None \<Rightarrow> Some (Inr (Some s))
            | Some n \<Rightarrow> bindO (console_test send_ok items n s) (\<lambda>s'. Some (Inr (Some s')))))"

section \<open>Compute units and optimizers\<close>

datatype WorkRequest = RequestPlan QueryPlan | RequestItem WorkItem | RequestNone

record WorkResponse =
  resp_planId :: "32 word"
  resp_itemId :: "32 word"
  resp_success :: bool
  resp_info :: string

text \<open>A compute unit answers a request with the message it sends back, or not at all.\<close>

definition work_response :: "WorkRequest \<Rightarrow> WorkResponse option" where
  "work_response r =
     (case r of
        RequestPlan plan \<Rightarrow> Some \<lparr>resp_planId = plan_planid plan, resp_itemId = 0, resp_success = True,
          resp_info = ''QueryPlan processed successfully.''\<rparr>
      | RequestItem wi \<Rightarrow> Some \<lparr>resp_planId = planId wi, resp_itemId = itemId wi, resp_success = True,
          resp_info = ''WorkItem processed successfully.''\<rparr>
      | RequestNone \<Rightarrow> None)"

definition work_cb ::
  "(byte list \<Rightarrow> WorkRequest) \<Rightarrow> (WorkResponse \<Rightarrow> byte list) \<Rightarrow> 64 word \<Rightarrow> message \<Rightarrow> byte list option" where
  "work_cb parse_work ser_done uuid m =
     map_option (\<lambda>r. fst (serializeItemToMemory (ser_done r)
         (TCPMetaInfo_default\<lparr>package_type := TASK_FINISHED, src_uuid := uuid, tgt_uuid := src_uuid (fst m)\<rparr>)))
       (work_response (parse_work (snd m)))"

text \<open>The optimizer: the message for one work item, and the completion callback.\<close>

definition work_message :: "(WorkRequest \<Rightarrow> byte list) \<Rightarrow> 64 word \<Rightarrow> WorkItem \<Rightarrow> byte list" where
  "work_message ser_work uuid wi =
     fst (serializeItemToMemory (ser_work (RequestItem wi)) (TCPMetaInfo_default\<lparr>package_type := WORK, src_uuid := uuid\<rparr>))"

definition finished_cb :: "(byte list \<Rightarrow> WorkResponse) \<Rightarrow> message \<Rightarrow> tracker \<Rightarrow> tracker" where
  "finished_cb parse_done m t = (let r = parse_done (snd m) in markCompleted (resp_planId r, resp_itemId r) t)"

section \<open>Messages arrive as they were built\<close>

text \<open>The message with this payload has a size of 32 bits.\<close>

definition payload_fits :: "byte list \<Rightarrow> bool" where
  "payload_fits data \<longleftrightarrow> meta_size + length data < 2 ^ 32"

lemma payload_fitsD: "payload_fits data \<Longrightarrow> length data < 2 ^ 32"
  by (simp add: payload_fits_def)

lemma uint32_len_id: "length buf < 2 ^ 32 \<Longrightarrow> uint32_len buf = buf"
  by (simp add: uint32_len_def)

lemma uint32_len_message [simp]: "payload_fits data \<Longrightarrow> uint32_len (message_for ty src tgt data) = message_for ty src tgt data"
  by (rule uint32_len_id) (simp add: payload_fits_def message_for_def)

lemma message_for_wire: "message_for ty src tgt data = wire (message_info ty src tgt 0, data)"
  by (simp add: message_for_def message_info_def wire_def serializeItemToMemory_def TCPMetaInfo_default_def)

lemma decode_message:
  assumes "payload_fits data"
  shows "parse_stream (message_for ty src tgt data) = ([(message_info ty src tgt (length data), data)], [])"
proof -
  let ?m = "(message_info ty src tgt 0, data)"
  have "sendable ?m" using payload_fitsD [OF assms] by (simp add: sendable_def message_info_def TCPMetaInfo_default_def)
  moreover have "received ?m = (message_info ty src tgt (length data), data)" by (simp add: received_def message_info_def TCPMetaInfo_default_def)
  ultimately show ?thesis using parse_wire [of ?m "[]"] by (simp add: message_for_wire parse_stream_Nil)
qed

lemma message_info_fields [simp]:
  "package_type (message_info ty src tgt len) = ty" "src_uuid (message_info ty src tgt len) = src"
  "tgt_uuid (message_info ty src tgt len) = tgt"
  by (simp_all add: message_info_def)

lemma work_message_for: "work_message ser_work uuid wi = message_for WORK uuid 0 (ser_work (RequestItem wi))"
  by (simp add: work_message_def serializeItemToMemory_def message_for_def message_info_def TCPMetaInfo_default_def)

lemma work_cb_for:
  "parse_work (snd m) = RequestItem wi \<Longrightarrow>
   \<exists>r. work_response (RequestItem wi) = Some r \<and> resp_planId r = planId wi \<and> resp_itemId r = itemId wi \<and>
     work_cb parse_work ser_done uuid m = Some (message_for TASK_FINISHED uuid (src_uuid (fst m)) (ser_done r))"
  by (simp add: work_cb_def work_response_def serializeItemToMemory_def message_for_def message_info_def TCPMetaInfo_default_def)

section \<open>Forwarding\<close>

text \<open>The copies for the monitors, and that all monitors accept them.\<close>

definition copies :: "byte list \<Rightarrow> server \<Rightarrow> (int \<times> byte list) list" where
  "copies buf s = map (\<lambda>p. (client_handle (info_of_client s p), buf)) (vec MONITOR_UNIT s)"

definition monitors_accept :: "(int \<Rightarrow> bool) \<Rightarrow> server \<Rightarrow> bool" where
  "monitors_accept send_ok s \<longleftrightarrow> (\<forall>p \<in> set (vec MONITOR_UNIT s). send_ok (client_handle (info_of_client s p)))"

lemma copy_to_monitors:
  assumes "registry_core s" "monitors_accept send_ok s"
  shows "sendToAllOfType send_ok buf MONITOR_UNIT s = Some (Inr (s\<lparr>attempts := attempts s @ copies buf s\<rparr>))"
proof (cases "vec MONITOR_UNIT s")
  case Nil
  then show ?thesis by (simp add: sendToAllOfType_def copies_def send_copy.simps [of _ _ _ "[]"])
next
  case (Cons p ps)
  then have "p \<in> set (vec MONITOR_UNIT s)" by simp
  note has = vec_nonempty [OF this]
  show ?thesis using has assms send_copy_all_ok [OF assms(1) vec_all_clients, of MONITOR_UNIT send_ok buf MONITOR_UNIT]
    by (simp add: sendToAllOfType_def monitors_accept_def copies_def)
qed

lemma copies_frame [simp]: "copies buf (s\<lparr>attempts := as\<rparr>) = copies buf s" "monitors_accept send_ok (s\<lparr>attempts := as\<rparr>) = monitors_accept send_ok s"
  by (simp_all add: copies_def monitors_accept_def info_of_client_def)

lemma monitors_accept_drop: "monitors_accept send_ok s \<Longrightarrow> monitors_accept send_ok (drop_clients D s)"
  by (auto simp: monitors_accept_def vec_drop info_of_client_def)

lemma uuid_client:
  "registry_core s \<Longrightarrow> getClientByUuid u s = Some p \<Longrightarrow> p \<in> set (all_clients s)"
  using registry_coreD(3,5) by (metis domI getClientByUuid_def)

text \<open>What forwarding to a client does: an unreachable one is removed, and the monitors see the message anyway.\<close>

definition lost :: "(int \<Rightarrow> bool) \<Rightarrow> server \<Rightarrow> nat \<Rightarrow> nat set" where
  "lost send_ok s p = (if reachable_client send_ok s p then {} else {p})"

definition direct_attempt :: "byte list \<Rightarrow> server \<Rightarrow> nat \<Rightarrow> (int \<times> byte list) list" where
  "direct_attempt buf s p = (if client_abort (info_of_client s p) then [] else [(client_handle (info_of_client s p), buf)])"

lemma sendTo_result:
  assumes "registry_ok s" "p \<in> set (all_clients s)"
  shows "sendTo send_ok buf p s =
    Inr (reachable_client send_ok s p, (drop_clients (lost send_ok s p) s)\<lparr>attempts := attempts s @ direct_attempt buf s p\<rparr>)"
proof -
  obtain info where info: "objects s p = Some info" using registry_coreD(3) [OF registry_okD(1) [OF assms(1)]] assms(2) by blast
  have rm: "removeClient p (s\<lparr>attempts := as\<rparr>) = Inr ((drop_clients {p} s)\<lparr>attempts := as\<rparr>)" for as
    using removeClient_drop [of "s\<lparr>attempts := as\<rparr>" p] assms by (simp add: drop_clients_attempts)
  show ?thesis using info rm [of "attempts s"] rm [of "attempts s @ [(client_handle info, buf)]"]
    by (auto simp: sendTo_def deref_def info_of_client_def reachable_client_def lost_def direct_attempt_def attempt_def Let_def
        drop_clients_empty)
qed

lemma send_and_copy_result:
  assumes "registry_ok s" "p \<in> set (all_clients s)" "monitors_accept send_ok s" "uint32_len buf = buf"
  shows "send_and_copy send_ok buf p s =
    (let s' = drop_clients (lost send_ok s p) s in
     Some (Inr (s'\<lparr>attempts := attempts s @ direct_attempt buf s p @ copies buf s'\<rparr>)))"
proof -
  let ?s = "(drop_clients (lost send_ok s p) s)\<lparr>attempts := attempts s @ direct_attempt buf s p\<rparr>"
  have "registry_core ?s" "monitors_accept send_ok ?s"
    using registry_okD(1) [OF assms(1)] assms(3) by (simp_all add: registry_core_drop monitors_accept_drop)
  from copy_to_monitors [OF this, of buf] show ?thesis
    by (simp add: send_and_copy_def sendTo_result [OF assms(1,2)] assms(4) Let_def)
qed

text \<open>The messages that are forwarded to the client named in the header.\<close>

definition relayed :: "TCPMetaInfo \<Rightarrow> bool" where
  "relayed meta \<longleftrightarrow>
     package_type meta \<in> {TASK_FINISHED, CONNECT_ACTION, CONNECT_ACTION_INFO, CONFIGURATION_ACTION} \<or>
     package_type meta \<in> {TEXT, WORK} \<and> tgt_uuid meta \<noteq> 0"

lemma server_callback_relayed:
  "relayed meta \<Longrightarrow> server_callback env (meta, data) s = forward_to (accepts env) (package_type meta) meta data s"
  by (auto simp: relayed_def server_callback_def text_cb_def work_forward_cb_def finished_forward_cb_def connect_forward_cb_def
      connect_info_forward_cb_def config_forward_cb_def)

text \<open>
  C35. The server delivers an addressed message. Whatever sequence of operations the server has gone through in which no
  two registered clients shared a handle, as long as all monitors accept their copies and header and payload together
  are shorter than \<open>2\<^sup>3\<^sup>2\<close> bytes, the callback for a work item, text, report, connect or
  configuration message with a target returns. If the target's UUID is registered, the message is handed to
  its socket, and after it one copy to every monitor; a receiver decodes it to a message of the same type,
  sender, target and payload. Nobody is removed from the registry but a target that was not reached. If the
  UUID is unknown, nothing is sent and nothing changes.
\<close>

theorem relay_correct:
  assumes "server_run s" "relayed meta" "monitors_accept (accepts env) s" "payload_fits data"
  shows "let buf = message_for (package_type meta) (src_uuid meta) (tgt_uuid meta) data in
    parse_stream buf = ([(message_info (package_type meta) (src_uuid meta) (tgt_uuid meta) (length data), data)], []) \<and>
    server_callback env (meta, data) s =
      (case getClientByUuid (tgt_uuid meta) s of
         None \<Rightarrow> Some (Inr s)
       | Some p \<Rightarrow> let s' = drop_clients (lost (accepts env) s p) s in
           Some (Inr (s'\<lparr>attempts := attempts s @ direct_attempt buf s p @ copies buf s'\<rparr>)))"
  unfolding Let_def server_callback_relayed [OF assms(2)] forward_to_def
  using decode_message [OF assms(4)] send_and_copy_result [OF server_run_ok [OF assms(1)] uuid_client [OF server_run_core [OF assms(1)]] assms(3) uint32_len_message [OF assms(4)]]
  by (auto simp: Let_def split: option.split)

section \<open>Work and reports\<close>

lemma work_to_any_unit:
  assumes "registry_ok s" "\<And>k n. 0 < n \<Longrightarrow> random_pick env k n < n" "monitors_accept (accepts env) s"
    and "\<exists>p \<in> set (vec COMPUTE_UNIT s). reachable_client (accepts env) s p"
    and "package_type meta = WORK" "tgt_uuid meta = 0" "payload_fits data"
  shows "\<exists>D hs q. let buf = message_for WORK (src_uuid meta) 0 data; s' = drop_clients D s in
    server_callback env (meta, data) s =
      Some (Inr (s'\<lparr>attempts := attempts s @ hs @ [(client_handle (info_of_client s q), buf)] @ copies buf s'\<rparr>)) \<and>
    q \<in> set (vec COMPUTE_UNIT s) \<and> reachable_client (accepts env) s q \<and>
    D \<subseteq> {p \<in> set (vec COMPUTE_UNIT s). \<not> reachable_client (accepts env) s p} \<and>
    set hs \<subseteq> (\<lambda>p. (client_handle (info_of_client s p), buf)) ` D"
proof -
  let ?buf = "message_for WORK (src_uuid meta) 0 data"
  have ex: "(\<exists>p \<in> set (vec COMPUTE_UNIT s). reachable_client (accepts env) s p) = True" using assms(4) by simp
  obtain s1 where s1: "send_any (accepts env) ?buf (random_pick env) COMPUTE_UNIT 0 s = Some (Inr (True, s1))"
    "sent_to_one (accepts env) ?buf COMPUTE_UNIT s True s1"
    using send_any_correct [where pick = "random_pick env" and s = s and send_ok = "accepts env" and data = ?buf and ty = COMPUTE_UNIT and k = 0]
      assms(1,2) unfolding ex by blast
  from s1(2) obtain D hs q where r: "D \<subseteq> {p \<in> set (vec COMPUTE_UNIT s). \<not> reachable_client (accepts env) s p}"
    "s1 = (drop_clients D s)\<lparr>attempts := attempts s @ hs\<rparr>" "q \<in> set (vec COMPUTE_UNIT s)" "reachable_client (accepts env) s q"
    "hs \<noteq> []" "last hs = (client_handle (info_of_client s q), ?buf)"
    "set (butlast hs) \<subseteq> (\<lambda>p. (client_handle (info_of_client s p), ?buf)) ` D"
    unfolding sent_to_one_def by auto
  have hs: "hs = butlast hs @ [(client_handle (info_of_client s q), ?buf)]" using r(5,6) append_butlast_last_id by metis
  have ok: "registry_core s1" "monitors_accept (accepts env) s1"
    using registry_okD(1) [OF assms(1)] assms(3) r(2) by (simp_all add: registry_core_drop monitors_accept_drop)
  have "sendToAnyOfType (accepts env) ?buf (random_pick env) COMPUTE_UNIT s = Some (Inr (True, s1))"
    using s1(1) vec_nonempty [OF r(3)] by (simp add: sendToAnyOfType_def)
  then have "server_callback env (meta, data) s = Some (Inr (s1\<lparr>attempts := attempts s1 @ copies ?buf s1\<rparr>))"
    using copy_to_monitors [OF ok, of ?buf] assms(5-7) by (simp add: server_callback_def work_forward_cb_def Let_def)
  also have "\<dots> = Some (Inr ((drop_clients D s)\<lparr>attempts := attempts s @ butlast hs @ [(client_handle (info_of_client s q), ?buf)] @
      copies ?buf (drop_clients D s)\<rparr>))" using r(2) hs by simp
  finally show ?thesis using r by (auto simp: Let_def)
qed

text \<open>
  The server reacts to a message by handing bytes to a handle; bytes are one message of a given type.
\<close>

definition passes_on :: "environment \<Rightarrow> message \<Rightarrow> server \<Rightarrow> int \<Rightarrow> byte list \<Rightarrow> bool" where
  "passes_on env m s h buf \<longleftrightarrow>
     (\<exists>s' new. server_callback env m s = Some (Inr s') \<and> attempts s' = attempts s @ new \<and> (h, buf) \<in> set new)"

definition decodes :: "byte list \<Rightarrow> 32 word \<Rightarrow> message \<Rightarrow> bool" where
  "decodes buf ty m \<longleftrightarrow> parse_stream buf = ([m], []) \<and> package_type (fst m) = ty"

lemma decodes_message_for:
  "payload_fits data \<Longrightarrow> decodes (message_for ty src tgt data) ty (message_info ty src tgt (length data), data)"
  by (simp add: decodes_def decode_message)

lemma passes_on_work:
  assumes "server_run s" "\<And>k n. 0 < n \<Longrightarrow> random_pick env k n < n" "monitors_accept (accepts env) s"
    and "\<exists>p \<in> set (vec COMPUTE_UNIT s). reachable_client (accepts env) s p" "payload_fits data"
  shows "\<exists>q \<in> set (vec COMPUTE_UNIT s). reachable_client (accepts env) s q \<and>
    passes_on env (message_info WORK u 0 n, data) s (client_handle (info_of_client s q)) (message_for WORK u 0 data)"
  using work_to_any_unit [OF server_run_ok [OF assms(1)] assms(2-4), of "message_info WORK u 0 n" data] assms(5)
  by (fastforce simp: passes_on_def Let_def)

lemma passes_on_report:
  assumes "server_run s" "getClientByUuid u s = Some p" "reachable_client (accepts env) s p" "monitors_accept (accepts env) s" "payload_fits data"
  shows "passes_on env (message_info TASK_FINISHED v u n, data) s (client_handle (info_of_client s p)) (message_for TASK_FINISHED v u data)"
proof -
  let ?buf = "message_for TASK_FINISHED v u data"
  note ok = server_run_ok [OF assms(1)] and core = server_run_core [OF assms(1)]
  have "server_callback env (message_info TASK_FINISHED v u n, data) s =
      Some (Inr (s\<lparr>attempts := attempts s @ (client_handle (info_of_client s p), ?buf) # copies ?buf s\<rparr>))"
    using send_and_copy_result [OF ok uuid_client [OF core assms(2)] assms(4) uint32_len_message [OF assms(5)]] assms(2,3)
    by (simp add: server_callback_def finished_forward_cb_def forward_to_def Let_def lost_def direct_attempt_def
        drop_clients_empty reachable_client_def)
  then show ?thesis by (auto simp: passes_on_def)
qed

text \<open>
  C24. A report of the model of parallel dispatch is what the executables do. The optimizer sends a work
  item to the server; the server passes it on to a compute unit that can be reached; the compute unit
  answers, and the server, in whatever state it is then with the optimizer connected, passes the answer on to
  the optimizer, whose callback marks exactly this item of this plan as completed. On the dispatch this is the
  \<open>report\<close> step of an item that was sent and not yet reported. Assumed are monitors that accept their copies, messages
  shorter than \<open>2\<^sup>3\<^sup>2\<close> bytes, registered clients that do not share handles, and that protobuf parses what it has
  serialized.
\<close>

theorem report_reaches_tracker:
  assumes run: "server_run s" "\<And>k n. 0 < n \<Longrightarrow> random_pick env k n < n" "monitors_accept (accepts env) s"
      "\<exists>p \<in> set (vec COMPUTE_UNIT s). reachable_client (accepts env) s p"
    and later: "server_run s'" "getClientByUuid optimizer s' = Some p" "reachable_client (accepts env) s' p"
      "monitors_accept (accepts env) s'"
    and protobuf: "parse_work (ser_work (RequestItem wi)) = RequestItem wi" "\<And>r. parse_done (ser_done r) = r"
      "payload_fits (ser_work (RequestItem wi))" "\<And>r. work_response (RequestItem wi) = Some r \<Longrightarrow> payload_fits (ser_done r)"
    and dispatched: "wi \<in> set (sent d)" "planId wi = pid" "itemId wi \<notin> executed d"
  shows "\<exists>request q work answer report reply result.
    decodes (work_message ser_work optimizer wi) WORK request \<and>
    q \<in> set (vec COMPUTE_UNIT s) \<and> passes_on env request s (client_handle (info_of_client s q)) work \<and>
    (\<exists>m. decodes work WORK m \<and> work_cb parse_work ser_done unit_uuid m = Some answer) \<and>
    decodes answer TASK_FINISHED report \<and>
    passes_on env report s' (client_handle (info_of_client s' p)) reply \<and>
    decodes reply TASK_FINISHED result \<and>
    step pid d (d\<lparr>tracker_of := finished_cb parse_done result (tracker_of d), executed := insert (itemId wi) (executed d)\<rparr>)"
proof -
  let ?data = "ser_work (RequestItem wi)"
  let ?request = "(message_info WORK optimizer 0 (length ?data), ?data)"
  obtain q where q: "q \<in> set (vec COMPUTE_UNIT s)"
    "passes_on env ?request s (client_handle (info_of_client s q)) (message_for WORK optimizer 0 ?data)"
    using passes_on_work [OF run protobuf(3)] by blast
  have work: "decodes (message_for WORK optimizer 0 ?data) WORK ?request" by (rule decodes_message_for [OF protobuf(3)])
  from work_cb_for [of parse_work ?request wi ser_done unit_uuid] protobuf(1) obtain r where
    r: "work_response (RequestItem wi) = Some r" "resp_planId r = planId wi" "resp_itemId r = itemId wi"
      "work_cb parse_work ser_done unit_uuid ?request = Some (message_for TASK_FINISHED unit_uuid optimizer (ser_done r))"
    by auto
  let ?report = "(message_info TASK_FINISHED unit_uuid optimizer (length (ser_done r)), ser_done r)"
  have report: "decodes (message_for TASK_FINISHED unit_uuid optimizer (ser_done r)) TASK_FINISHED ?report"
    by (rule decodes_message_for [OF protobuf(4) [OF r(1)]])
  have "finished_cb parse_done ?report (tracker_of d) = markCompleted (pid, itemId wi) (tracker_of d)"
    using r(2,3) protobuf(2) dispatched(2) by (simp add: finished_cb_def)
  then have "step pid d (d\<lparr>tracker_of := finished_cb parse_done ?report (tracker_of d), executed := insert (itemId wi) (executed d)\<rparr>)"
    using step.report [OF dispatched(1,3), of pid] by simp
  then show ?thesis
    using q work r(4) report passes_on_report [OF later protobuf(4) [OF r(1)], of unit_uuid "length (ser_done r)"]
    unfolding work_message_for by blast
qed

section \<open>Tests from the console\<close>

lemma three_parts_concat: "concat (three_parts buf) = buf"
  by (simp add: three_parts_def Let_def del: drop_drop length_drop)

text \<open>
  When all compute units accept, test 3 hands each of them the same three parts, and what a unit receives in
  total decodes to the work items, whatever their number and size.
\<close>

lemma console_segments:
  assumes "server_run s" "vec COMPUTE_UNIT s \<noteq> []" "\<forall>p \<in> set (vec COMPUTE_UNIT s). send_ok (client_handle (info_of_client s p))"
    and "list_all payload_fits items" "length (concat (map (message_for WORK 0 0) items)) < 2 ^ 32"
  shows "\<exists>parts. console_test send_ok items 3 s =
      Some (Inr (s\<lparr>attempts := attempts s @ concat (map (\<lambda>part. map (\<lambda>p. (client_handle (info_of_client s p), part)) (vec COMPUTE_UNIT s)) parts)\<rparr>)) \<and>
    parse_stream (concat parts) = (map (\<lambda>data. (message_info WORK 0 0 (length data), data)) items, [])"
proof -
  let ?buf = "concat (map (message_for WORK 0 0) items)" and ?hs = "\<lambda>part. map (\<lambda>p. (client_handle (info_of_client s p), part)) (vec COMPUTE_UNIT s)"
  note ok = server_run_core [OF assms(1)]
  obtain q where "q \<in> set (vec COMPUTE_UNIT s)" using assms(2) by (cases "vec COMPUTE_UNIT s") auto
  note has = vec_nonempty [OF this]
  have send: "sendToAllOfType send_ok part COMPUTE_UNIT (s\<lparr>attempts := as\<rparr>) = Some (Inr (s\<lparr>attempts := as @ ?hs part\<rparr>))" for part as
    using has assms(3) send_copy_all_ok [of "s\<lparr>attempts := as\<rparr>" "vec COMPUTE_UNIT s" send_ok part COMPUTE_UNIT] ok vec_all_clients [of COMPUTE_UNIT s]
    by (simp add: sendToAllOfType_def hasClients_def contains_def info_of_client_def)
  obtain a b c where abc: "three_parts ?buf = [a, b, c]" by (simp add: three_parts_def Let_def)
  then have "length (concat [a, b, c]) < 2 ^ 32" using three_parts_concat [of ?buf] assms(5) by simp
  then have len: "uint32_len a = a" "uint32_len b = b" "uint32_len c = c" by (auto intro!: uint32_len_id)
  have "console_test send_ok items 3 s = Some (Inr (s\<lparr>attempts := attempts s @ concat (map ?hs [a, b, c])\<rparr>))"
    using abc len send [of a "attempts s"] send by (simp add: console_test_def Let_def)
  moreover have "?buf = concat (map wire (map (Pair (message_info WORK 0 0 0)) items))"
    by (simp add: fun_eq_iff message_for_wire cong: map_cong)
  moreover have "list_all sendable (map (Pair (message_info WORK 0 0 0)) items)"
    using assms(4) payload_fitsD by (auto simp: list_all_iff sendable_def message_info_def TCPMetaInfo_default_def)
  ultimately show ?thesis using abc three_parts_concat [of ?buf] parse_wires [of "map (Pair (message_info WORK 0 0 0)) items"]
    by (intro exI [of _ "[a, b, c]"]) (simp add: comp_def received_def message_info_def TCPMetaInfo_default_def)
qed

section \<open>Callbacks are sequences of registry operations\<close>

lemma bindO_Inr_iff: "bindO m f = Some (Inr y) \<longleftrightarrow> (\<exists>x. m = Some (Inr x) \<and> f x = Some (Inr y))"
  by (cases m) (auto simp: bindO_def split: sum.split)

lemma run_sendTo:
  assumes "server_run s" "sendTo send_ok buf p s = Inr (ok, s')"
  shows "server_run s'"
proof -
  have "p \<in> dom (objects s)" using assms(2) by (cases "objects s p") (auto simp: sendTo_def deref_def)
  then have "p \<in> set (all_clients s)" using registry_coreD(3) [OF server_run_core [OF assms(1)]] by blast
  then show ?thesis using server_run_op [OF assms(1) server_op.send] assms(2) by blast
qed

lemma run_sendToAllOfType: "server_run s \<Longrightarrow> sendToAllOfType send_ok buf ty s = Some (Inr s') \<Longrightarrow> server_run s'"
  by (rule server_run_op [OF _ server_op.all_of_type])

lemma run_send_and_copy: "server_run s \<Longrightarrow> send_and_copy send_ok buf p s = Some (Inr s') \<Longrightarrow> server_run s'"
  by (auto simp: send_and_copy_def bindO_Inr_iff intro: run_sendTo run_sendToAllOfType)

lemma run_forward_to: "server_run s \<Longrightarrow> forward_to send_ok ty meta data s = Some (Inr s') \<Longrightarrow> server_run s'"
  by (auto simp: forward_to_def intro: run_send_and_copy split: option.split_asm)

lemma run_reroute: "server_run s \<Longrightarrow> rerouteToAnyOfType send_ok buf idx ty original s = Inr (ok, s') \<Longrightarrow> server_run s'"
  by (rule server_run_op [OF _ server_op.reroute])

text \<open>
  C31. The callbacks keep the registry consistent. Whatever message arrives, and whichever clients can be
  reached, a callback of the server that returns has only performed registry operations: the state it leaves
  is again one that the server can be in without two clients sharing a handle, so that the invariant of the registry
  holds between any two messages.
\<close>

theorem callbacks_keep_registry:
  assumes "server_run s" "\<And>k n. 0 < n \<Longrightarrow> random_pick env k n < n" "server_callback env m s = Some (Inr s')"
  shows "server_run s' \<and> registry_ok s'"
proof -
  have any: "server_run s'" if "work_forward_cb (accepts env) (random_pick env) meta data s = Some (Inr s')" for meta data
    using that run_sendToAllOfType [OF server_run_op [OF assms(1) server_op.any_of_type [of "random_pick env"]]]
      run_forward_to [OF assms(1)] assms(2)
    by (fastforce simp: work_forward_cb_def Let_def bindO_Inr_iff split: if_split_asm)
  have reroute: "server_run s'" if "reroute_work_cb (accepts env) idx meta data s = Some (Inr s')" for idx meta data
    using that assms(1) by (auto simp: reroute_work_cb_def Let_def bindO_Inr_iff intro: run_sendToAllOfType run_reroute)
  have monitor: "server_run s'" if "monitor_cb (accepts env) adr meta s = Some (Inr s')" for adr meta
    using that assms(1) server_run_op [OF assms(1) server_op.clear]
    by (auto simp: monitor_cb_def monitorInfoToString_def bindO_Inr_iff bindE_Inr_iff split: option.split_asm intro: run_send_and_copy)
  have uuids: "server_run s'" if "uuid_per_client_cb (accepts env) req resp meta data s = Some (Inr s')" for req resp meta data
  proof -
    from that obtain us s1 where s1: "getUuidForUnitType (req data) s = Some (Inr (us, s1))"
      unfolding uuid_per_client_cb_def Let_def by (auto simp: bindO_Inr_iff)
    have "server_run s1" by (rule server_run_op [OF assms(1) server_op.uuids [OF s1]])
    then show ?thesis using that run_send_and_copy
      by (auto simp: uuid_per_client_cb_def s1 Let_def serializeItemToMemory_def split: if_split_asm option.split_asm)
  qed
  have "server_run s'"
    using assms(1,3) any reroute monitor uuids run_forward_to [OF assms(1)]
    by (auto simp: server_callback_def Let_def text_cb_def finished_forward_cb_def connect_forward_cb_def
        connect_info_forward_cb_def config_forward_cb_def split: if_split_asm)
  then show ?thesis using server_run_ok by blast
qed

section \<open>Requests that break the server\<close>

lemma mapE_defined: "(\<And>x. x \<in> set xs \<Longrightarrow> \<exists>y. f x = Inr y) \<Longrightarrow> \<exists>ys. mapE f xs = Inr ys"
  by (induction xs) fastforce+

lemma live_client: "registry_core s \<Longrightarrow> p \<in> set (all_clients s) \<Longrightarrow> \<exists>info. objects s p = Some info"
  using registry_coreD(3) by blast

lemma names_and_uuids_defined:
  assumes "registry_core s" "set ps \<subseteq> set (all_clients s)"
  shows "\<exists>us. names_and_uuids s ps = Inr us"
  unfolding names_and_uuids_def
proof (rule mapE_defined)
  fix p assume "p \<in> set ps"
  then show "\<exists>y. bindE (deref (objects s p)) (\<lambda>info. Inr (prettyName info, client_uuid info)) = Inr y"
    using live_client [OF assms(1)] assms(2) by (fastforce simp: deref_def)
qed

definition some_aborted :: "server \<Rightarrow> bool" where
  "some_aborted s \<longleftrightarrow> (\<exists>p \<in> set (all_clients s). client_abort (info_of_client s p))"

lemma getUuidForUnitType_defined:
  assumes "registry_core s"
  shows "if some_aborted s then getUuidForUnitType ty s = Some (Inl InvalidIterator)
    else \<exists>us. getUuidForUnitType ty s = Some (Inr (us, s))"
proof -
  obtain us vs where "names_and_uuids s (all_clients s) = Inr us" "names_and_uuids s (vec ty s) = Inr vs"
    using names_and_uuids_defined [OF assms] vec_all_clients [of ty s] by blast
  moreover have "all_clients s = []" if "\<not> hasClients s" using that by (auto simp: hasClients_def all_clients_def)
  ultimately show ?thesis by (auto simp: getUuidForUnitType_def clear_aborted_result [OF assms] some_aborted_def)
qed

text \<open>
  C37. A request for the UUIDs of a unit type breaks the server. Whatever the server has done before and whatever
  clients are connected, its callback writes a response with a payload past the end of a buffer that has room
  for the header only; if a client has disconnected since, the behaviour is undefined before that, since the
  clean-up goes on with an iterator that the removal of the client has invalidated.
\<close>

theorem uuid_request_overflows:
  assumes "server_history s" "package_type meta = UUID_FOR_UNIT_REQUEST" "\<And>us. response_bytes env (request_parser env data) us \<noteq> []"
  shows "server_callback env (meta, data) s = Some (Inl (if some_aborted s then InvalidIterator else OutOfRange))"
proof (cases "some_aborted s")
  case True
  then show ?thesis using assms(2) getUuidForUnitType_defined [OF server_history_core [OF assms(1)], of "request_parser env data"]
    by (simp add: server_callback_def uuid_per_client_cb_def)
next
  case False
  then obtain us where "getUuidForUnitType (request_parser env data) s = Some (Inr (us, s))"
    using getUuidForUnitType_defined [OF server_history_core [OF assms(1)], of "request_parser env data"] by auto
  moreover have "0 < length (response_bytes env (request_parser env data) us)" using assms(3) by simp
  ultimately show ?thesis using False assms(2)
    by (simp add: server_callback_def uuid_per_client_cb_def serializeItemToMemory_def bytesize_def TCPMetaInfo_default_def)
qed

lemma monitorInfo_defined:
  assumes "registry_core s"
  shows "\<exists>reply. monitorInfo peer s = Inr reply"
proof -
  have "\<exists>rows. mapE (\<lambda>p. bindE (deref (objects s p)) (\<lambda>info.
      Inr (''  '' @ prettyName info @ '' ('' @ peer (client_handle info) @ '')'' @ [CHR 0x0A]))) v = Inr rows"
    if "(ty, v) \<in> set (clientMap s)" for ty v
  proof (rule mapE_defined)
    fix p assume "p \<in> set v"
    then have "p \<in> set (all_clients s)" using that unfolding all_clients_def by force
    then show "\<exists>y. bindE (deref (objects s p)) (\<lambda>info.
        Inr (''  '' @ prettyName info @ '' ('' @ peer (client_handle info) @ '')'' @ [CHR 0x0A])) = Inr y"
      using live_client [OF assms] by (fastforce simp: deref_def)
  qed
  then have "\<exists>blocks. mapE (\<lambda>(ty, v). bindE (mapE (\<lambda>p. bindE (deref (objects s p)) (\<lambda>info.
      Inr (''  '' @ prettyName info @ '' ('' @ peer (client_handle info) @ '')'' @ [CHR 0x0A]))) v)
      (\<lambda>rows. Inr (unitTypeToString ty @ '' ['' @ [CHR 0x0A] @ concat rows @ '']'' @ [CHR 0x0A]))) (clientMap s) = Inr blocks"
    by (intro mapE_defined) fastforce
  then show ?thesis by (auto simp: monitorInfo_def)
qed

text \<open>
  A request of a monitor: as soon as some client has disconnected, the clean-up of the clients is undefined.
  Otherwise the request is answered.
\<close>

lemma monitor_request:
  assumes "server_run s" "package_type meta = MONITOR_REQUEST" "getClientByUuid (src_uuid meta) s = Some p"
  shows "server_callback env (meta, data) s =
    (if some_aborted s then Some (Inl InvalidIterator)
     else bindO (Some (monitorInfo (peer_address env) s)) (\<lambda>reply.
       send_and_copy (accepts env) (message_for TEXT (src_uuid meta) (tgt_uuid meta) (map of_char reply)) p s))"
proof -
  note core = server_run_core [OF assms(1)]
  obtain reply where reply: "monitorInfo (peer_address env) s = Inr reply"
    using monitorInfo_defined [OF core] by blast
  show ?thesis using reply assms(2,3) clear_aborted_result [OF core]
    by (auto simp: server_callback_def monitor_cb_def monitorInfoToString_def some_aborted_def)
qed

section \<open>A concrete network\<close>

text \<open>A compute unit, an optimizer and a monitor; protobuf is replaced by a fixed layout.\<close>

definition demo_net :: server where
  "demo_net = add_client 6 MONITOR_UNIT ''m'' 33 (add_client 5 7 ''o'' 22 (add_client 4 COMPUTE_UNIT ''c'' 11 new_server))"

lemma demo_net_run: "server_run demo_net"
  unfolding demo_net_def
  by (intro server_run_add server_run_new) (simp_all add: add_client_def Let_def update_vec_def new_server_def)

lemmas demo_net_defs = demo_net_def add_client_def Let_def update_vec_def new_server_def vec_def all_clients_def
  info_of_client_def reachable_client_def getClientByUuid_def monitors_accept_def

definition demo_env :: environment where
  "demo_env = \<lparr>accepts = \<lambda>_. True, random_pick = \<lambda>_ _. 0, random_start = 0, peer_address = \<lambda>_. ''host'',
     request_parser = \<lambda>bs. of_nat (le_nat bs), response_bytes = \<lambda>ty us. le_bytes 4 (unat ty) @ concat (map (le_bytes 8 \<circ> unat \<circ> snd) us)\<rparr>"

definition net_item :: WorkItem where
  "net_item = \<lparr>planId = 8, itemId = 3, dependsOn = [], operatorId = None, op_data = None\<rparr>"

fun demo_ser_work :: "WorkRequest \<Rightarrow> byte list" where
  "demo_ser_work (RequestItem wi) = le_bytes 4 (unat (planId wi)) @ le_bytes 4 (unat (itemId wi))"
| "demo_ser_work _ = []"

definition demo_parse_work :: "byte list \<Rightarrow> WorkRequest" where
  "demo_parse_work bs =
     (if bs = [] then RequestNone
      else RequestItem (net_item\<lparr>planId := of_nat (le_nat (take 4 bs)), itemId := of_nat (le_nat (drop 4 bs))\<rparr>))"

definition demo_ser_done :: "WorkResponse \<Rightarrow> byte list" where
  "demo_ser_done r = le_bytes 4 (unat (resp_planId r)) @ le_bytes 4 (unat (resp_itemId r)) @ of_bool (resp_success r) #
     map (\<lambda>c. of_nat (of_char c)) (resp_info r)"

definition demo_parse_done :: "byte list \<Rightarrow> WorkResponse" where
  "demo_parse_done bs = \<lparr>resp_planId = of_nat (le_nat (take 4 bs)), resp_itemId = of_nat (le_nat (take 4 (drop 4 bs))),
     resp_success = bs ! 8 = 1, resp_info = map (\<lambda>b. char_of (unat b)) (drop 9 bs)\<rparr>"

lemma demo_done_roundtrip: "demo_parse_done (demo_ser_done r) = r"
proof -
  have "unat (of_nat (of_char c) :: byte) = of_char c" for c by (simp add: unat_of_nat)
  then show ?thesis by (simp add: demo_parse_done_def demo_ser_done_def nth_append comp_def)
qed

lemma le_bytes_eq_Nil [simp]: "le_bytes n v = [] \<longleftrightarrow> n = 0"
  by (cases n) simp_all

lemma demo_work_roundtrip: "demo_parse_work (demo_ser_work (RequestItem net_item)) = RequestItem net_item"
  by (simp add: demo_parse_work_def net_item_def le_nat_le_bytes)

theorem relay_correct_witness:
  "server_callback demo_env (message_info TASK_FINISHED 11 22 3, [1, 2, 3]) demo_net =
     Some (Inr (demo_net\<lparr>attempts := [(5, message_for TASK_FINISHED 11 22 [1, 2, 3]), (6, message_for TASK_FINISHED 11 22 [1, 2, 3])]\<rparr>))"
proof -
  have "monitors_accept (accepts demo_env) demo_net" by (simp add: demo_net_defs demo_env_def)
  moreover have "getClientByUuid 22 demo_net = Some 1" "lost (accepts demo_env) demo_net 1 = {}"
    "direct_attempt buf demo_net 1 = [(5, buf)]" "copies buf demo_net = [(6, buf)]" "attempts demo_net = []" for buf
    by (simp_all add: demo_net_defs demo_env_def lost_def direct_attempt_def copies_def)
  ultimately show ?thesis
    using relay_correct [OF demo_net_run, of "message_info TASK_FINISHED 11 22 3" demo_env "[1, 2, 3]"]
    by (simp add: relayed_def payload_fits_def meta_size_def Let_def drop_clients_empty)
qed

definition net_dispatch :: dispatch where
  "net_dispatch = \<lparr>current = [], wait_ids = [(8, 3)], later = [], phase = Running, tracker_of = new_tracker, sent = [net_item], executed = {}\<rparr>"

theorem report_reaches_tracker_witness:
  "\<exists>request work. decodes (work_message demo_ser_work 22 net_item) WORK request \<and> passes_on demo_env request demo_net 4 work"
proof -
  have v: "vec COMPUTE_UNIT demo_net = [0]" "client_handle (info_of_client demo_net 0) = 4" by (simp_all add: demo_net_defs)
  have "monitors_accept (accepts demo_env) demo_net" "getClientByUuid 22 demo_net = Some 1" "reachable_client (accepts demo_env) demo_net 1"
    "\<exists>p \<in> set (vec COMPUTE_UNIT demo_net). reachable_client (accepts demo_env) demo_net p"
    by (simp_all add: demo_net_defs demo_env_def)
  moreover have "\<And>k n. 0 < n \<Longrightarrow> random_pick demo_env k n < n" by (simp add: demo_env_def)
  moreover have "payload_fits (demo_ser_work (RequestItem net_item))" by (simp add: payload_fits_def meta_size_def)
  moreover have "payload_fits (demo_ser_done r)" if "work_response (RequestItem net_item) = Some r" for r
    using that by (auto simp: payload_fits_def meta_size_def demo_ser_done_def work_response_def)
  moreover have "net_item \<in> set (sent net_dispatch)" "planId net_item = 8" "itemId net_item \<notin> executed net_dispatch"
    by (simp_all add: net_dispatch_def net_item_def)
  ultimately obtain request q work where "decodes (work_message demo_ser_work 22 net_item) WORK request"
    "q \<in> set (vec COMPUTE_UNIT demo_net)" "passes_on demo_env request demo_net (client_handle (info_of_client demo_net q)) work"
    using report_reaches_tracker [of demo_net demo_env demo_net 22 1 demo_parse_work demo_ser_work net_item
        demo_parse_done demo_ser_done net_dispatch 8 11] demo_net_run demo_work_roundtrip demo_done_roundtrip by blast
  then show ?thesis using v by (metis empty_iff list.set(1) set_ConsD)
qed

theorem uuid_request_overflows_witness:
  "server_callback demo_env (message_info UUID_FOR_UNIT_REQUEST 33 0 1, [2]) demo_net = Some (Inl OutOfRange)"
proof -
  have "\<not> some_aborted demo_net" by (simp add: demo_net_defs some_aborted_def)
  then show ?thesis using uuid_request_overflows [OF server_run_history [OF demo_net_run], of "message_info UUID_FOR_UNIT_REQUEST 33 0 1" demo_env "[2]"]
    by (simp add: demo_env_def)
qed

theorem callbacks_keep_registry_witness:
  "server_run (demo_net\<lparr>attempts := [(5, message_for TASK_FINISHED 11 22 []), (6, message_for TASK_FINISHED 11 22 [])]\<rparr>)"
proof -
  have "server_callback demo_env (message_info TASK_FINISHED 11 22 0, []) demo_net =
      Some (Inr (demo_net\<lparr>attempts := [(5, message_for TASK_FINISHED 11 22 []), (6, message_for TASK_FINISHED 11 22 [])]\<rparr>))"
  proof -
    have "getClientByUuid 22 demo_net = Some 1" "monitors_accept (accepts demo_env) demo_net" "lost (accepts demo_env) demo_net 1 = {}"
      "direct_attempt buf demo_net 1 = [(5, buf)]" "copies buf demo_net = [(6, buf)]" "attempts demo_net = []" for buf
      by (simp_all add: demo_net_defs demo_env_def lost_def direct_attempt_def copies_def)
    moreover have "payload_fits []" by (simp add: payload_fits_def meta_size_def)
    ultimately show ?thesis using send_and_copy_result [of demo_net 1 "accepts demo_env" "message_for TASK_FINISHED 11 22 []"]
        server_run_ok [OF demo_net_run] uuid_client [OF server_run_core [OF demo_net_run], of 22 1]
      by (simp add: server_callback_def finished_forward_cb_def forward_to_def Let_def drop_clients_empty)
  qed
  moreover have "\<And>k n. 0 < n \<Longrightarrow> random_pick demo_env k n < n" by (simp add: demo_env_def)
  ultimately show ?thesis using callbacks_keep_registry [OF demo_net_run, of demo_env] by blast
qed

end
