(* ===== verification/SelectOutput.thy ===== *)
theory SelectOutput
  imports SelectPlanBuilder
begin

text \<open>
  Properties of the output side of \<^verbatim>\<open>SelectPlanBuilder.cpp\<close>: the plan builder always returns, the
  aggregates of the SELECT list and the AGGREGATE node agree, generated aliases do not collide, ORDER
  BY columns and directions are parallel, and LIMIT and OFFSET are stored modulo the width of \<^verbatim>\<open>int\<close>.
\<close>

section \<open>Termination\<close>

lemma join_step_returns:
  assumes "dsu_inv d" "K \<subseteq> uf.members d"
  shows "\<exists>r. join_step (d, tree, ex) jp = Some r \<and>
    (\<forall>d' tree' ex'. r = Inr (d', tree', ex') \<longrightarrow> dsu_inv d' \<and> K \<subseteq> uf.members d')"
proof (cases "length (base_columns (node jp)) \<noteq> 2 \<or> comp_type (expression (node jp)) = None \<or> pred_t1 jp = '''' \<or> pred_t2 jp = ''''")
  case True
  with assms show ?thesis by (auto simp: join_step_def Let_def pred_t1_def pred_t2_def)
next
  case False
  let ?t1 = "pred_t1 jp" and ?t2 = "pred_t2 jp"
  let ?d0 = "dsu_add ?t2 (dsu_add ?t1 d)"
  have a1: "dsu_inv (dsu_add ?t1 d)" "insert ?t1 K \<subseteq> uf.members (dsu_add ?t1 d)"
    using uf.add_law [OF assms(1), of ?t1] False assms(2) by (auto simp: uf.members_def)
  then have d0: "dsu_inv ?d0" "insert ?t2 (insert ?t1 K) \<subseteq> uf.members ?d0"
    using uf.add_law [OF a1(1), of ?t2] False by (auto simp: uf.members_def)
  then obtain r1 r2 where r: "dsu_rep ?d0 ?t1 = Some r1" "dsu_rep ?d0 ?t2 = Some r2" by (auto simp: uf.members_def)
  obtain d1 where d1: "dsu_find ?d0 ?t1 = Some (d1, r1)" "dsu_inv d1" "dsu_rep d1 = dsu_rep ?d0"
    using uf.find_law [OF d0(1) r(1)] by blast
  obtain d2 where d2: "dsu_find d1 ?t2 = Some (d2, r2)" "dsu_inv d2" "dsu_rep d2 = dsu_rep ?d0"
    using uf.find_law [OF d1(2), of ?t2 r2] d1(3) r(2) by auto
  have K2: "K \<subseteq> uf.members d2" using d0(2) d2(3) by (auto simp: uf.members_def)
  show ?thesis
  proof (cases "r1 = r2")
    case True
    with False d1(1) d2 K2 show ?thesis by (auto simp: join_step_def Let_def pred_t1_def pred_t2_def)
  next
    case ne: False
    have rr: "dsu_rep d2 r1 = Some r1" "dsu_rep d2 r2 = Some r2"
      using uf.rep_rep [OF d0(1) r(1)] uf.rep_rep [OF d0(1) r(2)] d2(3) by simp_all
    from uf.unite_law [OF d2(2) rr ne] obtain d3 where d3: "dsu_unite d2 r1 r2 = Some (d3, True)" "dsu_inv d3"
      "dsu_rep d3 = (\<lambda>x. map_option (\<lambda>r. if r = r2 then r1 else r) (dsu_rep d2 x))" by blast
    then have "dsu_rep d3 r1 = Some r1" using rr ne by simp
    from uf.find_law [OF d3(2) this] obtain d4 where
      d4: "dsu_find d3 r1 = Some (d4, r1)" "dsu_inv d4" "dsu_rep d4 = dsu_rep d3" by blast
    have "K \<subseteq> uf.members d4" using K2 d4(3) d3(3) by (auto simp: uf.members_def)
    with False ne d1(1) d2(1) d3(1) d4(1,2) show ?thesis
      by (auto simp: join_step_def Let_def pred_t1_def pred_t2_def)
  qed
qed

lemma join_loop_returns:
  assumes "dsu_inv d" "K \<subseteq> uf.members d"
  shows "\<exists>r. join_loop (d, tree, ex) jps = Some r \<and>
    (\<forall>d' tree' ex'. r = Inr (d', tree', ex') \<longrightarrow> dsu_inv d' \<and> K \<subseteq> uf.members d')"
  using assms
proof (induction jps arbitrary: d tree ex)
  case (Cons jp jps)
  from join_step_returns [OF Cons.prems, of tree ex jp] obtain r where r: "join_step (d, tree, ex) jp = Some r"
    "\<And>d' tree' ex'. r = Inr (d', tree', ex') \<Longrightarrow> dsu_inv d' \<and> K \<subseteq> uf.members d'" by blast
  show ?case
  proof (cases r)
    case (Inl e)
    with r(1) show ?thesis by simp
  next
    case (Inr st)
    obtain d' tree' ex' where "st = (d', tree', ex')" by (cases st)
    with r Inr Cons.IH [of d' tree' ex'] show ?thesis by simp
  qed
qed simp

lemma buildJoinTree_returns:
  assumes "'''' \<notin> fst ` set scans"
  shows "\<exists>r. buildJoinTree scans jps ex0 = Some r"
proof (cases "scans = []")
  case False
  let ?d = "fold (\<lambda>(t, _). dsu_add t) scans Map.empty"
  have "dsu_inv Map.empty" "dsu_rep Map.empty = Map.empty"
    by (auto simp: dsu_inv_def intro!: dsu_rep_eqI dest: root_of_dom)
  with add_all [of Map.empty scans] assms have d: "dsu_inv ?d" "fst ` set scans \<subseteq> uf.members ?d"
    by (auto simp: uf.members_def)
  from join_loop_returns [OF d, of "fold (\<lambda>(t, scan) m. m(t \<mapsto> Some scan)) scans Map.empty" ex0 jps] obtain r where
    r: "join_loop (?d, fold (\<lambda>(t, scan) m. m(t \<mapsto> Some scan)) scans Map.empty, ex0) jps = Some r"
    "\<And>d' tree' ex'. r = Inr (d', tree', ex') \<Longrightarrow> dsu_inv d' \<and> fst ` set scans \<subseteq> uf.members d'" by blast
  show ?thesis
  proof (cases r)
    case (Inr st)
    obtain d' tree' ex' where st: "st = (d', tree', ex')" by (cases st)
    with r Inr rep_loop_first [of d' "map fst scans" "''''"] False show ?thesis
      by (auto simp: buildJoinTree_def Let_def split: option.split)
  qed (use r False in \<open>simp add: buildJoinTree_def\<close>)
qed (simp add: buildJoinTree_def)

lemma plan_returns:
  assumes "\<And>m. mset (hash_order m) = mset m"
  shows "\<exists>r. buildPlanForSelect hash_order sel jsonJoinOrder ctx = Some r"
proof -
  have "\<exists>r. buildSelectInputTree scans js jsonJoinOrder = Some r"
    if "buildScanMap hash_order (fromTable sel) = Inr scans" for scans js
  proof -
    have "'''' \<notin> fst ` set scans" using buildScanMap_ok [OF assms that] by (auto simp: from_tables_def)
    from buildJoinTree_returns [OF this, of js "[]"] show ?thesis
      by (auto simp: buildSelectInputTree_def Let_def split: prod.split option.split bool.split)
  qed
  then show ?thesis
    by (auto simp: buildPlanForSelect_def Let_def bindE_Inr_iff split: sum.split prod.split)
qed

text \<open>
  Building a plan always ends: whatever the statement, the join order and the (possibly malformed)
  predicates are, \<open>buildPlanForSelect\<close> returns a plan or throws; the unbounded parent search of the
  union-find never runs forever.
\<close>

theorem buildPlanForSelect_returns:
  assumes "\<And>m. mset (hash_order m) = mset m"
  shows "\<exists>r. buildPlanForSelect hash_order sel jsonJoinOrder ctx = Some r"
  using assms by (rule plan_returns)

theorem buildPlanForSelect_returns_witness:
  "\<exists>r. buildPlanForSelect rev ex_select [''u'', ''o''] TranslationContext_default = Some r"
  by (rule buildPlanForSelect_returns) simp

section \<open>Aggregates of the SELECT list\<close>

text \<open>
  The aggregate patterns and the aggregate specifications are parallel lists with the same names.
\<close>

definition parallel_aggs :: "SelectAnalysis \<Rightarrow> bool" where
  "parallel_aggs sa \<longleftrightarrow>
     list_all2 (\<lambda>a s. agg_name a \<noteq> '''' \<and> result_alias s = Some (agg_name a) \<and> agg_func s = ap_func (pattern a) \<and>
       agg_is_star s = ap_is_star (pattern a)) (aggregates sa) (aggSpecs sa)"

lemma kAggFuncToName_nonempty [simp]: "kAggFuncToName f \<noteq> ''''"
  by (cases f) (simp_all add: kAggFuncToName_def)

lemma analyze_item_parallel:
  "parallel_aggs (fst st) \<Longrightarrow> parallel_aggs (fst (analyze_item al st e))"
  by (auto simp: parallel_aggs_def analyze_item_def add_aggregate_def generateAggAlias_def Let_def
      intro!: list_all2_appendI split: prod.split option.split)

lemma analyzeSelectClause_parallel: "parallel_aggs (fst (analyzeSelectClause sel al ctx))"
proof -
  have "parallel_aggs (fst (foldl (analyze_item al) st items))" if "parallel_aggs (fst st)" for st items
    using that by (induction items arbitrary: st) (auto simp: analyze_item_parallel)
  then show ?thesis
    by (auto simp: analyzeSelectClause_def parallel_aggs_def SelectAnalysis_default_def split: option.split)
qed

lemma ensureDefaultAggregate_parallel: "parallel_aggs sa \<Longrightarrow> parallel_aggs (ensureDefaultAggregate sa)"
  by (auto simp: parallel_aggs_def ensureDefaultAggregate_def AggPattern_default_def list_all2_appendI)

lemma map_nodes_loop_returns:
  "length as + i \<le> length specs \<Longrightarrow>
     \<exists>input' specs'. map_nodes_loop as i input specs = Inr (input', specs') \<and>
       list_all2 (\<lambda>s s'. s' = s \<or> s' = s\<lparr>agg_input := None\<rparr>) specs specs'"
proof (induction as i input specs rule: map_nodes_loop.induct)
  case (2 a as i input specs)
  let ?specs = "specs[i := (specs ! i)\<lparr>agg_input := None\<rparr>]"
  show ?case
  proof (cases "is_sum_mul (pattern a) \<or> is_sum_sub (pattern a)")
    case True
    moreover have "i < length specs" using "2.prems" by simp
    ultimately obtain input' specs' where
      "map_nodes_loop as (i + 1) (Some (map_node (pattern a) input)) ?specs = Inr (input', specs')"
      "list_all2 (\<lambda>s s'. s' = s \<or> s' = s\<lparr>agg_input := None\<rparr>) ?specs specs'"
      using "2.IH"(1) "2.prems" by fastforce
    moreover have "list_all2 (\<lambda>s s'. s' = s \<or> s' = s\<lparr>agg_input := None\<rparr>) specs specs'"
    proof (rule list_all2_all_nthI)
      show "length specs = length specs'" using list_all2_lengthD [OF calculation(2)] by simp
      fix k assume k: "k < length specs"
      then have "specs' ! k = ?specs ! k \<or> specs' ! k = (?specs ! k)\<lparr>agg_input := None\<rparr>"
        using calculation(2) by (auto simp: list_all2_conv_all_nth)
      with k show "specs' ! k = specs ! k \<or> specs' ! k = (specs ! k)\<lparr>agg_input := None\<rparr>"
        by (cases "k = i") auto
    qed
    ultimately show ?thesis using True \<open>i < length specs\<close> by simp
  next
    case False
    then show ?thesis using "2.IH"(2) [OF False] "2.prems" by simp
  qed
qed (simp add: list_all2_conv_all_nth)

text \<open>
  C9. Aggregation output is consistent: when the plan has an AGGREGATE node, building the output tree
  cannot fail (in particular no specification is indexed out of range), and the PROJECTION above it
  ends with one column per aggregate specification, named exactly like the result alias of that
  specification, so that every projected aggregate is produced below.
\<close>

theorem aggregate_output_consistent:
  assumes "analyzeSelectClause sel al ctx = (sa, ctx')"
  shows "\<exists>d g input sa'. buildSelectOutputTree cur groupByCols (ensureDefaultAggregate sa) True =
      Inr (LNode d [Some (LNode g [input])], sa') \<and>
    node_type d = L_PROJECTION \<and> node_type g = L_AGGREGATE \<and> base_columns g = groupByCols \<and>
    agg_specs (expression g) \<noteq> [] \<and>
    projected_columns d = projections sa @ map agg_output_column (aggregates sa') \<and>
    map (Some \<circ> column_name) (map agg_output_column (aggregates sa')) = map result_alias (agg_specs (expression g))"
proof -
  let ?sa = "ensureDefaultAggregate sa"
  have par: "parallel_aggs ?sa"
    using analyzeSelectClause_parallel [of sel al ctx] assms by (simp add: ensureDefaultAggregate_parallel)
  then have len: "length (aggregates ?sa) = length (aggSpecs ?sa)" by (auto simp: parallel_aggs_def list_all2_lengthD)
  have ne: "aggSpecs ?sa \<noteq> []" by (simp add: ensureDefaultAggregate_def)
  obtain input specs where loop: "map_nodes_loop (aggregates ?sa) 0 cur (aggSpecs ?sa) = Inr (input, specs)"
    "list_all2 (\<lambda>s s'. s' = s \<or> s' = s\<lparr>agg_input := None\<rparr>) (aggSpecs ?sa) specs"
    using map_nodes_loop_returns [of "aggregates ?sa" 0 "aggSpecs ?sa" cur] len by auto
  have "map result_alias specs = map result_alias (aggSpecs ?sa)"
    using loop(2) by (induction rule: list_all2_induct) auto
  moreover have "map result_alias (aggSpecs ?sa) = map (Some \<circ> column_name) (map agg_output_column (aggregates ?sa))"
    using par unfolding parallel_aggs_def by (induction rule: list_all2_induct) (auto simp: agg_output_column_def)
  moreover have "projections ?sa = projections sa" by (simp add: ensureDefaultAggregate_def)
  moreover have "specs \<noteq> []" using loop(2) ne by auto
  ultimately show ?thesis
    using loop(1) by (auto simp: buildSelectOutputTree_def applyMapNodes_def Let_def)
qed

theorem aggregate_output_consistent_witness:
  "\<exists>d g input sa'. buildSelectOutputTree None [] (ensureDefaultAggregate
       (fst (analyzeSelectClause ex_select ex_al TranslationContext_default))) True =
      Inr (LNode d [Some (LNode g [input])], sa') \<and>
    map (Some \<circ> column_name) (map agg_output_column (aggregates sa')) = map result_alias (agg_specs (expression g))"
  using aggregate_output_consistent [of ex_select ex_al TranslationContext_default
      "fst (analyzeSelectClause ex_select ex_al TranslationContext_default)"
      "snd (analyzeSelectClause ex_select ex_al TranslationContext_default)" None "[]"]
  by (simp only: prod.collapse) blast

section \<open>Generated aliases\<close>

lemma agg_alias_inj:
  assumes "kAggFuncToName f @ int_to_string i = kAggFuncToName g @ int_to_string j" "0 \<le> i" "0 \<le> j"
  shows "f = g \<and> i = j"
proof -
  have "f = g" using assms(1) by (cases f; cases g) (simp_all add: kAggFuncToName_def)
  with assms show ?thesis by (auto simp: int_to_string_def dest: nat_to_string_inj)
qed

text \<open>
  After \<open>n\<close> items of the SELECT list no counter exceeds \<open>n\<close>, and the names handed out so far for \<open>f\<close> are those with a
  counter up to the current one.
\<close>

abbreviation agg_count :: "TranslationContext \<Rightarrow> PlanAggFunc \<Rightarrow> int" where
  "agg_count ctx f \<equiv> sint (aggAliasCounters ctx f)"

definition fresh_inv :: "nat \<Rightarrow> SelectAnalysis \<times> TranslationContext \<Rightarrow> bool" where
  "fresh_inv n st \<longleftrightarrow>
     (\<forall>f. 0 \<le> agg_count (snd st) f \<and> agg_count (snd st) f \<le> int n) \<and>
     distinct (map agg_name (filter (\<lambda>a. ap_alias (pattern a) = '''') (aggregates (fst st)))) \<and>
     (\<forall>a \<in> set (aggregates (fst st)). ap_alias (pattern a) = '''' \<longrightarrow>
        (\<exists>f i. agg_name a = kAggFuncToName f @ int_to_string i \<and> 0 < i \<and> i \<le> agg_count (snd st) f))"

lemma fresh_inv_Suc: "fresh_inv n st \<Longrightarrow> fresh_inv (Suc n) st"
  unfolding fresh_inv_def by (intro conjI allI) (auto intro: order_trans)

lemma sint_increment:
  assumes "0 \<le> sint (w :: 32 word)" "sint w + 1 < 2 ^ 31"
  shows "sint (w + 1) = sint w + 1"
proof -
  have "signed_take_bit 31 (sint w + 1) = sint w + 1" using assms by (intro signed_take_bit_int_eq_self) simp_all
  then have "sint (of_int (sint w + 1) :: 32 word) = sint w + 1" by (simp add: signed_of_int del: of_int_add)
  then show ?thesis by simp
qed

lemma fresh_inv_item:
  assumes "fresh_inv n st" "Suc n < 2 ^ 31"
  shows "fresh_inv (Suc n) (analyze_item al st e)"
proof -
  obtain result ctx where st: "st = (result, ctx)" by force
  show ?thesis
  proof (cases "matchAgg al e")
    case None
    with fresh_inv_Suc [OF assms(1)] show ?thesis by (auto simp: st analyze_item_def fresh_inv_def split: option.split)
  next
    case (Some ap)
    show ?thesis
    proof (cases "ap_alias ap = ''''")
      case False
      with Some fresh_inv_Suc [OF assms(1)] show ?thesis by (simp add: st analyze_item_def add_aggregate_def fresh_inv_def)
    next
      case True
      let ?f = "ap_func ap" and ?k = "agg_count ctx (ap_func ap) + 1"
      let ?ctx = "ctx\<lparr>aggAliasCounters := (aggAliasCounters ctx)(?f := aggAliasCounters ctx ?f + 1)\<rparr>"
      have k: "0 < ?k" "?k < 2 ^ 31" "\<forall>g. 0 \<le> agg_count ctx g \<and> agg_count ctx g \<le> int n"
        using assms by (auto simp: fresh_inv_def st add_nonneg_pos dest!: spec [where x = ?f])
      then have count: "agg_count ?ctx g = (if g = ?f then ?k else agg_count ctx g)" for g
        using sint_increment [of "aggAliasCounters ctx ?f"] by simp
      have new: "agg_name a \<noteq> kAggFuncToName ?f @ int_to_string ?k"
        if "a \<in> set (aggregates result)" "ap_alias (pattern a) = ''''" for a
      proof
        assume eq: "agg_name a = kAggFuncToName ?f @ int_to_string ?k"
        from assms that obtain g i where "agg_name a = kAggFuncToName g @ int_to_string i" "0 < i" "i \<le> agg_count ctx g"
          unfolding fresh_inv_def st by auto
        with eq k agg_alias_inj [of g i ?f ?k] show False by simp
      qed
      have old: "\<exists>g i. agg_name a = kAggFuncToName g @ int_to_string i \<and> 0 < i \<and> i \<le> agg_count ?ctx g"
        if a: "a \<in> set (aggregates result)" "ap_alias (pattern a) = ''''" for a
      proof -
        from assms a obtain g i where g: "agg_name a = kAggFuncToName g @ int_to_string i" "0 < i" "i \<le> agg_count ctx g"
          unfolding fresh_inv_def st by auto
        then have "i \<le> agg_count ?ctx g" unfolding count by auto
        with g show ?thesis by blast
      qed
      have item: "analyze_item al st e = (add_aggregate ap (kAggFuncToName ?f @ int_to_string ?k) result, ?ctx)"
        using Some True count [of ?f] by (simp add: st analyze_item_def generateAggAlias_def Let_def)
      have "distinct (map agg_name (filter (\<lambda>a. ap_alias (pattern a) = '''') (aggregates result)))"
        using assms by (simp add: fresh_inv_def st)
      moreover have "kAggFuncToName ?f @ int_to_string ?k \<notin>
          set (map agg_name (filter (\<lambda>a. ap_alias (pattern a) = '''') (aggregates result)))"
        using new by force
      moreover have "\<exists>g i. kAggFuncToName ?f @ int_to_string ?k = kAggFuncToName g @ int_to_string i \<and> 0 < i \<and> i \<le> agg_count ?ctx g"
        unfolding count using k by (intro exI [of _ ?f] exI [of _ ?k]) simp
      moreover have "\<forall>g. 0 \<le> agg_count ?ctx g \<and> agg_count ?ctx g \<le> int (Suc n)"
      proof
        fix g
        have "0 \<le> agg_count ctx ?f" "agg_count ctx ?f \<le> int n" "0 \<le> agg_count ctx g" "agg_count ctx g \<le> int n" using k(3) by blast+
        then show "0 \<le> agg_count ?ctx g \<and> agg_count ?ctx g \<le> int (Suc n)" unfolding count by auto
      qed
      ultimately show ?thesis
        using old True unfolding item fresh_inv_def fst_conv snd_conv add_aggregate_def by auto
    qed
  qed
qed

lemma fresh_inv_items:
  "fresh_inv n st \<Longrightarrow> n + length items < 2 ^ 31 \<Longrightarrow> fresh_inv (n + length items) (foldl (analyze_item al) st items)"
proof (induction items arbitrary: n st)
  case (Cons e items)
  then have "fresh_inv (Suc n) (analyze_item al st e)" by (intro fresh_inv_item) simp_all
  from Cons.IH [OF this] Cons.prems(2) show ?case by simp
qed simp

text \<open>
  C10. Aliases generated for aggregates without an SQL alias never collide with one another: over any
  SELECT list of fewer than \<open>2\<^sup>3\<^sup>1\<close> items, so that the counters, which are 32-bit integers, do not overflow, they are
  pairwise different.
\<close>

theorem generated_aliases_distinct:
  assumes "selectList sel = Some items" "length items < 2 ^ 31"
  shows "distinct (map agg_name (filter (\<lambda>a. ap_alias (pattern a) = '''')
     (aggregates (fst (analyzeSelectClause sel al (initializeSelectContext sel ctx))))))"
proof -
  have "fresh_inv 0 (SelectAnalysis_default, initializeSelectContext sel ctx)"
    by (simp add: fresh_inv_def SelectAnalysis_default_def initializeSelectContext_def)
  from fresh_inv_items [OF this, of items al] show ?thesis
    using assms by (simp add: analyzeSelectClause_def fresh_inv_def)
qed

text \<open>\<open>SELECT SUM(a.x), SUM(a.y), SUM(a.z) AS s FROM a\<close>: the generated aliases are \<open>sum1\<close> and \<open>sum2\<close>.\<close>

definition sums_select :: SelectStatement where
  "sums_select =
     \<lparr>fromTable = Some (kTableName (Some ''a'') None),
      selectList = Some (map (\<lambda>(c, alias). Some (Expr ((expr_data kExprFunctionRef (kOpOther 0))\<lparr>ename := Some ''sum'', ealias := alias\<rparr>)
        None None (Some [Some (col_ref ''a'' c)]))) [(''x'', None), (''y'', None), (''z'', Some ''s'')]),
      whereClause = None, groupBy = None, order_by = None, limit = None\<rparr>"

definition generated :: "SelectStatement \<Rightarrow> string list" where
  "generated sel = map agg_name (filter (\<lambda>a. ap_alias (pattern a) = '''')
     (aggregates (fst (analyzeSelectClause sel Map.empty (initializeSelectContext sel TranslationContext_default)))))"

lemma sums_generated: "generated sums_select = [''sum1'', ''sum2'']"
  by code_simp

theorem generated_aliases_distinct_witness: "generated sums_select = [''sum1'', ''sum2''] \<and> distinct (generated sums_select)"
proof -
  have "distinct (generated sums_select)" unfolding generated_def
    by (rule generated_aliases_distinct [of _ "the (selectList sums_select)"]) (simp_all add: sums_select_def)
  then show ?thesis using sums_generated by simp
qed

section \<open>ORDER BY\<close>

definition sort_items :: "OrderDescription option list \<Rightarrow> OrderDescription list" where
  "sort_items ods = filter (\<lambda>o'. oexpr o' \<noteq> None) (nonnull ods)"

lemma sort_item_step:
  assumes "sort_item aggs al (cols, dirs, ctx) od = Inr (cols', dirs', ctx')"
  shows "\<exists>cs. cols' = cols @ cs \<and> dirs' = dirs @ map (\<lambda>o'. otype o' \<noteq> kOrderDesc) (sort_items [od]) \<and>
    length cs = length (sort_items [od])"
  using assms
  by (cases od) (auto simp: sort_item_def sort_items_def Let_def split: option.split_asm if_split_asm prod.split_asm)

lemma sort_items_loop:
  assumes "foldE (sort_item aggs al) (cols, dirs, ctx) ods = Inr (cols', dirs', ctx')"
  shows "\<exists>cs. cols' = cols @ cs \<and> dirs' = dirs @ map (\<lambda>o'. otype o' \<noteq> kOrderDesc) (sort_items ods) \<and>
    length cs = length (sort_items ods)"
  using assms
proof (induction ods arbitrary: cols dirs ctx)
  case (Cons od ods)
  from Cons.prems obtain c1 d1 x1 where s: "sort_item aggs al (cols, dirs, ctx) od = Inr (c1, d1, x1)"
    "foldE (sort_item aggs al) (c1, d1, x1) ods = Inr (cols', dirs', ctx')"
    by (auto simp: bindE_Inr_iff)
  have "sort_items (od # ods) = sort_items [od] @ sort_items ods"
    by (cases od) (auto simp: sort_items_def)
  with sort_item_step [OF s(1)] Cons.IH [OF s(2)] show ?case by auto
qed (simp add: sort_items_def)

text \<open>
  ORDER BY becomes one SORT node on top of the plan, with one column and one direction (true for
  ascending) per ORDER BY item, in order; without usable items the plan is unchanged. Null items are
  skipped.
\<close>

theorem applySortNode_correct:
  assumes "applySortNode root sel aggs al ctx = Inr (root', ctx')" "order_by sel = Some ods"
  shows "if sort_items ods = [] then root' = root
    else \<exists>d. root' = LNode d [Some root] \<and> node_type d = L_SORT \<and>
      length (base_columns d) = length (sort_items ods) \<and>
      sort_order (expression d) = Some (map (\<lambda>o'. otype o' \<noteq> kOrderDesc) (sort_items ods))"
proof -
  from assms obtain cols dirs where f: "foldE (sort_item aggs al) ([], [], ctx) ods = Inr (cols, dirs, ctx')"
    "root' = (if cols \<noteq> [] then LNode ((new_node L_SORT)\<lparr>base_columns := cols,
         expression := Expression_default\<lparr>sort_order := Some dirs\<rparr>\<rparr>) [Some root] else root)"
    by (auto simp: applySortNode_def res_iff split: if_split_asm)
  from sort_items_loop [OF f(1)] f(2) show ?thesis by auto
qed

theorem applySortNode_correct_witness:
  "\<exists>d root' ctx'. applySortNode (scan_node ''u'') ex_select [] ex_al TranslationContext_default = Inr (root', ctx') \<and>
     root' = LNode d [Some (scan_node ''u'')] \<and> sort_order (expression d) = Some [False]"
proof -
  have "\<not> isl (applySortNode (scan_node ''u'') ex_select [] ex_al TranslationContext_default)" by code_simp
  then obtain root' ctx' where r: "applySortNode (scan_node ''u'') ex_select [] ex_al TranslationContext_default = Inr (root', ctx')"
    by (cases "applySortNode (scan_node ''u'') ex_select [] ex_al TranslationContext_default") auto
  have o: "order_by ex_select = Some [Some \<lparr>otype = kOrderDesc, oexpr = Some (col_ref ''u'' ''name'')\<rparr>]"
    by (simp add: ex_select_def)
  show ?thesis using applySortNode_correct [OF r o] r by (auto simp: sort_items_def)
qed

section \<open>LIMIT and OFFSET\<close>

lemma sint_ucast_32: "sint (ucast (w :: 64 word) :: 32 word) = signed_take_bit 31 (sint w)"
  by transfer (simp add: signed_take_bit_take_bit)

text \<open>
  C11. LIMIT and OFFSET values are narrowed from 64 to 32 bits: the value stored in the plan root is
  congruent to the literal modulo \<open>2^32\<close>, and it is the literal exactly when the literal fits into a
  32-bit \<^verbatim>\<open>int\<close>; larger limits silently wrap around.
\<close>

theorem applyLimitOffset_narrowing:
  assumes "limit sel = Some (Some le, off)" "applyLimitOffset root sel = Inr root'"
  shows "\<exists>w. limit_count (expression (node root')) = Some w \<and>
    sint w mod 2 ^ 32 = sint (ival (edata le)) mod 2 ^ 32 \<and>
    (sint w = sint (ival (edata le)) \<longleftrightarrow> - (2 ^ 31) \<le> sint (ival (edata le)) \<and> sint (ival (edata le)) < 2 ^ 31)"
proof -
  let ?w = "ucast (ival (edata le)) :: 32 word"
  have "limit_count (expression (node root')) = Some ?w"
    using assms by (auto simp: applyLimitOffset_def limit_value_def res_iff set_expression_def split: if_split_asm)
  moreover have "take_bit 32 (signed_take_bit 31 k) = take_bit 32 k" for k :: int
    by (simp add: take_bit_signed_take_bit)
  then have "sint ?w mod 2 ^ 32 = sint (ival (edata le)) mod 2 ^ 32"
    by (simp add: sint_ucast_32 take_bit_eq_mod)
  moreover have "sint ?w = sint (ival (edata le)) \<longleftrightarrow> - (2 ^ 31) \<le> sint (ival (edata le)) \<and> sint (ival (edata le)) < 2 ^ 31"
    by (simp add: sint_ucast_32 signed_take_bit_int_eq_self_iff)
  ultimately show ?thesis by blast
qed

text \<open>\<open>LIMIT 4294967296\<close> is stored as \<open>0\<close>.\<close>

theorem applyLimitOffset_narrowing_witness:
  "\<exists>root' w. applyLimitOffset (scan_node ''u'') (ex_select\<lparr>limit := Some (Some (int_lit 4294967296), None)\<rparr>) = Inr root' \<and>
     limit_count (expression (node root')) = Some w \<and> sint w mod 2 ^ 32 = 0 \<and> sint w \<noteq> 4294967296"
proof -
  let ?sel = "ex_select\<lparr>limit := Some (Some (int_lit 4294967296), None)\<rparr>"
  obtain root' where r: "applyLimitOffset (scan_node ''u'') ?sel = Inr root'"
    by (simp add: applyLimitOffset_def limit_value_def int_lit_def expr_data_def)
  have "sint (4294967296 :: 64 word) = 4294967296" by code_simp
  then have "sint (ival (edata (int_lit 4294967296))) = 4294967296" by (simp add: int_lit_def)
  with applyLimitOffset_narrowing [of ?sel "int_lit 4294967296" None, OF _ r] r show ?thesis by auto
qed

section \<open>Explicit joins\<close>

text \<open>The FROM clause with every explicit join turned into a cross join.\<close>

function (sequential) cross_joins :: "TableRef option \<Rightarrow> TableRef option" where
  "cross_joins (Some (kTableCrossProduct (Some ts))) = Some (kTableCrossProduct (Some (map cross_joins ts)))"
| "cross_joins (Some (kTableJoin (Some (l, r, _, _)))) = Some (kTableJoin (Some (cross_joins l, cross_joins r, kJoinCross, None)))"
| "cross_joins t = t"
  by pat_completeness auto
termination by (relation "measure (size_option size)") (auto simp: size_tableref [simplified])

lemma collectScans_cross_joins: "collectScans (cross_joins t) scans = collectScans t scans"
  by (induction t scans rule: collectScans.induct) (auto simp: fold_map comp_def intro!: fold_cong)

lemma collectAliases_cross_joins: "collectAliases (cross_joins t) m = collectAliases t m"
  by (induction t m rule: collectAliases.induct) (auto simp: fold_map comp_def intro!: fold_cong)

text \<open>
  C14. The conditions of explicit joins are dropped. Whatever the FROM clause, the plan is the one of the statement in
  which every explicit join, inner or outer, natural or with an ON condition, is a cross join: a query
  \<open>a JOIN b ON c\<close> without join condition in its WHERE clause loses its condition.
\<close>

theorem join_conditions_ignored:
  "buildPlanForSelect hash_order (sel\<lparr>fromTable := cross_joins (fromTable sel)\<rparr>) jsonJoinOrder ctx =
   buildPlanForSelect hash_order sel jsonJoinOrder ctx"
proof -
  let ?sel = "sel\<lparr>fromTable := cross_joins (fromTable sel)\<rparr>"
  have "initializeSelectContext ?sel ctx = initializeSelectContext sel ctx" "whereClause ?sel = whereClause sel"
    by (simp_all add: initializeSelectContext_def collectAliases_cross_joins)
  moreover have "buildScanMap hash_order (fromTable ?sel) = buildScanMap hash_order (fromTable sel)"
    by (simp add: buildScanMap_def collectScans_cross_joins)
  moreover have "build_select_output ?sel = build_select_output sel"
    by (simp add: fun_eq_iff build_select_output_def collectGroupByColumns_def analyzeSelectClause_def applySortNode_def applyLimitOffset_def)
  ultimately show ?thesis unfolding buildPlanForSelect_def by (simp only:)
qed

end
