(* ===== verification/SqlTranslator.thy ===== *)
theory SqlTranslator
  imports SelectOutput
begin

text \<open>
  \<^verbatim>\<open>SQLToLogicalPlanTranslator.cpp\<close>: the entry point from SQL text and an optional JSON plan to one
  logical plan per statement. The SQL parser and the JSON reader are libraries; they are the arguments
  \<open>sql_parse\<close> and \<open>json_parse\<close>. The \<^verbatim>\<open>demo\<close> branch, which writes a Graphviz file and runs
  \<^verbatim>\<open>dot\<close>, has no effect on the result and is left out.
\<close>

section \<open>Sanitizing JSON inp\<close>

text \<open>\<^verbatim>\<open>text.find(needle, pos)\<close>.\<close>

definition str_find :: "string \<Rightarrow> string \<Rightarrow> nat \<Rightarrow> nat option" where
  "str_find s needle pos = find (\<lambda>i. starts_with (drop i s) needle) [pos..<length s + 1 - length needle]"


lemma str_find_bound:
  assumes "str_find s needle pos = Some i" "needle \<noteq> []"
  shows "pos \<le> i" "i + length needle \<le> length s" "starts_with (drop i s) needle"
proof -
  from assms(1) obtain k where "k < length [pos..<length s + 1 - length needle]" "i = [pos..<length s + 1 - length needle] ! k"
    and p: "starts_with (drop i s) needle" unfolding str_find_def find_Some_iff by auto
  then show "pos \<le> i" "i + length needle \<le> length s" "starts_with (drop i s) needle" by auto
qed

function sanitize_loop :: "string \<Rightarrow> nat \<Rightarrow> string" where
  "sanitize_loop inp pos =
     (case str_find inp ''NaN'' pos of
        None \<Rightarrow> inp
      | Some i \<Rightarrow> sanitize_loop (take i inp @ ''null'' @ drop (i + 3) inp) (i + 4))"
  by pat_completeness auto
termination
proof (relation "measure (\<lambda>(inp, pos). length inp - pos)")
  fix inp pos i assume "str_find inp ''NaN'' pos = Some i"
  from str_find_bound [OF this] have "pos \<le> i" "i + 3 \<le> length inp" by simp_all
  then show "((take i inp @ ''null'' @ drop (i + 3) inp, i + 4), inp, pos) \<in> measure (\<lambda>(inp, pos). length inp - pos)"
    by simp
qed simp

declare sanitize_loop.simps [simp del]

definition sanitizeJsonForNaN :: "string \<Rightarrow> string" where
  "sanitizeJsonForNaN inp = sanitize_loop inp 0"

section \<open>The entry point\<close>

definition parsePlanJson :: "(string \<Rightarrow> json res) \<Rightarrow> json option \<Rightarrow> json option" where
  "parsePlanJson json_parse opts =
     (case opts of
        None \<Rightarrow> None
      | Some (JString s) \<Rightarrow> (case json_parse (sanitizeJsonForNaN s) of Inr j \<Rightarrow> Some j | Inl _ \<Rightarrow> None)
      | Some (JObject kvs) \<Rightarrow> opts
      | Some (JArray js) \<Rightarrow> opts
      | Some JOther \<Rightarrow> None)"

datatype SQLStatement = kStmtSelect SelectStatement | kStmtOther

text \<open>A parse failure carries the message, the line and the column.\<close>

type_synonym parse_result = "(string \<times> int \<times> int) + SQLStatement list"

definition translate_statement ::
  "(scan_map \<Rightarrow> scan_map) \<Rightarrow> string list \<Rightarrow> SQLStatement \<Rightarrow> LogicalPlanNode res option" where
  "translate_statement hash_order jsonJoinOrder stmt =
     (case stmt of
        kStmtSelect sel \<Rightarrow>
          map_option (\<lambda>r. bindE r (\<lambda>(root, _). Inr root))
            (buildPlanForSelect hash_order sel jsonJoinOrder TranslationContext_default)
      | kStmtOther \<Rightarrow> Some (Inr (LNode (new_node L_PROJECTION) [])))"

fun translate_all :: "(SQLStatement \<Rightarrow> LogicalPlanNode res option) \<Rightarrow> SQLStatement list \<Rightarrow> LogicalPlanNode list res option" where
  "translate_all f [] = Some (Inr [])"
| "translate_all f (s # ss) =
     Option.bind (f s) (\<lambda>r. case r of
       Inl e \<Rightarrow> Some (Inl e)
     | Inr p \<Rightarrow> map_option (\<lambda>rest. bindE rest (\<lambda>ps. Inr (p # ps))) (translate_all f ss))"

definition translateSQLToLogicalPlan ::
  "(string \<Rightarrow> parse_result) \<Rightarrow> (string \<Rightarrow> json res) \<Rightarrow> (scan_map \<Rightarrow> scan_map) \<Rightarrow>
     string \<Rightarrow> json option \<Rightarrow> LogicalPlanNode list res option" where
  "translateSQLToLogicalPlan sql_parse json_parse hash_order sql opts =
     (let jsonJoinOrder = (case parsePlanJson json_parse opts of
                             Some planJson \<Rightarrow> extractJoinOrderFromJson planJson
                           | None \<Rightarrow> []) in
      case sql_parse sql of
        Inl (msg, line, col) \<Rightarrow>
          Some (Inl (RuntimeError (''Invalid SQL: '' @ msg @ '' (L'' @ int_to_string line @ '':'' @ int_to_string col @ '')'')))
      | Inr stmts \<Rightarrow> translate_all (translate_statement hash_order jsonJoinOrder) stmts)"

section \<open>What the entry point guarantees\<close>

text \<open>The replacement read off the specification: scan once from the left.\<close>

fun replace_NaN :: "string \<Rightarrow> string" where
  "replace_NaN [] = []"
| "replace_NaN (c # cs) =
     (if starts_with (c # cs) ''NaN'' then ''null'' @ replace_NaN (drop 2 cs) else c # replace_NaN cs)"

lemma replace_NaN_skip:
  assumes "\<forall>j < n. \<not> starts_with (drop j s) ''NaN''" "n \<le> length s"
  shows "replace_NaN s = take n s @ replace_NaN (drop n s)"
  using assms
proof (induction n arbitrary: s)
  case (Suc n)
  then obtain c cs where s: "s = c # cs" by (cases s) auto
  have "\<not> starts_with (c # cs) ''NaN''" using Suc.prems(1) s by force
  moreover have "\<forall>j < n. \<not> starts_with (drop j cs) ''NaN''" using Suc.prems(1) s by force
  ultimately show ?case using Suc.IH [of cs] Suc.prems(2) s by simp
qed simp

lemma starts_with_length: "starts_with s p \<Longrightarrow> length p \<le> length s"
  by (auto simp: starts_with_iff)

lemma str_find_None:
  "str_find s needle pos = None \<Longrightarrow> pos \<le> j \<Longrightarrow> needle \<noteq> [] \<Longrightarrow> \<not> starts_with (drop j s) needle"
proof
  assume h: "str_find s needle pos = None" "pos \<le> j" "needle \<noteq> []" and sw: "starts_with (drop j s) needle"
  from starts_with_length [OF sw] h(3) have "j \<in> set [pos..<length s + 1 - length needle]"
    using h(2) by (cases needle) auto
  with h(1) sw show False unfolding str_find_def find_None_iff by blast
qed

lemma str_find_first:
  assumes "str_find s needle pos = Some i" "needle \<noteq> []" "pos \<le> j" "j < i"
  shows "\<not> starts_with (drop j s) needle"
proof -
  let ?xs = "[pos..<length s + 1 - length needle]"
  from assms(1) obtain k where k: "k < length ?xs" "i = ?xs ! k" "\<forall>m < k. \<not> starts_with (drop (?xs ! m) s) needle"
    unfolding str_find_def find_Some_iff by auto
  then have "i = pos + k" by simp
  then have "j - pos < k" "?xs ! (j - pos) = j" using assms(3,4) k(1) by auto
  with k(3) show ?thesis by metis
qed

lemma sanitize_loop_replace: "pos \<le> length inp \<Longrightarrow> sanitize_loop inp pos = take pos inp @ replace_NaN (drop pos inp)"
proof (induction inp pos rule: sanitize_loop.induct)
  case (1 inp pos)
  let ?r = "drop pos inp"
  show ?case
  proof (cases "str_find inp ''NaN'' pos")
    case None
    have "\<forall>j < length ?r. \<not> starts_with (drop j ?r) ''NaN''"
      using str_find_None [OF None] by (simp add: add.commute)
    from replace_NaN_skip [OF this] None show ?thesis by (subst sanitize_loop.simps) simp
  next
    case (Some i)
    note b = str_find_bound [OF Some, simplified]
    let ?t = "take i inp @ ''null'' @ drop (i + 3) inp"
    have "\<forall>j < i - pos. \<not> starts_with (drop j ?r) ''NaN''"
      using str_find_first [OF Some] by (simp add: add.commute less_diff_conv)
    from replace_NaN_skip [OF this] b have "replace_NaN ?r = take (i - pos) ?r @ replace_NaN (drop i inp)" by simp
    moreover have "replace_NaN (drop i inp) = ''null'' @ replace_NaN (drop (i + 3) inp)"
    proof -
      from b obtain cs where "drop i inp = ''NaN'' @ cs" by (auto simp: starts_with_iff)
      moreover from this have "drop (i + 3) inp = cs" by (metis add.commute append_eq_conv_conj drop_drop length_Cons list.size(3) numeral_3_eq_3)
      ultimately show ?thesis by simp
    qed
    moreover have "take i inp = take pos inp @ take (i - pos) ?r" using b by (metis le_add_diff_inverse take_add)
    moreover have "sanitize_loop inp pos = take (i + 4) ?t @ replace_NaN (drop (i + 4) ?t)"
      using "1.IH" [OF Some] b Some by (subst sanitize_loop.simps) simp
    ultimately show ?thesis using b by simp
  qed
qed

text \<open>
  Sanitizing replaces every \<open>NaN\<close> of the JSON text, scanning once from the left: the loop with its
  moving position terminates and computes the reference replacement.
\<close>

theorem sanitizeJsonForNaN_correct: "sanitizeJsonForNaN inp = replace_NaN inp"
  by (simp add: sanitizeJsonForNaN_def sanitize_loop_replace)

section \<open>Translation is defined\<close>

text \<open>
  The undefined executions of the translator dereference a null argument of a function such as \<^verbatim>\<open>LOWER\<close>. A syntax tree
  without null arguments, which is what the parser builds, leads to a result or to an exception.
\<close>

definition no_ub :: "'a res \<Rightarrow> bool" where
  "no_ub r \<longleftrightarrow> (\<forall>e. r = Inl e \<longrightarrow> (\<exists>msg. e = RuntimeError msg))"

fun args_present :: "Expr \<Rightarrow> bool" where
  "args_present (Expr d l r xs) \<longleftrightarrow>
     (case xs of None \<Rightarrow> True | Some es \<Rightarrow> list_all (\<lambda>e. e \<noteq> None) es) \<and>
     (case l of None \<Rightarrow> True | Some e \<Rightarrow> args_present e) \<and> (case r of None \<Rightarrow> True | Some e \<Rightarrow> args_present e)"

abbreviation where_args_present :: "SelectStatement \<Rightarrow> bool" where
  "where_args_present sel \<equiv> pred_option args_present (whereClause sel)"

lemma no_ub_simps [simp]: "no_ub (Inr x)" "no_ub (Inl (RuntimeError msg))" "no_ub (Inl unsupported_predicate)"
  by (simp_all add: no_ub_def unsupported_predicate_def)

lemma no_ub_bindE: "no_ub m \<Longrightarrow> (\<And>x. m = Inr x \<Longrightarrow> no_ub (f x)) \<Longrightarrow> no_ub (bindE m f)"
  by (cases m) (auto simp: no_ub_def)

lemma no_ub_mapE: "(\<And>x. x \<in> set xs \<Longrightarrow> no_ub (f x)) \<Longrightarrow> no_ub (mapE f xs)"
  by (induction xs) (auto intro!: no_ub_bindE)

lemma no_ub_foldE: "(\<And>s x. x \<in> set xs \<Longrightarrow> no_ub (f s x)) \<Longrightarrow> no_ub (foldE f s xs)"
  by (induction xs arbitrary: s) (auto intro!: no_ub_bindE)

lemma unwrap_present:
  assumes "args_present e"
  obtains x where "unwrapSimpleFunction (Some e) = Some x"
  using assms by (cases e) (fastforce simp: unwrapSimpleFunction_def split: list.splits option.splits)

lemma unwrapStringOp_present:
  assumes "args_present e"
  obtains op x where "unwrapStringOp (Some e) = (op, Some x)"
  using assms by (cases e) (fastforce simp: unwrapStringOp_def split: list.splits option.splits)

lemma collect_equals_defined:
  assumes "args_present l" "args_present r"
  shows "\<exists>x. collect_equals al l r st = Inr x"
proof -
  obtain a b where "unwrapSimpleFunction (Some l) = Some a" "unwrapSimpleFunction (Some r) = Some b"
    using unwrap_present assms by metis
  then show ?thesis
    by (auto simp: collect_equals_def column_side_def collect_column_def deref_def Let_def split: prod.split option.split)
qed

lemma collectOrEquals_defined:
  "pred_option args_present e \<Longrightarrow> \<exists>x. collectOrEqualsSameColumn al e st = Inr x"
proof (induction al e st rule: collectOrEqualsSameColumn.induct)
  case (2 al d l r xs st)
  have lr: "pred_option args_present l" "pred_option args_present r" using 2(3) by (auto split: option.split_asm)
  show ?case
  proof (cases "etype d = kExprOperator \<and> opType d = kOpOr")
    case True
    obtain ok st' where l: "collectOrEqualsSameColumn al l st = Inr (ok, st')" using 2(1) [OF True lr(1)] by force
    show ?thesis using True l 2(2) [OF True, of "(ok, st')" ok st'] lr(2) by (cases ok) auto
  next
    case False
    then show ?thesis using lr collect_equals_defined [of _ _ al st]
      by (cases l; cases r) (simp_all split del: if_split, auto)
  qed
qed auto

lemma buildComparisonPredicate_defined:
  assumes "expr pred = Some l" "expr2 pred = Some r" "args_present l" "args_present r"
  shows "no_ub (buildComparisonPredicate al pred cmp)"
proof -
  obtain lo a ro b where "unwrapStringOp (Some l) = (lo, Some a)" "unwrapStringOp (Some r) = (ro, Some b)"
    using unwrapStringOp_present assms(3,4) by metis
  then show ?thesis using assms(1,2)
    by (auto simp: buildComparisonPredicate_def column_side_def deref_def split: option.split)
qed

lemma is_join_condition_defined:
  assumes "args_present pred"
  shows "no_ub (is_join_condition pred)"
proof (cases "opType (edata pred) = kOpEquals \<and> expr pred \<noteq> None \<and> expr2 pred \<noteq> None")
  case True
  then obtain l r where lr: "expr pred = Some l" "expr2 pred = Some r" "args_present l" "args_present r"
    using assms by (cases pred) auto
  then obtain a b where "unwrapSimpleFunction (Some l) = Some a" "unwrapSimpleFunction (Some r) = Some b"
    using unwrap_present by metis
  then show ?thesis using lr by (simp add: is_join_condition_def deref_def)
qed (auto simp: is_join_condition_def)

lemma buildInPredicate_defined: "no_ub (buildInPredicate al pred)"
  by (auto simp: buildInPredicate_def intro!: no_ub_bindE no_ub_mapE split: option.split list.split)

lemma predicate_defined:
  "args_present e \<Longrightarrow> no_ub (buildOrPredicate al e)" "pred_option args_present p \<Longrightarrow> no_ub (buildPredicateNode al p)"
proof (induction al e and al p rule: buildOrPredicate_buildPredicateNode.induct)
  case (1 al d l r xs)
  have lr: "pred_option args_present l" "pred_option args_present r" using 1(3) by (auto split: option.split_asm)
  obtain ok col vs where c: "collectOrEqualsSameColumn al (Some (Expr d l r xs)) (Column_default, []) = Inr (ok, col, vs)"
    using collectOrEquals_defined [of "Some (Expr d l r xs)"] 1(3) by force
  show ?case
  proof (cases "ok \<and> vs \<noteq> []")
    case True
    then show ?thesis using c by (simp add: buildOrPredicate.simps)
  next
    case False
    have "no_ub (buildPredicateNode al l)" using 1(1) [OF c refl refl False lr(1)] .
    moreover have "no_ub (buildPredicateNode al r)" if "buildPredicateNode al l = Inr left" for left
      using 1(2) [OF c refl refl False that lr(2)] .
    ultimately have "no_ub (bindE (buildPredicateNode al l) (\<lambda>left. bindE (buildPredicateNode al r) (combine_or left)))"
      by (auto simp: combine_or_def Let_def intro!: no_ub_bindE)
    then show ?thesis using c False by (simp add: buildOrPredicate.simps del: collectOrEqualsSameColumn.simps)
  qed
next
  case (3 al pred)
  have present: "args_present pred" using 3(2) by simp
  have cmp: "no_ub (buildComparisonPredicate al pred cmp)" if "expr pred \<noteq> None \<and> expr2 pred \<noteq> None" for cmp
    using that present by (cases pred) (auto intro!: buildComparisonPredicate_defined)
  have "no_ub (bindE (is_join_condition pred) (\<lambda>join.
      if join then Inr (buildJoinPredicate al pred)
      else if opType (edata pred) = kOpBetween then Inr (buildBetweenPredicate al pred)
      else if expr pred \<noteq> None \<and> expr2 pred \<noteq> None then
        (case mapCompOp (opType (edata pred)) of
           Some cmp \<Rightarrow> bindE (buildComparisonPredicate al pred cmp) (\<lambda>result.
              case result of Some f \<Rightarrow> Inr f | None \<Rightarrow> Inl unsupported_predicate)
         | None \<Rightarrow> Inl unsupported_predicate)
      else Inl unsupported_predicate))"
    using cmp by (intro no_ub_bindE is_join_condition_defined [OF present]) (auto intro!: no_ub_bindE split: option.split)
  moreover have "no_ub (buildOrPredicate al pred)" if "\<not> etype (edata pred) \<noteq> kExprOperator" "opType (edata pred) \<noteq> kOpIn" "opType (edata pred) = kOpOr"
    by (rule 3(1) [OF that present])
  ultimately show ?case by (simp add: buildPredicateNode.simps(2) buildInPredicate_defined)
qed simp

lemma splitConjuncts_present:
  "pred_option args_present e \<Longrightarrow> \<forall>x \<in> set out. args_present x \<Longrightarrow> \<forall>x \<in> set (splitConjuncts e out). args_present x"
proof (induction e out rule: splitConjuncts.induct)
  case (2 d l r xs out)
  have lr: "pred_option args_present l" "pred_option args_present r" using 2(3) by (auto split: option.split_asm)
  show ?case
  proof (cases "etype d = kExprOperator \<and> opType d = kOpAnd")
    case True
    then show ?thesis using 2(1) [OF True lr(1) 2(4)] 2(2) [OF True lr(2)] by simp
  next
    case False
    then show ?thesis using 2(3,4) by auto
  qed
qed simp

lemma extractPredicates_defined:
  assumes "pred_option args_present wc"
  shows "no_ub (extractPredicates al wc)"
  unfolding extractPredicates_def
proof (rule no_ub_foldE)
  fix st x assume "x \<in> set (splitConjuncts wc [])"
  then have "no_ub (buildPredicateNode al (Some x))" using splitConjuncts_present [OF assms, of "[]"] predicate_defined(2) by simp
  then show "no_ub ((\<lambda>(joinPreds, selectionPreds) p. bindE (buildPredicateNode al (Some p)) (\<lambda>n.
      Inr (if node_type (node n) = L_JOIN then (joinPreds @ [n], selectionPreds) else (joinPreds, selectionPreds @ [n])))) st x)"
    by (cases st) (simp add: no_ub_bindE)
qed

lemma join_loop_defined: "join_loop st jps = Some r \<Longrightarrow> no_ub r"
proof (induction jps arbitrary: st)
  case (Cons jp jps)
  then obtain r1 where r1: "join_step st jp = Some r1" by (auto simp: Option.bind_eq_Some_conv)
  have "no_ub r1" using r1
    by (cases st) (auto simp: join_step_def Let_def Option.bind_eq_Some_conv split: if_split_asm prod.split_asm option.split_asm)
  then show ?case using Cons r1 by (auto split: sum.split_asm)
qed auto

lemma buildJoinTree_defined:
  assumes "buildJoinTree scans js ex = Some t"
  shows "no_ub t"
proof (cases "scans = []")
  case False
  then obtain r where r: "join_loop (fold (\<lambda>(t, _). dsu_add t) scans Map.empty, fold (\<lambda>(t, scan) m. m(t \<mapsto> Some scan)) scans Map.empty, ex) js = Some r"
    using assms by (auto simp: buildJoinTree_def Let_def Option.bind_eq_Some_conv)
  show ?thesis
  proof (cases r)
    case (Inl e)
    then show ?thesis using r assms False join_loop_defined [OF r] by (auto simp: buildJoinTree_def no_ub_def)
  next
    case (Inr st)
    obtain d tree extras where st: "st = (d, tree, extras)" by (cases st)
    then obtain rep where rep: "rep_loop d '''' (map fst scans) = Some rep"
      using r Inr assms False by (auto simp: buildJoinTree_def Let_def Option.bind_eq_Some_conv)
    show ?thesis
    proof (cases "tree rep")
      case None
      then show ?thesis using r Inr st rep assms False by (auto simp: buildJoinTree_def Let_def)
    next
      case (Some n)
      then show ?thesis using r Inr st rep assms False by (cases n) (auto simp: buildJoinTree_def Let_def)
    qed
  qed
qed (use assms in \<open>auto simp: buildJoinTree_def\<close>)

lemma buildSelectInputTree_defined: "buildSelectInputTree scans js order = Some r \<Longrightarrow> no_ub r"
proof -
  assume a: "buildSelectInputTree scans js order = Some r"
  then show ?thesis using buildJoinTree_defined
    by (auto simp: buildSelectInputTree_def Let_def intro!: no_ub_bindE split: if_split_asm prod.split_asm option.split_asm bool.split_asm)
qed

lemma build_select_output_defined: "no_ub (build_select_output sel ctx current)"
proof -
  obtain sa ctx1 where sa: "analyzeSelectClause sel (aliasToTable ctx) ctx = (sa, ctx1)" by force
  have out: "no_ub (buildSelectOutputTree cur cols (if b then ensureDefaultAggregate sa else sa) b)" for cur cols b
  proof (cases b)
    case True
    have "parallel_aggs (ensureDefaultAggregate sa)"
      using analyzeSelectClause_parallel [of sel "aliasToTable ctx" ctx] sa by (simp add: ensureDefaultAggregate_parallel)
    then have "length (aggregates (ensureDefaultAggregate sa)) = length (aggSpecs (ensureDefaultAggregate sa))"
      by (auto simp: parallel_aggs_def list_all2_lengthD)
    then show ?thesis
      using True map_nodes_loop_returns [of "aggregates (ensureDefaultAggregate sa)" 0 "aggSpecs (ensureDefaultAggregate sa)" cur]
      by (auto simp: buildSelectOutputTree_def applyMapNodes_def Let_def)
  qed (simp add: buildSelectOutputTree_def)
  have "no_ub (sort_item aggs al st od)" for aggs al st od
    by (auto simp: sort_item_def Let_def split: prod.split option.split)
  then have sort: "no_ub (applySortNode root sel aggs al c)" for root aggs al c
    by (auto simp: applySortNode_def intro!: no_ub_bindE no_ub_foldE split: option.split)
  have "no_ub (applyLimitOffset root sel)" for root
    by (auto simp: applyLimitOffset_def limit_value_def intro!: no_ub_bindE split: option.split)
  then show ?thesis unfolding build_select_output_def Let_def sa prod.case
    using out sort by (intro no_ub_bindE) (auto intro!: no_ub_bindE)
qed

lemma buildPlanForSelect_defined:
  assumes "where_args_present sel" "buildPlanForSelect hash_order sel jsonJoinOrder ctx = Some r"
  shows "no_ub r"
proof -
  have "no_ub (buildScanMap hash_order (fromTable sel))" by (simp add: buildScanMap_def Let_def)
  then have "no_ub (bindE (buildScanMap hash_order (fromTable sel)) (\<lambda>scans.
      bindE (extractPredicates (aliasToTable (initializeSelectContext sel ctx)) (whereClause sel)) (\<lambda>preds. Inr (scans, preds))))"
    using extractPredicates_defined [OF assms(1)] by (auto intro!: no_ub_bindE)
  moreover have "no_ub (bindE r1 (\<lambda>current. build_select_output sel c (applySelectionPredicates current ss)))"
    if "buildSelectInputTree scans js jsonJoinOrder = Some r1" for scans js r1 c ss
    using buildSelectInputTree_defined [OF that] build_select_output_defined by (auto intro: no_ub_bindE)
  ultimately show ?thesis using assms(2) unfolding buildPlanForSelect_def Let_def
    by (auto simp: no_ub_def split: sum.split_asm)
qed

lemma translate_all_total:
  assumes "\<And>s. s \<in> set ss \<Longrightarrow> \<exists>r. f s = Some r \<and> no_ub r"
  shows "\<exists>r. translate_all f ss = Some r \<and> no_ub r \<and> (\<forall>ps. r = Inr ps \<longrightarrow> length ps = length ss)"
  using assms
proof (induction ss)
  case (Cons s ss)
  from Cons.prems obtain r where r: "f s = Some r" "no_ub r" by auto
  from Cons.IH Cons.prems obtain q where "translate_all f ss = Some q" "no_ub q" "\<forall>ps. q = Inr ps \<longrightarrow> length ps = length ss" by auto
  with r show ?case by (cases r) (auto simp: bindE_Inr_iff no_ub_def bindE_Inl_iff)
qed simp

definition json_order :: "(string \<Rightarrow> json res) \<Rightarrow> json option \<Rightarrow> string list" where
  "json_order json_parse opts = (case parsePlanJson json_parse opts of Some planJson \<Rightarrow> extractJoinOrderFromJson planJson | None \<Rightarrow> [])"

lemma translate_statement_total:
  assumes "\<And>m. mset (hash_order m) = mset m" "\<And>sel. s = kStmtSelect sel \<Longrightarrow> where_args_present sel"
  shows "\<exists>r. translate_statement hash_order order s = Some r \<and> no_ub r"
proof (cases s)
  case (kStmtSelect sel)
  obtain r where r: "buildPlanForSelect hash_order sel order TranslationContext_default = Some r"
    using plan_returns [OF assms(1)] by blast
  then show ?thesis using kStmtSelect buildPlanForSelect_defined [OF assms(2) r]
    by (auto simp: translate_statement_def intro!: no_ub_bindE)
qed (simp add: translate_statement_def)

lemma translate_returns:
  assumes "\<And>m. mset (hash_order m) = mset m"
  shows "\<exists>r. translateSQLToLogicalPlan sql_parse json_parse hash_order sql opts = Some r"
proof -
  have one: "\<exists>r. translate_statement hash_order order s = Some r" for order s
    using plan_returns [OF assms] by (cases s) (auto simp: translate_statement_def)
  have "\<exists>r. translate_all (translate_statement hash_order order) ss = Some r" for order ss
  proof (induction ss)
    case (Cons s ss)
    obtain r where "translate_statement hash_order order s = Some r" using one by blast
    then show ?case using Cons by (cases r) auto
  qed simp
  then show ?thesis by (auto simp: translateSQLToLogicalPlan_def Let_def split: sum.split)
qed

text \<open>
  C12. Translation gives one plan per statement or throws. When the parser reports an error, the translator throws it
  with the message and position. When it returns statements whose WHERE clauses contain no null function arguments,
  the translator, for every JSON plan (well formed or not), every hash order and every behaviour of the JSON reader,
  returns exactly one plan per statement or throws an exception; it never runs into undefined behaviour.
\<close>

theorem translateSQLToLogicalPlan_total:
  assumes "\<And>m. mset (hash_order m) = mset m" "\<forall>stmts sel. sql_parse sql = Inr stmts \<longrightarrow> kStmtSelect sel \<in> set stmts \<longrightarrow> where_args_present sel"
  shows "case sql_parse sql of
      Inl (msg, line, col) \<Rightarrow> translateSQLToLogicalPlan sql_parse json_parse hash_order sql opts =
        Some (Inl (RuntimeError (''Invalid SQL: '' @ msg @ '' (L'' @ int_to_string line @ '':'' @ int_to_string col @ '')'')))
    | Inr stmts \<Rightarrow>
        (\<exists>plans. translateSQLToLogicalPlan sql_parse json_parse hash_order sql opts = Some (Inr plans) \<and> length plans = length stmts) \<or>
        (\<exists>msg. translateSQLToLogicalPlan sql_parse json_parse hash_order sql opts = Some (Inl (RuntimeError msg)))"
proof (cases "sql_parse sql")
  case (Inl e)
  then show ?thesis by (cases e) (simp add: translateSQLToLogicalPlan_def)
next
  case (Inr stmts)
  have "\<exists>r. translate_statement hash_order (json_order json_parse opts) s = Some r \<and> no_ub r" if "s \<in> set stmts" for s
    by (rule translate_statement_total [OF assms(1)]) (use assms(2) Inr that in blast)
  from translate_all_total [of stmts "translate_statement hash_order (json_order json_parse opts)", OF this] obtain r where
    r: "translate_all (translate_statement hash_order (json_order json_parse opts)) stmts = Some r" "no_ub r"
      "\<And>ps. r = Inr ps \<Longrightarrow> length ps = length stmts" by blast
  then have "translateSQLToLogicalPlan sql_parse json_parse hash_order sql opts = Some r"
    using Inr by (simp add: translateSQLToLogicalPlan_def json_order_def)
  then show ?thesis using Inr r(2,3) by (cases r) (auto simp: no_ub_def)
qed

lemma ex_translated:
  "case translateSQLToLogicalPlan (\<lambda>_. Inr [kStmtSelect ex_select, kStmtOther]) (\<lambda>_. Inl NullDeref) id ''...'' None of
     Some (Inr _) \<Rightarrow> True | _ \<Rightarrow> False"
  by code_simp

lemma ex_args_present: "where_args_present ex_select"
  by (simp add: ex_select_def ex_where_def bin_op_def col_ref_def str_lit_def)

theorem translateSQLToLogicalPlan_total_witness:
  "\<exists>plans. translateSQLToLogicalPlan (\<lambda>_. Inr [kStmtSelect ex_select, kStmtOther]) (\<lambda>_. Inl NullDeref) id ''...'' None = Some (Inr plans) \<and>
     length plans = 2"
proof -
  have "(\<exists>plans. translateSQLToLogicalPlan (\<lambda>_. Inr [kStmtSelect ex_select, kStmtOther]) (\<lambda>_. Inl NullDeref) id ''...'' None = Some (Inr plans) \<and>
      length plans = 2) \<or>
    (\<exists>msg. translateSQLToLogicalPlan (\<lambda>_. Inr [kStmtSelect ex_select, kStmtOther]) (\<lambda>_. Inl NullDeref) id ''...'' None = Some (Inl (RuntimeError msg)))"
  proof -
    have "\<forall>stmts sel. (Inr [kStmtSelect ex_select, kStmtOther] :: parse_result) = Inr stmts \<longrightarrow> kStmtSelect sel \<in> set stmts \<longrightarrow> where_args_present sel"
      using ex_args_present by auto
    from translateSQLToLogicalPlan_total [of id "\<lambda>_. Inr [kStmtSelect ex_select, kStmtOther]" "''...''" "\<lambda>_. Inl NullDeref" None, OF _ this]
    show ?thesis by (simp add: numeral_2_eq_2)
  qed
  then show ?thesis using ex_translated by (elim disjE exE conjE) auto
qed

end
