(* ===== verification/PlanFlow.thy ===== *)
theory PlanFlow
  imports PhysicalOptimizer "HOL-Library.Sublist"
begin

text \<open>
  Data flow in the physical plan: every column of the intermediate table that an operator reads is
  produced by one of its direct children. The invariant is carried through the handlers by a small
  calculus: \<open>safe tab h m Q\<close> says that \<open>m\<close>, run in any good state whose store extends \<open>h\<close>, only extends the
  store, ends in a good state, and returns a value that satisfies \<open>Q\<close> in the final store.
\<close>

section \<open>Producers and readers\<close>

text \<open>
  What a node makes available: its result columns and, for grouping and aggregation, the auxiliary
  columns that consumers address by a suffix.
\<close>

definition produces :: "PhysicalPlanNode \<Rightarrow> string set" where
  "produces n = colref ` set (result_columns n) \<union>
     (if p_type n \<in> {P_GROUPBY, P_AGGREGATE}
      then (\<Union>c \<in> set (result_columns n). {colref c @ ''_agg'', colref c @ ''_idx_ext'', colref c @ ''_cluster''})
      else {})"

definition inputs :: "PhysicalPlanNode \<Rightarrow> Column set" where
  "inputs n = set (p_base_columns n) \<union> set_option (p_index n) \<union> set_option (aggregationColumn n) \<union> set_option (clusterColumn n)"

text \<open>A column of the intermediate table, unless it is the unnamed default column.\<close>

definition derived :: "string \<Rightarrow> Column \<Rightarrow> bool" where
  "derived tab c \<longleftrightarrow> table_name c = tab \<and> (table_name c \<noteq> '''' \<or> column_name c \<noteq> '''')"

definition node_ok :: "string \<Rightarrow> heap \<Rightarrow> PhysicalPlanNode \<Rightarrow> bool" where
  "node_ok tab h n \<longleftrightarrow> (\<forall>p \<in> set (p_children n). ptr_ok (length h) p) \<and>
     (\<forall>c \<in> inputs n. derived tab c \<longrightarrow> (\<exists>a. Some a \<in> set (p_children n) \<and> colref c \<in> produces (h ! a)))"

definition flow_ok :: "string \<Rightarrow> heap \<Rightarrow> bool" where
  "flow_ok tab h \<longleftrightarrow> (\<forall>i < length h. node_ok tab (take i h) (h ! i))"

text \<open>A column together with the pointer to the node it comes from.\<close>

definition src_ok :: "string \<Rightarrow> heap \<Rightarrow> ptr \<Rightarrow> Column \<Rightarrow> bool" where
  "src_ok tab h p c \<longleftrightarrow>
     (case p of None \<Rightarrow> \<not> derived tab c | Some a \<Rightarrow> a < length h \<and> colref c \<in> produces (h ! a))"

abbreviation mat_ok :: "string \<Rightarrow> heap \<Rightarrow> MaterializedInfo \<Rightarrow> bool" where
  "mat_ok tab h i \<equiv> src_ok tab h (mat_producer i) (mat_col i)"

abbreviation pos_ok :: "string \<Rightarrow> heap \<Rightarrow> PosListInfo \<Rightarrow> bool" where
  "pos_ok tab h i \<equiv> src_ok tab h (pos_producer i) (poslist_col i)"

abbreviation res_ok :: "string \<Rightarrow> heap \<Rightarrow> TransformResult \<Rightarrow> bool" where
  "res_ok tab h r \<equiv> src_ok tab h (physical_root r) (output_column r)"

definition ctx_ok :: "string \<Rightarrow> heap \<Rightarrow> TransformContext \<Rightarrow> bool" where
  "ctx_ok tab h c \<longleftrightarrow> ctx_table_name c = tab \<and>
     (\<forall>t. \<forall>i \<in> set (table_poslist_chain c t). pos_ok tab h i) \<and>
     (\<forall>i \<in> ran (materialized_columns c). mat_ok tab h i) \<and>
     (\<forall>i \<in> ran (intermediate_results c). mat_ok tab h i) \<and>
     (\<forall>i \<in> set (ctx_projected c). mat_ok tab h i)"

definition state_ok :: "string \<Rightarrow> opt_state \<Rightarrow> bool" where
  "state_ok tab s \<longleftrightarrow> flow_ok tab (heap s) \<and> ctx_ok tab (heap s) (ctx s)"

lemma nth_prefix: "prefix h h' \<Longrightarrow> a < length h \<Longrightarrow> h' ! a = h ! a"
  by (auto simp: prefix_def nth_append)

lemma prefix_less: "a < length h \<Longrightarrow> prefix h h' \<Longrightarrow> a < length h'"
  using prefix_length_le [of h h'] by simp

lemma src_ok_mono: "src_ok tab h p c \<Longrightarrow> prefix h h' \<Longrightarrow> src_ok tab h' p c"
  by (auto simp: src_ok_def nth_prefix split: option.splits dest: prefix_length_le)

lemma node_ok_mono:
  assumes "node_ok tab h n" "prefix h h'"
  shows "node_ok tab h' n"
proof -
  have "h' ! a = h ! a" if "Some a \<in> set (p_children n)" for a
    using assms that by (auto simp: node_ok_def dest!: bspec [where P = "ptr_ok (length h)"] intro: nth_prefix)
  moreover have "ptr_ok (length h') p" if "p \<in> set (p_children n)" for p
    using assms that prefix_length_le by (auto simp: node_ok_def intro: ptr_ok_mono)
  ultimately show ?thesis using assms(1) unfolding node_ok_def by metis
qed

lemma ctx_ok_mono: "ctx_ok tab h c \<Longrightarrow> prefix h h' \<Longrightarrow> ctx_ok tab h' c"
  unfolding ctx_ok_def by (blast intro: src_ok_mono)

lemma flow_ok_snoc: "flow_ok tab (h @ [n]) \<longleftrightarrow> flow_ok tab h \<and> node_ok tab h n"
  by (auto simp: flow_ok_def nth_append less_Suc_eq)

lemma flow_ok_heap_ok: "flow_ok tab h \<Longrightarrow> heap_ok h"
  by (auto simp: flow_ok_def node_ok_def heap_ok_def)

text \<open>A node whose children are the producers of its inputs.\<close>

lemma node_okI:
  assumes "\<And>p. p \<in> set (p_children n) \<Longrightarrow> ptr_ok (length h) p"
    and "\<And>c. c \<in> inputs n \<Longrightarrow> \<exists>p. src_ok tab h p c \<and> (p \<noteq> None \<longrightarrow> p \<in> set (p_children n))"
  shows "node_ok tab h n"
  unfolding node_ok_def
proof (intro conjI ballI impI)
  fix c assume c: "c \<in> inputs n" "derived tab c"
  from assms(2) [OF c(1)] obtain p where p: "src_ok tab h p c" "p \<noteq> None \<longrightarrow> p \<in> set (p_children n)" by blast
  from p(1) c(2) obtain a where "p = Some a" "colref c \<in> produces (h ! a)"
    by (auto simp: src_ok_def split: option.split_asm)
  with p(2) show "\<exists>a. Some a \<in> set (p_children n) \<and> colref c \<in> produces (h ! a)" by auto
qed (rule assms(1))

lemma src_ok_ptr: "src_ok tab h p c \<Longrightarrow> ptr_ok (length h) p"
  by (auto simp: src_ok_def split: option.splits)

section \<open>The calculus\<close>

definition safe :: "string \<Rightarrow> heap \<Rightarrow> 'a opt \<Rightarrow> (heap \<Rightarrow> 'a \<Rightarrow> bool) \<Rightarrow> bool" where
  "safe tab h m Q \<longleftrightarrow> (\<forall>s x s'. state_ok tab s \<longrightarrow> prefix h (heap s) \<longrightarrow> m s = Inr (x, s') \<longrightarrow>
     state_ok tab s' \<and> prefix (heap s) (heap s') \<and> Q (heap s') x)"

named_theorems safe_intros

lemma safe_bind:
  assumes "safe tab h m Q" "\<And>x h'. prefix h h' \<Longrightarrow> Q h' x \<Longrightarrow> safe tab h' (f x) R"
  shows "safe tab h (bindP m f) R"
  unfolding safe_def
proof (intro allI impI)
  fix s x s' assume s: "state_ok tab s" "prefix h (heap s)" "bindP m f s = Inr (x, s')"
  then obtain y t where y: "m s = Inr (y, t)" "f y t = Inr (x, s')" by (auto simp: bindP_def bindE_Inr_iff)
  with assms(1) s have t: "state_ok tab t" "prefix (heap s) (heap t)" "Q (heap t) y" unfolding safe_def by blast+
  then have "safe tab (heap t) (f y) R" using assms(2) s(2) prefix_order.trans by blast
  then have "state_ok tab s' \<and> prefix (heap t) (heap s') \<and> R (heap s') x"
    using t(1) y(2) unfolding safe_def by blast
  then show "state_ok tab s' \<and> prefix (heap s) (heap s') \<and> R (heap s') x"
    using t(2) prefix_order.trans by blast
qed

lemma safe_weaken: "safe tab h m Q \<Longrightarrow> (\<And>h' x. prefix h h' \<Longrightarrow> Q h' x \<Longrightarrow> R h' x) \<Longrightarrow> safe tab h m R"
  unfolding safe_def by (meson prefix_order.trans)

lemma safe_ret [safe_intros]: "(\<And>h'. prefix h h' \<Longrightarrow> Q h' x) \<Longrightarrow> safe tab h (retP x) Q"
  by (simp add: safe_def)

lemma safe_fail [safe_intros]: "safe tab h (failP e) Q"
  by (simp add: safe_def)

lemma safe_mono: "safe tab h m Q \<Longrightarrow> prefix h h' \<Longrightarrow> safe tab h' m Q"
  unfolding safe_def by (meson prefix_order.trans)

lemma safe_next_last: "safe tab h nextIntermediateName (\<lambda>_ _. True)"
  by (simp add: safe_def state_ok_def)

lemma safe_next [safe_intros]: "(\<And>i. safe tab h (f i) R) \<Longrightarrow> safe tab h (bindP nextIntermediateName f) R"
  by (rule safe_bind [OF safe_next_last]) (rule safe_mono)

lemma safe_get:
  "(\<And>s. state_ok tab s \<Longrightarrow> prefix h (heap s) \<Longrightarrow> Q (heap s) (g s)) \<Longrightarrow> safe tab h (getP g) Q"
  by (simp add: safe_def)

lemma safe_bind_get:
  assumes "\<And>s. state_ok tab s \<Longrightarrow> prefix h (heap s) \<Longrightarrow> safe tab (heap s) (f (g s)) R"
  shows "safe tab h (bindP (getP g) f) R"
  unfolding safe_def
proof (intro allI impI)
  fix s x s' assume s: "state_ok tab s" "prefix h (heap s)" "bindP (getP g) f s = Inr (x, s')"
  from s(3) have "f (g s) s = Inr (x, s')" by (simp add: bindP_def)
  then show "state_ok tab s' \<and> prefix (heap s) (heap s') \<and> R (heap s') x"
    using assms [OF s(1,2)] s(1) unfolding safe_def by blast
qed

lemma safe_icol [safe_intros]:
  assumes "safe tab h (f (mkColumn tab nm ty None None)) R"
  shows "safe tab h (bindP (icol nm ty) f) R"
  unfolding icol_def
proof (rule safe_bind_get)
  fix s assume s: "state_ok tab s" "prefix h (heap s)"
  then have "ctx_table_name (ctx s) = tab" by (simp add: state_ok_def ctx_ok_def)
  then show "safe tab (heap s) (f (mkColumn (ctx_table_name (ctx s)) nm ty None None)) R"
    using safe_mono [OF assms s(2)] by simp
qed

lemma safe_alloc_last:
  "node_ok tab h n \<Longrightarrow> safe tab h (alloc n) (\<lambda>h' a. a < length h' \<and> h' ! a = n)"
  by (auto simp: safe_def state_ok_def flow_ok_snoc intro: node_ok_mono ctx_ok_mono)

lemma safe_alloc [safe_intros]:
  assumes "node_ok tab h n" "\<And>h' a. prefix h h' \<Longrightarrow> a < length h' \<Longrightarrow> h' ! a = n \<Longrightarrow> safe tab h' (f a) R"
  shows "safe tab h (bindP (alloc n) f) R"
  using assms(2) by (intro safe_bind [OF safe_alloc_last [OF assms(1)]]) blast

lemma safe_mod_last:
  "(\<And>h' c. prefix h h' \<Longrightarrow> ctx_ok tab h' c \<Longrightarrow> ctx_ok tab h' (g c)) \<Longrightarrow> safe tab h (modP g) (\<lambda>_ _. True)"
  by (simp add: safe_def state_ok_def)

lemma safe_mod [safe_intros]:
  assumes "\<And>h' c. prefix h h' \<Longrightarrow> ctx_ok tab h' c \<Longrightarrow> ctx_ok tab h' (g c)" "safe tab h (f ()) R"
  shows "safe tab h (bindP (modP g) f) R"
  using assms(2) by (intro safe_bind [OF safe_mod_last [OF assms(1)]]) (auto intro: safe_mono)

lemma safe_if [safe_intros]:
  "(b \<Longrightarrow> safe tab h m Q) \<Longrightarrow> (\<not> b \<Longrightarrow> safe tab h m' Q) \<Longrightarrow> safe tab h (if b then m else m') Q"
  by simp

lemma safe_get_any: "(\<And>x. safe tab h (f x) R) \<Longrightarrow> safe tab h (bindP (getP g) f) R"
  by (rule safe_bind_get) (rule safe_mono)

lemma safe_root_is [safe_intros]: "(\<And>b. safe tab h (f b) R) \<Longrightarrow> safe tab h (bindP (root_is ty p) f) R"
  unfolding root_is_def by (rule safe_get_any)

lemma safe_node_of:
  assumes "a < length h" "safe tab h (f (h ! a)) R"
  shows "safe tab h (bindP (node_of a) f) R"
  unfolding node_of_def
proof (rule safe_bind_get)
  fix s assume p: "prefix h (heap s)"
  show "safe tab (heap s) (f (heap s ! a)) R"
    using safe_mono [OF assms(2) p] by (simp only: nth_prefix [OF p assms(1)])
qed

lemma safe_map:
  assumes "\<And>x h'. x \<in> set xs \<Longrightarrow> prefix h h' \<Longrightarrow> safe tab h' (f x) Q"
    and "\<And>h1 h2 y. Q h1 y \<Longrightarrow> prefix h1 h2 \<Longrightarrow> Q h2 y"
  shows "safe tab h (mapP f xs) (\<lambda>h' ys. \<forall>y \<in> set ys. Q h' y)"
  using assms(1)
proof (induction xs arbitrary: h)
  case (Cons x xs)
  have "safe tab h1 (bindP (mapP f xs) (\<lambda>ys. retP (y # ys))) (\<lambda>h' ys. \<forall>y \<in> set ys. Q h' y)"
    if "prefix h h1" "Q h1 y" for h1 y
  proof -
    have "safe tab h1 (mapP f xs) (\<lambda>h' ys. \<forall>y \<in> set ys. Q h' y)"
      using Cons.prems that(1) by (intro Cons.IH) (auto intro: prefix_order.trans)
    then show ?thesis
    proof (rule safe_bind)
      fix ys h2 assume "prefix h1 h2" "\<forall>y \<in> set ys. Q h2 y"
      then show "safe tab h2 (retP (y # ys)) (\<lambda>h' ys. \<forall>y \<in> set ys. Q h' y)"
        using assms(2) [OF that(2)] by (intro safe_ret) (auto intro: assms(2) prefix_order.trans)
    qed
  qed
  then show ?case using Cons.prems [of x h] unfolding mapP.simps by (intro safe_bind [where Q = Q]) simp_all
qed (simp add: safe_def)

section \<open>Materialization\<close>

lemma produces_result: "c \<in> set (result_columns n) \<Longrightarrow> colref c \<in> produces n"
  by (simp add: produces_def)

lemma inputs_new [simp]: "inputs (new_phys ty i) = {}"
  by (simp add: inputs_def)

lemma src_ok_Some [simp]: "src_ok tab h (Some a) c \<longleftrightarrow> a < length h \<and> colref c \<in> produces (h ! a)"
  by (simp add: src_ok_def)

lemma src_ok_None [simp]: "src_ok tab h None c \<longleftrightarrow> \<not> derived tab c"
  by (simp add: src_ok_def)

lemma safe_createMaterializeNode:
  assumes "\<forall>p \<in> set ps. ptr_ok (length h) p"
    and "src_ok tab h p col" "p = None \<or> p \<in> set ps" "src_ok tab h q pos" "q = None \<or> q \<in> set ps"
  shows "safe tab h (createMaterializeNode col pos ps) (\<lambda>h' x. src_ok tab h' (Some (snd x)) (fst x))"
  unfolding createMaterializeNode_def
proof (intro safe_next safe_icol safe_alloc safe_ret)
  fix i
  show "node_ok tab h ((new_phys P_MATERIALIZE i)\<lparr>p_base_columns := [col], p_index := Some pos,
      p_children := map Some (nonnull ps), result_columns := [mkColumn tab (iname i) (col_type col) None None]\<rparr>)"
    using assms by (intro node_okI) (auto simp: inputs_def)
qed (auto simp: nth_prefix intro!: produces_result dest: prefix_length_le)

lemma mat_ok_lookup: "ctx_ok tab h c \<Longrightarrow> lookupIntermediateResult col c = Some i \<Longrightarrow> mat_ok tab h i"
  by (auto simp: ctx_ok_def lookupIntermediateResult_def ran_def split: option.split_asm if_split_asm)

lemma safe_compose_step:
  assumes "pos_ok tab h prev" "pos_ok tab h cur"
  shows "safe tab h (compose_step t prev cur) (pos_ok tab)"
proof -
  have n: "node_ok tab h ((new_phys P_MATERIALIZE i)\<lparr>p_base_columns := [poslist_col prev],
      p_index := Some (poslist_col cur), p_children := map Some (nonnull [pos_producer prev, pos_producer cur]),
      result_columns := [c]\<rparr>)" for i c
    using assms src_ok_ptr [OF assms(1)] src_ok_ptr [OF assms(2)] by (intro node_okI) (auto simp: inputs_def)
  show ?thesis
    unfolding compose_step_def
    by (intro safe_intros n)
      (auto simp: ctx_ok_def nth_prefix intro!: produces_result intro: src_ok_mono [OF assms(2)] dest: prefix_length_le)
qed

lemma safe_compose_chain:
  "pos_ok tab h prev \<Longrightarrow> \<forall>i \<in> set rest. pos_ok tab h i \<Longrightarrow>
   safe tab h (compose_chain t prev rest) (\<lambda>h' xs. \<forall>i \<in> set xs. pos_ok tab h' i)"
proof (induction rest arbitrary: h prev)
  case Nil
  show ?case unfolding compose_chain.simps by (rule safe_ret) simp
next
  case (Cons cur rest)
  show ?case unfolding compose_chain.simps
  proof (rule safe_bind [OF safe_compose_step], goal_cases)
    case (3 cur' h')
    then have "safe tab h' (compose_chain t cur' rest) (\<lambda>h' xs. \<forall>i \<in> set xs. pos_ok tab h' i)"
      using Cons.prems(2) by (intro Cons.IH) (auto intro: src_ok_mono)
    then show ?case
    proof (rule safe_bind, goal_cases)
      case (1 xs h2)
      then have "\<forall>i \<in> set (cur' # xs). pos_ok tab h2 i" using 3 src_ok_mono by auto
      then show ?case using src_ok_mono by (intro safe_ret) blast
    qed
  qed (use Cons.prems in auto)
qed

lemma derived_is_base [simp]: "derived tab (c\<lparr>is_base := b\<rparr>) = derived tab c"
  by (simp add: derived_def)

lemma ctx_ok_chain_upd:
  "ctx_ok tab h c \<Longrightarrow> \<forall>i \<in> set xs. pos_ok tab h i \<Longrightarrow>
   ctx_ok tab h (c\<lparr>table_poslist_chain := (table_poslist_chain c)(t := xs)\<rparr>)"
  by (simp add: ctx_ok_def)

lemma ctx_ok_mat_upd:
  "ctx_ok tab h c \<Longrightarrow> mat_ok tab h i \<Longrightarrow>
   ctx_ok tab h (c\<lparr>materialized_columns := (materialized_columns c)(k \<mapsto> i)\<rparr>)"
  by (auto simp: ctx_ok_def ran_def)

text \<open>Looking up the context yields sources that are good in every later store.\<close>

lemma state_ok_cases:
  assumes "state_ok tab s"
  shows "lookupIntermediateResult col (ctx s) = Some i \<Longrightarrow> mat_ok tab (heap s) i"
    "materialized_columns (ctx s) k = Some i \<Longrightarrow> mat_ok tab (heap s) i"
    "p \<in> set (table_poslist_chain (ctx s) t) \<Longrightarrow> pos_ok tab (heap s) p"
    "j \<in> set (ctx_projected (ctx s)) \<Longrightarrow> mat_ok tab (heap s) j"
  using assms mat_ok_lookup unfolding state_ok_def ctx_ok_def ran_def by blast+

lemma safe_lookup:
  assumes "\<And>i h'. prefix h h' \<Longrightarrow> mat_ok tab h' i \<Longrightarrow> safe tab h' (f (Some i)) R" "safe tab h (f None) R"
  shows "safe tab h (bindP (getP (\<lambda>s. lookupIntermediateResult col (ctx s))) f) R"
proof (rule safe_bind_get)
  fix s assume s: "state_ok tab s" "prefix h (heap s)"
  show "safe tab (heap s) (f (lookupIntermediateResult col (ctx s))) R"
    using assms(1) [OF s(2)] safe_mono [OF assms(2) s(2)] state_ok_cases(1) [OF s(1)]
    by (cases "lookupIntermediateResult col (ctx s)") auto
qed

lemma safe_chain:
  assumes "\<And>xs h'. prefix h h' \<Longrightarrow> \<forall>i \<in> set xs. pos_ok tab h' i \<Longrightarrow> safe tab h' (f xs) R"
  shows "safe tab h (bindP (getP (\<lambda>s. table_poslist_chain (ctx s) t)) f) R"
  by (rule safe_bind_get) (auto intro: assms state_ok_cases)

lemma safe_reuse:
  assumes "\<And>i h'. prefix h h' \<Longrightarrow> mat_ok tab h' i \<Longrightarrow> safe tab h' (f (Some i)) R" "safe tab h (f None) R"
  shows "safe tab h (bindP (getP (\<lambda>s. case materialized_columns (ctx s) k of
      Some i \<Rightarrow> if P s i then Some i else None | None \<Rightarrow> None)) f) R"
proof (rule safe_bind_get)
  fix s assume s: "state_ok tab s" "prefix h (heap s)"
  show "safe tab (heap s) (f (case materialized_columns (ctx s) k of Some i \<Rightarrow> if P s i then Some i else None | None \<Rightarrow> None)) R"
    using assms(1) [OF s(2)] safe_mono [OF assms(2) s(2)] state_ok_cases(2) [OF s(1)]
    by (auto split: option.split)
qed

lemma safe_ensureMaterializedOptimized:
  assumes "\<not> derived tab col"
  shows "safe tab h (ensureMaterializedOptimized col) (\<lambda>h' x. mat_ok tab h' (fst x))"
  unfolding ensureMaterializedOptimized_def Let_def
proof (rule safe_lookup, goal_cases)
  case (1 i h')
  then show ?case by (auto intro!: safe_ret intro: src_ok_mono)
next
  case 2
  show ?case unfolding option.case
  proof (rule safe_chain, goal_cases)
    case (1 xs h1)
    show ?case
    proof (cases xs)
      case Nil
      then show ?thesis using assms by (auto intro!: safe_ret)
    next
      case (Cons first rest)
      show ?thesis unfolding Cons list.case
      proof (rule safe_bind [OF safe_compose_chain], goal_cases)
        case (3 rest' h2)
        then have ok: "\<forall>i \<in> set (first # rest'). pos_ok tab h2 i" using 1(2) Cons src_ok_mono by auto
        have *: "src_ok tab h' (pos_producer (last (first # rest'))) (poslist_col (last (first # rest')))" if "prefix h2 h'" for h'
          using ok that src_ok_mono last_in_set [of "first # rest'"] by blast
        show ?case
        proof (intro safe_mod safe_reuse, goal_cases)
          case (1 h' c)
          then show ?case using ok src_ok_mono by (intro ctx_ok_chain_upd) blast+
        next
          case (2 i h')
          then show ?case by (auto intro!: safe_ret intro: src_ok_mono)
        next
          case 3
          show ?case unfolding option.case
          proof (rule safe_bind [OF safe_createMaterializeNode [of _ _ _ None _ "pos_producer (last (first # rest'))"]], goal_cases)
            case (6 x h3)
            then show ?case by (cases x) (auto intro!: safe_mod safe_ret ctx_ok_mat_upd simp: nth_prefix intro: prefix_less)
          qed (use assms * [of h2] in \<open>auto dest: src_ok_ptr\<close>)
        qed
      qed (use 1(2) Cons in auto)
    qed
  qed
qed

lemma safe_chain_loop:
  "mat_ok tab h cur \<Longrightarrow> \<forall>i \<in> set xs. pos_ok tab h i \<Longrightarrow> safe tab h (chain_loop cur k xs) (mat_ok tab)"
proof (induction xs arbitrary: h cur k)
  case Nil
  show ?case unfolding chain_loop.simps using src_ok_mono [OF Nil(1)] by (rule safe_ret)
next
  case (Cons pos xs)
  show ?case unfolding chain_loop.simps
  proof (rule safe_bind [OF safe_createMaterializeNode [of _ _ _ "mat_producer cur" _ "pos_producer pos"]], goal_cases)
    case (6 x h')
    then show ?case using Cons.prems(2) src_ok_mono by (cases x) (auto intro!: Cons.IH)
  qed (use Cons.prems in \<open>auto dest: src_ok_ptr\<close>)
qed

lemma safe_ensureMaterialized:
  assumes "\<not> derived tab col"
  shows "safe tab h (ensureMaterialized col) (\<lambda>h' x. mat_ok tab h' (fst x))"
  unfolding ensureMaterialized_def Let_def
proof (rule safe_get_any, rule safe_if, rule safe_ensureMaterializedOptimized [OF assms], rule safe_lookup, goal_cases)
  case (1 x i h')
  then show ?case by (auto intro!: safe_ret intro: src_ok_mono)
next
  case 2
  show ?case unfolding option.case
  proof (rule safe_bind [where Q = "mat_ok tab"], goal_cases)
    case 1
    show ?case using assms state_ok_cases(2) by (intro safe_get) (auto split: option.split)
  next
    case (2 start h1)
    show ?case
    proof (rule safe_chain, goal_cases)
      case (1 xs h2)
      then have "safe tab h2 (chain_loop start (chain_start (chain_index start)) (drop (chain_start (chain_index start)) xs)) (mat_ok tab)"
        using 2 by (intro safe_chain_loop) (auto intro: src_ok_mono dest: in_set_dropD)
      then show ?case
        by (rule safe_bind) (auto intro!: safe_mod safe_ret ctx_ok_mat_upd intro: src_ok_mono)
    qed
  qed
qed

lemma safe_ensure [safe_intros]:
  assumes "\<not> derived tab col" "\<And>i c h'. prefix h h' \<Longrightarrow> mat_ok tab h' i \<Longrightarrow> safe tab h' (f (i, c)) R"
  shows "safe tab h (bindP (ensureMaterialized col) f) R"
  by (rule safe_bind [OF safe_ensureMaterialized [OF assms(1)]]) (use assms(2) in auto)

text \<open>Several columns at once.\<close>

lemma safe_ensure_list:
  assumes "\<forall>c \<in> set cols. \<not> derived tab c"
  shows "safe tab h (mapP ensureMaterialized cols) (\<lambda>h' xs. \<forall>x \<in> set xs. mat_ok tab h' (fst x))"
  using assms by (intro safe_map safe_ensureMaterialized) (auto intro: src_ok_mono)

lemma safe_register:
  assumes "src_ok tab h (Some a) c"
  shows "safe tab h (registerIntermediateResult nm c a) (\<lambda>_ _. True)"
  unfolding registerIntermediateResult_def Let_def
proof (rule safe_mod_last, goal_cases)
  case (1 h' x)
  then have "mat_ok tab h' \<lparr>mat_col = c, mat_producer = Some a, chain_index = int_max\<rparr>"
    using src_ok_mono [OF assms, of h'] by simp
  then show ?case using 1(2) by (auto simp: ctx_ok_def ran_def split: option.split if_split)
qed

lemma safe_bind_register [safe_intros]:
  assumes "src_ok tab h (Some a) c" "safe tab h (f ()) R"
  shows "safe tab h (bindP (registerIntermediateResult nm c a) f) R"
  using assms(2) by (intro safe_bind [OF safe_register [OF assms(1)]]) (auto intro: safe_mono)

lemma safe_resolveAggregateInput:
  assumes "\<forall>c \<in> set_option (agg_input spec). \<not> derived tab c" "res_ok tab h r"
  shows "safe tab h (resolveAggregateInput spec r) (\<lambda>h' x. src_ok tab h' (snd x) (fst x))"
  unfolding resolveAggregateInput_def using assms
  by (cases "agg_input spec") (auto intro!: safe_ret safe_ensure intro: src_ok_mono)

lemma safe_materializeGroupedKeys:
  assumes "\<forall>m \<in> set mats. mat_ok tab h m" "src_ok tab h (Some g) idx"
  shows "safe tab h (materializeGroupedKeys mats cols idx g) (\<lambda>_ _. True)"
  using assms
proof (induction mats cols idx g arbitrary: h rule: materializeGroupedKeys.induct)
  case (3 m mats c cs idx g)
  show ?case unfolding materializeGroupedKeys.simps
  proof (rule safe_bind [OF safe_createMaterializeNode [of _ _ _ "mat_producer m" _ "Some g"]], goal_cases)
    case (6 x h')
    obtain col a where x: "x = (col, a)" by force
    have "safe tab h' (materializeGroupedKeys mats cs idx g) (\<lambda>_ _. True)"
      using 3(2,3) src_ok_mono [OF _ 6(1)] by (intro 3(1)) (auto simp del: src_ok_Some)
    then show ?case using 6(2) unfolding x
      by (auto intro!: safe_mod ctx_ok_mat_upd intro: prefix_less simp: nth_prefix)
  qed (use 3(2,3) in \<open>auto dest: src_ok_ptr\<close>)
qed (simp_all only: materializeGroupedKeys.simps, auto intro: safe_ret safe_fail)

section \<open>Handlers\<close>

declare src_ok_Some [simp del]
declare src_ok_mono [intro]

lemma safe_set_provenance [safe_intros]:
  "safe tab h (f ()) R \<Longrightarrow> safe tab h (bindP (set_provenance nm t) f) R"
  unfolding set_provenance_def by (rule safe_mod) (simp_all add: ctx_ok_def)

lemma safe_set_filter_last: "safe tab h (set_filter t a c) (\<lambda>_ _. True)"
  unfolding set_filter_def by (rule safe_mod_last) (simp add: ctx_ok_def)

lemma safe_set_filter [safe_intros]: "safe tab h (f ()) R \<Longrightarrow> safe tab h (bindP (set_filter t a c) f) R"
  unfolding set_filter_def by (rule safe_mod) (simp_all add: ctx_ok_def)

lemma safe_push_chains [safe_intros]:
  assumes "pos_ok tab h i" "safe tab h (f ()) R"
  shows "safe tab h (bindP (push_chains ts i) f) R"
  unfolding push_chains_def
proof (rule safe_mod)
  fix h' c assume "prefix h h'" "ctx_ok tab h' c"
  then show "ctx_ok tab h' (c\<lparr>table_poslist_chain := \<lambda>t. table_poslist_chain c t @ (if t \<in> ts then [i] else [])\<rparr>)"
    using src_ok_mono [OF assms(1), of h'] by (auto simp: ctx_ok_def)
qed (rule assms(2))

lemma safe_invalidate [safe_intros]: "safe tab h (f ()) R \<Longrightarrow> safe tab h (bindP (invalidate ts) f) R"
  unfolding invalidate_def by (rule safe_mod) (auto simp: ctx_ok_def ran_def split: if_split_asm)

text \<open>The node just stored produces its result columns.\<close>

lemma stored_ok:
  "a < length h \<Longrightarrow> h ! a = n \<Longrightarrow> prefix h h' \<Longrightarrow> c \<in> set (result_columns n) \<Longrightarrow> src_ok tab h' (Some a) c"
  by (auto simp: src_ok_Some nth_prefix intro: produces_result prefix_less)

lemma safe_createSetOperationNode:
  assumes "\<forall>r \<in> set rs. res_ok tab h r"
  shows "safe tab h (createSetOperationNode rs op) (res_ok tab)"
proof -
  have n: "node_ok tab h ((new_phys P_SETOPERATION i)\<lparr>p_base_columns := map output_column rs, p_expression := e,
      result_columns := cs, p_children := map physical_root rs\<rparr>)" for i e cs
    using assms by (intro node_okI) (auto simp: inputs_def dest: src_ok_ptr)
  show ?thesis
    unfolding createSetOperationNode_def Let_def
  proof (intro safe_if safe_fail safe_next safe_icol safe_alloc n safe_set_provenance, goal_cases)
    case (1 i h' a)
    note ok = stored_ok [OF 1(3,4)]
    show ?case
    proof (rule safe_bind [where Q = "\<lambda>_ _. True"], goal_cases)
      case 1
      show ?case by (intro safe_if safe_mod safe_set_filter_last safe_ret ctx_ok_chain_upd) (auto intro: ok)
    next
      case (2 x h2)
      then show ?case by (intro safe_ret) (auto intro: ok prefix_order.trans)
    qed
  qed
qed

text \<open>A node whose children are exactly the non-null producers of its inputs.\<close>

lemma node_ok_producers:
  assumes "\<And>c. c \<in> inputs n \<Longrightarrow> \<exists>p. (c, p) \<in> set srcs"
    and "\<forall>(c, p) \<in> set srcs. src_ok tab h p c"
    and "set (p_children n) = {p \<in> snd ` set srcs. p \<noteq> None}"
  shows "node_ok tab h n"
proof (rule node_okI)
  fix p assume "p \<in> set (p_children n)"
  then obtain c where "(c, p) \<in> set srcs" using assms(3) by auto
  then show "ptr_ok (length h) p" using assms(2) src_ok_ptr by blast
next
  fix c assume "c \<in> inputs n"
  then obtain p where p: "(c, p) \<in> set srcs" using assms(1) by blast
  then have "p \<noteq> None \<longrightarrow> p \<in> set (p_children n)" using assms(3) by force
  then show "\<exists>p. src_ok tab h p c \<and> (p \<noteq> None \<longrightarrow> p \<in> set (p_children n))" using assms(2) p by blast
qed

lemma safe_singleTableFilter:
  assumes "\<forall>c \<in> set (base_columns d). \<not> derived tab c" "res_ok tab h r"
  shows "safe tab h (singleTableFilter d r) (res_ok tab)"
proof (cases "base_columns d")
  case Nil
  then show ?thesis by (simp add: singleTableFilter_def safe_fail)
next
  case (Cons c cs)
  have n: "node_ok tab h ((new_phys P_FILTER i)\<lparr>p_base_columns := c\<lparr>is_base := Some True\<rparr> # cs, p_expression := e,
      result_columns := rs\<rparr>)" for i e rs
    using assms(1) Cons by (auto simp: node_ok_def inputs_def)
  show ?thesis
    unfolding singleTableFilter_def Cons list.case Let_def
  proof (intro safe_next safe_icol safe_set_provenance safe_alloc n safe_root_is safe_if
      safe_createSetOperationNode safe_set_filter safe_push_chains safe_ret, goal_cases)
    case (1 i h' a f)
    then show ?case using assms(2) by (auto intro: stored_ok)
  qed (auto intro: stored_ok)
qed

lemma safe_handleCrossTableFilter:
  assumes "\<not> derived tab l" "\<not> derived tab r" "res_ok tab h res"
  shows "safe tab h (handleCrossTableFilter d l r res src) (res_ok tab)"
  unfolding handleCrossTableFilter_def
proof (intro safe_ensure assms, clarify, goal_cases)
  case (1 lm _ h1)
  show ?case
  proof (intro safe_ensure assms, clarify, goal_cases)
    case (1 rm _ h2)
    have l: "mat_ok tab h2 lm" using \<open>mat_ok tab h1 lm\<close> 1 by blast
    show ?case
      using 1 l by (intro safe_next safe_icol safe_alloc safe_set_provenance safe_push_chains safe_invalidate safe_ret
          node_ok_producers [of _ "[(mat_col lm, mat_producer lm), (mat_col rm, mat_producer rm)]"])
        (auto simp: inputs_def intro: stored_ok)
  qed
qed

text \<open>The inner and the outer side of a join, whichever way the inputs are swapped.\<close>

lemma join_node_ok:
  assumes "mat_ok tab h inner" "mat_ok tab h outer"
  shows "node_ok tab h ((new_phys P_HASHJOIN i)\<lparr>
     p_base_columns := [mat_col inner, mat_col outer], p_expression := e,
     p_children := map Some (nonnull [mat_producer inner, mat_producer outer]), result_columns := rs\<rparr>)"
  using assms
  by (intro node_ok_producers [of _ "[(mat_col inner, mat_producer inner), (mat_col outer, mat_producer outer)]"])
    (auto simp: inputs_def)

lemma safe_createHashJoin:
  assumes "\<not> derived tab l" "\<not> derived tab r"
  shows "safe tab h (createHashJoin d l r lres rres) (res_ok tab)"
  unfolding createHashJoin_def
proof (intro safe_ensure assms, clarify, goal_cases)
  case (1 lm _ h1)
  show ?case
  proof (intro safe_ensure assms, clarify, goal_cases)
    case (1 rm _ h2)
    have "mat_ok tab h2 lm" using \<open>mat_ok tab h1 lm\<close> 1 by blast
    with 1 show ?case
      by (cases "getCardinality (table_name l) > getCardinality (table_name r)"; simp only: Let_def if_True if_False prod.case)
        (intro safe_next safe_icol safe_alloc join_node_ok safe_set_provenance safe_push_chains safe_ret;
         auto intro: stored_ok)+
  qed
qed

lemma safe_mapP_ensure:
  assumes "\<forall>c \<in> set cols. \<not> derived tab c"
    and "\<And>h' xs. prefix h h' \<Longrightarrow> \<forall>x \<in> set xs. mat_ok tab h' (fst x) \<Longrightarrow> safe tab h' (f xs) R"
  shows "safe tab h (bindP (mapP ensureMaterialized cols) f) R"
  by (rule safe_bind [OF safe_ensure_list [OF assms(1)]]) (rule assms(2))

lemma safe_parallelAggregate:
  assumes "\<forall>c \<in> set_option (agg_input spec). \<not> derived tab c" "res_ok tab h r"
  shows "safe tab h (parallelAggregate r spec) (\<lambda>h' x. src_ok tab h' (Some (fst x)) (snd x))"
  unfolding parallelAggregate_def Let_def
proof (rule safe_bind [OF safe_resolveAggregateInput [OF assms]], goal_cases)
  case (1 x h')
  obtain c p where x: "x = (c, p)" by force
  with 1 show ?case
    by (simp only: prod.case, intro safe_next safe_icol safe_alloc safe_bind_register safe_ret node_ok_producers [of _ "[(c, p)]"])
      (auto simp: inputs_def intro: stored_ok)
qed

lemma safe_createParallelAggregateNodes:
  assumes "\<forall>s \<in> set specs. \<forall>c \<in> set_option (agg_input s). \<not> derived tab c" "res_ok tab h r"
  shows "safe tab h (createParallelAggregateNodes specs r) (res_ok tab)"
  unfolding createParallelAggregateNodes_def
proof (rule safe_bind [OF safe_map [where Q = "\<lambda>h' x. src_ok tab h' (Some (fst x)) (snd x)"]], goal_cases)
  case (3 xs h')
  then show ?case
    by (intro safe_ret) (auto simp: derived_def Column_default_def TransformResult_default_def split: list.split)
qed (use assms in \<open>auto intro!: safe_parallelAggregate\<close>)

lemma safe_createSingleAggregateNode:
  assumes "\<forall>s \<in> set (agg_specs (expression d)). \<forall>c \<in> set_option (agg_input s). \<not> derived tab c" "res_ok tab h r"
  shows "safe tab h (createSingleAggregateNode d r) (res_ok tab)"
  unfolding createSingleAggregateNode_def Let_def
proof (rule safe_bind [where Q = "\<lambda>h' x. src_ok tab h' (snd x) (fst x)"], goal_cases)
  case 1
  have "\<not> derived tab c" if "Option.bind (first_agg d) agg_input = Some c" for c
    using assms(1) that by (auto simp: first_agg_def bind_eq_Some_conv split: list.split_asm)
  then show ?case using assms(2)
    by (auto split: TransformResultType.split option.split intro!: safe_ret safe_ensure)
next
  case (2 x h')
  obtain c p where x: "x = (c, p)" by force
  with 2 show ?case
    by (simp only: prod.case, intro safe_next safe_icol safe_alloc safe_bind_register safe_ret node_ok_producers [of _ "[(c, p)]"])
      (auto simp: inputs_def intro: stored_ok)
qed

subsection \<open>Grouping\<close>

lemma colref_with_alias [simp]: "colref (with_alias spec c) = colref c"
  by (simp add: with_alias_def colref_def split: option.split)

lemma colref_mkColumn [simp]: "colref (mkColumn t c ty al bt) = t @ ''.'' @ c"
  by (simp add: colref_def)

lemma stored_suffix:
  assumes "a < length h" "h ! a = n" "prefix h h'" "p_type n \<in> {P_GROUPBY, P_AGGREGATE}"
    and "c \<in> set (result_columns n)" "colref x = colref c @ sfx" "sfx \<in> {''_agg'', ''_idx_ext'', ''_cluster''}"
  shows "src_ok tab h' (Some a) x"
  using assms by (auto simp: src_ok_Some nth_prefix produces_def intro: prefix_less)

lemma safe_map_output:
  assumes "ptr_ok (length h) p"
  shows "safe tab h (map_output p) (\<lambda>h' m. \<forall>b c. m = Some (b, c) \<longrightarrow> src_ok tab h' (Some b) c)"
proof (cases p)
  case None
  then show ?thesis by (simp add: map_output_def safe_ret)
next
  case (Some a)
  then have "a < length h" using assms by simp
  then show ?thesis unfolding map_output_def Some option.case
    by (intro safe_node_of safe_if safe_ret) (auto split: list.split intro!: safe_ret safe_fail stored_ok)
qed

lemma safe_grouped_input:
  assumes "\<forall>c \<in> set_option (agg_input spec). \<not> derived tab c" "ptr_ok (length h) p"
  shows "safe tab h (case agg_input spec of
              Some c \<Rightarrow> bindP (ensureMaterialized c) (\<lambda>(info, c').
                retP ([mat_col info], nonnull [mat_producer info], spec\<lparr>agg_input := Some c'\<rparr>))
            | None \<Rightarrow> bindP (map_output p) (\<lambda>m.
                case m of Some (b, c) \<Rightarrow> retP ([c], [b], spec) | None \<Rightarrow> retP ([], [], spec)))
     (\<lambda>h' (cols, producers, spec'). \<exists>srcs. cols = map fst srcs \<and> producers = nonnull (map snd srcs) \<and>
        (\<forall>(c, q) \<in> set srcs. src_ok tab h' q c))"
proof (cases "agg_input spec")
  case None
  show ?thesis unfolding None option.case
  proof (rule safe_bind [OF safe_map_output [OF assms(2)]], goal_cases)
    case (1 m h')
    then show ?case
    proof (cases m)
      case (Some y)
      then show ?thesis using 1 by (cases y) (auto intro!: safe_ret exI [of _ "[(snd y, Some (fst y))]"])
    qed (auto intro!: safe_ret)
  qed
next
  case (Some c)
  with assms(1) have "\<not> derived tab c" by simp
  then show ?thesis unfolding Some option.case
  proof (rule safe_ensure, goal_cases)
    case (1 i c h')
    then show ?case by (auto intro!: safe_ret exI [of _ "[(mat_col i, mat_producer i)]"])
  qed
qed

lemma safe_groupedAggregate:
  assumes "\<forall>c \<in> set_option (agg_input spec). \<not> derived tab c" "ptr_ok (length h) (physical_root r)"
    and "src_ok tab h (Some g) idx" "src_ok tab h (Some g) cluster"
  shows "safe tab h (groupedAggregate g idx cluster r spec) (\<lambda>h' x. src_ok tab h' (Some (fst x)) (snd x))"
  unfolding groupedAggregate_def Let_def
proof (rule safe_bind [OF safe_grouped_input [OF assms(1,2)]], goal_cases)
  case (1 x h')
  obtain cols producers spec' where x: "x = (cols, producers, spec')" by (cases x) auto
  with 1 obtain srcs where srcs: "cols = map fst srcs" "producers = nonnull (map snd srcs)"
    "\<forall>(c, q) \<in> set srcs. src_ok tab h' q c" by auto
  have g: "src_ok tab h' (Some g) idx" "src_ok tab h' (Some g) cluster" using assms(3,4) 1(1) by blast+
  have n: "node_ok tab h' ((new_phys P_AGGREGATE i)\<lparr>p_index := Some idx, clusterColumn := Some cluster,
      p_base_columns := cols, p_children := map Some (producers @ [g]), p_expression := e, result_columns := rs\<rparr>)" for i e rs
  proof (rule node_ok_producers [of _ "srcs @ [(idx, Some g), (cluster, Some g)]"], goal_cases)
    case (1 c)
    then show ?case using srcs(1) by (auto simp: inputs_def)
  next
    case 2
    show ?case using srcs(3) g by auto
  next
    case 3
    show ?case using srcs(2) by auto
  qed
  show ?case
    unfolding x prod.case
  proof (intro safe_next safe_icol safe_alloc n safe_bind_register safe_ret, goal_cases)
    case (1 i h2 a)
    then show ?case by (intro stored_suffix [OF 1(2,3), where sfx = "''_agg''"]) auto
  qed (auto intro: stored_ok)
qed

text \<open>Columns mentioned by a logical node, and logical plans that avoid the intermediate table.\<close>

definition node_cols :: "LogicalNodeData \<Rightarrow> Column set" where
  "node_cols d = set (base_columns d) \<union> set (projected_columns d) \<union>
     (\<Union>s \<in> set (agg_specs (expression d)). set_option (agg_input s))"

definition cols_free :: "string \<Rightarrow> LogicalNodeData \<Rightarrow> bool" where
  "cols_free tab d \<longleftrightarrow> (\<forall>c \<in> node_cols d. \<not> derived tab c)"

lemma cols_freeD:
  assumes "cols_free tab d"
  shows "\<forall>c \<in> set (base_columns d). \<not> derived tab c" "\<forall>c \<in> set (projected_columns d). \<not> derived tab c"
    "\<forall>s \<in> set (agg_specs (expression d)). \<forall>c \<in> set_option (agg_input s). \<not> derived tab c"
  using assms unfolding cols_free_def node_cols_def by blast+

text \<open>The GROUPBY node under construction: its inputs so far come from its children so far.\<close>

definition partial_ok :: "string \<Rightarrow> heap \<Rightarrow> PhysicalPlanNode \<Rightarrow> bool" where
  "partial_ok tab h n \<longleftrightarrow> node_ok tab h n \<and> p_type n = P_GROUPBY"

lemma partial_ok_mono: "partial_ok tab h n \<Longrightarrow> prefix h h' \<Longrightarrow> partial_ok tab h' n"
  by (auto simp: partial_ok_def intro: node_ok_mono)

lemma partial_ok_finish:
  "partial_ok tab h n \<Longrightarrow> node_ok tab h (n\<lparr>result_columns := rs, p_expression := e\<rparr>)"
  by (simp add: partial_ok_def node_ok_def inputs_def)

lemma partial_ok_agg:
  assumes "partial_ok tab h n" "src_ok tab h p c"
  shows "partial_ok tab h (n\<lparr>p_children := p_children n @ map Some (nonnull [p]), aggregationColumn := Some c\<rparr>)"
proof -
  have "node_ok tab h (n\<lparr>p_children := p_children n @ map Some (nonnull [p]), aggregationColumn := Some c\<rparr>)"
    unfolding node_ok_def
  proof (intro conjI ballI impI, goal_cases)
    case (1 q)
    then show ?case using assms src_ok_ptr [OF assms(2)] by (cases p) (auto simp: partial_ok_def node_ok_def)
  next
    case (2 x)
    then have "x \<in> inputs n \<or> x = c" by (auto simp: inputs_def)
    then show ?case using assms 2(2) by (cases p) (auto simp: partial_ok_def node_ok_def src_ok_Some)
  qed
  then show ?thesis using assms(1) by (simp add: partial_ok_def)
qed

lemma partial_ok_first:
  "partial_ok tab h n \<Longrightarrow> c \<in> inputs n \<Longrightarrow> partial_ok tab h (n\<lparr>aggregationColumn := Some c\<rparr>)"
  by (auto simp: partial_ok_def node_ok_def inputs_def)

lemma safe_handleGroupByMultiAgg:
  assumes "partial_ok tab h n" "\<forall>m \<in> set mats. mat_ok tab h m" "ptr_ok (length h) (physical_root r)"
    and "\<forall>s \<in> set (agg_specs (expression d)). \<forall>c \<in> set_option (agg_input s). \<not> derived tab c"
  shows "safe tab h (handleGroupByMultiAgg d n mats cols idx cluster r) (res_ok tab)"
  unfolding handleGroupByMultiAgg_def
proof (intro safe_alloc partial_ok_finish assms(1), goal_cases)
  case (1 h1 g)
  note g = stored_ok [OF 1(2,3)]
  have r1: "ptr_ok (length h') (physical_root r)" if "prefix h1 h'" for h'
    using assms(3) 1(1) that prefix_length_le ptr_ok_mono prefix_order.trans by blast
  show ?case
  proof (rule safe_bind [OF safe_map_output [OF r1 [OF prefix_order.refl]]], goal_cases)
    case (1 m h2)
    have "safe tab h2 (case m of Some (b, c) \<Rightarrow> registerIntermediateResult (column_name c) c b | None \<Rightarrow> retP ()) (\<lambda>_ _. True)"
      using 1 by (auto split: option.split intro: safe_ret safe_register)
    then show ?case
    proof (rule safe_bind, goal_cases)
      case (1 u h3)
      show ?case
      proof (rule safe_bind [OF safe_map [where Q = "\<lambda>h' x. src_ok tab h' (Some (fst x)) (snd x)"]], goal_cases)
        case (1 spec h')
        then show ?case using \<open>prefix h1 h2\<close> \<open>prefix h2 h3\<close> assms(4)
          by (intro safe_groupedAggregate r1 g) (auto intro: prefix_order.trans)
      next
        case (3 xs h4)
        then have p: "prefix h h4" "prefix h1 h4"
          using \<open>prefix h h1\<close> \<open>prefix h1 h2\<close> \<open>prefix h2 h3\<close> by (auto intro: prefix_order.trans)
        have "safe tab h4 (materializeGroupedKeys mats cols idx g) (\<lambda>_ _. True)"
          using assms(2) p by (intro safe_materializeGroupedKeys g) auto
        then show ?case
        proof (rule safe_bind, goal_cases)
          case (1 v h5)
          then show ?case using 3(2) p
            by (intro safe_ret) (auto split: list.split intro: g prefix_order.trans)
        qed
      qed auto
    qed
  qed
qed

text \<open>The aggregation column of a single-aggregate grouping.\<close>

lemma safe_single_agg_input:
  assumes "partial_ok tab h n" "\<forall>s \<in> set_option agg. \<forall>c \<in> set_option (agg_input s). \<not> derived tab c"
  shows "safe tab h (case agg of
              None \<Rightarrow> failP NullDeref
            | Some spec \<Rightarrow>
                (case agg_input spec of
                   Some c \<Rightarrow> bindP (ensureMaterialized c) (\<lambda>(info, c').
                     retP (n\<lparr>aggregationColumn := Some (mat_col info),
                             p_children := p_children n @ map Some (nonnull [mat_producer info])\<rparr>, ex spec c'))
                 | None \<Rightarrow>
                     if agg_is_star spec \<and> agg_func spec = A_COUNT
                     then (case p_base_columns n of
                             [] \<Rightarrow> failP OutOfRange
                           | k # _ \<Rightarrow> retP (n\<lparr>aggregationColumn := Some k\<rparr>, e))
                     else retP (n, e))) (\<lambda>h' x. partial_ok tab h' (fst x))"
proof (cases agg)
  case None
  then show ?thesis by (simp add: safe_fail)
next
  case (Some spec)
  show ?thesis
  proof (cases "agg_input spec")
    case None
    have "partial_ok tab h' (n\<lparr>aggregationColumn := Some k\<rparr>)" if "p_base_columns n = k # ks" "prefix h h'" for k ks h'
      using partial_ok_first [OF partial_ok_mono [OF assms(1) that(2)], of k] that(1) by (simp add: inputs_def)
    then show ?thesis unfolding Some option.case None
      using partial_ok_mono [OF assms(1)]
      by (intro safe_if) (auto split: list.split intro!: safe_ret safe_fail)
  next
    case (Some c)
    with assms(2) \<open>agg = Some spec\<close> have "\<not> derived tab c" by simp
    then show ?thesis unfolding \<open>agg = Some spec\<close> option.case Some
    proof (rule safe_ensure, goal_cases)
      case (1 i c' h')
      have "partial_ok tab h2 (n\<lparr>aggregationColumn := Some (mat_col i),
          p_children := p_children n @ map Some (nonnull [mat_producer i])\<rparr>)" if "prefix h' h2" for h2
        using partial_ok_agg [OF partial_ok_mono [OF assms(1) prefix_order.trans [OF 1(1) that]] src_ok_mono [OF 1(2) that]]
        by (cases n) simp
      then show ?case by (auto intro: safe_ret)
    qed
  qed
qed

lemma safe_handleGroupBySingleAgg:
  assumes "partial_ok tab h n" "\<forall>m \<in> set mats. mat_ok tab h m" "ptr_ok (length h) (physical_root r)"
    and "\<forall>s \<in> set_option agg. \<forall>c \<in> set_option (agg_input s). \<not> derived tab c"
    and "colref idx = tab @ ''.'' @ nm @ ''_idx_ext''"
  shows "safe tab h (handleGroupBySingleAgg d n agg mats cols nm idx r) (res_ok tab)"
  unfolding handleGroupBySingleAgg_def Let_def
proof (rule safe_bind [OF safe_map_output [OF assms(3)]], goal_cases)
  case (1 m h1)
  have "partial_ok tab h1 (case m of
      Some (b, c) \<Rightarrow> n\<lparr>p_children := p_children n @ [Some b], aggregationColumn := Some c\<rparr> | None \<Rightarrow> n)"
    using partial_ok_mono [OF assms(1) 1(1)] partial_ok_agg [of tab h1 n "Some b" c for b c] 1(2) by (auto split: option.split)
  from safe_single_agg_input [OF this assms(4)] show ?case
  proof (rule safe_bind, goal_cases)
    case (1 x h2)
    obtain n2 e where x: "x = (n2, e)" by force
    have n2: "partial_ok tab h2 n2" using 1(2) x by simp
    then have ty: "p_type n2 = P_GROUPBY" by (simp add: partial_ok_def)
    show ?case unfolding x prod.case
    proof (intro safe_icol safe_alloc partial_ok_finish n2, goal_cases)
      case (1 h3 g)
      have sfx: "src_ok tab h' (Some g) c" if "prefix h3 h'" "colref c = (tab @ ''.'' @ nm) @ q"
        "q \<in> {''_agg'', ''_idx_ext'', ''_cluster''}" for h' c q
        by (rule stored_suffix [OF 1(2,3) that(1), where c = "with_alias agg (mkColumn tab nm T_INTEGER None None)" and sfx = q])
          (use that ty in auto)
      have "prefix h h3" using \<open>prefix h h1\<close> \<open>prefix h1 h2\<close> 1(1) by (blast intro: prefix_order.trans)
      then have "safe tab h3 (materializeGroupedKeys mats cols idx g) (\<lambda>_ _. True)"
        using assms(2) sfx [of h3 idx "''_idx_ext''"] assms(5) by (intro safe_materializeGroupedKeys) auto
      then have "safe tab h3 (bindP (materializeGroupedKeys mats cols idx g) (\<lambda>_.
          retP (TransformResult_default\<lparr>physical_root := Some g,
            output_column := with_alias agg (mkColumn tab nm T_INTEGER None None), result_type := X_GROUPBY,
            tables_involved := tables_involved r\<rparr>))) (res_ok tab)"
        by (rule safe_bind) (auto intro!: safe_ret stored_ok [OF 1(2,3)] intro: prefix_order.trans)
      then show ?case using sfx [of h3 "with_alias agg (mkColumn tab (nm @ ''_agg'') T_INTEGER None None)" "''_agg''"]
        by (intro safe_bind_register) auto
    qed
  qed
qed

lemma safe_handleGroupBy:
  assumes "cols_free tab d" "res_ok tab h r"
  shows "safe tab h (handleGroupBy d r) (res_ok tab)"
  unfolding handleGroupBy_def Let_def
proof (rule safe_mapP_ensure [OF cols_freeD(1) [OF assms(1)]], intro safe_next safe_icol, goal_cases)
  case (1 h1 mats i)
  let ?srcs = "map (\<lambda>m. (mat_col (fst m), mat_producer (fst m))) mats"
  have "partial_ok tab h1 ((new_phys P_GROUPBY i)\<lparr>p_base_columns := map mat_col (map fst mats),
      p_children := map Some (nonnull (map mat_producer (map fst mats)))\<rparr>)"
    unfolding partial_ok_def using 1(2)
    by (intro conjI node_ok_producers [of _ ?srcs]) (auto simp: inputs_def image_iff, metis fst_conv)
  moreover have "ptr_ok (length h1) (physical_root r)" using src_ok_ptr src_ok_mono [OF assms(2) 1(1)] by blast
  moreover have "\<forall>m \<in> set (map fst mats). mat_ok tab h1 m" using 1(2) by auto
  moreover have "\<forall>s \<in> set_option (first_agg d). \<forall>c \<in> set_option (agg_input s). \<not> derived tab c"
    using cols_freeD(3) [OF assms(1)] by (auto simp: first_agg_def split: list.split_asm)
  ultimately show ?case using cols_freeD(3) [OF assms(1)]
    by (intro safe_if safe_handleGroupByMultiAgg safe_handleGroupBySingleAgg) auto
qed

subsection \<open>Projection and sort\<close>

lemma safe_project_column:
  assumes "\<not> derived tab c"
  shows "safe tab h (project_column c) (mat_ok tab)"
  unfolding project_column_def Let_def
proof (rule safe_ensure [OF assms], goal_cases)
  case (1 i c' h')
  have "src_ok tab h2 p (x\<lparr>col_alias := al\<rparr>) = src_ok tab h2 p x" "src_ok tab h2 p (x\<lparr>col_base_table := bt\<rparr>) = src_ok tab h2 p x"
    for h2 p x al bt by (simp_all add: src_ok_def colref_def derived_def split: option.split)
  with 1 show ?case by (auto intro!: safe_ret split: option.split)
qed

lemma safe_handleProjection:
  assumes "\<And>c h'. c \<in> set ch \<Longrightarrow> safe tab h' (tr c) (res_ok tab)" "cols_free tab d"
  shows "safe tab h (handleProjection tr d ch) (res_ok tab)"
proof (cases ch)
  case Nil
  then show ?thesis by (simp add: handleProjection_def safe_fail)
next
  case (Cons c cs)
  then have "safe tab h (tr c) (res_ok tab)" using assms(1) by simp
  then show ?thesis unfolding handleProjection_def Cons list.case
  proof (rule safe_bind, goal_cases)
    case (1 r h1)
    have "safe tab h1 (mapP project_column (projected_columns d)) (\<lambda>h' xs. \<forall>i \<in> set xs. mat_ok tab h' i)"
      using cols_freeD(2) [OF assms(2)] by (intro safe_map safe_project_column) auto
    then show ?case
    proof (rule safe_bind, goal_cases)
      case (1 infos h2)
      then have "res_ok tab h2 r" using \<open>res_ok tab h1 r\<close> by blast
      with 1 show ?case by (intro safe_mod safe_ret) (auto simp: ctx_ok_def)
    qed
  qed
qed

lemma safe_sort_key:
  assumes "\<not> derived tab c" "res_ok tab h r"
  shows "safe tab h (sort_key r c) (\<lambda>h' x. src_ok tab h' (snd x) (fst x))"
  unfolding sort_key_def
proof (rule safe_bind [where Q = "\<lambda>h' g. \<forall>x. g = Some x \<longrightarrow> src_ok tab h' (physical_root r) (x\<lparr>column_name := column_name x @ ''_cluster''\<rparr>)"], goal_cases)
  case 1
  show ?case
  proof (cases "physical_root r")
    case None
    then show ?thesis by (simp add: safe_ret)
  next
    case (Some a)
    then have a: "a < length h" using src_ok_ptr [OF assms(2)] by simp
    have "src_ok tab h' (Some a) (x\<lparr>column_name := column_name x @ ''_cluster''\<rparr>)"
      if "p_type (h ! a) = P_GROUPBY" "result_columns (h ! a) = x # xs" "prefix h h'" for x xs h'
      by (rule stored_suffix [OF a refl that(3), where c = x and sfx = "''_cluster''"]) (use that in \<open>auto simp: colref_def\<close>)
    then show ?thesis unfolding Some option.case using a
      by (intro safe_node_of safe_ret) (auto split: list.split)
  qed
next
  case (2 g h')
  then show ?case using assms(1) by (cases g) (auto intro!: safe_ret safe_ensure)
qed

lemma safe_sort_elided: "safe tab h (sort_elided d c r) (\<lambda>_ _. True)"
  unfolding sort_elided_def grandchild_columns_def
  by (intro safe_if safe_ret safe_bind [where Q = "\<lambda>_ _. True"])
    (auto split: option.split list.split intro: safe_ret safe_fail)

lemma safe_handleSort:
  assumes "\<And>c h'. c \<in> set ch \<Longrightarrow> safe tab h' (tr c) (res_ok tab)" "cols_free tab d"
  shows "safe tab h (handleSort tr d ch) (res_ok tab)"
proof (cases ch)
  case Nil
  then show ?thesis by (simp add: handleSort_def safe_fail)
next
  case (Cons c cs)
  then have "safe tab h (tr c) (res_ok tab)" using assms(1) by simp
  then show ?thesis unfolding handleSort_def Cons list.case
  proof (rule safe_bind, goal_cases)
    case (1 r h1)
    show ?case
    proof (rule safe_bind [OF safe_sort_elided], goal_cases)
      case (1 el h2)
      then have r2: "res_ok tab h2 r" using \<open>res_ok tab h1 r\<close> by blast
      have "safe tab h2 (mapP (sort_key r) (base_columns d)) (\<lambda>h' xs. \<forall>x \<in> set xs. src_ok tab h' (snd x) (fst x))"
        using cols_freeD(1) [OF assms(2)] r2 by (intro safe_map safe_sort_key) auto
      then show ?case
      proof (intro safe_if, goal_cases)
        case 1
        then show ?case using r2 by (auto intro!: safe_ret)
      next
        case 2
        then show ?case
        proof (elim safe_bind, goal_cases)
          case (1 keys h3)
          then show ?case
            by (intro safe_next safe_icol safe_alloc safe_ret node_ok_producers [of _ keys])
              (auto simp: inputs_def intro: stored_ok, force)
        qed
      qed
    qed
  qed
qed

subsection \<open>The recursion\<close>

lemma safe_handleFilter:
  assumes "\<And>c h'. c \<in> set ch \<Longrightarrow> safe tab h' (tr c) (res_ok tab)" "cols_free tab d"
  shows "safe tab h (handleFilter tr d ch) (res_ok tab)"
proof (cases ch)
  case Nil
  then show ?thesis by (simp add: handleFilter_def safe_fail)
next
  case (Cons c cs)
  then have "safe tab h (tr c) (res_ok tab)" using assms(1) by simp
  then show ?thesis unfolding handleFilter_def Cons list.case
  proof (rule safe_bind, goal_cases)
    case (1 r h1)
    then show ?case using cols_freeD(1) [OF assms(2)]
      by (auto split: list.split intro!: safe_singleTableFilter safe_handleCrossTableFilter)
  qed
qed

lemma safe_handleJoin:
  assumes "\<And>c h'. c \<in> set ch \<Longrightarrow> safe tab h' (tr c) (res_ok tab)" "cols_free tab d"
  shows "safe tab h (handleJoin tr d ch) (res_ok tab)"
proof -
  have join: "safe tab h' (case base_columns d of l # r # _ \<Rightarrow> createHashJoin d l r x y | _ \<Rightarrow> failP OutOfRange) (res_ok tab)"
    for x y h'
    using cols_freeD(1) [OF assms(2)] by (auto split: list.split intro!: safe_createHashJoin safe_fail)
  consider "ch = []" | l where "ch = [l]" | l r cs where "ch = l # r # cs" by (cases ch; cases "tl ch") auto
  then show ?thesis
  proof cases
    case 1
    then show ?thesis by (simp add: handleJoin_def safe_fail)
  next
    case 2
    then show ?thesis unfolding handleJoin_def 2 list.case
      by (intro safe_bind [OF assms(1)] safe_fail) (simp add: 2)
  next
    case 3
    show ?thesis unfolding handleJoin_def 3 list.case
      by (intro safe_bind [OF assms(1)] join) (simp_all add: 3)
  qed
qed

lemma safe_handleMap:
  assumes "\<And>c h'. c \<in> set ch \<Longrightarrow> safe tab h' (tr c) (res_ok tab)" "cols_free tab d"
  shows "safe tab h (handleMap tr d ch) (res_ok tab)"
proof (cases ch)
  case Nil
  then show ?thesis by (simp add: handleMap_def safe_fail)
next
  case (Cons c cs)
  then have "safe tab h (tr c) (res_ok tab)" using assms(1) by simp
  then show ?thesis unfolding handleMap_def Cons list.case
  proof (rule safe_bind, intro safe_mapP_ensure cols_freeD(1) [OF assms(2)], goal_cases)
    case (1 r h1 h2 mats)
    then show ?case
      by (intro safe_next safe_icol safe_alloc safe_bind_register safe_ret
          node_ok_producers [of _ "map (\<lambda>m. (mat_col (fst m), mat_producer (fst m))) mats"])
        (auto simp: inputs_def image_iff intro: stored_ok, metis fst_conv)
  qed
qed

lemma safe_handleAggregate:
  assumes "\<And>c h'. c \<in> set ch \<Longrightarrow> safe tab h' (tr c) (res_ok tab)" "cols_free tab d"
  shows "safe tab h (handleAggregate tr d ch) (res_ok tab)"
proof (cases ch)
  case Nil
  then show ?thesis by (simp add: handleAggregate_def safe_fail)
next
  case (Cons c cs)
  then have "safe tab h (tr c) (res_ok tab)" using assms(1) by simp
  then show ?thesis unfolding handleAggregate_def Cons list.case
    by (rule safe_bind) (intro safe_if safe_handleGroupBy safe_createParallelAggregateNodes
        safe_createSingleAggregateNode assms(2) cols_freeD(3) [OF assms(2)])
qed

lemma safe_handleSetOperation:
  assumes "\<And>c h'. c \<in> set ch \<Longrightarrow> safe tab h' (tr c) (res_ok tab)"
  shows "safe tab h (handleSetOperation tr d ch) (res_ok tab)"
  unfolding handleSetOperation_def
  by (intro safe_if safe_fail safe_bind [OF safe_map [where Q = "res_ok tab"]] safe_createSetOperationNode)
    (auto intro: assms)

lemma safe_handleScan: "safe tab h (handleScan d) (res_ok tab)"
  unfolding handleScan_def
  by (rule safe_ret) (simp add: TransformResult_default_def Column_default_def derived_def)

fun plan_free :: "string \<Rightarrow> LogicalPlanNode \<Rightarrow> bool" where
  "plan_free tab (LNode d ch) \<longleftrightarrow>
     cols_free tab d \<and> (\<forall>c \<in> set ch. case c of None \<Rightarrow> True | Some n \<Rightarrow> plan_free tab n)"

lemma safe_transformNode:
  "(\<And>n. root = Some n \<Longrightarrow> plan_free tab n) \<Longrightarrow> safe tab h (transformNode root) (res_ok tab)"
proof (induction root arbitrary: h rule: transformNode.induct)
  case 1
  show ?case unfolding transformNode.simps by (rule safe_fail)
next
  case (2 d ch)
  from 2(8) [of "LNode d ch"] have free: "cols_free tab d" "\<And>c n. c \<in> set ch \<Longrightarrow> c = Some n \<Longrightarrow> plan_free tab n"
    by (auto split: option.split_asm)
  note IH = 2(1-7)
  show ?case unfolding transformNode.simps
  proof (rule safe_mod, goal_cases)
    case (1 h' c)
    then show ?case by (simp add: ctx_ok_def note_limits_def)
  next
    case 2
    show ?case using IH free
      by (cases "node_type d")
        (auto intro!: safe_handleScan safe_handleFilter safe_handleJoin safe_handleMap safe_handleAggregate
          safe_handleProjection safe_handleSetOperation safe_handleSort)
  qed
qed

lemma set_add_children:
  "set (foldl add_child ps qs) = set ps \<union> {q \<in> set qs. q \<noteq> None}"
  by (induction qs arbitrary: ps) (auto simp: add_child_def)

lemma safe_buildResultNode:
  assumes "res_ok tab h r"
  shows "safe tab h (buildResultNode r) (\<lambda>h' a. a < length h')"
  unfolding buildResultNode_def Let_def root_is_def
proof (intro safe_next safe_bind_get, goal_cases)
  case (1 i s s')
  have r: "res_ok tab (heap s) r" "res_ok tab (heap s') r" using assms 1 by (auto intro: prefix_order.trans)
  let ?projected = "ctx_projected (ctx s')"
  let ?srcs = "map (\<lambda>m. (mat_col m, mat_producer m)) ?projected"
  let ?sort = "case physical_root r of Some a \<Rightarrow> p_type (heap s ! a) = P_SORT | None \<Rightarrow> False"
  have proj: "\<forall>m \<in> set ?projected. mat_ok tab (heap s') m" using state_ok_cases(4) [OF 1(3)] by blast
  show ?case
  proof (rule safe_weaken [OF safe_alloc_last], goal_cases)
    case 1
    show ?case
    proof (cases ?sort)
      case True
      then obtain a where "physical_root r = Some a" by (auto split: option.split_asm)
      then show ?thesis using True r proj
        by (intro node_ok_producers [of _ "(output_column r, physical_root r) # ?srcs"])
          (auto simp: inputs_def set_add_children image_iff)
    next
      case False
      then show ?thesis using proj
        by (intro node_ok_producers [of _ ?srcs]) (auto simp: inputs_def image_iff, metis)
    qed
  qed auto
qed

lemma initial_ok: "state_ok tab (initial_state oc oj tab ids)"
  by (simp add: state_ok_def flow_ok_def ctx_ok_def initial_state_def TransformContext_default_def)

lemma safe_build_plan:
  assumes "\<And>n. root = Some n \<Longrightarrow> plan_free tab n"
  shows "safe tab h (build_plan root) (\<lambda>h' p. ptr_ok (length h') p)"
  unfolding build_plan_def
proof (rule safe_bind [OF safe_transformNode [OF assms]], assumption, rule safe_get_any, rule safe_if, goal_cases)
  case (1 r h' projected)
  then have "safe tab h' (buildResultNode r) (\<lambda>h' a. a < length h')" by (intro safe_buildResultNode)
  then show ?case by (rule safe_bind) (auto intro!: safe_ret intro: prefix_less)
next
  case (2 r h' projected)
  then show ?case by (auto intro!: safe_ret dest: src_ok_mono src_ok_ptr)
qed

section \<open>The finished plan\<close>

text \<open>Every node below the root reads base columns or columns that one of its children produces.\<close>

definition plan_flows :: "string \<Rightarrow> heap \<Rightarrow> nat \<Rightarrow> bool" where
  "plan_flows tab h root \<longleftrightarrow> (\<forall>a. reach h root a \<longrightarrow> a < length h \<and> (\<forall>c \<in> inputs (h ! a). derived tab c \<longrightarrow>
     (\<exists>b. Some b \<in> set (p_children (h ! a)) \<and> colref c \<in> produces (h ! b))))"

lemma flow_ok_plan_flows:
  assumes "flow_ok tab h" "root < length h"
  shows "plan_flows tab h root"
  unfolding plan_flows_def
proof (intro allI impI conjI ballI)
  fix a assume "reach h root a"
  then show a: "a < length h" using reach_le [OF _ flow_ok_heap_ok [OF assms(1)] assms(2)] assms(2) by fastforce
  fix c assume "c \<in> inputs (h ! a)" "derived tab c"
  moreover have "node_ok tab (take a h) (h ! a)" using assms(1) a by (simp add: flow_ok_def)
  ultimately obtain b where "Some b \<in> set (p_children (h ! a))" "colref c \<in> produces (take a h ! b)"
    unfolding node_ok_def by blast
  moreover from this(1) have "b < a" using heap_ok_child [OF flow_ok_heap_ok [OF assms(1)] a] by blast
  ultimately show "\<exists>b. Some b \<in> set (p_children (h ! a)) \<and> colref c \<in> produces (h ! b)" by auto
qed

lemma trim_join_inputs: "trim_join R n = Inr n' \<Longrightarrow> inputs n' = inputs n"
  by (auto simp: trim_join_def Let_def inputs_def split: if_split_asm list.split_asm)

lemma trim_join_produces:
  assumes "trim_join R n = Inr n'" "r \<in> produces n" "r \<in> R"
  shows "r \<in> produces n'"
  using assms by (auto simp: trim_join_def Let_def produces_def split: if_split_asm list.split_asm)

lemma derived_consumed: "c \<in> inputs n \<Longrightarrow> derived tab c \<Longrightarrow> colref c \<in> consumed n"
  by (auto simp: inputs_def consumed_def derived_def)

lemma trimmed_plan_flows:
  assumes "flow_ok tab h" "root < length h" "trimmed (refs_of h (reach_set h root)) {} (reach_set h root) h h'"
  shows "plan_flows tab h' root"
  unfolding plan_flows_def
proof (intro allI impI conjI ballI)
  let ?R = "refs_of h (reach_set h root)"
  note flows = flow_ok_plan_flows [OF assms(1,2)]
  have ok: "heap_ok h" by (rule flow_ok_heap_ok [OF assms(1)])
  fix a assume "reach h' root a"
  then have a: "reach h root a" using trimmed_reach [OF assms(3) ok assms(2)] by (simp add: reach_set_def set_eq_iff)
  then have len: "a < length h" using flows by (simp add: plan_flows_def)
  then show "a < length h'" using trimmed_length [OF assms(3)] by simp
  have trim: "trim_join ?R (h ! b) = Inr (h' ! b)" if "reach h root b" "b < length h" for b
    using assms(3) that by (simp add: trimmed_def reach_set_def)
  fix c assume c: "c \<in> inputs (h' ! a)" "derived tab c"
  then have ch: "c \<in> inputs (h ! a)" using trim_join_inputs [OF trim [OF a len]] by simp
  then obtain b where b: "Some b \<in> set (p_children (h ! a))" "colref c \<in> produces (h ! b)"
    using flows a c(2) by (auto simp: plan_flows_def)
  have rb: "reach h root b" using reach_closed [OF a b(1)] .
  then have "b < length h" using flows by (simp add: plan_flows_def)
  moreover have "colref c \<in> ?R" using derived_consumed [OF ch c(2)] a by (auto simp: refs_of_def reach_set_def)
  ultimately have "colref c \<in> produces (h' ! b)" using trim_join_produces [OF trim [OF rb] b(2)] by blast
  then show "\<exists>b. Some b \<in> set (p_children (h' ! a)) \<and> colref c \<in> produces (h' ! b)"
    using b(1) trimmed_children [OF assms(3) len] by auto
qed

lemma build_plan_ok:
  assumes "plan_free tab n" "build_plan (Some n) (initial_state oc oj tab ids) = Inr (p, s)"
  shows "flow_ok tab (heap s)" "ptr_ok (length (heap s)) p"
proof -
  have "safe tab [] (build_plan (Some n)) (\<lambda>h' p. ptr_ok (length h') p)" using assms(1) by (intro safe_build_plan) simp
  from this [unfolded safe_def, rule_format, OF initial_ok _ assms(2)]
  show "flow_ok tab (heap s)" "ptr_ok (length (heap s)) p" by (simp_all add: state_ok_def)
qed

lemma ConvertToPhys_cases:
  assumes "plan_free tab n"
  obtains (ub) e where "ConvertToPhys (Some n) oc oj tab ids = Some (Inl e)"
  | (failed) "ConvertToPhys (Some n) oc oj tab ids = Some (Inr None)"
  | (null) h where "ConvertToPhys (Some n) oc oj tab ids = Some (Inr (Some (None, h)))"
  | (plan) r h where "ConvertToPhys (Some n) oc oj tab ids = Some (Inr (Some (Some r, h)))" "plan_flows tab h r" "heap_ok h"
proof (cases "build_plan (Some n) (initial_state oc oj tab ids)")
  case (Inl e)
  then show ?thesis using ub failed by (cases e) (auto simp: ConvertToPhys_def caught_def)
next
  case (Inr x)
  obtain p s where x: "x = (p, s)" by force
  note ok = build_plan_ok [OF assms Inr [unfolded x]]
  show ?thesis
  proof (cases p)
    case None
    then show ?thesis using null Inr x by (simp add: ConvertToPhys_def caught_def)
  next
    case (Some r)
    then have r: "r < length (heap s)" using ok(2) by simp
    show ?thesis
    proof (cases oj)
      case False
      then show ?thesis using plan flow_ok_plan_flows [OF ok(1) r] flow_ok_heap_ok [OF ok(1)] Inr x Some
        by (simp add: ConvertToPhys_def caught_def)
    next
      case True
      from post_process_trims [OF flow_ok_heap_ok [OF ok(1)] r] show ?thesis
      proof (elim disjE exE conjE)
        fix h' assume "post_process (heap s) (Some r) = Some (Inr h')"
          and t: "trimmed (refs_of (heap s) (reach_set (heap s) r)) {} (reach_set (heap s) r) (heap s) h'"
        then show ?thesis using plan trimmed_plan_flows [OF ok(1) r t] trimmed_heap_ok [OF t flow_ok_heap_ok [OF ok(1)]] True Inr x Some
          by (simp add: ConvertToPhys_def caught_def)
      next
        fix e assume "post_process (heap s) (Some r) = Some (Inl e)"
        then show ?thesis using ub failed True Inr x Some
          by (cases e) (auto simp: ConvertToPhys_def caught_def)
      qed
    qed
  qed
qed


text \<open>The names of the Asian customers: a projection over a filter.\<close>

definition demo_col :: "string \<Rightarrow> string \<Rightarrow> Column" where
  "demo_col t c = mkColumn t c T_INTEGER None None"

definition demo_plan :: LogicalPlanNode where
  "demo_plan =
     LNode ((new_node L_PROJECTION)\<lparr>projected_columns := [demo_col ''customer'' ''c_name'']\<rparr>)
       [Some (LNode ((new_node L_FILTER)\<lparr>
              base_columns := [demo_col ''customer'' ''c_region''],
              expression := Expression_default\<lparr>comp_type := Some C_EQ, literals := [''ASIA'']\<rparr>\<rparr>)
          [Some (LNode ((new_node L_SCAN)\<lparr>base_table := ''customer''\<rparr>) [])])]"


end
