(* ===== verification/WorkerPool.thy ===== *)
theory WorkerPool
  imports Prelude "HOL-Library.Multiset"
begin

text \<open>
  The thread pool of \<^verbatim>\<open>QueryManager\<close>: \<^verbatim>\<open>addQuery\<close> and \<^verbatim>\<open>workerRoutine\<close> over the shared queue and the lists of
  running and finished queries, and the stop flag set by the destructor. Every critical section is one
  atomic step; steps of callers and workers interleave freely.
\<close>

section \<open>State\<close>

record QueryContext =
  ctx_id :: nat
  ctx_sql :: string

text \<open>
  Where a worker thread stands in its loop: at the wait, after taking a context from the queue, inside
  \<^verbatim>\<open>processQuery\<close> with the context listed as running, after removing it from that list, and returned.
\<close>

datatype worker = Waiting | Taken QueryContext | Processing QueryContext | Processed QueryContext | Exited

text \<open>The counter of queries is a 64-bit size in the code and unbounded here.\<close>

record pool =
  query_counter :: nat
  submitted :: "QueryContext list"
  queue :: "QueryContext list"
  running :: "QueryContext list"
  finished :: "QueryContext list"
  stop_flag :: bool
  workers :: "worker list"

definition QueryManager :: "nat \<Rightarrow> pool" where
  "QueryManager num_threads =
     \<lparr>query_counter = 0, submitted = [], queue = [], running = [], finished = [], stop_flag = False,
      workers = replicate num_threads Waiting\<rparr>"

section \<open>Operations\<close>

text \<open>
  \<^verbatim>\<open>addQuery\<close> draws its identifier from an atomic counter and enters the queue later, under the lock;
  \<open>submitted\<close> holds the contexts in between.
\<close>

definition create_context :: "string \<Rightarrow> pool \<Rightarrow> pool" where
  "create_context sql s =
     s\<lparr>query_counter := Suc (query_counter s), submitted := submitted s @ [\<lparr>ctx_id = query_counter s, ctx_sql = sql\<rparr>]\<rparr>"

definition enqueue :: "QueryContext \<Rightarrow> pool \<Rightarrow> pool" where
  "enqueue ctx s = s\<lparr>submitted := remove1 ctx (submitted s), queue := queue s @ [ctx]\<rparr>"

definition set_worker :: "nat \<Rightarrow> worker \<Rightarrow> pool \<Rightarrow> pool" where
  "set_worker w p s = s\<lparr>workers := (workers s)[w := p]\<rparr>"

text \<open>The first critical section of the loop: \<^const>\<open>None\<close> while the condition variable keeps the worker waiting.\<close>

definition take_or_exit :: "nat \<Rightarrow> pool \<Rightarrow> pool option" where
  "take_or_exit w s =
     (case queue s of
        [] \<Rightarrow> if stop_flag s then Some (set_worker w Exited s) else None
      | ctx # rest \<Rightarrow> Some (set_worker w (Taken ctx) (s\<lparr>queue := rest\<rparr>)))"

definition mark_running :: "nat \<Rightarrow> QueryContext \<Rightarrow> pool \<Rightarrow> pool" where
  "mark_running w ctx s = set_worker w (Processing ctx) (s\<lparr>running := running s @ [ctx]\<rparr>)"

definition unmark_running :: "nat \<Rightarrow> QueryContext \<Rightarrow> pool \<Rightarrow> pool" where
  "unmark_running w ctx s = set_worker w (Processed ctx) (s\<lparr>running := filter (\<lambda>c. c \<noteq> ctx) (running s)\<rparr>)"

definition mark_finished :: "nat \<Rightarrow> QueryContext \<Rightarrow> pool \<Rightarrow> pool" where
  "mark_finished w ctx s = set_worker w Waiting (s\<lparr>finished := finished s @ [ctx]\<rparr>)"

text \<open>One step of the worker thread \<open>w\<close>.\<close>

definition workerRoutine :: "nat \<Rightarrow> pool \<Rightarrow> pool option" where
  "workerRoutine w s =
     (case workers s ! w of
        Waiting \<Rightarrow> take_or_exit w s
      | Taken ctx \<Rightarrow> Some (mark_running w ctx s)
      | Processing ctx \<Rightarrow> Some (unmark_running w ctx s)
      | Processed ctx \<Rightarrow> Some (mark_finished w ctx s)
      | Exited \<Rightarrow> None)"

inductive pool_step :: "pool \<Rightarrow> pool \<Rightarrow> bool" where
  create: "pool_step s (create_context sql s)"
| enqueue: "ctx \<in> set (submitted s) \<Longrightarrow> pool_step s (enqueue ctx s)"
| work: "w < length (workers s) \<Longrightarrow> workerRoutine w s = Some s' \<Longrightarrow> pool_step s s'"
| stop: "pool_step s (s\<lparr>stop_flag := True\<rparr>)"

definition pool_steps :: "pool \<Rightarrow> pool \<Rightarrow> bool" where
  "pool_steps = pool_step\<^sup>*\<^sup>*"

section \<open>No query is lost or processed twice\<close>

text \<open>The contexts a worker holds, and those it has listed as running.\<close>

fun held :: "worker \<Rightarrow> QueryContext multiset" where
  "held (Taken c) = {#c#}"
| "held (Processing c) = {#c#}"
| "held (Processed c) = {#c#}"
| "held _ = {#}"

fun in_process :: "worker \<Rightarrow> QueryContext multiset" where
  "in_process (Processing c) = {#c#}"
| "in_process _ = {#}"

definition everywhere :: "pool \<Rightarrow> QueryContext multiset" where
  "everywhere s = mset (submitted s) + mset (queue s) + sum_list (map held (workers s)) + mset (finished s)"

definition pool_inv :: "pool \<Rightarrow> bool" where
  "pool_inv s \<longleftrightarrow>
     image_mset ctx_id (everywhere s) = mset [0..<query_counter s] \<and>
     mset (running s) = sum_list (map in_process (workers s)) \<and>
     (Exited \<in> set (workers s) \<longrightarrow> stop_flag s)"

text \<open>Replacing one worker in a sum over all of them.\<close>

lemma sum_list_update_worker:
  fixes f :: "worker \<Rightarrow> 'a multiset"
  assumes "w < length ws"
  shows "sum_list (map f (ws[w := p])) + f (ws ! w) = sum_list (map f ws) + f p"
  using assms by (induction ws arbitrary: w) (auto simp: nth_Cons' less_Suc_eq_0_disj algebra_simps)

lemma pool_inv_init: "pool_inv (QueryManager n)"
proof -
  have "sum_list (map held (replicate n Waiting)) = {#}" "sum_list (map in_process (replicate n Waiting)) = {#}"
    by (induction n) simp_all
  then show ?thesis by (simp add: pool_inv_def QueryManager_def everywhere_def)
qed

lemma work_keeps_everywhere:
  assumes "w < length (workers s)" "workerRoutine w s = Some s'"
  shows "everywhere s' = everywhere s \<and> query_counter s' = query_counter s \<and> stop_flag s' = stop_flag s \<and>
    length (workers s') = length (workers s)"
proof -
  note upd = sum_list_update_worker [OF assms(1), of held]
  show ?thesis
  proof (cases "workers s ! w")
    case Waiting
    then show ?thesis
      using assms(2) upd [of Exited] upd [of "Taken (hd (queue s))"]
      by (auto simp: workerRoutine_def take_or_exit_def set_worker_def everywhere_def split: list.splits if_splits)
  next
    case (Taken c)
    then show ?thesis using assms(2) upd [of "Processing c"]
      by (auto simp: workerRoutine_def mark_running_def set_worker_def everywhere_def)
  next
    case (Processing c)
    then show ?thesis using assms(2) upd [of "Processed c"]
      by (auto simp: workerRoutine_def unmark_running_def set_worker_def everywhere_def)
  next
    case (Processed c)
    then show ?thesis using assms(2) upd [of Waiting]
      by (auto simp: workerRoutine_def mark_finished_def set_worker_def everywhere_def)
  next
    case Exited
    then show ?thesis using assms(2) by (simp add: workerRoutine_def)
  qed
qed

lemma in_process_subset: "sum_list (map in_process ws) \<subseteq># sum_list (map held ws)"
proof (induction ws)
  case (Cons p ws)
  have "in_process p \<subseteq># held p" by (cases p) simp_all
  then show ?case using Cons subset_mset.add_mono by fastforce
qed simp

lemma distinct_if_count_le:
  assumes "\<And>x. count (mset xs) x \<le> 1"
  shows "distinct xs"
proof (rule ccontr)
  assume "\<not> distinct xs"
  then obtain as y bs cs where "xs = as @ [y] @ bs @ [y] @ cs" using not_distinct_decomp by blast
  then show False using assms [of y] by simp
qed

lemma distinct_running:
  assumes "pool_inv s"
  shows "distinct (running s)"
proof -
  have "mset (running s) \<subseteq># everywhere s"
    using assms subset_mset.order_trans [OF in_process_subset [of "workers s"]] by (simp add: pool_inv_def everywhere_def)
  then have "image_mset ctx_id (mset (running s)) \<subseteq># mset [0..<query_counter s]"
    using assms image_mset_subseteq_mono unfolding pool_inv_def by metis
  then have "count (mset (map ctx_id (running s))) x \<le> count (mset [0..<query_counter s]) x" for x
    by (simp add: mset_subset_eq_count)
  moreover have "count (mset [0..<query_counter s]) x \<le> 1" for x
    using distinct_count_atmost_1 [THEN iffD1, OF distinct_upt] by simp
  ultimately have "distinct (map ctx_id (running s))" by (intro distinct_if_count_le) (rule order_trans)
  then show ?thesis by (simp add: distinct_map)
qed

lemma work_keeps_running:
  assumes "pool_inv s" "w < length (workers s)" "workerRoutine w s = Some s'"
  shows "mset (running s') = sum_list (map in_process (workers s'))"
proof -
  note upd = sum_list_update_worker [OF assms(2), of in_process]
  have run: "mset (running s) = sum_list (map in_process (workers s))" using assms(1) by (simp add: pool_inv_def)
  show ?thesis
  proof (cases "workers s ! w")
    case Waiting
    then show ?thesis using assms(3) run upd [of Exited] upd [of "Taken (hd (queue s))"]
      by (auto simp: workerRoutine_def take_or_exit_def set_worker_def split: list.splits if_splits)
  next
    case (Taken c)
    then show ?thesis using assms(3) run upd [of "Processing c"]
      by (auto simp: workerRoutine_def mark_running_def set_worker_def)
  next
    case (Processing c)
    have "mset (filter (\<lambda>d. d \<noteq> c) (running s)) = mset (running s) - {#c#}"
      using distinct_remove1_removeAll [OF distinct_running [OF assms(1)], of c] mset_remove1 [of c "running s"]
      by (simp add: removeAll_filter_not_eq eq_commute [of c])
    moreover have "sum_list (map in_process ((workers s)[w := Processed c])) = mset (running s) - {#c#}"
      using upd [of "Processed c", THEN arg_cong, of "\<lambda>m. m - {#c#}"] Processing run by simp
    ultimately show ?thesis using Processing assms(3)
      by (auto simp: workerRoutine_def unmark_running_def set_worker_def)
  next
    case (Processed c)
    then show ?thesis using assms(3) run upd [of Waiting]
      by (auto simp: workerRoutine_def mark_finished_def set_worker_def)
  next
    case Exited
    then show ?thesis using assms(3) by (simp add: workerRoutine_def)
  qed
qed

lemma exited_update: "Exited \<in> set (ws[w := p]) \<Longrightarrow> p \<noteq> Exited \<Longrightarrow> Exited \<in> set ws"
  using set_update_subset_insert [of ws w p] by auto

lemma work_keeps_exited:
  assumes "w < length (workers s)" "workerRoutine w s = Some s'" "Exited \<in> set (workers s')"
  shows "Exited \<in> set (workers s) \<or> stop_flag s'"
  using assms
  by (auto simp: workerRoutine_def take_or_exit_def mark_running_def unmark_running_def mark_finished_def set_worker_def
      split: worker.splits list.splits if_splits dest: exited_update)

lemma pool_inv_step: "pool_step s s' \<Longrightarrow> pool_inv s \<Longrightarrow> pool_inv s'"
proof (induction rule: pool_step.induct)
  case (create s sql)
  then show ?case by (simp add: pool_inv_def create_context_def everywhere_def add_ac)
next
  case (enqueue ctx s)
  then have "mset (submitted s) = mset (remove1 ctx (submitted s)) + {#ctx#}" by simp
  then have "everywhere (enqueue ctx s) = everywhere s" by (simp add: everywhere_def enqueue_def add_ac)
  then show ?case using enqueue by (simp add: pool_inv_def enqueue_def)
next
  case (work w s s')
  note keeps = work_keeps_everywhere [OF work.hyps] work_keeps_running [OF work.prems work.hyps] work_keeps_exited [OF work.hyps]
  then show ?case using work.prems by (auto simp: pool_inv_def)
next
  case (stop s)
  then show ?case by (simp add: pool_inv_def everywhere_def)
qed

lemma pool_inv_steps: "pool_steps s s' \<Longrightarrow> pool_inv s \<Longrightarrow> pool_inv s'"
  unfolding pool_steps_def by (induction rule: rtranclp_induct) (auto intro: pool_inv_step)

text \<open>
  C28. The worker pool keeps track of every query. In every state reachable from a new query manager, under
  every interleaving of callers, workers and shutdown, each identifier handed out belongs to exactly one
  context, which is in exactly one place: not yet queued, in the queue, held by one worker, or finished.
  The running list contains, without duplicates, exactly the contexts whose worker is processing them, and
  a worker has returned only after the stop flag was set.
\<close>

theorem worker_pool_invariant:
  assumes "pool_steps (QueryManager n) s"
  shows "image_mset ctx_id (mset (submitted s) + mset (queue s) + sum_list (map held (workers s)) + mset (finished s)) =
      mset [0..<query_counter s] \<and>
    distinct (running s) \<and> mset (running s) = sum_list (map in_process (workers s)) \<and>
    (Exited \<in> set (workers s) \<longrightarrow> stop_flag s)"
proof -
  have "pool_inv s" by (rule pool_inv_steps [OF assms pool_inv_init])
  then show ?thesis using distinct_running by (auto simp: pool_inv_def everywhere_def)
qed

section \<open>The pool drains\<close>

text \<open>Steps that still lie ahead of the known queries.\<close>

fun remaining_steps :: "worker \<Rightarrow> nat" where
  "remaining_steps (Taken _) = 3"
| "remaining_steps (Processing _) = 2"
| "remaining_steps (Processed _) = 1"
| "remaining_steps _ = 0"

definition backlog :: "pool \<Rightarrow> nat" where
  "backlog s = 5 * length (submitted s) + 4 * length (queue s) + sum_list (map remaining_steps (workers s))"

definition alive :: "pool \<Rightarrow> bool" where
  "alive s \<longleftrightarrow> (\<exists>p \<in> set (workers s). p \<noteq> Exited)"

lemma sum_remaining_update:
  "w < length ws \<Longrightarrow>
   sum_list (map remaining_steps (ws[w := p])) + remaining_steps (ws ! w) = sum_list (map remaining_steps ws) + remaining_steps p"
  by (induction ws arbitrary: w) (auto simp: nth_Cons' less_Suc_eq_0_disj)

lemma work_progress:
  assumes "w < length (workers s)" "workers s ! w \<noteq> Exited" "workers s ! w = Waiting \<Longrightarrow> queue s \<noteq> []"
  shows "\<exists>s'. workerRoutine w s = Some s' \<and> backlog s' < backlog s \<and> alive s'"
proof -
  note upd = sum_remaining_update [OF assms(1)]
  have alive: "\<exists>q \<in> set ((workers s)[w := p]). q \<noteq> Exited" if "p \<noteq> Exited" for p
    using that assms(1) set_update_memI by metis
  show ?thesis
  proof (cases "workers s ! w")
    case Waiting
    then obtain c cs where "queue s = c # cs" using assms(3) by (cases "queue s") auto
    then show ?thesis using Waiting upd [of "Taken c"] alive [of "Taken c"]
      by (simp add: workerRoutine_def take_or_exit_def set_worker_def backlog_def alive_def)
  next
    case (Taken c)
    then show ?thesis using upd [of "Processing c"] alive [of "Processing c"]
      by (simp add: workerRoutine_def mark_running_def set_worker_def backlog_def alive_def)
  next
    case (Processing c)
    then show ?thesis using upd [of "Processed c"] alive [of "Processed c"]
      by (simp add: workerRoutine_def unmark_running_def set_worker_def backlog_def alive_def)
  next
    case (Processed c)
    then show ?thesis using upd [of Waiting] alive [of Waiting]
      by (simp add: workerRoutine_def mark_finished_def set_worker_def backlog_def alive_def)
  next
    case Exited
    then show ?thesis using assms(2) by simp
  qed
qed

lemma pool_progress:
  assumes "alive s" "0 < backlog s"
  shows "\<exists>s'. pool_step s s' \<and> backlog s' < backlog s \<and> alive s' \<and> query_counter s' = query_counter s"
proof (cases "submitted s")
  case (Cons ctx rest)
  then have "pool_step s (enqueue ctx s)" by (intro pool_step.enqueue) simp
  moreover have "backlog (enqueue ctx s) < backlog s" "alive (enqueue ctx s)"
    using Cons assms(1) by (simp_all add: backlog_def enqueue_def alive_def)
  ultimately show ?thesis by (auto simp: enqueue_def)
next
  case Nil
  have "\<exists>w < length (workers s). workers s ! w \<noteq> Exited \<and> (workers s ! w = Waiting \<longrightarrow> queue s \<noteq> [])"
  proof (cases "queue s = []")
    case True
    then have "0 < sum_list (map remaining_steps (workers s))" using assms(2) Nil by (simp add: backlog_def)
    then obtain p where "p \<in> set (workers s)" "0 < remaining_steps p" by (auto simp: sum_list_nonneg_eq_0_iff neq0_conv [symmetric] simp del: neq0_conv)
    then show ?thesis by (cases p) (auto simp: in_set_conv_nth)
  next
    case False
    then show ?thesis using assms(1) by (auto simp: alive_def in_set_conv_nth)
  qed
  then obtain w where w: "w < length (workers s)" "workers s ! w \<noteq> Exited" "workers s ! w = Waiting \<Longrightarrow> queue s \<noteq> []" by blast
  from work_progress [OF this] obtain s' where s': "workerRoutine w s = Some s'" "backlog s' < backlog s" "alive s'" by blast
  then show ?thesis using pool_step.work [OF w(1)] work_keeps_everywhere [OF w(1)] by blast
qed

lemma pool_drains:
  "alive s \<Longrightarrow> \<exists>s'. pool_steps s s' \<and> backlog s' = 0 \<and> query_counter s' = query_counter s"
proof (induction "backlog s" arbitrary: s rule: less_induct)
  case less
  show ?case
  proof (cases "backlog s = 0")
    case True
    then show ?thesis by (auto simp: pool_steps_def)
  next
    case False
    from pool_progress [OF less.prems] obtain s1 where
      s1: "pool_step s s1" "backlog s1 < backlog s" "alive s1" "query_counter s1 = query_counter s" using False by blast
    from less.hyps [OF s1(2,3)] obtain s' where "pool_steps s1 s'" "backlog s' = 0" "query_counter s' = query_counter s1" by blast
    then show ?thesis using s1 by (auto simp: pool_steps_def intro: converse_rtranclp_into_rtranclp)
  qed
qed

lemma backlog_zero: "backlog s = 0 \<Longrightarrow> everywhere s = mset (finished s)"
proof -
  assume a: "backlog s = 0"
  then have "held p = {#}" if "p \<in> set (workers s)" for p
    using that by (cases p) (auto simp: backlog_def dest!: split_list)
  then have "sum_list (map held (workers s)) = {#}" by (subst map_cong [OF refl, of _ _ "\<lambda>_. {#}"]) (simp_all add: sum_list_0)
  then show ?thesis using a by (simp add: everywhere_def backlog_def)
qed

text \<open>
  C29. No query is starved by the pool itself. From every reachable state in which some worker has not
  returned, also during shutdown, the pool can run, without further queries, to a state in which every
  query added so far has been finished exactly once.
\<close>

theorem worker_pool_drains:
  assumes "pool_steps (QueryManager n) s" "p \<in> set (workers s)" "p \<noteq> Exited"
  shows "\<exists>s'. pool_steps s s' \<and> queue s' = [] \<and> running s' = [] \<and>
    image_mset ctx_id (mset (finished s')) = mset [0..<query_counter s]"
proof -
  have "alive s" using assms(2,3) by (auto simp: alive_def)
  from pool_drains [OF this] obtain s' where
    s': "pool_steps s s'" "backlog s' = 0" "query_counter s' = query_counter s" by blast
  have inv: "pool_inv s'" using pool_inv_steps [OF s'(1)] pool_inv_steps [OF assms(1) pool_inv_init] by blast
  have "sum_list (map held (workers s')) = {#}" "queue s' = []"
    using backlog_zero [OF s'(2)] s'(2) by (simp_all add: everywhere_def backlog_def)
  then have "running s' = []" using inv in_process_subset [of "workers s'"] by (simp add: pool_inv_def)
  then show ?thesis using s' inv backlog_zero [OF s'(2)] \<open>queue s' = []\<close> by (auto simp: pool_inv_def)
qed

section \<open>A concrete run\<close>

definition demo_pool :: pool where
  "demo_pool = create_context ''B'' (create_context ''A'' (QueryManager 2))"

lemma demo_pool_reachable: "pool_steps (QueryManager 2) demo_pool"
  unfolding pool_steps_def demo_pool_def
  by (rule rtranclp.rtrancl_into_rtrancl [OF r_into_rtranclp]) (rule pool_step.create)+

theorem worker_pool_invariant_witness:
  "query_counter demo_pool = 2 \<and> distinct (running demo_pool) \<and>
   image_mset ctx_id (mset (submitted demo_pool) + mset (queue demo_pool) + sum_list (map held (workers demo_pool)) +
     mset (finished demo_pool)) = mset [0, 1]"
  using worker_pool_invariant [OF demo_pool_reachable]
  by (simp add: demo_pool_def create_context_def QueryManager_def upt_rec)

theorem worker_pool_drains_witness:
  "\<exists>s. pool_steps demo_pool s \<and> queue s = [] \<and> image_mset ctx_id (mset (finished s)) = mset [0, 1]"
  using worker_pool_drains [OF demo_pool_reachable, of Waiting]
  by (auto simp: demo_pool_def create_context_def QueryManager_def upt_rec numeral_eq_Suc)

end
