(* ===== verification/QueryPipeline.thy ===== *)
theory QueryPipeline
  imports SqlTranslator PlanFlow Dispatch WorkerPool
begin

text \<open>
  \<^verbatim>\<open>QueryManager::processQuery\<close>: the directives in front of a query, and the pipeline that takes the query from
  its text to the work items sent to the server. The translator, the physical optimizer, the work items and
  the dispatcher of the other theories are composed here as the code composes them.
\<close>

section \<open>Directives\<close>

definition is_ws :: "char \<Rightarrow> bool" where
  "is_ws c \<longleftrightarrow> c \<in> {CHR '' '', CHR 0x09, CHR 0x0A, CHR 0x0D}"

text \<open>\<^verbatim>\<open>find_first_not_of\<close> and \<^verbatim>\<open>find_first_of\<close> from a position; \<^const>\<open>None\<close> is \<^verbatim>\<open>npos\<close>.\<close>

definition find_from :: "(char \<Rightarrow> bool) \<Rightarrow> string \<Rightarrow> nat \<Rightarrow> nat option" where
  "find_from P s i = (case dropWhile (\<lambda>c. \<not> P c) (drop i s) of [] \<Rightarrow> None | r \<Rightarrow> Some (length s - length r))"

abbreviation find_first_not_of_ws :: "string \<Rightarrow> nat \<Rightarrow> nat option" where
  "find_first_not_of_ws \<equiv> find_from (\<lambda>c. \<not> is_ws c)"

abbreviation find_first_of_ws :: "string \<Rightarrow> nat \<Rightarrow> nat option" where
  "find_first_of_ws \<equiv> find_from is_ws"

lemma find_from_Some: "find_from P s i = Some k \<Longrightarrow> i \<le> k \<and> k < length s \<and> drop k s = dropWhile (\<lambda>c. \<not> P c) (drop i s)"
proof -
  assume a: "find_from P s i = Some k"
  define r where "r = dropWhile (\<lambda>c. \<not> P c) (drop i s)"
  have "find_from P s i = (case r of [] \<Rightarrow> None | r \<Rightarrow> Some (length s - length r))" by (simp only: find_from_def r_def)
  then have k: "k = length s - length r" "r \<noteq> []" using a by (cases r; simp)+
  define d where "d = takeWhile (\<lambda>c. \<not> P c) (drop i s)"
  have d: "drop i s = d @ r" by (simp add: d_def r_def)
  from arg_cong [OF this, of length] have "length s - i = length d + length r" by simp
  moreover have "0 < length r" using k(2) by simp
  ultimately have "k = i + length d" "k < length s" using k(1) by linarith+
  moreover have "drop (length d) (drop i s) = r" using d by simp
  ultimately show ?thesis by (simp add: r_def add.commute)
qed

lemma find_from_None: "find_from P s i = None \<Longrightarrow> dropWhile (\<lambda>c. \<not> P c) (drop i s) = []"
  by (simp add: find_from_def split: list.splits)

text \<open>\<^verbatim>\<open>sql.compare(idx, n, lit) == 0\<close>.\<close>

definition compare_at :: "string \<Rightarrow> nat \<Rightarrow> string \<Rightarrow> bool" where
  "compare_at s i lit \<longleftrightarrow> take (length lit) (drop i s) = lit"

text \<open>The loop over the directives, on positions of the query text.\<close>

function directive_loop :: "string \<Rightarrow> bool \<Rightarrow> string \<Rightarrow> nat option \<Rightarrow> bool \<times> string \<times> nat option" where
  "directive_loop sql par query_name None = (par, query_name, None)"
| "directive_loop sql par query_name (Some idx) =
     (if compare_at sql idx ''PARALLEL'' then
        directive_loop sql True query_name (find_first_not_of_ws sql (idx + 8))
      else if compare_at sql idx ''NAME'' then
        (case find_first_not_of_ws sql (idx + 4) of
           None \<Rightarrow> (par, query_name, None)
         | Some start \<Rightarrow>
             (case find_first_of_ws sql start of
                None \<Rightarrow> directive_loop sql par (drop start sql) None
              | Some fin \<Rightarrow>
                  directive_loop sql par (take (fin - start) (drop start sql)) (find_first_not_of_ws sql fin)))
      else (par, query_name, Some idx))"
  by pat_completeness auto
termination
proof (relation "measure (\<lambda>(sql, _, _, idx). case idx of None \<Rightarrow> 0 | Some i \<Rightarrow> Suc (length sql - i))", goal_cases)
  case (2 sql par query_name idx)
  then show ?case by (auto split: option.splits dest!: find_from_Some)
next
  case (4 sql par query_name idx start fin)
  then show ?case by (auto split: option.splits dest!: find_from_Some)
qed auto

definition directives :: "string \<Rightarrow> (bool \<times> string \<times> string) option" where
  "directives sql =
     (case find_first_not_of_ws sql 0 of
        None \<Rightarrow> None
      | Some idx \<Rightarrow>
          (case directive_loop sql False '''' (Some idx) of
             (par, query_name, rest) \<Rightarrow>
               Some (par, query_name, case rest of None \<Rightarrow> '''' | Some i \<Rightarrow> drop i sql)))"

section \<open>The pipeline\<close>

text \<open>What became of a query; \<open>Logged\<close> is an exception caught and reported by \<^verbatim>\<open>processQuery\<close>.\<close>

datatype outcome = Ignored | NoPlan | Sent QueryPlan | Dispatched "32 word" dispatch | Logged string

definition catch_all :: "outcome res \<Rightarrow> outcome res" where
  "catch_all r = (case r of Inl (RuntimeError msg) \<Rightarrow> Inr (Logged msg) | _ \<Rightarrow> r)"

definition sendQueryPlan :: "heap \<Rightarrow> ptr \<Rightarrow> int \<Rightarrow> outcome res option" where
  "sendQueryPlan h root pid = map_option (map_sum id Sent) (createQueryPlan h root pid)"

definition sendQueryPlanParallel :: "tracker \<Rightarrow> heap \<Rightarrow> ptr \<Rightarrow> int \<Rightarrow> outcome res option" where
  "sendQueryPlanParallel t h root pid =
     map_option (\<lambda>r. bindE r (\<lambda>groups. bindE (start_dispatch groups t) (\<lambda>(planId, s). Inr (Dispatched planId s))))
       (crateWorkItemsParallel h root pid)"

text \<open>
  \<open>ids\<close> are the random identifiers of plan nodes, \<open>pid\<close> that of the plan. For a parallel query the outcome is the
  dispatch at its start; the loop that sends the groups and waits for their completion runs together with other
  threads and continues from there by the steps of the theory \<open>Dispatch\<close>.
\<close>

definition processQuery ::
  "(string \<Rightarrow> parse_result) \<Rightarrow> (string \<Rightarrow> json res) \<Rightarrow> (scan_map \<Rightarrow> scan_map) \<Rightarrow> bool \<Rightarrow> bool \<Rightarrow> (nat \<Rightarrow> int) \<Rightarrow> int \<Rightarrow>
     tracker \<Rightarrow> string \<Rightarrow> outcome res option" where
  "processQuery sql_parse json_parse hash_order opt_chains opt_joins ids pid t sql =
     (case directives sql of
        None \<Rightarrow> Some (Inr Ignored)
      | Some (par, query_name, final_sql) \<Rightarrow>
          map_option catch_all
            (case translateSQLToLogicalPlan sql_parse json_parse hash_order final_sql None of
               None \<Rightarrow> None
             | Some (Inl e) \<Rightarrow> Some (Inl e)
             | Some (Inr []) \<Rightarrow> Some (Inr NoPlan)
             | Some (Inr (plan # _)) \<Rightarrow>
                 (case newPhysicalOptimizer (Some plan) opt_chains opt_joins query_name ids of
                    None \<Rightarrow> None
                  | Some (Inl e) \<Rightarrow> Some (Inl e)
                  | Some (Inr (None, h)) \<Rightarrow> Some (Inl (RuntimeError ''Physical optimization failed''))
                  | Some (Inr (root, h)) \<Rightarrow>
                      if par then sendQueryPlanParallel t h root pid else sendQueryPlan h root pid)))"

section \<open>The directives of a query\<close>

text \<open>The loop on the remaining text instead of positions.\<close>

function strip :: "bool \<Rightarrow> string \<Rightarrow> string \<Rightarrow> bool \<times> string \<times> string" where
  "strip par query_name cs =
     (if starts_with cs ''PARALLEL'' then strip True query_name (dropWhile is_ws (drop 8 cs))
      else if starts_with cs ''NAME'' then
        (let r = dropWhile is_ws (drop 4 cs) in
         if r = [] then (par, query_name, '''')
         else strip par (takeWhile (\<lambda>c. \<not> is_ws c) r) (dropWhile is_ws (dropWhile (\<lambda>c. \<not> is_ws c) r)))
      else (par, query_name, cs))"
  by pat_completeness auto
termination
proof (relation "measure (\<lambda>(_, _, cs). length cs)", goal_cases)
  case (2 par query_name cs)
  then show ?case using length_dropWhile_le [of is_ws "drop 8 cs"] by (auto simp: starts_with_iff)
next
  case (3 par query_name cs r)
  then have "4 \<le> length cs" "r = dropWhile is_ws (drop 4 cs)" by (auto simp: starts_with_iff)
  then show ?case using 3(3) length_dropWhile_le [of is_ws "drop 4 cs"] length_dropWhile_le [of "\<lambda>c. \<not> is_ws c" r]
      length_dropWhile_le [of is_ws "dropWhile (\<lambda>c. \<not> is_ws c) r"] 
    by (cases r) (auto simp del: dropWhile_eq_Nil_conv)
qed simp

declare strip.simps [simp del]

lemma compare_at_starts_with: "compare_at s i lit \<longleftrightarrow> starts_with (drop i s) lit"
  by (auto simp: compare_at_def starts_with_iff) (metis append_take_drop_id)

definition text_from :: "string \<Rightarrow> nat option \<Rightarrow> string" where
  "text_from s i = (case i of None \<Rightarrow> '''' | Some k \<Rightarrow> drop k s)"

lemma text_from_find: "text_from s (find_from P s i) = dropWhile (\<lambda>c. \<not> P c) (drop i s)"
  by (cases "find_from P s i") (simp_all add: text_from_def find_from_None [symmetric] find_from_Some del: dropWhile_eq_Nil_conv)

lemma take_until_find:
  "find_from P s i = Some k \<Longrightarrow> take (k - i) (drop i s) = takeWhile (\<lambda>c. \<not> P c) (drop i s)"
proof -
  assume "find_from P s i = Some k"
  from find_from_Some [OF this] have k: "i \<le> k" "k < length s" "drop k s = dropWhile (\<lambda>c. \<not> P c) (drop i s)" by auto
  have "drop i s = take (k - i) (drop i s) @ drop k s"
    using append_take_drop_id [of "k - i" "drop i s"] k(1) by simp
  then have "take (k - i) (drop i s) @ drop k s = takeWhile (\<lambda>c. \<not> P c) (drop i s) @ drop k s"
    unfolding k(3) by simp
  then show ?thesis by simp
qed

lemma directive_loop_strip:
  "directive_loop sql par name idx = (p, n, rest) \<Longrightarrow> strip par name (text_from sql idx) = (p, n, text_from sql rest)"
proof (induction sql par name idx rule: directive_loop.induct)
  case (1 sql par name)
  then show ?case by (simp add: strip.simps [of _ _ "''''"] text_from_def)
next
  case (2 sql par name idx)
  let ?cs = "drop idx sql"
  consider (par) "compare_at sql idx ''PARALLEL''" | (named) "\<not> compare_at sql idx ''PARALLEL''" "compare_at sql idx ''NAME''"
    | (other) "\<not> compare_at sql idx ''PARALLEL''" "\<not> compare_at sql idx ''NAME''" by blast
  then show ?case
  proof cases
    case par
    then show ?thesis using 2(1) [OF par] 2(4)
      by (subst strip.simps) (simp add: text_from_find compare_at_starts_with, simp add: text_from_def add.commute)
  next
    case named
    let ?r = "dropWhile is_ws (drop 4 ?cs)"
    have unfold: "strip par name ?cs = (if ?r = [] then (par, name, []) else
        strip par (takeWhile (\<lambda>c. \<not> is_ws c) ?r) (dropWhile is_ws (dropWhile (\<lambda>c. \<not> is_ws c) ?r)))"
      using named by (subst strip.simps) (simp add: compare_at_starts_with Let_def del: dropWhile_eq_Nil_conv)
    have r: "text_from sql (find_first_not_of_ws sql (idx + 4)) = ?r"
      by (simp add: text_from_find add.commute)
    show ?thesis
    proof (cases "find_first_not_of_ws sql (idx + 4)")
      case None
      then show ?thesis using r named 2(4) unfold by (simp add: text_from_def del: dropWhile_eq_Nil_conv)
    next
      case (Some start)
      then have start: "drop start sql = ?r" "?r \<noteq> []"
        using r find_from_Some [OF Some] drop_eq_Nil [of start sql] by (simp_all add: text_from_def del: dropWhile_eq_Nil_conv)
      show ?thesis
      proof (cases "find_first_of_ws sql start")
        case None
        then have "dropWhile (\<lambda>c. \<not> is_ws c) ?r = []" using start(1) find_from_None by metis
        then have "takeWhile (\<lambda>c. \<not> is_ws c) ?r = ?r" by (metis append_Nil2 takeWhile_dropWhile_id)
        then show ?thesis
          using 2(2) [OF named Some None] 2(4) named Some None start unfold \<open>dropWhile (\<lambda>c. \<not> is_ws c) ?r = []\<close>
          by (simp add: text_from_def del: dropWhile_eq_Nil_conv takeWhile_eq_all_conv)
      next
        case (Some fin)
        note fin = take_until_find [OF Some] find_from_Some [OF Some]
        show ?thesis
          using 2(3) [OF named \<open>_ = Some start\<close> Some] 2(4) named \<open>_ = Some start\<close> Some start unfold fin
          by (simp add: text_from_find, simp add: text_from_def del: dropWhile_eq_Nil_conv)
      qed
    qed
  next
    case other
    then have "p = par" "n = name" "rest = Some idx" using 2(4) by simp_all
    then show ?thesis using other by (simp add: strip.simps [of par name ?cs] text_from_def compare_at_starts_with)
  qed
qed

lemma directives_strip:
  "directives sql = (if list_all is_ws sql then None else Some (strip False '''' (dropWhile is_ws sql)))"
proof (cases "find_first_not_of_ws sql 0")
  case None
  then have "list_all is_ws sql" using find_from_None [OF None] by (simp add: list_all_iff)
  then show ?thesis using None by (simp add: directives_def)
next
  case (Some idx)
  then have idx: "drop idx sql = dropWhile is_ws sql" "idx < length sql" using find_from_Some [OF Some] by auto
  then have "dropWhile is_ws sql \<noteq> []" by (metis drop_eq_Nil not_le)
  then have "\<not> list_all is_ws sql" by (simp add: list_all_iff)
  moreover obtain p n rest where loop: "directive_loop sql False '''' (Some idx) = (p, n, rest)" by (metis prod_cases3)
  have "strip False '''' (dropWhile is_ws sql) = (p, n, text_from sql rest)"
    using directive_loop_strip [OF loop] idx(1) by (simp add: text_from_def)
  ultimately show ?thesis using Some loop by (simp add: directives_def text_from_def)
qed

text \<open>Directives as a user writes them, with the whitespace around their parts.\<close>

datatype directive = Parallel string | Named string string string

fun render :: "directive \<Rightarrow> string" where
  "render (Parallel w) = ''PARALLEL'' @ w"
| "render (Named w1 name w2) = ''NAME'' @ w1 @ name @ w2"

fun well_spaced :: "directive \<Rightarrow> bool" where
  "well_spaced (Parallel w) \<longleftrightarrow> list_all is_ws w"
| "well_spaced (Named w1 name w2) \<longleftrightarrow> list_all is_ws w1 \<and> list_all is_ws w2 \<and> w2 \<noteq> [] \<and> name \<noteq> [] \<and> \<not> list_ex is_ws name"

fun apply_directive :: "directive \<Rightarrow> bool \<times> string \<Rightarrow> bool \<times> string" where
  "apply_directive (Parallel _) (par, name) = (True, name)"
| "apply_directive (Named _ new _) (par, name) = (par, new)"

definition plain_query :: "string \<Rightarrow> bool" where
  "plain_query sql \<longleftrightarrow> sql \<noteq> [] \<and> \<not> is_ws (hd sql) \<and> \<not> starts_with sql ''PARALLEL'' \<and> \<not> starts_with sql ''NAME''"

lemma dropWhile_ws: "list_all is_ws w \<Longrightarrow> cs \<noteq> [] \<Longrightarrow> \<not> is_ws (hd cs) \<Longrightarrow> dropWhile is_ws (w @ cs) = cs"
  by (cases cs) (auto simp: list_all_iff dropWhile_append3)

lemma rendered_head:
  assumes "plain_query sql"
  shows "concat (map render ds) @ sql \<noteq> [] \<and> \<not> is_ws (hd (concat (map render ds) @ sql))"
proof (cases ds)
  case Nil
  then show ?thesis using assms by (simp add: plain_query_def)
next
  case (Cons d ds')
  then show ?thesis by (cases d) (simp_all add: is_ws_def)
qed

lemma strip_rendered:
  assumes "plain_query sql"
  shows "list_all well_spaced ds \<Longrightarrow>
    strip par name (concat (map render ds) @ sql) = (case fold apply_directive ds (par, name) of (p, n) \<Rightarrow> (p, n, sql))"
proof (induction ds arbitrary: par name)
  case Nil
  then show ?case using assms by (subst strip.simps) (simp add: plain_query_def)
next
  case (Cons d ds)
  let ?cs = "concat (map render ds) @ sql"
  note head = rendered_head [OF assms, of ds]
  show ?case
  proof (cases d)
    case (Parallel w)
    then have "dropWhile is_ws (w @ ?cs) = ?cs" using Cons.prems head by (intro dropWhile_ws) auto
    then show ?thesis using Cons Parallel by (subst strip.simps) simp
  next
    case (Named w1 new w2)
    then have ok: "list_all is_ws w1" "list_all is_ws w2" "w2 \<noteq> []" "new \<noteq> []" "\<not> list_ex is_ws new" using Cons.prems by auto
    have w1: "dropWhile is_ws (w1 @ new @ w2 @ ?cs) = new @ w2 @ ?cs"
      using ok by (intro dropWhile_ws) (auto simp: list_ex_iff)
    obtain c w2' where w2: "w2 = c # w2'" "is_ws c" using ok by (cases w2) auto
    have split: "takeWhile (\<lambda>c. \<not> is_ws c) (new @ w2 @ ?cs) = new" "dropWhile (\<lambda>c. \<not> is_ws c) (new @ w2 @ ?cs) = w2 @ ?cs"
      using ok(5) w2 by (auto simp: takeWhile_append2 dropWhile_append2 list_ex_iff)
    have "dropWhile is_ws (w2 @ ?cs) = ?cs" using ok head by (intro dropWhile_ws) auto
    then show ?thesis using Cons Named ok(4) w1 split by (subst strip.simps) (simp add: Let_def del: dropWhile_eq_Nil_conv)
  qed
qed

text \<open>
  C27. Directives in front of a query. Whatever sequence of \<^verbatim>\<open>PARALLEL\<close> and \<^verbatim>\<open>NAME n\<close> directives a user writes
  before a query, with any whitespace around them, \<open>processQuery\<close> recovers them: the query is parallel
  exactly when one directive says so, its name is that of the last \<^verbatim>\<open>NAME\<close>, and the query text is intact. The
  README demands that \<^verbatim>\<open>PARALLEL\<close> precedes \<^verbatim>\<open>NAME\<close>; the code accepts every order.
\<close>

theorem directives_roundtrip:
  assumes "plain_query sql" "list_all well_spaced ds" "list_all is_ws w"
  shows "directives (w @ concat (map render ds) @ sql) =
    (case fold apply_directive ds (False, '''') of (par, name) \<Rightarrow> Some (par, name, sql))"
proof -
  let ?cs = "concat (map render ds) @ sql"
  have "dropWhile is_ws (w @ ?cs) = ?cs" using assms(3) rendered_head [OF assms(1), of ds] by (intro dropWhile_ws) auto
  moreover have "\<not> list_all is_ws (w @ ?cs)" using rendered_head [OF assms(1), of ds] by (cases ?cs) auto
  ultimately show ?thesis using strip_rendered [OF assms(1,2)] by (simp add: directives_strip split: prod.splits)
qed

theorem directives_roundtrip_witness:
  "directives '' NAME q1 PARALLEL  SELECT 1'' = Some (True, ''q1'', ''SELECT 1'')"
  using directives_roundtrip [of "''SELECT 1''" "[Named '' '' ''q1'' '' '', Parallel ''  '']" "'' ''"]
  by (simp add: plain_query_def is_ws_def)

section \<open>From the query text to the compute units\<close>

lemma optimizer_cases:
  assumes "plan_free tab n"
  obtains (err) e where "newPhysicalOptimizer (Some n) oc oj tab ids = Some (Inl e)"
  | (null) h where "newPhysicalOptimizer (Some n) oc oj tab ids = Some (Inr (None, h))"
  | (plan) r h where "newPhysicalOptimizer (Some n) oc oj tab ids = Some (Inr (Some r, h))" "heap_ok h" "r < length h"
proof (rule ConvertToPhys_cases [OF assms, of oc oj ids])
  fix r h assume "ConvertToPhys (Some n) oc oj tab ids = Some (Inr (Some (Some r, h)))" "plan_flows tab h r" "heap_ok h"
  moreover from this(2) have "r < length h" unfolding plan_flows_def using reach.self by blast
  ultimately show thesis using plan by (simp add: newPhysicalOptimizer_def)
qed (use err null in \<open>auto simp: newPhysicalOptimizer_def\<close>)

lemma optimizer_heap:
  assumes "plan_free tab n" "newPhysicalOptimizer (Some n) oc oj tab ids = Some (Inr (Some root, h))"
  shows "heap_ok h" "root < length h"
  by (rule optimizer_cases [OF assms(1), of oc oj ids]; use assms(2) in simp)+

text \<open>
  The translation of every node below the root succeeds: no operator lacks a field that its work item needs.
\<close>

definition complete_plan :: "heap \<Rightarrow> nat \<Rightarrow> bool" where
  "complete_plan h root \<longleftrightarrow> (\<forall>a. reach h root a \<longrightarrow> (\<exists>d. operator_part (h ! a) = Inr d))"

text \<open>The items of a plan: one per node, each after the items it depends on.\<close>

definition items_of_plan :: "heap \<Rightarrow> nat \<Rightarrow> 32 word \<Rightarrow> WorkItem list \<Rightarrow> bool" where
  "items_of_plan h root pid items \<longleftrightarrow>
     deps_before items \<and> (\<forall>wi \<in> set items. planId wi = pid) \<and>
     (\<exists>order. distinct order \<and> set order = reach_set h root \<and> map itemId items = map (\<lambda>a. of_int (node_id (h ! a))) order)"

lemma complete_plan_items:
  assumes "heap_ok h" "root < length h" "complete_plan h root"
  obtains items where "crateWorkItems h (Some root) pid = Some (Inr items)" "items_of_plan h root (of_int pid) items" "items \<noteq> []"
proof (rule crateWorkItems_cases [OF assms(1,2), of pid])
  fix order items assume i: "crateWorkItems h (Some root) pid = Some (Inr items)" "distinct order" "set order = reach_set h root"
    "list_all2 (\<lambda>a wi. work_item h (of_int pid) a = Inr wi) order items"
  from i(4) have "map itemId items = map (\<lambda>a. of_int (node_id (h ! a))) order"
    by (induction rule: list_all2_induct) (simp_all add: work_item_fields)
  then show thesis using that plan_items [OF assms(1,2) i(1)] i(1-3) by (auto simp: items_of_plan_def)
next
  fix e a assume "reach h root a" "operator_part (h ! a) = Inl e"
  then show thesis using assms(3) by (auto simp: complete_plan_def)
qed

text \<open>A dispatch of the items: its groups hold exactly these, and no item is sent too early in any state it can reach.\<close>

definition dispatches :: "32 word \<Rightarrow> WorkItem list \<Rightarrow> dispatch \<Rightarrow> bool" where
  "dispatches pid items s0 \<longleftrightarrow>
     mset (current s0 @ concat (later s0)) = mset items \<and> sent s0 = [] \<and>
     (\<forall>s. steps pid s0 s \<longrightarrow> (case current s of [] \<Rightarrow> True | wi # _ \<Rightarrow> set (dependsOn wi) \<subseteq> executed s) \<and>
        (phase s = Finished \<longrightarrow> mset (sent s) = mset items \<and> executed s = itemId ` set items) \<and>
        (phase s = Running \<longrightarrow> \<not> stopped (tracker_of s) \<longrightarrow> (\<exists>s'. steps pid s s' \<and> phase s' = Finished)))"

lemma items_dispatched:
  assumes "items_of_plan h root pid items" "items \<noteq> []" "distinct (map itemId items)" "\<forall>i. (pid, i) \<notin> completed_ids t"
  obtains s0 where "start_dispatch (group_levels items) t = Inr (pid, s0)" "dispatches pid items s0"
proof -
  let ?g = "group_levels items"
  have deps: "deps_before items" "\<forall>wi \<in> set items. planId wi = pid" using assms(1) by (simp_all add: items_of_plan_def)
  note g = group_levels_correct [OF assms(2,3) deps(1)]
  have items: "mset (concat ?g) = mset items" by (rule group_levels_mset)
  obtain wi ws gs where ne: "?g = (wi # ws) # gs" using g(2,3) by (cases ?g; cases "hd ?g") auto
  then have "wi \<in> set (concat ?g)" by simp
  then have "planId wi = pid" using items deps(2) by (metis mset_eq_setD)
  then obtain s0 where s0: "start_dispatch ?g t = Inr (pid, s0)" "current s0 = wi # ws" "later s0 = gs" "sent s0 = []" "phase s0 = Running"
    using ne by (auto simp: start_dispatch_def)
  have dist: "distinct (map itemId (concat ?g))" using assms(3) items mset_eq_imp_distinct_iff by (metis mset_map)
  have same: "set (concat ?g) = set items" using items by (rule mset_eq_setD)
  have "(case current s of [] \<Rightarrow> True | wi # _ \<Rightarrow> set (dependsOn wi) \<subseteq> executed s) \<and>
      (phase s = Finished \<longrightarrow> mset (sent s) = mset items \<and> executed s = itemId ` set items) \<and>
      (phase s = Running \<longrightarrow> \<not> stopped (tracker_of s) \<longrightarrow> (\<exists>s'. steps pid s s' \<and> phase s' = Finished))" if "steps pid s0 s" for s
    using dispatch_order [OF g(1) s0(1) assms(4) that] dispatch_end [OF dist s0(1) assms(4) that] items
    unfolding same by auto
  then have "dispatches pid items s0" using items s0(2-4) ne by (simp add: dispatches_def)
  then show thesis using that s0(1) by blast
qed

lemma plan_failures:
  assumes "heap_ok h" "root < length h"
  shows "\<exists>r. (if par then sendQueryPlanParallel t h (Some root) pid else sendQueryPlan h (Some root) pid) = Some r \<and>
    (\<forall>e. r = Inl e \<longrightarrow> (\<exists>msg. e = RuntimeError msg) \<or> (\<exists>a. reach h root a \<and> operator_part (h ! a) = Inl e))"
proof (rule crateWorkItems_cases [OF assms, of pid])
  fix items assume i: "crateWorkItems h (Some root) pid = Some (Inr items)"
  have "\<exists>msg. e = RuntimeError msg" if "start_dispatch g t = Inl e" for g e
    using that by (auto simp: start_dispatch_def split: list.split_asm)
  then show ?thesis using i
    by (auto simp: sendQueryPlanParallel_def crateWorkItemsParallel_def sendQueryPlan_def createQueryPlan_def bindE_Inl_iff split: prod.split_asm)
next
  fix e a assume "crateWorkItems h (Some root) pid = Some (Inl e)" "reach h root a" "operator_part (h ! a) = Inl e"
  then show ?thesis by (auto simp: sendQueryPlanParallel_def crateWorkItemsParallel_def sendQueryPlan_def createQueryPlan_def)
qed

text \<open>
  C22. From the query text to the compute units. Take a query whose translation yields a plan that mentions no column of
  the intermediate table named by the query, and for which the physical optimizer builds a plan without incomplete
  nodes. A query without \<^verbatim>\<open>PARALLEL\<close> is sent as one plan with one work item per node, each after the items it
  depends on. A parallel query whose items have distinct identifiers starts a dispatch of exactly these items under the
  plan's identifier; in every state this dispatch can reach together with compute units and other queries, the next
  item to be sent depends only on items already executed, when it has finished all items were sent once and executed, and
  as long as it runs and the tracker is not stopped it can be finished. Starting the dispatch and the waiting for
  completions, one loop in the code, are separate here: the steps of the loop are those of the theory \<open>Dispatch\<close>.
\<close>

theorem processQuery_correct:
  assumes "directives sql = Some (par, name, final_sql)"
    and "translateSQLToLogicalPlan sql_parse json_parse hash_order final_sql None = Some (Inr (plan # rest))" "plan_free name plan"
    and "newPhysicalOptimizer (Some plan) oc oj name ids = Some (Inr (Some root, h))" "complete_plan h root"
    and "\<forall>i. (of_int pid, i) \<notin> completed_ids t"
  shows "\<exists>items. items_of_plan h root (of_int pid) items \<and>
    (if par
     then distinct (map itemId items) \<longrightarrow> (\<exists>s0. dispatches (of_int pid) items s0 \<and>
       processQuery sql_parse json_parse hash_order oc oj ids pid t sql = Some (Inr (Dispatched (of_int pid) s0)))
     else processQuery sql_parse json_parse hash_order oc oj ids pid t sql =
       Some (Inr (Sent \<lparr>plan_planid = of_int pid, planitems = items\<rparr>)))"
proof -
  have h: "heap_ok h" "root < length h" by (rule optimizer_heap [OF assms(3,4)])+
  obtain items where items: "crateWorkItems h (Some root) pid = Some (Inr items)" "items_of_plan h root (of_int pid) items" "items \<noteq> []"
    by (rule complete_plan_items [OF h assms(5)])
  have run: "processQuery sql_parse json_parse hash_order oc oj ids pid t sql =
      map_option catch_all (if par then sendQueryPlanParallel t h (Some root) pid else sendQueryPlan h (Some root) pid)"
    using assms(1,2,4) by (simp add: processQuery_def)
  show ?thesis
  proof (cases par)
    case True
    have "\<exists>s0. dispatches (of_int pid) items s0 \<and>
        processQuery sql_parse json_parse hash_order oc oj ids pid t sql = Some (Inr (Dispatched (of_int pid) s0))"
      if distinct: "distinct (map itemId items)"
    proof -
      obtain s0 where "start_dispatch (group_levels items) t = Inr (of_int pid, s0)" "dispatches (of_int pid) items s0"
        by (rule items_dispatched [OF items(2,3) distinct assms(6)])
      then show ?thesis using True items(1) unfolding run
        by (simp add: sendQueryPlanParallel_def crateWorkItemsParallel_def catch_all_def)
    qed
    then show ?thesis using True items(2) by auto
  next
    case False
    then show ?thesis using items(1,2) unfolding run by (auto simp: sendQueryPlan_def createQueryPlan_def catch_all_def)
  qed
qed

lemma catch_all_Inl: "catch_all r = Inl e \<longleftrightarrow> r = Inl e \<and> (\<forall>msg. e \<noteq> RuntimeError msg)"
  by (auto simp: catch_all_def split: sum.split error.split)


definition demo_parse :: "string \<Rightarrow> parse_result" where
  "demo_parse sql = Inr [kStmtSelect ex_select]"

lemma complete_planI: "heap_ok h \<Longrightarrow> root < length h \<Longrightarrow> list_all (\<lambda>n. \<not> isl (operator_part n)) h \<Longrightarrow> complete_plan h root"
proof (unfold complete_plan_def, intro allI impI)
  fix a assume h: "heap_ok h" "root < length h" "list_all (\<lambda>n. \<not> isl (operator_part n)) h" and "reach h root a"
  then have "a < length h" using reach_le [of h root a] by simp
  then show "\<exists>d. operator_part (h ! a) = Inr d" using h(3) by (cases "operator_part (h ! a)") (auto simp: list_all_length)
qed

definition demo_stages :: bool where
  "demo_stages =
     (case translateSQLToLogicalPlan demo_parse (\<lambda>_. Inl NullDeref) id ''SELECT ...'' None of
        Some (Inr (plan # _)) \<Rightarrow> plan_free ''q7'' plan \<and>
          (case newPhysicalOptimizer (Some plan) True True ''q7'' int of
             Some (Inr (Some root, h)) \<Rightarrow> list_all (\<lambda>n. \<not> isl (operator_part n)) h \<and> length h < 100 \<and> map node_id h = map int [0..<length h]
           | _ \<Rightarrow> False)
      | _ \<Rightarrow> False)"

lemma demo_stages: demo_stages
  by code_simp

lemma demo_ids:
  assumes "items_of_plan h root pid items" "heap_ok h" "root < length h" "length h < 100" "map node_id h = map int [0..<length h]"
  shows "distinct (map itemId items)"
proof -
  obtain order where o: "distinct order" "set order = reach_set h root" "map itemId items = map (\<lambda>a. of_int (node_id (h ! a))) order"
    using assms(1) by (auto simp: items_of_plan_def)
  have less: "a < length h" if "a \<in> set order" for a using that o(2) reach_le [OF _ assms(2,3)] assms(3) by (fastforce simp: reach_set_def)
  have "node_id (h ! a) = int a" if "a < length h" for a
    using that assms(5) by (metis (no_types, lifting) diff_zero length_upt map_nth nth_map nth_upt add_0)
  then have ids: "map itemId items = map (\<lambda>a. of_nat a) order" unfolding o(3) using less by auto
  have "inj_on (of_nat :: nat \<Rightarrow> 32 word) (set order)"
  proof (rule inj_onI)
    fix a b assume "a \<in> set order" "b \<in> set order" "(of_nat a :: 32 word) = of_nat b"
    then have "a < 100" "b < 100" "unat (of_nat a :: 32 word) = unat (of_nat b :: 32 word)" using less assms(4) by (auto intro: less_trans)
    then show "a = b" by (simp add: unat_of_nat)
  qed
  then show ?thesis unfolding ids using o(1) by (simp add: distinct_map)
qed

theorem processQuery_correct_witness:
  "(\<exists>items s0. processQuery demo_parse (\<lambda>_. Inl NullDeref) id True True int 9 new_tracker ''PARALLEL NAME q7 SELECT ...'' =
      Some (Inr (Dispatched 9 s0)) \<and> dispatches 9 items s0 \<and> deps_before items) \<and>
   (\<exists>items. processQuery demo_parse (\<lambda>_. Inl NullDeref) id True True int 9 new_tracker ''NAME q7 SELECT ...'' =
      Some (Inr (Sent \<lparr>plan_planid = 9, planitems = items\<rparr>)) \<and> deps_before items)"
proof -
  have dir: "directives ''PARALLEL NAME q7 SELECT ...'' = Some (True, ''q7'', ''SELECT ...'')"
    "directives ''NAME q7 SELECT ...'' = Some (False, ''q7'', ''SELECT ...'')" by code_simp+
  obtain plan rest root h where st: "translateSQLToLogicalPlan demo_parse (\<lambda>_. Inl NullDeref) id ''SELECT ...'' None = Some (Inr (plan # rest))"
    "plan_free ''q7'' plan" "newPhysicalOptimizer (Some plan) True True ''q7'' int = Some (Inr (Some root, h))"
    "list_all (\<lambda>n. \<not> isl (operator_part n)) h" "length h < 100" "map node_id h = map int [0..<length h]"
    using demo_stages unfolding demo_stages_def by (auto split: option.split_asm sum.split_asm list.split_asm prod.split_asm)
  have h: "heap_ok h" "root < length h" by (rule optimizer_heap [OF st(2,3)])+
  note complete = complete_planI [OF h st(4)]
  have fresh: "\<forall>i. (of_int 9, i) \<notin> completed_ids new_tracker" by (simp add: new_tracker_def)
  obtain items where items: "items_of_plan h root 9 items" "distinct (map itemId items) \<longrightarrow> (\<exists>s0. dispatches 9 items s0 \<and>
      processQuery demo_parse (\<lambda>_. Inl NullDeref) id True True int 9 new_tracker ''PARALLEL NAME q7 SELECT ...'' = Some (Inr (Dispatched 9 s0)))"
    using processQuery_correct [OF dir(1) st(1-3) complete fresh] by auto
  then show ?thesis
    using processQuery_correct [OF dir(2) st(1-3) complete fresh] demo_ids [OF items(1) h st(5,6)] by (auto simp: items_of_plan_def)
qed


end
