(* ===== verification/OptimizerUnit.thy ===== *)
theory OptimizerUnit
  imports QueryPipeline
begin

text \<open>
  The optimizer executable's input side: command line options (\<^verbatim>\<open>ArgParser\<close>) and the reading of query files
  (\<^verbatim>\<open>read_from_file\<close> of \<^verbatim>\<open>OptimizerUnit.cpp\<close>).
\<close>

section \<open>Command line options\<close>

type_synonym args = "string list"

definition newArgParser :: "string list \<Rightarrow> args" where
  "newArgParser argv = tl argv"

definition getArgByValue :: "string \<Rightarrow> args \<Rightarrow> string" where
  "getArgByValue arg as = (case dropWhile (\<lambda>a. a \<noteq> arg) as of _ # v # _ \<Rightarrow> v | _ \<Rightarrow> '''')"

definition getArgByValueAndRemove :: "string \<Rightarrow> args \<Rightarrow> string \<times> args" where
  "getArgByValueAndRemove arg as =
     (case dropWhile (\<lambda>a. a \<noteq> arg) as of
        _ # v # rest \<Rightarrow> (v, takeWhile (\<lambda>a. a \<noteq> arg) as @ rest)
      | _ \<Rightarrow> ('''', as))"

definition takeParseArg :: "string \<Rightarrow> string \<Rightarrow> string \<Rightarrow> bool \<Rightarrow> args \<Rightarrow> (string \<times> args) res" where
  "takeParseArg key on_warning default_value exitOnWarning as =
     (case getArgByValueAndRemove key as of
        (arg, as') \<Rightarrow>
          if arg = '''' then if exitOnWarning then Inl (RuntimeError on_warning) else Inr (default_value, as')
          else Inr (arg, as'))"

definition hasArg :: "string \<Rightarrow> args \<Rightarrow> bool" where
  "hasArg arg as \<longleftrightarrow> arg \<in> set as"

text \<open>A command line of options with their values, as a user writes it.\<close>

definition command_line :: "(string \<times> string) list \<Rightarrow> args" where
  "command_line opts = concat (map (\<lambda>(k, v). [k, v]) opts)"

text \<open>Option names are distinct, and no value is empty or reads like an option.\<close>

definition options_ok :: "(string \<times> string) list \<Rightarrow> bool" where
  "options_ok opts \<longleftrightarrow> distinct (map fst opts) \<and> [] \<notin> snd ` set opts \<and> snd ` set opts \<inter> fst ` set opts = {}"

lemma take_option:
  assumes "k \<notin> fst ` set pre" "k \<notin> snd ` set pre"
  shows "getArgByValueAndRemove k (command_line (pre @ (k, v) # post)) = (v, command_line (pre @ post))"
proof -
  have "\<forall>a \<in> set (command_line pre). a \<noteq> k" using assms by (force simp: command_line_def)
  then have "dropWhile (\<lambda>a. a \<noteq> k) (command_line pre @ k # v # command_line post) = k # v # command_line post"
    "takeWhile (\<lambda>a. a \<noteq> k) (command_line pre @ k # v # command_line post) = command_line pre"
    by (simp_all add: dropWhile_append2 takeWhile_append2)
  then show ?thesis by (simp add: getArgByValueAndRemove_def command_line_def)
qed

lemma missing_option:
  assumes "k \<notin> fst ` set opts" "k \<notin> snd ` set opts"
  shows "getArgByValueAndRemove k (command_line opts) = ('''', command_line opts)"
proof -
  have "\<forall>a \<in> set (command_line opts). a \<noteq> k" using assms by (force simp: command_line_def)
  then have "dropWhile (\<lambda>a. a \<noteq> k) (command_line opts) = []" by simp
  then show ?thesis by (simp add: getArgByValueAndRemove_def del: dropWhile_eq_Nil_conv)
qed

text \<open>Taking a list of options one after the other.\<close>

fun take_all :: "(string \<times> string) list \<Rightarrow> args \<Rightarrow> string list \<times> args" where
  "take_all [] as = ([], as)"
| "take_all ((key, dflt) # keys) as =
     (case takeParseArg key '''' dflt False as of
        Inr (v, as') \<Rightarrow> (case take_all keys as' of (vs, rest) \<Rightarrow> (v # vs, rest))
      | Inl _ \<Rightarrow> ([], as))"

lemma take_all_options:
  assumes "options_ok opts" "distinct (map fst keys)" "\<forall>k \<in> fst ` set keys. k \<notin> snd ` set opts"
  shows "fst (take_all keys (command_line opts)) = map (\<lambda>(k, d). case map_of opts k of Some v \<Rightarrow> v | None \<Rightarrow> d) keys"
  using assms
proof (induction keys arbitrary: opts)
  case (Cons key keys)
  obtain k d where key: "key = (k, d)" by force
  show ?case
  proof (cases "k \<in> fst ` set opts")
    case True
    then obtain v pre post where o: "opts = pre @ (k, v) # post" by (force dest: split_list)
    have k: "k \<notin> fst ` set pre" "v \<noteq> []" using Cons.prems(1) unfolding o by (auto simp: options_ok_def)
    have k2: "k \<notin> snd ` set pre" using Cons.prems(3) key unfolding o by (simp add: image_Un)
    have ok: "options_ok (pre @ post)" using Cons.prems(1) unfolding o options_ok_def by (auto simp: image_Un)
    have "map_of pre k = None" using k(1) by (simp add: map_of_eq_None_iff)
    then have "map_of opts k = Some v" by (simp add: o map_add_def)
    have same: "map_of (pre @ post) j = map_of opts j" if "j \<in> fst ` set keys" for j
      using that Cons.prems(2) key o by (auto simp: map_add_def split: option.split)
    have "fst (take_all keys (command_line (pre @ post))) =
        map (\<lambda>(k, d). case map_of (pre @ post) k of Some v \<Rightarrow> v | None \<Rightarrow> d) keys"
      using Cons.prems(2,3) o by (intro Cons.IH ok) auto
    also have "\<dots> = map (\<lambda>(k, d). case map_of opts k of Some v \<Rightarrow> v | None \<Rightarrow> d) keys"
      using same by (intro map_cong refl) force
    finally show ?thesis using key k(2) take_option [OF k(1) k2, of v post, folded o] \<open>map_of opts k = Some v\<close>
      by (cases "take_all keys (command_line (pre @ post))") (simp add: takeParseArg_def)
  next
    case False
    then have "getArgByValueAndRemove k (command_line opts) = ('''', command_line opts)" "map_of opts k = None"
      using missing_option [OF False] Cons.prems(3) key by (auto simp: map_of_eq_None_iff)
    moreover have "fst (take_all keys (command_line opts)) = map (\<lambda>(k, d). case map_of opts k of Some v \<Rightarrow> v | None \<Rightarrow> d) keys"
      using Cons.prems by (intro Cons.IH) auto
    ultimately show ?thesis using key by (cases "take_all keys (command_line opts)") (simp add: takeParseArg_def)
  qed
qed simp

section \<open>Query files\<close>

text \<open>
  \<^verbatim>\<open>std::getline\<close> with a delimiter: the text up to the next semicolon. It fails at the end of the file when
  nothing was read, so that a trailing delimiter does not produce an empty line.
\<close>

fun lines_by :: "char \<Rightarrow> string \<Rightarrow> string \<Rightarrow> string list" where
  "lines_by d cur [] = (if cur = [] then [] else [cur])"
| "lines_by d cur (c # cs) = (if c = d then cur # lines_by d [] cs else lines_by d (cur @ [c]) cs)"

definition read_from_file :: "string \<Rightarrow> string list" where
  "read_from_file content = filter (\<lambda>q. find_first_not_of_ws q 0 \<noteq> None) (lines_by CHR '';'' [] content)"

lemma lines_by_line: "d \<notin> set q \<Longrightarrow> lines_by d cur (q @ d # rest) = (cur @ q) # lines_by d [] rest"
  by (induction q arbitrary: cur) auto

lemma lines_by_last: "d \<notin> set q \<Longrightarrow> lines_by d cur q = (if cur @ q = [] then [] else [cur @ q])"
  by (induction q arbitrary: cur) auto

lemma lines_by_join:
  "list_all (\<lambda>q. d \<notin> set q) qs \<Longrightarrow> d \<notin> set tail \<Longrightarrow>
   lines_by d [] (concat (map (\<lambda>q. q @ [d]) qs) @ tail) = qs @ (if tail = [] then [] else [tail])"
proof (induction qs)
  case Nil
  then show ?case using lines_by_last [of d tail "[]"] by simp
next
  case (Cons q qs)
  then show ?case using lines_by_line [of d q "[]"] by simp
qed

lemma find_first_not_blank: "find_first_not_of_ws q 0 = None \<longleftrightarrow> list_all is_ws q"
proof
  assume "find_first_not_of_ws q 0 = None"
  from find_from_None [OF this] show "list_all is_ws q" by (simp add: list_all_iff)
next
  assume "list_all is_ws q"
  then have "dropWhile is_ws q = []" by (simp add: list_all_iff)
  then show "find_first_not_of_ws q 0 = None" by (simp add: find_from_def del: dropWhile_eq_Nil_conv)
qed

text \<open>
  Query files are read back. A file of queries ended by semicolons, with or without blank text after the
  last one, yields exactly the queries that are not blank, in order and unchanged.
\<close>

theorem read_from_file_roundtrip:
  assumes "list_all (\<lambda>q. CHR '';'' \<notin> set q) qs" "list_all is_ws tail"
  shows "read_from_file (concat (map (\<lambda>q. q @ '';'') qs) @ tail) = filter (\<lambda>q. \<not> list_all is_ws q) qs"
proof -
  have "CHR '';'' \<notin> set tail" using assms(2) by (auto simp: list_all_iff is_ws_def)
  then show ?thesis
    using lines_by_join [OF assms(1), of tail] assms(2) by (simp add: read_from_file_def find_first_not_blank)
qed

theorem read_from_file_roundtrip_witness:
  "read_from_file ''SELECT 1; ;SELECT 2; '' = [''SELECT 1'', ''SELECT 2'']"
  using read_from_file_roundtrip [of "[''SELECT 1'', '' '', ''SELECT 2'']" "'' ''"] by (simp add: is_ws_def)

end
