(* ===== verification/Handshake.thy ===== *)
theory Handshake
  imports ServerRouting OptimizerUnit
begin

text \<open>
  The client side of a connection (\<^verbatim>\<open>TCPClient.cpp\<close>) with the callbacks of \<^verbatim>\<open>ComputeUnit.cpp\<close> and
  \<^verbatim>\<open>OptimizerUnit.cpp\<close>, and the connection set-up of the server at the level of received bytes. The server asks
  for the unit definition, and for another UUID as long as the proposed one is taken; both sides have to end with
  the same UUID.

  The socket is a parameter: what \<^verbatim>\<open>recv\<close> returns is a list of segments, and the bytes passed to \<^verbatim>\<open>send\<close> are collected.
  Random UUIDs are the values drawn, protobuf is a pair of functions.
\<close>

section \<open>The client\<close>

abbreviation (input) UPDATE_UNIT_TYPE :: "32 word" where "UPDATE_UNIT_TYPE \<equiv> 5"
abbreviation (input) UUID_COLLISION :: "32 word" where "UUID_COLLISION \<equiv> 13"
abbreviation (input) OPTIMIZER_UNIT :: "32 word" where "OPTIMIZER_UNIT \<equiv> 7"

record TCPClient =
  session_uuid :: "64 word"
  globalAbort :: bool
  outgoing :: "byte list list"

definition new_client :: TCPClient where
  "new_client = \<lparr>session_uuid = 0, globalAbort = False, outgoing = []\<rparr>"

definition getUuid :: "TCPClient \<Rightarrow> 64 word" where
  "getUuid c = session_uuid c"

definition isConnected :: "TCPClient \<Rightarrow> bool" where
  "isConnected c \<longleftrightarrow> \<not> globalAbort c"

definition generateSessionUuid :: "64 word \<Rightarrow> TCPClient \<Rightarrow> TCPClient" where
  "generateSessionUuid draw c = c\<lparr>session_uuid := draw\<rparr>"

text \<open>Opening the socket, reading the address and connecting can fail; the options of the socket only warn.\<close>

definition start_client :: "bool \<Rightarrow> bool \<Rightarrow> bool \<Rightarrow> 64 word \<Rightarrow> TCPClient \<Rightarrow> TCPClient res" where
  "start_client socket_ok ip_ok connect_ok draw c =
     (if \<not> socket_ok then Inl (RuntimeError ''Could not open socket.'')
      else if \<not> ip_ok then Inl (RuntimeError ''Could not set target IP.'')
      else if \<not> connect_ok then Inl (RuntimeError ''Could not connect to server.'')
      else Inr (generateSessionUuid draw c))"

definition close_client :: "TCPClient \<Rightarrow> TCPClient" where
  "close_client c = c\<lparr>globalAbort := True\<rparr>"

text \<open>The result of \<^verbatim>\<open>send\<close> is not looked at.\<close>

definition notifyHost :: "byte list \<Rightarrow> nat \<Rightarrow> TCPClient \<Rightarrow> TCPClient" where
  "notifyHost data len c = c\<lparr>outgoing := outgoing c @ [take len data]\<rparr>"

definition update_uuid_on_collision :: "64 word \<Rightarrow> TCPClient \<Rightarrow> TCPClient" where
  "update_uuid_on_collision draw c =
     (let c' = generateSessionUuid draw c;
          info = TCPMetaInfo_default\<lparr>package_type := UUID_COLLISION, src_uuid := getUuid c'\<rparr>
      in notifyHost (struct_bytes info) meta_size c')"

section \<open>The callbacks of the units\<close>

text \<open>The answer to the request for the unit definition; an optimizer leaves its name empty.\<close>

definition updateUnitInfo_cb :: "(32 word \<times> string \<Rightarrow> byte list) \<Rightarrow> 32 word \<Rightarrow> string \<Rightarrow> TCPClient \<Rightarrow> TCPClient" where
  "updateUnitInfo_cb ser_unit ty name c =
     (let info = TCPMetaInfo_default\<lparr>package_type := UPDATE_UNIT_TYPE, src_uuid := getUuid c\<rparr>;
          (out_mem, message_size) = serializeItemToMemory (ser_unit (ty, name)) info
      in notifyHost out_mem message_size c)"

definition compute_callback ::
  "(32 word \<times> string \<Rightarrow> byte list) \<Rightarrow> (byte list \<Rightarrow> WorkRequest) \<Rightarrow> (WorkResponse \<Rightarrow> byte list) \<Rightarrow> string \<Rightarrow> 64 word \<Rightarrow>
     message \<Rightarrow> TCPClient \<Rightarrow> TCPClient" where
  "compute_callback ser_unit parse_work ser_done name draw m c =
     (if package_type (fst m) = UUID_COLLISION then update_uuid_on_collision draw c
      else if package_type (fst m) = UPDATE_UNIT_TYPE then updateUnitInfo_cb ser_unit COMPUTE_UNIT name c
      else if package_type (fst m) = WORK then
        (case work_cb parse_work ser_done (getUuid c) m of Some buf \<Rightarrow> notifyHost buf (length buf) c | None \<Rightarrow> c)
      else c)"

text \<open>
  The queries an optimizer works on once it is asked for its unit definition: the one of the command line, those of
  the file, and the lines of the console up to \<^verbatim>\<open>exit\<close> or \<^verbatim>\<open>quit\<close>.
\<close>

fun console_queries :: "string list \<Rightarrow> string list" where
  "console_queries [] = []"
| "console_queries (line # rest) =
     (if line = ''exit'' \<or> line = ''quit'' then []
      else if line \<noteq> '''' then line # console_queries rest else console_queries rest)"

definition chores :: "string \<Rightarrow> string option \<Rightarrow> string list \<Rightarrow> string list" where
  "chores q file console =
     (if q \<noteq> '''' then [q] else []) @ (case file of Some content \<Rightarrow> read_from_file content | None \<Rightarrow> []) @ console_queries console"

record optimizer_unit =
  client :: TCPClient
  added :: "string list"
  completion :: tracker

definition optimizer_callback ::
  "(32 word \<times> string \<Rightarrow> byte list) \<Rightarrow> (byte list \<Rightarrow> WorkResponse) \<Rightarrow> string list \<Rightarrow> 64 word \<Rightarrow> message \<Rightarrow> optimizer_unit \<Rightarrow> optimizer_unit" where
  "optimizer_callback ser_unit parse_done queries draw m u =
     (if package_type (fst m) = UUID_COLLISION then u\<lparr>client := update_uuid_on_collision draw (client u)\<rparr>
      else if package_type (fst m) = UPDATE_UNIT_TYPE
      then u\<lparr>client := updateUnitInfo_cb ser_unit OPTIMIZER_UNIT '''' (client u), added := added u @ queries\<rparr>
      else if package_type (fst m) = TASK_FINISHED then u\<lparr>completion := finished_cb parse_done m (completion u)\<rparr>
      else u)"

section \<open>The server reads the answers\<close>

text \<open>
  The connect callback has one buffer of \<^verbatim>\<open>1024 * 64 * 4\<close> bytes, which is not cleared: each \<^verbatim>\<open>recv\<close> overwrites its start, and the
  header is read from there. A segment has at most one byte less. \<^const>\<open>None\<close> is a result of \<^verbatim>\<open>recv\<close> that is not positive, or a failed request.
\<close>

definition connect_buffer_size :: nat where
  "connect_buffer_size = 1024 * 64 * 4"

fun headers :: "byte list \<Rightarrow> byte list option list \<Rightarrow> TCPMetaInfo option list" where
  "headers buf [] = []"
| "headers buf (None # segs) = None # headers buf segs"
| "headers buf (Some seg # segs) = (let buf' = store_segment buf 0 seg in Some (info_of buf') # headers buf' segs)"

definition connect_received ::
  "(byte list \<Rightarrow> 32 word \<times> string) \<Rightarrow> int \<Rightarrow> byte list \<Rightarrow> byte list option list \<Rightarrow> server \<Rightarrow> server res" where
  "connect_received parse_unit h buf segs s =
     (case segs of
        Some seg # rest \<Rightarrow>
          (let buf' = store_segment buf 0 seg; info = info_of buf';
               (ty, name) = parse_unit (take (unat (payload_size info)) (drop meta_size buf'))
           in connect_callback h (Some (info, length seg, ty, name)) (headers buf' rest) s)
      | _ \<Rightarrow> connect_callback h None [] s)"

section \<open>Both sides agree on the UUID\<close>

text \<open>What a unit has sent after the request for its definition and one collision message per picked UUID.\<close>

definition answered :: "(32 word \<times> string \<Rightarrow> byte list) \<Rightarrow> 32 word \<Rightarrow> string \<Rightarrow> 64 word list \<Rightarrow> TCPClient \<Rightarrow> TCPClient" where
  "answered ser_unit ty name picks c = fold update_uuid_on_collision picks (updateUnitInfo_cb ser_unit ty name c)"

abbreviation collision_info :: "64 word \<Rightarrow> TCPMetaInfo" where
  "collision_info u \<equiv> TCPMetaInfo_default\<lparr>package_type := UUID_COLLISION, src_uuid := u\<rparr>"

lemma fold_collisions:
  "outgoing (fold update_uuid_on_collision picks c) = outgoing c @ map (\<lambda>u. struct_bytes (collision_info u)) picks \<and>
   session_uuid (fold update_uuid_on_collision picks c) = last (session_uuid c # picks)"
  by (induction picks arbitrary: c)
    (auto simp: update_uuid_on_collision_def generateSessionUuid_def notifyHost_def getUuid_def)

lemma unit_answer:
  "updateUnitInfo_cb ser_unit ty name c =
     c\<lparr>outgoing := outgoing c @ [message_for UPDATE_UNIT_TYPE (session_uuid c) 0 (ser_unit (ty, name))]\<rparr>"
  by (simp add: updateUnitInfo_cb_def serializeItemToMemory_def notifyHost_def getUuid_def message_for_def message_info_def
      TCPMetaInfo_default_def)

lemma headers_collisions:
  "headers buf (map (\<lambda>u. Some (struct_bytes (collision_info u) @ extra u)) us) = map (\<lambda>u. Some (collision_info u)) us"
  by (induction us arbitrary: buf) (simp_all add: Let_def store_segment_def info_of_struct_bytes)

lemma resolve_uuid_draws:
  assumes "\<forall>u \<in> set (butlast (u # us)). clientUuidMap s u \<noteq> None" "clientUuidMap s (last (u # us)) = None"
  shows "resolve_uuid h ty name u (map (\<lambda>u. Some (collision_info u)) us) s = add_client h ty name (last (u # us)) s"
  using assms
proof (induction us arbitrary: u)
  case (Cons v us)
  then have "clientUuidMap s u \<noteq> None" by simp
  then have "resolve_uuid h ty name u (map (\<lambda>u. Some (collision_info u)) (v # us)) s =
      resolve_uuid h ty name v (map (\<lambda>u. Some (collision_info u)) us) s"
    by (subst resolve_uuid.simps) (auto simp: TCPMetaInfo_default_def)
  with Cons.IH [of v] Cons.prems show ?case by simp
qed (simp add: resolve_uuid.simps)

lemma connect_received_answer:
  assumes "payload_fits (ser_unit (ty, name))" "parse_unit (ser_unit (ty, name)) = (ty, name)"
  shows "connect_received parse_unit h buf (Some (message_for UPDATE_UNIT_TYPE u 0 (ser_unit (ty, name)) @ extra) # segs) s =
    Inr (resolve_uuid h ty name u (headers (store_segment buf 0 (message_for UPDATE_UNIT_TYPE u 0 (ser_unit (ty, name)) @ extra)) segs) s)"
proof -
  let ?data = "ser_unit (ty, name)"
  let ?info = "message_info UPDATE_UNIT_TYPE u 0 (length ?data)"
  let ?buf = "store_segment buf 0 (message_for UPDATE_UNIT_TYPE u 0 ?data @ extra)"
  have b: "?buf = struct_bytes ?info @ ?data @ extra @ drop (length (message_for UPDATE_UNIT_TYPE u 0 ?data @ extra)) buf"
    by (simp add: store_segment_def message_for_def)
  have sz: "unat (payload_size ?info) = length ?data"
    using payload_fitsD [OF assms(1)] by (simp add: message_info_def unat_of_nat)
  have "info_of ?buf = ?info" unfolding b by (rule info_of_struct_bytes)
  moreover have "take (length ?data) (drop meta_size ?buf) = ?data" unfolding b by simp
  moreover have "message_delimiter ?info = TCP_START_DELIM" by (simp add: message_info_def TCPMetaInfo_default_def)
  moreover have "bytesize ?info \<le> length (message_for UPDATE_UNIT_TYPE u 0 ?data @ extra)"
    using sz by (simp add: bytesize_def message_for_def)
  ultimately show ?thesis
    using assms(2) sz by (simp add: connect_received_def connect_callback_def Let_def)
qed

lemma add_client_lookup:
  assumes "s' = add_client h ty name u s"
  shows "getClientByUuid u s' = Some (next_object s)" "v \<noteq> u \<Longrightarrow> getClientByUuid v s' = getClientByUuid v s"
    "info_of_client s' (next_object s) = \<lparr>client_handle = h, client_type = ty, client_uuid = u, prettyName = name, client_abort = False\<rparr>"
  by (simp_all add: assms add_client_def Let_def update_vec_def getClientByUuid_def info_of_client_def)

section \<open>Connection set-up\<close>

text \<open>The messages of the server: the request for the unit definition and the report of a collision.\<close>

definition request_message :: message where
  "request_message = (TCPMetaInfo_default\<lparr>package_type := UPDATE_UNIT_TYPE\<rparr>, [])"

definition collision_message :: message where
  "collision_message = (TCPMetaInfo_default\<lparr>package_type := UUID_COLLISION\<rparr>, [])"

definition compute_answers ::
  "(32 word \<times> string \<Rightarrow> byte list) \<Rightarrow> (byte list \<Rightarrow> WorkRequest) \<Rightarrow> (WorkResponse \<Rightarrow> byte list) \<Rightarrow> string \<Rightarrow> 64 word list \<Rightarrow> TCPClient \<Rightarrow> TCPClient" where
  "compute_answers ser_unit parse_work ser_done name picks c =
     fold (\<lambda>u. compute_callback ser_unit parse_work ser_done name u collision_message) picks
       (compute_callback ser_unit parse_work ser_done name 0 request_message c)"

lemma compute_answered: "compute_answers ser_unit parse_work ser_done name picks c = answered ser_unit COMPUTE_UNIT name picks c"
proof -
  have "compute_callback ser_unit parse_work ser_done name u collision_message = update_uuid_on_collision u" for u
    by (simp add: fun_eq_iff compute_callback_def collision_message_def)
  moreover have "compute_callback ser_unit parse_work ser_done name 0 request_message c = updateUnitInfo_cb ser_unit COMPUTE_UNIT name c"
    by (simp add: compute_callback_def request_message_def)
  ultimately show ?thesis by (simp add: compute_answers_def answered_def)
qed

text \<open>
  C25. Server and unit agree on the UUID. A compute unit that is asked for its definition, and then for another UUID as
  often as its proposals are taken, is registered under the UUID that it uses for its messages from then on, with
  its own handle, type and name; the other clients are registered as before. Each answer arrives in one segment;
  the contents of the receive buffer do not matter.
\<close>

theorem handshake_agrees:
  assumes "outgoing c = []" "payload_fits (ser_unit (COMPUTE_UNIT, name))"
    and "parse_unit (ser_unit (COMPUTE_UNIT, name)) = (COMPUTE_UNIT, name)"
    and "\<forall>u \<in> set (butlast (getUuid c # picks)). getClientByUuid u s \<noteq> None" "getClientByUuid (last (getUuid c # picks)) s = None"
    and "c' = compute_answers ser_unit parse_work ser_done name picks c"
  shows "\<exists>s' p. connect_received parse_unit h buf (map Some (outgoing c')) s = Inr s' \<and> getClientByUuid (getUuid c') s' = Some p \<and>
    info_of_client s' p = \<lparr>client_handle = h, client_type = COMPUTE_UNIT, client_uuid = getUuid c', prettyName = name, client_abort = False\<rparr> \<and>
    (\<forall>v. v \<noteq> getUuid c' \<longrightarrow> getClientByUuid v s' = getClientByUuid v s)"
proof -
  let ?answer = "message_for UPDATE_UNIT_TYPE (session_uuid c) 0 (ser_unit (COMPUTE_UNIT, name))"
  have c': "c' = fold update_uuid_on_collision picks (c\<lparr>outgoing := [?answer]\<rparr>)"
    using assms(1,6) by (simp add: compute_answered answered_def unit_answer)
  then have out: "map Some (outgoing c') = Some (?answer @ []) # map (\<lambda>u. Some (struct_bytes (collision_info u) @ [])) picks"
    and uuid: "getUuid c' = last (session_uuid c # picks)"
    using fold_collisions [of picks "c\<lparr>outgoing := [?answer]\<rparr>"] by (simp_all add: getUuid_def)
  have "connect_received parse_unit h buf (map Some (outgoing c')) s =
      Inr (resolve_uuid h COMPUTE_UNIT name (session_uuid c) (map (\<lambda>u. Some (collision_info u)) picks) s)"
    unfolding out connect_received_answer [of ser_unit COMPUTE_UNIT name parse_unit, OF assms(2,3)] headers_collisions by (rule refl)
  also have "resolve_uuid h COMPUTE_UNIT name (session_uuid c) (map (\<lambda>u. Some (collision_info u)) picks) s =
      add_client h COMPUTE_UNIT name (getUuid c') s"
    unfolding uuid using assms(4,5) by (intro resolve_uuid_draws) (simp_all add: getUuid_def getClientByUuid_def)
  finally have run: "connect_received parse_unit h buf (map Some (outgoing c')) s = Inr (add_client h COMPUTE_UNIT name (getUuid c') s)" .
  show ?thesis
    using add_client_lookup [OF refl [of "add_client h COMPUTE_UNIT name (getUuid c') s"]] 
    by (intro exI [of _ "add_client h COMPUTE_UNIT name (getUuid c') s"] exI [of _ "next_object s"]) (simp add: run)
qed

text \<open>
  C39. An optimizer starts its queries when it is asked for its unit definition, before the server has registered it.
  Whatever it sends so early is lost: bytes that arrive together with the unit definition have no effect, and if its
  UUID is taken, a work item in place of the new UUID makes the server close the connection.
\<close>

theorem early_query_lost:
  assumes "payload_fits (ser_unit (OPTIMIZER_UNIT, ''''))" "parse_unit (ser_unit (OPTIMIZER_UNIT, '''')) = (OPTIMIZER_UNIT, '''')"
    and "u' = optimizer_callback ser_unit parse_done queries draw request_message u" "outgoing (client u) = []"
  shows "added u' = added u @ queries \<and> (\<exists>answer. outgoing (client u') = [answer] \<and>
    (getClientByUuid (getUuid (client u')) s = None \<longrightarrow>
      (\<forall>early. connect_received parse_unit h buf [Some (answer @ early)] s = Inr (add_client h OPTIMIZER_UNIT '''' (getUuid (client u')) s))) \<and>
    (getClientByUuid (getUuid (client u')) s \<noteq> None \<longrightarrow>
      (\<forall>wi segs. connect_received parse_unit h buf (Some answer # Some (work_message ser_work (getUuid (client u')) wi) # segs) s =
         Inr (drop_connection h s))))"
proof -
  let ?c = "client u" and ?answer = "message_for UPDATE_UNIT_TYPE (session_uuid (client u)) 0 (ser_unit (OPTIMIZER_UNIT, ''''))"
  have u': "u' = u\<lparr>client := ?c\<lparr>outgoing := [?answer]\<rparr>, added := added u @ queries\<rparr>"
    using assms(3,4) by (simp add: optimizer_callback_def request_message_def unit_answer)
  note recv = connect_received_answer [of ser_unit OPTIMIZER_UNIT "''''" parse_unit, OF assms(1,2)]
  have work: "headers b (Some (work_message ser_work v wi) # segs) =
      Some (message_info WORK v 0 (length (ser_work (RequestItem wi)))) # headers (store_segment b 0 (work_message ser_work v wi)) segs" for b v wi segs
    by (simp add: Let_def store_segment_def work_message_for message_for_def info_of_struct_bytes)
  have "connect_received parse_unit h buf [Some (?answer @ early)] s = Inr (add_client h OPTIMIZER_UNIT '''' (session_uuid ?c) s)"
    if "clientUuidMap s (session_uuid ?c) = None" for early
    unfolding recv using that by (subst resolve_uuid.simps) simp
  moreover have "connect_received parse_unit h buf (Some ?answer # Some (work_message ser_work (session_uuid ?c) wi) # segs) s = Inr (drop_connection h s)"
    if "clientUuidMap s (session_uuid ?c) \<noteq> None" for wi segs
  proof -
    have "resolve_uuid h OPTIMIZER_UNIT '''' (session_uuid ?c) (headers b (Some (work_message ser_work (session_uuid ?c) wi) # segs)) s = drop_connection h s" for b
      unfolding work using that by (subst resolve_uuid.simps) auto
    then show ?thesis using recv [of h buf "session_uuid ?c" "[]"] by (simp del: headers.simps)
  qed
  ultimately show ?thesis by (simp add: u' getUuid_def getClientByUuid_def)
qed

section \<open>Concrete units\<close>

definition demo_ser_unit :: "32 word \<times> string \<Rightarrow> byte list" where
  "demo_ser_unit d = le_bytes 4 (unat (fst d)) @ map (\<lambda>c. of_nat (of_char c)) (snd d)"

definition demo_parse_unit :: "byte list \<Rightarrow> 32 word \<times> string" where
  "demo_parse_unit bs = (of_nat (le_nat (take 4 bs)), map (\<lambda>b. char_of (unat b)) (drop 4 bs))"

definition demo_client :: TCPClient where
  "demo_client = generateSessionUuid 11 new_client"

lemma demo_unit [simp]: "demo_parse_unit (demo_ser_unit d) = d"
proof -
  have "unat (of_nat (of_char c) :: byte) = of_char c" for c by (simp add: unat_of_nat)
  then show ?thesis by (cases d) (simp add: demo_parse_unit_def demo_ser_unit_def comp_def)
qed

lemma demo_taken: "getClientByUuid 11 demo_server \<noteq> None" "getClientByUuid 22 demo_server \<noteq> None" "getClientByUuid 33 demo_server = None"
  by (simp_all add: demo_server_defs)

text \<open>The UUIDs 11 and 22 are taken.\<close>

theorem handshake_agrees_witness:
  "\<exists>s' p. connect_received demo_parse_unit 9 (replicate connect_buffer_size 0)
      (map Some (outgoing (compute_answers demo_ser_unit demo_parse_work demo_ser_done ''cu'' [22, 33] demo_client))) demo_server = Inr s' \<and>
     getClientByUuid 33 s' = Some p \<and> client_handle (info_of_client s' p) = 9"
proof -
  let ?c = "compute_answers demo_ser_unit demo_parse_work demo_ser_done ''cu'' [22, 33] demo_client"
  have uuid: "getUuid ?c = 33" by (simp add: compute_answered answered_def update_uuid_on_collision_def Let_def generateSessionUuid_def notifyHost_def getUuid_def)
  have "outgoing demo_client = []" "getUuid demo_client = 11" by (simp_all add: demo_client_def new_client_def generateSessionUuid_def getUuid_def)
  moreover have "payload_fits (demo_ser_unit (2, ''cu''))" by (simp add: payload_fits_def meta_size_def demo_ser_unit_def)
  ultimately obtain s' p where "connect_received demo_parse_unit 9 (replicate connect_buffer_size 0) (map Some (outgoing ?c)) demo_server = Inr s'"
    "getClientByUuid 33 s' = Some p" "info_of_client s' p = \<lparr>client_handle = 9, client_type = 2, client_uuid = 33, prettyName = ''cu'', client_abort = False\<rparr>"
    using handshake_agrees [of demo_client demo_ser_unit "''cu''" demo_parse_unit "[22, 33]" demo_server ?c demo_parse_work demo_ser_done 9
      "replicate connect_buffer_size 0"] demo_taken uuid
    by auto
  then show ?thesis by (intro exI [of _ s'] exI [of _ p]) simp
qed

theorem early_query_lost_witness:
  "\<exists>answer. outgoing (client (optimizer_callback demo_ser_unit demo_parse_done [''q''] 0 request_message
        \<lparr>client = demo_client, added = [], completion = new_tracker\<rparr>)) = [answer] \<and>
     connect_received demo_parse_unit 9 (replicate connect_buffer_size 0)
       [Some answer, Some (work_message demo_ser_work 11 net_item)] demo_server = Inr (drop_connection 9 demo_server)"
proof -
  let ?u = "\<lparr>client = demo_client, added = [], completion = new_tracker\<rparr>"
  let ?u' = "optimizer_callback demo_ser_unit demo_parse_done [''q''] 0 request_message ?u"
  have c: "outgoing demo_client = []" "session_uuid demo_client = 11" by (simp_all add: demo_client_def new_client_def generateSessionUuid_def)
  then have uuid: "getUuid (client ?u') = 11" by (simp add: optimizer_callback_def request_message_def unit_answer getUuid_def)
  have "payload_fits (demo_ser_unit (7, ''''))" by (simp add: payload_fits_def meta_size_def demo_ser_unit_def)
  from early_query_lost [of demo_ser_unit demo_parse_unit ?u' demo_parse_done "[''q'']" 0 ?u demo_server 9
      "replicate connect_buffer_size 0" demo_ser_work, OF this demo_unit refl] c(1) demo_taken(1)
  show ?thesis unfolding uuid by auto
qed

end
