(* ===== verification/DotOutput.thy ===== *)
theory DotOutput
  imports LogicalPlan
begin

text \<open>
  What the two Graphviz visualizers (\<^verbatim>\<open>GraphvizLogicalVisualizer.cpp\<close>, \<^verbatim>\<open>GraphvizPhysicalVisualizer.cpp\<close>) share:
  the names of operators, HTML escaping, the formatting of columns, values and limits, and the lines of a
  DOT file. The text of a file is the concatenation of its lines.
\<close>

section \<open>Names\<close>

fun compTypeToString :: "PlanCompType \<Rightarrow> string" where
  "compTypeToString C_LT = ''&lt;''"
| "compTypeToString C_LE = ''&le;''"
| "compTypeToString C_EQ = ''=''"
| "compTypeToString C_GE = ''&ge;''"
| "compTypeToString C_GT = ''&gt;''"
| "compTypeToString C_NE = ''!=''"
| "compTypeToString C_BETWEEN = ''BETWEEN''"
| "compTypeToString C_IN = ''IN''"
| "compTypeToString C_LIKE = ''LIKE''"

fun aggFuncToString :: "PlanAggFunc \<Rightarrow> string" where
  "aggFuncToString A_COUNT = ''COUNT''"
| "aggFuncToString A_SUM = ''SUM''"
| "aggFuncToString A_MIN = ''MIN''"
| "aggFuncToString A_MAX = ''MAX''"
| "aggFuncToString A_AVG = ''AVG''"

fun arithOpToString :: "PlanArithOp \<Rightarrow> string" where
  "arithOpToString O_ADD = ''ADD''"
| "arithOpToString O_SUB = ''SUB''"
| "arithOpToString O_MUL = ''MUL''"
| "arithOpToString O_DIV = ''DIV''"
| "arithOpToString O_MOD = ''MOD''"

fun logicalRelOpToString :: "PlanLogicalRelOp \<Rightarrow> string" where
  "logicalRelOpToString R_UNION = ''UNION''"
| "logicalRelOpToString R_INTERSECTION = ''INTERSECT''"
| "logicalRelOpToString R_NEGATION = ''MINUS''"

section \<open>Text\<close>

definition quote_char :: char where "quote_char = CHR 0x22"

definition apostrophe :: char where "apostrophe = CHR 0x27"

definition newline :: string where "newline = [CHR 0x0A]"

definition escape_char :: "char \<Rightarrow> string" where
  "escape_char c =
     (if c = CHR ''&'' then ''&amp;'' else if c = CHR ''<'' then ''&lt;'' else if c = CHR ''>'' then ''&gt;''
      else if c = quote_char then ''&quot;'' else if c = apostrophe then ''&#39;'' else [c])"

definition escapeHtml :: "string \<Rightarrow> string" where
  "escapeHtml s = concat (map escape_char s)"

text \<open>Loops that write a separator between elements.\<close>

fun join_with :: "string \<Rightarrow> string list \<Rightarrow> string" where
  "join_with sep [] = ''''"
| "join_with sep [x] = x"
| "join_with sep (x # y # xs) = x @ sep @ join_with sep (y # xs)"

text \<open>
  The condition of a filter over literals; \<open>col\<close> is the column and a blank in logical plans, and empty in
  physical ones.
\<close>

definition condition_text :: "string \<Rightarrow> PlanCompType \<Rightarrow> string list \<Rightarrow> string" where
  "condition_text col cmp vals =
     ''Cond: '' @ col @
     (if cmp = C_IN then ''IN ('' @ join_with '', '' (map escapeHtml vals) @ '')''
      else if cmp = C_BETWEEN \<and> 2 \<le> length vals then ''BETWEEN '' @ escapeHtml (vals ! 0) @ '' AND '' @ escapeHtml (vals ! 1)
      else if length vals = 1 then compTypeToString cmp @ '' '' @ escapeHtml (vals ! 0)
      else compTypeToString cmp @ '' ('' @ join_with '' OR '' (map escapeHtml vals) @ '')'')"

definition limit_text :: "Expression \<Rightarrow> string" where
  "limit_text e =
     ''Limit: '' @
     (case limit_count e of Some n \<Rightarrow> int_to_string (sint n) | None \<Rightarrow> ''ALL'') @
     (case limit_offset e of Some n \<Rightarrow> '' Offset: '' @ int_to_string (sint n) | None \<Rightarrow> '''')"

definition has_limit :: "Expression \<Rightarrow> bool" where
  "has_limit e \<longleftrightarrow> limit_count e \<noteq> None \<or> limit_offset e \<noteq> None"

section \<open>Lines of a DOT file\<close>

text \<open>A plan node, the node of a base column, an edge between plan nodes, and an edge to a base column.\<close>

datatype dot_line =
    Box int string
  | Ellipse int string
  | Edge int int string
  | Dashed int int

definition quoted :: "string \<Rightarrow> string" where
  "quoted s = quote_char # s @ [quote_char]"

fun dot_text :: "string \<Rightarrow> dot_line \<Rightarrow> string" where
  "dot_text color (Box i label) =
     ''  '' @ int_to_string i @ '' [label=<'' @ label @ ''>, shape=box, style=filled, fillcolor='' @ color @ ''];'' @ newline"
| "dot_text color (Ellipse i label) =
     ''  '' @ int_to_string i @ '' [label='' @ quoted label @ '', shape=ellipse, style=filled, fillcolor=lightblue, fontsize=10];'' @ newline"
| "dot_text color (Edge i j label) =
     ''  '' @ int_to_string i @ '' -> '' @ int_to_string j @ '' [label='' @ quoted label @ '', fontsize=10, fontcolor='' @ quoted ''darkgreen'' @ ''];'' @ newline"
| "dot_text color (Dashed i j) =
     ''  '' @ int_to_string i @ '' -> '' @ int_to_string j @ '' [style=dashed, color='' @ quoted ''gray50'' @ '', fontsize=9];'' @ newline"

section \<open>Escaping is faithful\<close>

text \<open>Reading entities back.\<close>

fun unescapeHtml :: "string \<Rightarrow> string" where
  "unescapeHtml [] = []"
| "unescapeHtml (c # cs) =
     (if c \<noteq> CHR ''&'' then c # unescapeHtml cs
      else if starts_with cs ''amp;'' then CHR ''&'' # unescapeHtml (drop 4 cs)
      else if starts_with cs ''lt;'' then CHR ''<'' # unescapeHtml (drop 3 cs)
      else if starts_with cs ''gt;'' then CHR ''>'' # unescapeHtml (drop 3 cs)
      else if starts_with cs ''quot;'' then quote_char # unescapeHtml (drop 5 cs)
      else if starts_with cs ''#39;'' then apostrophe # unescapeHtml (drop 4 cs)
      else c # unescapeHtml cs)"

lemma unescape_escape_char: "unescapeHtml (escape_char c @ s) = c # unescapeHtml s"
  by (simp add: escape_char_def numeral_eq_Suc)

lemma escape_char_safe: "d \<in> set (escape_char c) \<Longrightarrow> d \<notin> {CHR ''<'', CHR ''>'', quote_char, apostrophe}"
  by (auto simp: escape_char_def quote_char_def apostrophe_def split: if_split_asm)

text \<open>
  Escaping keeps the text and hides the markup. The escaped text of every string has no angle bracket and
  no quotation mark, so that it can end neither a label nor a tag, and reading its entities back gives the
  string again; no two names are drawn alike.
\<close>

theorem escapeHtml_roundtrip:
  "unescapeHtml (escapeHtml s) = s \<and> set (escapeHtml s) \<inter> {CHR ''<'', CHR ''>'', quote_char, apostrophe} = {}"
proof
  show "unescapeHtml (escapeHtml s) = s" by (induction s) (simp_all add: escapeHtml_def unescape_escape_char)
  show "set (escapeHtml s) \<inter> {CHR ''<'', CHR ''>'', quote_char, apostrophe} = {}"
    using escape_char_safe by (fastforce simp: escapeHtml_def)
qed

end
