(* ===== verification/LogicalDrawing.thy ===== *)
theory LogicalDrawing
  imports DotOutput
begin

text \<open>
  \<^verbatim>\<open>GraphvizLogicalVisualizer.cpp\<close> and \<^verbatim>\<open>LogicalPlanNodePrint.cpp\<close>: logical plans as DOT files and as indented text.

  The visualizer identifies a node by its address. Translated plans are trees whose nodes are not shared, and
  the address of a node is taken to be its path from the root. Null children are dereferenced by both programs.
\<close>

section \<open>Labels\<close>

fun nodeTypeToString :: "LogicalNodeType \<Rightarrow> string" where
  "nodeTypeToString L_SCAN = ''SCAN''"
| "nodeTypeToString L_FILTER = ''FILTER''"
| "nodeTypeToString L_PROJECTION = ''PROJECTION''"
| "nodeTypeToString L_JOIN = ''JOIN''"
| "nodeTypeToString L_AGGREGATE = ''AGGREGATE''"
| "nodeTypeToString L_MAP = ''MAP''"
| "nodeTypeToString L_SETOPERATION = ''SETOPERATION''"
| "nodeTypeToString L_SORT = ''SORT''"

definition qualified_name :: "Column \<Rightarrow> string" where
  "qualified_name c = (if table_name c = '''' then '''' else table_name c @ ''.'') @ column_name c"

definition formatColumn :: "Column \<Rightarrow> string" where
  "formatColumn c =
     escapeHtml (qualified_name c @
       (case col_alias c of
          Some a \<Rightarrow> if a \<noteq> '''' \<and> a \<noteq> column_name c then '' AS '' @ a else ''''
        | None \<Rightarrow> ''''))"

definition formatColumns :: "Column list \<Rightarrow> string" where
  "formatColumns cols = join_with '', '' (map formatColumn cols)"

definition filter_label :: "LogicalNodeData \<Rightarrow> string" where
  "filter_label d =
     (case comp_type (expression d) of
        None \<Rightarrow> ''''
      | Some cmp \<Rightarrow>
          (case base_columns d of
             a # b # _ \<Rightarrow> ''<br/>Cond: '' @ formatColumn a @ '' '' @ compTypeToString cmp @ '' '' @ formatColumn b
           | [a] \<Rightarrow>
               if literals (expression d) \<noteq> []
               then ''<br/>'' @ condition_text (formatColumn a @ '' '') cmp (literals (expression d))
               else ''<br/>Comp: '' @ compTypeToString cmp
           | [] \<Rightarrow> ''<br/>Comp: '' @ compTypeToString cmp))"

definition agg_label :: "LogicalNodeData \<Rightarrow> AggSpec \<Rightarrow> string" where
  "agg_label d spec =
     ''<br/>Agg: '' @ aggFuncToString (agg_func spec) @
     (if agg_is_star spec then ''(*)''
      else (case agg_input spec of
              Some c \<Rightarrow> ''('' @ formatColumn c @ '')''
            | None \<Rightarrow> if projected_columns d \<noteq> [] then ''('' @ formatColumns (projected_columns d) @ '')'' else '''')) @
     (case result_alias spec of Some a \<Rightarrow> '' AS '' @ escapeHtml a | None \<Rightarrow> '''')"

definition sort_label :: "LogicalNodeData \<Rightarrow> string" where
  "sort_label d =
     (if base_columns d \<noteq> [] then ''<br/>Sort: '' @ formatColumns (base_columns d) else '''') @
     (case sort_order (expression d) of
        Some dirs \<Rightarrow> ''<br/>Order: '' @ join_with '', '' (map (\<lambda>asc. if asc then ''ASC'' else ''DESC'') dirs)
      | None \<Rightarrow> '''')"

definition limit_label :: "LogicalNodeData \<Rightarrow> string" where
  "limit_label d = (if has_limit (expression d) then ''<br/>'' @ limit_text (expression d) else '''')"

text \<open>The binary operation of a JOIN or MAP node, written when its operator and two columns are there.\<close>

definition binary_label :: "string \<Rightarrow> string option \<Rightarrow> LogicalNodeData \<Rightarrow> string" where
  "binary_label kind op d =
     (case (base_columns d, op) of
        (a # b # _, Some s) \<Rightarrow> ''<br/>'' @ kind @ formatColumn a @ '' '' @ s @ '' '' @ formatColumn b
      | _ \<Rightarrow> '''')"

definition node_label :: "LogicalNodeData \<Rightarrow> string" where
  "node_label d =
     ''<b>'' @ nodeTypeToString (node_type d) @ ''</b>'' @
     (case node_type d of
        L_SCAN \<Rightarrow> ''<br/>Table: '' @ escapeHtml (base_table d)
      | L_FILTER \<Rightarrow> filter_label d
      | L_PROJECTION \<Rightarrow> ''<br/>Cols: '' @ formatColumns (projected_columns d) @ limit_label d
      | L_JOIN \<Rightarrow> binary_label ''Cond: '' (map_option compTypeToString (comp_type (expression d))) d
      | L_AGGREGATE \<Rightarrow>
          concat (map (agg_label d) (agg_specs (expression d))) @
          (if base_columns d \<noteq> [] then ''<br/>Group By: '' @ formatColumns (base_columns d) else '''')
      | L_MAP \<Rightarrow> binary_label ''Expr: '' (map_option arithOpToString (arith_op (expression d))) d
      | L_SETOPERATION \<Rightarrow>
          (case logical_rel_op (expression d) of Some op \<Rightarrow> ''<br/>Op: '' @ logicalRelOpToString op | None \<Rightarrow> '''')
      | L_SORT \<Rightarrow> sort_label d @ limit_label d)"

section \<open>Traversal\<close>

record drawing =
  node_id_counter :: int
  visited_nodes :: "nat list \<rightharpoonup> int"
  dot_stream :: "dot_line list"

definition tree_size :: "(nat list \<times> LogicalPlanNode \<times> drawing) + (nat list \<times> nat \<times> int \<times> LogicalPlanNode option list \<times> drawing) \<Rightarrow> nat" where
  "tree_size = case_sum (\<lambda>(_, t, _). size t) (\<lambda>(_, _, _, cs, _). size_list (size_option size) cs)"

function (sequential) traverse :: "nat list \<Rightarrow> LogicalPlanNode \<Rightarrow> drawing \<Rightarrow> (int \<times> drawing) res"
  and traverse_children :: "nat list \<Rightarrow> nat \<Rightarrow> int \<Rightarrow> LogicalPlanNode option list \<Rightarrow> drawing \<Rightarrow> drawing res" where
  "traverse addr (LNode d cs) st =
     (case visited_nodes st addr of
        Some i \<Rightarrow> Inr (i, st)
      | None \<Rightarrow>
          let current_id = node_id_counter st;
              st' = st\<lparr>node_id_counter := current_id + 1, visited_nodes := (visited_nodes st)(addr \<mapsto> current_id),
                       dot_stream := dot_stream st @ [Box current_id (node_label d)]\<rparr> in
          bindE (traverse_children addr 0 current_id cs st') (\<lambda>st''. Inr (current_id, st'')))"
| "traverse_children addr k current_id [] st = Inr st"
| "traverse_children addr k current_id (None # cs) st = Inl NullDeref"
| "traverse_children addr k current_id (Some c # cs) st =
     bindE (traverse (addr @ [k]) c st) (\<lambda>(child_id, st').
     traverse_children addr (Suc k) current_id cs
       (st'\<lparr>dot_stream := dot_stream st' @ [Edge current_id child_id (formatColumns (projected_columns (node c)))]\<rparr>))"
  by pat_completeness auto
termination
  by (relation "measure tree_size") (auto simp: tree_size_def)

text \<open>The lines and the text of the file that \<^verbatim>\<open>visualize\<close> writes.\<close>

definition plan_lines :: "LogicalPlanNode \<Rightarrow> dot_line list res" where
  "plan_lines root =
     bindE (traverse [] root \<lparr>node_id_counter = 0, visited_nodes = Map.empty, dot_stream = []\<rparr>) (\<lambda>(_, st). Inr (dot_stream st))"

definition visualize :: "LogicalPlanNode \<Rightarrow> string res" where
  "visualize root =
     bindE (plan_lines root) (\<lambda>ls.
     Inr (''digraph LogicalPlan {'' @ newline @ ''  rankdir=TB;'' @ newline @
       ''  node [fontname='' @ quoted ''Helvetica'' @ ''];'' @ newline @
       ''  edge [fontname='' @ quoted ''Helvetica'' @ '' , dir=back];'' @ newline @
       concat (map (dot_text ''lightblue'') ls) @ ''}'' @ newline))"

text \<open>
  What the translator does with a plan in demo mode: the name and the text of the file it writes, and the command
  it runs.
\<close>

definition render_command :: "string \<Rightarrow> string" where
  "render_command basename = ''dot -Tpng '' @ basename @ ''.dot -o '' @ basename @ ''.png''"

definition demo_logical :: "nat \<Rightarrow> int \<Rightarrow> LogicalPlanNode \<Rightarrow> (string \<times> string \<times> string) res" where
  "demo_logical i vis_nr currentPlan =
     (let basename = ''demo_logical_plan_'' @ nat_to_string i @ ''_'' @ int_to_string vis_nr in
      bindE (visualize currentPlan) (\<lambda>contents. Inr (basename @ ''.dot'', contents, render_command basename)))"

section \<open>Plans as text\<close>

definition indent :: "nat \<Rightarrow> string" where
  "indent n = concat (replicate n ''  '')"

fun compName :: "PlanCompType \<Rightarrow> string" where
  "compName C_LT = ''LT''"
| "compName C_LE = ''LE''"
| "compName C_EQ = ''EQ''"
| "compName C_GE = ''GE''"
| "compName C_GT = ''GT''"
| "compName C_NE = ''NE''"
| "compName C_BETWEEN = ''BETWEEN''"
| "compName C_IN = ''IN''"
| "compName C_LIKE = ''LIKE''"

fun setOpName :: "PlanLogicalRelOp \<Rightarrow> string" where
  "setOpName R_UNION = ''UNION''"
| "setOpName R_INTERSECTION = ''INTERSECTION''"
| "setOpName R_NEGATION = ''NEGATION''"

text \<open>The loop over the columns writes only their aliases.\<close>

definition printColumns :: "Column list \<Rightarrow> nat \<Rightarrow> string \<Rightarrow> string" where
  "printColumns cols depth label =
     (if cols = [] then ''''
      else indent depth @ label @ '':'' @ newline @
        concat (map (\<lambda>c. indent (depth + 1) @ (case col_alias c of Some a \<Rightarrow> '' AS '' @ a | None \<Rightarrow> '''') @ newline) cols))"

definition printSort :: "LogicalNodeData \<Rightarrow> nat \<Rightarrow> string" where
  "printSort d depth =
     indent depth @ ''order_by:'' @ newline @
     concat (map (\<lambda>i.
       let c = base_columns d ! i;
           asc = (case sort_order (expression d) of Some ord \<Rightarrow> if i < length ord then ord ! i else True | None \<Rightarrow> True) in
       indent (depth + 1) @ qualified_name c @ '' '' @ (if asc then ''ASC'' else ''DESC'') @ newline)
       [0..<length (base_columns d)])"

definition printAgg :: "AggSpec \<Rightarrow> string" where
  "printAgg spec =
     ''agg='' @ aggFuncToString (agg_func spec) @
     (if agg_is_star spec then ''(*)'' else (case agg_input spec of Some c \<Rightarrow> ''('' @ qualified_name c @ '')'' | None \<Rightarrow> '''')) @
     (case result_alias spec of Some a \<Rightarrow> '' AS '' @ a | None \<Rightarrow> '''') @ newline"

definition printExpr :: "Expression \<Rightarrow> nat \<Rightarrow> string" where
  "printExpr e depth =
     (case comp_type e of Some c \<Rightarrow> indent depth @ ''comp='' @ compName c @ newline | None \<Rightarrow> '''') @
     concat (map (\<lambda>spec. indent depth @ printAgg spec) (agg_specs e)) @
     (case arith_op e of Some a \<Rightarrow> indent depth @ ''arith='' @ arithOpToString a @ newline | None \<Rightarrow> '''') @
     (case logical_rel_op e of Some r \<Rightarrow> indent depth @ ''setop='' @ setOpName r @ newline | None \<Rightarrow> '''') @
     (if literals e \<noteq> [] then indent depth @ ''values: '' @ join_with '', '' (literals e) @ newline else '''')"

definition print_header :: "LogicalNodeData \<Rightarrow> string" where
  "print_header d =
     nodeTypeToString (node_type d) @
     (if node_type d = L_SCAN \<and> base_table d \<noteq> '''' then '' table='' @ base_table d
      else if node_type d = L_AGGREGATE then
        (case agg_specs (expression d) of
           [] \<Rightarrow> '''' | [spec] \<Rightarrow> '' agg='' @ aggFuncToString (agg_func spec) | _ \<Rightarrow> '' agg=multi'')
      else if node_type d = L_MAP \<and> arith_op (expression d) \<noteq> None then '' arith='' @ arithOpToString (the (arith_op (expression d)))
      else if node_type d \<in> {L_FILTER, L_JOIN} \<and> comp_type (expression d) \<noteq> None
        then '' comp='' @ compName (the (comp_type (expression d)))
      else if node_type d = L_SETOPERATION \<and> logical_rel_op (expression d) \<noteq> None
        then '' setop='' @ setOpName (the (logical_rel_op (expression d)))
      else '''') @ newline"

text \<open>Everything that is printed for one node.\<close>

definition print_node :: "LogicalNodeData \<Rightarrow> nat \<Rightarrow> string" where
  "print_node d depth =
     indent depth @ print_header d @
     printColumns (projected_columns d) (depth + 1) ''projected_columns'' @
     (if base_columns d \<noteq> [] \<and> node_type d \<noteq> L_SORT then printColumns (base_columns d) (depth + 1) ''base_columns'' else '''') @
     (if node_type d = L_SORT then printSort d (depth + 1) else '''') @
     (if node_type d \<in> {L_FILTER, L_JOIN, L_AGGREGATE, L_MAP, L_SETOPERATION} then printExpr (expression d) (depth + 1) else '''')"

fun printLogicalPlan :: "LogicalPlanNode \<Rightarrow> nat \<Rightarrow> string res" where
  "printLogicalPlan (LNode d cs) depth =
     bindE (mapE (\<lambda>c. case c of None \<Rightarrow> Inl NullDeref | Some n \<Rightarrow> printLogicalPlan n (depth + 1)) cs) (\<lambda>texts.
     Inr (print_node d depth @ concat texts))"

section \<open>The drawing shows the plan\<close>

text \<open>The nodes of a plan in preorder and its parent-child links, by path; plans without null children.\<close>

fun nodes_at :: "nat list \<Rightarrow> LogicalPlanNode \<Rightarrow> (nat list \<times> LogicalPlanNode) list"
  and nodes_below :: "nat list \<Rightarrow> nat \<Rightarrow> LogicalPlanNode option list \<Rightarrow> (nat list \<times> LogicalPlanNode) list" where
  "nodes_at a (LNode d cs) = (a, LNode d cs) # nodes_below a 0 cs"
| "nodes_below a k [] = []"
| "nodes_below a k (None # cs) = nodes_below a (Suc k) cs"
| "nodes_below a k (Some c # cs) = nodes_at (a @ [k]) c @ nodes_below a (Suc k) cs"

fun links_at :: "nat list \<Rightarrow> LogicalPlanNode \<Rightarrow> (nat list \<times> nat list \<times> LogicalPlanNode) list"
  and links_below :: "nat list \<Rightarrow> nat \<Rightarrow> LogicalPlanNode option list \<Rightarrow> (nat list \<times> nat list \<times> LogicalPlanNode) list" where
  "links_at a (LNode d cs) = links_below a 0 cs"
| "links_below a k [] = []"
| "links_below a k (None # cs) = links_below a (Suc k) cs"
| "links_below a k (Some c # cs) = links_at (a @ [k]) c @ (a, a @ [k], c) # links_below a (Suc k) cs"

fun null_free :: "LogicalPlanNode \<Rightarrow> bool" where
  "null_free (LNode d cs) \<longleftrightarrow> (\<forall>c \<in> set cs. case c of None \<Rightarrow> False | Some n \<Rightarrow> null_free n)"

definition boxes :: "dot_line list \<Rightarrow> (int \<times> string) list" where
  "boxes ls = concat (map (\<lambda>l. case l of Box i t \<Rightarrow> [(i, t)] | _ \<Rightarrow> []) ls)"

definition edges :: "dot_line list \<Rightarrow> (int \<times> int \<times> string) list" where
  "edges ls = concat (map (\<lambda>l. case l of Edge i j t \<Rightarrow> [(i, j, t)] | _ \<Rightarrow> []) ls)"

lemma boxes_simps [simp]: "boxes [] = []" "boxes (xs @ ys) = boxes xs @ boxes ys" "boxes (Box i t # xs) = (i, t) # boxes xs"
  "boxes (Edge i j t # xs) = boxes xs" "boxes (Ellipse i t # xs) = boxes xs" "boxes (Dashed i j # xs) = boxes xs"
  by (simp_all add: boxes_def)

lemma edges_simps [simp]: "edges [] = []" "edges (xs @ ys) = edges xs @ edges ys" "edges (Edge i j t # xs) = (i, j, t) # edges xs"
  "edges (Box i t # xs) = edges xs" "edges (Ellipse i t # xs) = edges xs" "edges (Dashed i j # xs) = edges xs"
  by (simp_all add: edges_def)

lemma node_paths:
  "b \<in> fst ` set (nodes_at a t) \<Longrightarrow> \<exists>r. b = a @ r"
  "b \<in> fst ` set (nodes_below a k cs) \<Longrightarrow> \<exists>j r. k \<le> j \<and> b = a @ j # r"
proof (induction a t and a k cs arbitrary: b and b rule: nodes_at_nodes_below.induct)
  case (1 a d cs)
  then show ?case by fastforce
next
  case (3 a k cs)
  then show ?case by (metis Suc_leD nodes_below.simps(2))
next
  case (4 a k c cs)
  from "4.prems" consider "b \<in> fst ` set (nodes_at (a @ [k]) c)" | "b \<in> fst ` set (nodes_below a (Suc k) cs)" by auto
  then show ?case
  proof cases
    case 1
    from "4.IH"(1) [OF 1] show ?thesis by auto
  next
    case 2
    from "4.IH"(2) [OF 2] show ?thesis by (metis Suc_leD)
  qed
qed simp

lemma link_paths:
  "(b, c, n) \<in> set (links_at a t) \<Longrightarrow> {b, c} \<subseteq> fst ` set (nodes_at a t)"
  "(b, c, n) \<in> set (links_below a k cs) \<Longrightarrow> {b, c} \<subseteq> insert a (fst ` set (nodes_below a k cs))"
proof (induction a t and a k cs rule: nodes_at_nodes_below.induct)
  case (4 a k c' cs)
  have "a @ [k] \<in> fst ` set (nodes_at (a @ [k]) c')" by (cases c') simp
  with 4 show ?case by auto
qed simp_all

definition box_of :: "drawing \<Rightarrow> nat list \<times> LogicalPlanNode \<Rightarrow> int \<times> string" where
  "box_of st = (\<lambda>(b, n). (the (visited_nodes st b), node_label (node n)))"

definition edge_of :: "drawing \<Rightarrow> nat list \<times> nat list \<times> LogicalPlanNode \<Rightarrow> int \<times> int \<times> string" where
  "edge_of st = (\<lambda>(b, c, n). (the (visited_nodes st b), the (visited_nodes st c), formatColumns (projected_columns (node n))))"

text \<open>Between two states the nodes \<open>ns\<close> were numbered and drawn, and the links \<open>ls\<close>.\<close>

definition drew :: "drawing \<Rightarrow> drawing \<Rightarrow> (nat list \<times> LogicalPlanNode) list \<Rightarrow> (nat list \<times> nat list \<times> LogicalPlanNode) list \<Rightarrow> bool" where
  "drew st st' ns ls \<longleftrightarrow>
     node_id_counter st' = node_id_counter st + int (length ns) \<and>
     (\<forall>b. b \<notin> fst ` set ns \<longrightarrow> visited_nodes st' b = visited_nodes st b) \<and>
     map (visited_nodes st' \<circ> fst) ns = map (\<lambda>j. Some (node_id_counter st + int j)) [0..<length ns] \<and>
     (\<exists>L. dot_stream st' = dot_stream st @ L \<and> boxes L = map (box_of st') ns \<and> edges L = map (edge_of st') ls)"

lemma drew_none: "drew st st [] []"
  by (simp add: drew_def)

lemma shift_upt: "map (\<lambda>j. Some (n + int j)) [0..<k + l] = map (\<lambda>j. Some (n + int j)) [0..<k] @ map (\<lambda>j. Some (n + int k + int j)) [0..<l]"
  by (rule nth_equalityI) (auto simp: nth_append)

lemma drew_seq:
  assumes "drew st st1 ns1 ls1" "drew (st1\<lparr>dot_stream := dot_stream st1 @ [Edge i j s]\<rparr>) st2 ns2 ls2"
    and "fst ` set ns1 \<inter> fst ` set ns2 = {}" "\<And>b c n. (b, c, n) \<in> set (l # ls1) \<Longrightarrow> {b, c} \<inter> fst ` set ns2 = {}"
    and "edge_of st1 l = (i, j, s)"
  shows "drew st st2 (ns1 @ ns2) (ls1 @ l # ls2)"
proof -
  note d = assms(1,2) [unfolded drew_def]
  have keep: "visited_nodes st2 b = visited_nodes st1 b" if "b \<notin> fst ` set ns2" for b using d(2) that by simp
  have b1: "map (box_of st2) ns1 = map (box_of st1) ns1"
    using keep assms(3) by (force simp: box_of_def)
  have "edge_of st2 e = edge_of st1 e" if "e \<in> set (l # ls1)" for e
    using keep assms(4) [of "fst e" "fst (snd e)" "snd (snd e)"] that by (auto simp: edge_of_def split: prod.split)
  then have e1: "map (edge_of st2) ls1 = map (edge_of st1) ls1" "edge_of st2 l = edge_of st1 l" by simp_all
  have v1: "map (visited_nodes st2 \<circ> fst) ns1 = map (visited_nodes st1 \<circ> fst) ns1"
    using keep assms(3) by force
  obtain L1 where L1: "dot_stream st1 = dot_stream st @ L1" "boxes L1 = map (box_of st1) ns1" "edges L1 = map (edge_of st1) ls1"
    using d(1) by blast
  obtain L2 where L2: "dot_stream st2 = dot_stream st1 @ [Edge i j s] @ L2" "boxes L2 = map (box_of st2) ns2" "edges L2 = map (edge_of st2) ls2"
    using d(2) by auto
  let ?L = "L1 @ [Edge i j s] @ L2"
  have "dot_stream st2 = dot_stream st @ ?L" "boxes ?L = map (box_of st2) (ns1 @ ns2)" "edges ?L = map (edge_of st2) (ls1 @ l # ls2)"
    using L1 L2 b1 e1 assms(5) by simp_all
  moreover have "map (visited_nodes st2 \<circ> fst) (ns1 @ ns2) = map (\<lambda>j. Some (node_id_counter st + int j)) [0..<length (ns1 @ ns2)]"
    unfolding length_append shift_upt using d v1 by simp
  moreover have "visited_nodes st2 b = visited_nodes st b" if "b \<notin> fst ` set (ns1 @ ns2)" for b
    using d that by (simp add: image_Un)
  ultimately show ?thesis unfolding drew_def using d by auto
qed

definition unvisited :: "drawing \<Rightarrow> (nat list \<times> LogicalPlanNode) list \<Rightarrow> bool" where
  "unvisited st ns \<longleftrightarrow> (\<forall>b \<in> fst ` set ns. visited_nodes st b = None)"

definition children_null_free :: "LogicalPlanNode option list \<Rightarrow> bool" where
  "children_null_free cs \<longleftrightarrow> (\<forall>c \<in> set cs. case c of None \<Rightarrow> False | Some n \<Rightarrow> null_free n)"

lemma null_free_LNode: "null_free (LNode d cs) = children_null_free cs"
  by (simp add: children_null_free_def)

lemma children_null_free_Some: "children_null_free (Some c # cs) \<longleftrightarrow> null_free c \<and> children_null_free cs"
  by (auto simp: children_null_free_def)

lemma drew_first_node:
  assumes "visited_nodes st a = None" "i = node_id_counter st"
    and "drew (st\<lparr>node_id_counter := i + 1, visited_nodes := (visited_nodes st)(a \<mapsto> i), dot_stream := dot_stream st @ [Box i (node_label d)]\<rparr>)
      st' (nodes_below a 0 cs) ls"
  shows "drew st st' (nodes_at a (LNode d cs)) ls"
proof -
  note d = assms(3) [unfolded drew_def]
  have a: "a \<notin> fst ` set (nodes_below a 0 cs)" using node_paths(2) by fastforce
  then have va: "visited_nodes st' a = Some i" using d by simp
  have "map (\<lambda>j. Some (i + int j)) [0..<Suc n] = Some i # map (\<lambda>j. Some (i + 1 + int j)) [0..<n]" for n
    using shift_upt [of i 1 n] by simp
  moreover have "box_of st' (a, LNode d cs) = (i, node_label d)" using va by (simp add: box_of_def)
  ultimately show ?thesis unfolding drew_def using d va assms(2) by auto
qed

lemma traverse_draws:
  "unvisited st (nodes_at a t) \<Longrightarrow>
     if null_free t then \<exists>st'. traverse a t st = Inr (node_id_counter st, st') \<and> drew st st' (nodes_at a t) (links_at a t)
     else traverse a t st = Inl NullDeref"
  "visited_nodes st a = Some i \<Longrightarrow> unvisited st (nodes_below a k cs) \<Longrightarrow>
     if children_null_free cs then \<exists>st'. traverse_children a k i cs st = Inr st' \<and> drew st st' (nodes_below a k cs) (links_below a k cs)
     else traverse_children a k i cs st = Inl NullDeref"
proof (induction a t and a k cs arbitrary: st and st i rule: nodes_at_nodes_below.induct)
  case (1 a d cs)
  let ?i = "node_id_counter st"
  let ?st = "st\<lparr>node_id_counter := ?i + 1, visited_nodes := (visited_nodes st)(a \<mapsto> ?i), dot_stream := dot_stream st @ [Box ?i (node_label d)]\<rparr>"
  have va: "visited_nodes st a = None" using "1.prems" by (simp add: unvisited_def)
  have "a \<notin> fst ` set (nodes_below a 0 cs)" using node_paths(2) by fastforce
  then have "unvisited ?st (nodes_below a 0 cs)" using "1.prems" by (auto simp: unvisited_def)
  note IH = "1.IH" [of ?st ?i, OF _ this]
  show ?case
  proof (cases "children_null_free cs")
    case True
    then obtain st' where st': "traverse_children a 0 ?i cs ?st = Inr st'" "drew ?st st' (nodes_below a 0 cs) (links_below a 0 cs)"
      using IH by auto
    then show ?thesis using True va drew_first_node [OF va refl st'(2)] by (simp add: null_free_LNode Let_def del: null_free.simps)
  next
    case False
    then show ?thesis using IH va by (simp add: null_free_LNode Let_def del: null_free.simps)
  qed
next
  case (2 a k)
  then show ?case by (auto simp: children_null_free_def intro: drew_none)
next
  case (3 a k cs)
  then show ?case by (simp add: children_null_free_def)
next
  case (4 a k c cs)
  let ?ns = "nodes_at (a @ [k]) c" and ?ls = "links_at (a @ [k]) c"
  have un: "unvisited st ?ns" "unvisited st (nodes_below a (Suc k) cs)" using "4.prems"(2) by (simp_all add: unvisited_def image_Un)
  have disj: "fst ` set ?ns \<inter> fst ` set (nodes_below a (Suc k) cs) = {}" "a \<notin> fst ` set ?ns" "a \<notin> fst ` set (nodes_below a (Suc k) cs)"
    using node_paths by fastforce+
  show ?case
  proof (cases "null_free c")
    case True
    then obtain st1 where st1: "traverse (a @ [k]) c st = Inr (node_id_counter st, st1)" "drew st st1 ?ns ?ls"
      using "4.IH"(1) [OF un(1)] by auto
    let ?e = "Edge i (node_id_counter st) (formatColumns (projected_columns (node c)))"
    let ?st1 = "st1\<lparr>dot_stream := dot_stream st1 @ [?e]\<rparr>"
    have keep: "visited_nodes st1 b = visited_nodes st b" if "b \<notin> fst ` set ?ns" for b using st1(2) that by (simp add: drew_def)
    have va: "visited_nodes ?st1 a = Some i" using keep [OF disj(2)] "4.prems"(1) by simp
    have "unvisited ?st1 (nodes_below a (Suc k) cs)" unfolding unvisited_def
    proof
      fix b assume b: "b \<in> fst ` set (nodes_below a (Suc k) cs)"
      then have "visited_nodes st1 b = visited_nodes st b" using disj(1) by (intro keep) blast
      then show "visited_nodes ?st1 b = None" using un(2) b by (auto simp: unvisited_def)
    qed
    note IH = "4.IH"(2) [OF va this]
    have "visited_nodes st1 (a @ [k]) = Some (node_id_counter st)"
      using st1(2) unfolding drew_def by (cases c) (simp add: upt_conv_Cons del: upt_Suc)
    then have e: "edge_of st1 (a, a @ [k], c) = (i, node_id_counter st, formatColumns (projected_columns (node c)))"
      using va by (simp add: edge_of_def)
    have ends: "{b, c'} \<inter> fst ` set (nodes_below a (Suc k) cs) = {}" if "(b, c', n) \<in> set ((a, a @ [k], c) # ?ls)" for b c' n
    proof -
      have "a @ [k] \<in> fst ` set ?ns" by (cases c) simp
      then show ?thesis using that link_paths(1) [of b c' n "a @ [k]" c] disj by auto
    qed
    show ?thesis
    proof (cases "children_null_free cs")
      case rest: True
      then obtain st2 where st2: "traverse_children a (Suc k) i cs ?st1 = Inr st2"
        "drew ?st1 st2 (nodes_below a (Suc k) cs) (links_below a (Suc k) cs)" using IH by auto
      then show ?thesis using True rest st1(1) drew_seq [OF st1(2) st2(2) disj(1) ends e] by (simp add: children_null_free_Some)
    next
      case False
      then show ?thesis using IH st1(1) by (simp add: children_null_free_Some)
    qed
  next
    case False
    then show ?thesis using "4.IH"(1) [OF un(1)] by (simp add: children_null_free_Some)
  qed
qed

text \<open>
  The drawing of a logical plan shows the plan. For a plan without null children the file has exactly one
  box per plan node, numbered 0, 1, 2, ... in preorder and labelled with this node, and exactly one edge per
  child, between the boxes of parent and child and labelled with the columns that the child projects. A null
  child is dereferenced.
\<close>

theorem visualize_correct:
  "case plan_lines root of
     Inl e \<Rightarrow> e = NullDeref \<and> \<not> null_free root
   | Inr ls \<Rightarrow> null_free root \<and>
       (\<exists>number. map (number \<circ> fst) (nodes_at [] root) = map int [0..<length (nodes_at [] root)] \<and>
          boxes ls = map (\<lambda>(a, n). (number a, node_label (node n))) (nodes_at [] root) \<and>
          edges ls = map (\<lambda>(a, b, n). (number a, number b, formatColumns (projected_columns (node n)))) (links_at [] root))"
proof -
  let ?st = "\<lparr>node_id_counter = 0, visited_nodes = Map.empty, dot_stream = []\<rparr>"
  have un: "unvisited ?st (nodes_at [] root)" by (simp add: unvisited_def)
  show ?thesis
  proof (cases "null_free root")
    case True
    then obtain st' where st': "traverse [] root ?st = Inr (0, st')" "drew ?st st' (nodes_at [] root) (links_at [] root)"
      using traverse_draws(1) [OF un] by auto
    let ?number = "\<lambda>a. the (visited_nodes st' a)"
    have v: "map (visited_nodes st' \<circ> fst) (nodes_at [] root) = map (\<lambda>j. Some (int j)) [0..<length (nodes_at [] root)]"
      using st'(2) by (simp add: drew_def)
    have "map (?number \<circ> fst) (nodes_at [] root) = map the (map (visited_nodes st' \<circ> fst) (nodes_at [] root))" by simp
    also have "\<dots> = map int [0..<length (nodes_at [] root)]" unfolding v by simp
    finally show ?thesis using True st' by (auto simp: plan_lines_def drew_def box_of_def edge_of_def intro!: exI [of _ ?number])
  next
    case False
    then show ?thesis using traverse_draws(1) [OF un] by (simp add: plan_lines_def)
  qed
qed

text \<open>The text of a plan lists its nodes in preorder, each indented by its depth.\<close>

lemma printLogicalPlan_lists_nodes:
  "null_free t \<Longrightarrow> printLogicalPlan t (length a) = Inr (concat (map (\<lambda>(b, n). print_node (node n) (length b)) (nodes_at a t)))"
  "children_null_free cs \<Longrightarrow>
     \<exists>texts. mapE (\<lambda>c. case c of None \<Rightarrow> Inl NullDeref | Some n \<Rightarrow> printLogicalPlan n (Suc (length a))) cs = Inr texts \<and>
       concat texts = concat (map (\<lambda>(b, n). print_node (node n) (length b)) (nodes_below a k cs))"
proof (induction a t and a k cs rule: nodes_at_nodes_below.induct)
  case (1 a d cs)
  then show ?case by (auto simp: null_free_LNode simp del: null_free.simps)
next
  case (4 a k c cs)
  then obtain texts where "mapE (\<lambda>c. case c of None \<Rightarrow> Inl NullDeref | Some n \<Rightarrow> printLogicalPlan n (Suc (length a))) cs = Inr texts"
    "concat texts = concat (map (\<lambda>(b, n). print_node (node n) (length b)) (nodes_below a (Suc k) cs))"
    by (auto simp: children_null_free_Some)
  with 4 show ?case by (auto simp: children_null_free_Some)
qed (simp_all add: children_null_free_def)

text \<open>Columns are printed without their names: plans over different columns print alike.\<close>

lemma printColumns_hides_names:
  "map col_alias cols = map col_alias cols' \<Longrightarrow> printColumns cols depth label = printColumns cols' depth label"
proof -
  assume eq: "map col_alias cols = map col_alias cols'"
  let ?row = "\<lambda>al. indent (depth + 1) @ (case al of Some a \<Rightarrow> '' AS '' @ a | None \<Rightarrow> '''') @ newline"
  have "map (?row \<circ> col_alias) cols = map (?row \<circ> col_alias) cols'" unfolding map_map [symmetric] eq ..
  moreover have "cols = [] \<longleftrightarrow> cols' = []" using arg_cong [OF eq, of length] by auto
  ultimately show ?thesis unfolding printColumns_def comp_def by presburger
qed

end
