(* ===== verification/PhysicalDrawing.thy ===== *)
theory PhysicalDrawing
  imports DotOutput PostProcess
begin

text \<open>
  \<^verbatim>\<open>GraphvizPhysicalVisualizer.cpp\<close>: physical plans as DOT files. The plan is a graph in a node store; shared nodes
  are drawn once, and every base column that a node reads gets a node of its own. The recursion is bounded
  by the number of stored nodes, which is enough on a store whose children precede their parents.
\<close>

section \<open>Labels\<close>

fun phyTypeToString :: "PhysicalNodeType \<Rightarrow> string" where
  "phyTypeToString P_FILTER = ''FILTER''"
| "phyTypeToString P_IDXSCAN = ''IDXSCAN''"
| "phyTypeToString P_NLJ = ''NLJ''"
| "phyTypeToString P_HASHJOIN = ''HASHJOIN''"
| "phyTypeToString P_MERGEJOIN = ''MERGEJOIN''"
| "phyTypeToString P_AGGREGATE = ''AGGREGATE''"
| "phyTypeToString P_SETOPERATION = ''SETOPERATION''"
| "phyTypeToString P_SORT = ''SORT''"
| "phyTypeToString P_MAP = ''MAP''"
| "phyTypeToString P_MATERIALIZE = ''MATERIALIZE''"
| "phyTypeToString P_GROUPBY = ''GROUPBY''"
| "phyTypeToString P_INTERMEDIATE = ''INTERMEDIATE''"
| "phyTypeToString P_RESULT = ''RESULT''"

definition phys_formatColumn :: "Column \<Rightarrow> string" where
  "phys_formatColumn c =
     escapeHtml ((if table_name c = '''' then '''' else table_name c @ ''.'') @ column_name c @
       (case col_alias c of Some a \<Rightarrow> if a \<noteq> '''' then '' AS '' @ a else '''' | None \<Rightarrow> ''''))"

definition phys_formatColumns :: "Column list \<Rightarrow> string" where
  "phys_formatColumns cols = join_with '', '' (map phys_formatColumn cols)"

definition expr_text :: "PhysicalPlanNode \<Rightarrow> string" where
  "expr_text n =
     (let e = p_expression n in
      case p_type n of
        P_FILTER \<Rightarrow>
          (case comp_type e of
             Some cmp \<Rightarrow> if literals e \<noteq> [] then condition_text '''' cmp (literals e) else ''''
           | None \<Rightarrow> '''')
      | P_HASHJOIN \<Rightarrow> if length (result_columns n) = 1 then ''Hash Join (single output)'' else ''Join''
      | P_MERGEJOIN \<Rightarrow> ''Join''
      | P_NLJ \<Rightarrow> ''Join''
      | P_AGGREGATE \<Rightarrow> (case agg_specs e of spec # _ \<Rightarrow> aggFuncToString (agg_func spec) | [] \<Rightarrow> '''')
      | P_MAP \<Rightarrow> (case arith_op e of Some op \<Rightarrow> ''Op: '' @ arithOpToString op | None \<Rightarrow> '''')
      | P_SETOPERATION \<Rightarrow> (case logical_rel_op e of Some op \<Rightarrow> logicalRelOpToString op | None \<Rightarrow> '''')
      | P_SORT \<Rightarrow>
          ''SORT'' @
          (case sort_order e of
             Some dirs \<Rightarrow> concat (map (\<lambda>asc. if asc then '' ASC'' else '' DESC'') dirs)
           | None \<Rightarrow> '''') @
          (if has_limit e then '' | '' @ limit_text e else '''')
      | P_GROUPBY \<Rightarrow> ''GROUP BY''
      | P_RESULT \<Rightarrow> if has_limit e then limit_text e else ''''
      | P_MATERIALIZE \<Rightarrow> if has_limit e then limit_text e else ''''
      | P_INTERMEDIATE \<Rightarrow> if has_limit e then limit_text e else ''''
      | P_IDXSCAN \<Rightarrow> '''')"

definition font :: "string \<Rightarrow> string \<Rightarrow> string" where
  "font color s =
     ''<br/><font color='' @ [apostrophe] @ color @ [apostrophe] @ '' point-size='' @ [apostrophe] @ ''10'' @ [apostrophe] @ ''>'' @ s @ ''</font>''"

definition phys_label :: "PhysicalPlanNode \<Rightarrow> string" where
  "phys_label n =
     ''<b>'' @ phyTypeToString (p_type n) @ '' :: '' @ int_to_string (node_id n) @ ''</b>'' @
     (if p_base_columns n \<noteq> [] then font ''darkblue'' (''In: '' @ phys_formatColumns (p_base_columns n)) else '''') @
     (case aggregationColumn n of Some c \<Rightarrow> font ''purple'' (''AggCol: '' @ phys_formatColumns [c]) | None \<Rightarrow> '''') @
     (case clusterColumn n of Some c \<Rightarrow> font ''darkorange'' (''Cluster: '' @ phys_formatColumns [c]) | None \<Rightarrow> '''') @
     (case p_index n of Some c \<Rightarrow> font ''darkblue'' (''Index: '' @ phys_formatColumns [c]) | None \<Rightarrow> '''') @
     (if expr_text n \<noteq> '''' then ''<br/><i>'' @ expr_text n @ ''</i>'' else '''')"

section \<open>Traversal\<close>

record phys_drawing =
  id_counter :: int
  node_numbers :: "nat \<rightharpoonup> int"
  base_col_node_ids :: "string \<rightharpoonup> int"
  phys_stream :: "dot_line list"

text \<open>
  One base column of the node \<open>current_id\<close>. The test \<^verbatim>\<open>!col.is_base\<close> asks whether the optional is empty, not
  whether its value is false.
\<close>

definition draw_base :: "int \<Rightarrow> Column \<Rightarrow> phys_drawing \<Rightarrow> phys_drawing" where
  "draw_base current_id col st =
     (if is_base col = None then st
      else (case base_col_node_ids st (colref col) of
              None \<Rightarrow> let col_node_id = id_counter st in
                st\<lparr>id_counter := col_node_id + 1, base_col_node_ids := (base_col_node_ids st)(colref col \<mapsto> col_node_id),
                   phys_stream := phys_stream st @ [Ellipse col_node_id (escapeHtml (colref col)), Dashed current_id col_node_id]\<rparr>
            | Some col_node_id \<Rightarrow> st\<lparr>phys_stream := phys_stream st @ [Dashed current_id col_node_id]\<rparr>))"

definition draw_box :: "nat \<Rightarrow> PhysicalPlanNode \<Rightarrow> phys_drawing \<Rightarrow> phys_drawing" where
  "draw_box a n st =
     st\<lparr>id_counter := id_counter st + 1, node_numbers := (node_numbers st)(a \<mapsto> id_counter st),
        phys_stream := phys_stream st @ [Box (id_counter st) (phys_label n)]\<rparr>"

text \<open>One child: a null child is skipped with a warning.\<close>

definition draw_child :: "(ptr \<Rightarrow> phys_drawing \<Rightarrow> (int \<times> phys_drawing) option) \<Rightarrow> heap \<Rightarrow> int \<Rightarrow> ptr \<Rightarrow> phys_drawing \<Rightarrow> phys_drawing option" where
  "draw_child visit h current_id p st =
     (case p of
        None \<Rightarrow> Some st
      | Some c \<Rightarrow> Option.bind (visit p st) (\<lambda>(child_id, st').
          if child_id < 0 then Some st'
          else Some (st'\<lparr>phys_stream := phys_stream st' @ [Edge current_id child_id (phys_formatColumns (result_columns (h ! c)))]\<rparr>)))"

lemma draw_child_cong [fundef_cong]:
  "p = q \<Longrightarrow> st = st' \<Longrightarrow> f q st' = g q st' \<Longrightarrow> draw_child f h i p st = draw_child g h i q st'"
  by (auto simp: draw_child_def split: option.split)

fun phys_traverse :: "nat \<Rightarrow> heap \<Rightarrow> ptr \<Rightarrow> phys_drawing \<Rightarrow> (int \<times> phys_drawing) option" where
  "phys_traverse fuel h None st = Some (-1, st)"
| "phys_traverse 0 h (Some a) st = None"
| "phys_traverse (Suc fuel) h (Some a) st =
     (case node_numbers st a of
        Some i \<Rightarrow> Some (i, st)
      | None \<Rightarrow>
          let current_id = id_counter st in
          map_option (Pair current_id)
            (foldO (draw_child (phys_traverse fuel h) h current_id) (p_children (h ! a))
              (fold (draw_base current_id) (p_base_columns (h ! a)) (draw_box a (h ! a) st))))"

definition phys_lines :: "heap \<Rightarrow> ptr \<Rightarrow> dot_line list option" where
  "phys_lines h root =
     map_option (\<lambda>(_, st). phys_stream st)
       (phys_traverse (length h) h root \<lparr>id_counter = 0, node_numbers = Map.empty, base_col_node_ids = Map.empty, phys_stream = []\<rparr>)"

definition phys_visualize :: "heap \<Rightarrow> ptr \<Rightarrow> string option" where
  "phys_visualize h root =
     map_option (\<lambda>ls. ''digraph PhysicalPlan {'' @ newline @ ''  rankdir=TB;'' @ newline @
       ''  node [fontname='' @ quoted ''Helvetica'' @ ''];'' @ newline @
       ''  edge [fontname='' @ quoted ''Helvetica'' @ '', dir=back];'' @ newline @
       concat (map (dot_text ''lightyellow'') ls) @ ''}'' @ newline) (phys_lines h root)"

text \<open>The same for the physical optimizer in demo mode, after the plan was built.\<close>

definition demo_physical :: "int \<Rightarrow> heap \<Rightarrow> ptr \<Rightarrow> (string \<times> string \<times> string) option option" where
  "demo_physical vis_nr h physical_plan =
     (case physical_plan of
        None \<Rightarrow> Some None
      | Some root \<Rightarrow>
          let basename = ''demo_physical_plan_'' @ int_to_string vis_nr in
          map_option (\<lambda>contents. Some (basename @ ''.dot'', contents, ''dot -Tpng '' @ basename @ ''.dot -o '' @ basename @ ''.png''))
            (phys_visualize h physical_plan))"

section \<open>The state of a drawing\<close>

text \<open>The numbers declared by the lines, in order, and the lines that are edges.\<close>

definition declared :: "dot_line list \<Rightarrow> int list" where
  "declared ls = concat (map (\<lambda>l. case l of Box i _ \<Rightarrow> [i] | Ellipse i _ \<Rightarrow> [i] | _ \<Rightarrow> []) ls)"

fun is_edge :: "dot_line \<Rightarrow> bool" where
  "is_edge (Edge i j s) = True"
| "is_edge (Dashed i j) = True"
| "is_edge _ = False"

definition edge_lines :: "dot_line list \<Rightarrow> dot_line set" where
  "edge_lines ls = {l \<in> set ls. is_edge l}"

lemma declared_simps [simp]: "declared [] = []" "declared (xs @ ys) = declared xs @ declared ys" "declared (Box i s # ls) = i # declared ls"
  "declared (Ellipse i s # ls) = i # declared ls" "declared (Edge i j s # ls) = declared ls" "declared (Dashed i j # ls) = declared ls"
  by (simp_all add: declared_def)

lemma edge_lines_simps [simp]: "edge_lines [] = {}" "edge_lines (xs @ ys) = edge_lines xs \<union> edge_lines ys"
  "edge_lines (l # ls) = (if is_edge l then insert l (edge_lines ls) else edge_lines ls)"
  by (auto simp: edge_lines_def)

text \<open>
  A drawing numbers plan nodes and base columns. Numbers are given out in order, each once, and the
  declarations in the stream are those of what is numbered.
\<close>

definition number_of :: "phys_drawing \<Rightarrow> nat + string \<Rightarrow> int option" where
  "number_of st x = (case x of Inl a \<Rightarrow> node_numbers st a | Inr k \<Rightarrow> base_col_node_ids st k)"

definition decl_line :: "heap \<Rightarrow> nat + string \<Rightarrow> int \<Rightarrow> dot_line" where
  "decl_line h x i = (case x of Inl a \<Rightarrow> Box i (phys_label (h ! a)) | Inr k \<Rightarrow> Ellipse i (escapeHtml k))"

definition drawing_ok :: "heap \<Rightarrow> phys_drawing \<Rightarrow> bool" where
  "drawing_ok h st \<longleftrightarrow>
     0 \<le> id_counter st \<and> declared (phys_stream st) = map int [0..<nat (id_counter st)] \<and>
     {l \<in> set (phys_stream st). \<not> is_edge l} = {decl_line h x i | x i. number_of st x = Some i} \<and>
     (\<forall>x i. number_of st x = Some i \<longrightarrow> 0 \<le> i \<and> i < id_counter st) \<and>
     (\<forall>x y i. number_of st x = Some i \<longrightarrow> number_of st y = Some i \<longrightarrow> x = y)"

lemmas drawing_okD =
  drawing_ok_def [THEN iffD1, THEN conjunct1]
  drawing_ok_def [THEN iffD1, THEN conjunct2, THEN conjunct1]
  drawing_ok_def [THEN iffD1, THEN conjunct2, THEN conjunct2, THEN conjunct1]
  drawing_ok_def [THEN iffD1, THEN conjunct2, THEN conjunct2, THEN conjunct2, THEN conjunct1]
  drawing_ok_def [THEN iffD1, THEN conjunct2, THEN conjunct2, THEN conjunct2, THEN conjunct2]

lemma is_edge_decl_line [simp]: "\<not> is_edge (decl_line h x i)"
  by (simp add: decl_line_def split: sum.split)

lemma declared_decl_line [simp]: "declared [decl_line h x i] = [i]"
  by (simp add: decl_line_def split: sum.split)

lemma declared_edge [simp]: "is_edge l \<Longrightarrow> declared [l] = []"
  by (cases l) simp_all

lemma number_of_update [simp]:
  "number_of (st\<lparr>phys_stream := ls\<rparr>) = number_of st"
  "number_of (st\<lparr>id_counter := n\<rparr>) = number_of st"
  "number_of (st\<lparr>node_numbers := (node_numbers st)(a \<mapsto> i)\<rparr>) = (number_of st)(Inl a \<mapsto> i)"
  "number_of (st\<lparr>base_col_node_ids := (base_col_node_ids st)(k \<mapsto> i)\<rparr>) = (number_of st)(Inr k \<mapsto> i)"
  by (auto simp: number_of_def fun_eq_iff split: sum.split)

lemma drawing_ok_edge:
  "is_edge l \<Longrightarrow> drawing_ok h (st\<lparr>phys_stream := phys_stream st @ [l]\<rparr>) = drawing_ok h st"
proof -
  assume "is_edge l"
  then have "{k \<in> set (phys_stream st @ [l]). \<not> is_edge k} = {k \<in> set (phys_stream st). \<not> is_edge k}" by auto
  then show ?thesis using \<open>is_edge l\<close> by (simp add: drawing_ok_def)
qed

lemma drawing_ok_declare:
  assumes "drawing_ok h st" "number_of st x = None" "number_of st' = (number_of st)(x \<mapsto> id_counter st)"
    and "id_counter st' = id_counter st + 1" "phys_stream st' = phys_stream st @ [decl_line h x (id_counter st)]"
  shows "drawing_ok h st'"
proof -
  let ?n = "id_counter st"
  note ok = assms(1) [unfolded drawing_ok_def]
  have new: "number_of st y \<noteq> Some ?n" for y using ok by fastforce
  have lines: "{l \<in> set (phys_stream st'). \<not> is_edge l} = insert (decl_line h x ?n) {decl_line h y i | y i. number_of st y = Some i}"
    using ok assms(5) by auto
  have iff: "number_of st' y = Some i \<longleftrightarrow> y = x \<and> i = ?n \<or> number_of st y = Some i" for y i
    using assms(2,3) by auto
  have "{decl_line h y i | y i. number_of st' y = Some i} = insert (decl_line h x ?n) {decl_line h y i | y i. number_of st y = Some i}"
    unfolding iff by blast
  moreover have "declared (phys_stream st') = map int [0..<nat (id_counter st')]"
    using ok assms(4,5) by (simp add: nat_add_distrib)
  moreover have "\<forall>y i. number_of st' y = Some i \<longrightarrow> 0 \<le> i \<and> i < id_counter st'"
  proof (intro allI impI)
    fix y i assume "number_of st' y = Some i"
    then consider "i = ?n" | "number_of st y = Some i" unfolding iff by blast
    then have "0 \<le> i \<and> i \<le> ?n" using ok by cases (simp, meson less_imp_le)
    then show "0 \<le> i \<and> i < id_counter st'" using assms(4) by simp
  qed
  moreover have "\<forall>y z i. number_of st' y = Some i \<longrightarrow> number_of st' z = Some i \<longrightarrow> y = z"
    unfolding iff using ok new by blast
  ultimately show ?thesis unfolding drawing_ok_def using lines ok assms(4) by simp
qed

lemma drawing_ok_box:
  assumes "drawing_ok h st" "node_numbers st a = None"
  shows "drawing_ok h (draw_box a (h ! a) st)"
proof (rule drawing_ok_declare [OF assms(1), of "Inl a"])
  show "number_of (draw_box a (h ! a) st) = (number_of st)(Inl a \<mapsto> id_counter st)"
    by (auto simp: draw_box_def number_of_def fun_eq_iff split: sum.split)
qed (use assms(2) in \<open>simp_all add: draw_box_def number_of_def decl_line_def\<close>)

text \<open>Extensions of a drawing: numbers are kept, and edge lines are only added.\<close>

definition column_keys :: "Column list \<Rightarrow> string set" where
  "column_keys cols = colref ` {col \<in> set cols. is_base col \<noteq> None}"

definition children_of :: "heap \<Rightarrow> nat \<Rightarrow> nat set" where
  "children_of h a = {c. Some c \<in> set (p_children (h ! a))}"

definition edges_of :: "heap \<Rightarrow> phys_drawing \<Rightarrow> nat \<Rightarrow> dot_line set" where
  "edges_of h st a =
     (\<lambda>c. Edge (the (node_numbers st a)) (the (node_numbers st c)) (phys_formatColumns (result_columns (h ! c)))) ` children_of h a \<union>
     (\<lambda>k. Dashed (the (node_numbers st a)) (the (base_col_node_ids st k))) ` column_keys (p_base_columns (h ! a))"

definition grew :: "heap \<Rightarrow> phys_drawing \<Rightarrow> phys_drawing \<Rightarrow> nat set \<Rightarrow> string set \<Rightarrow> dot_line set \<Rightarrow> bool" where
  "grew h st st' N K E \<longleftrightarrow>
     node_numbers st \<subseteq>\<^sub>m node_numbers st' \<and> base_col_node_ids st \<subseteq>\<^sub>m base_col_node_ids st' \<and>
     dom (node_numbers st') = dom (node_numbers st) \<union> N \<and>
     dom (base_col_node_ids st') = dom (base_col_node_ids st) \<union> K \<union> (\<Union>a \<in> N. column_keys (p_base_columns (h ! a))) \<and>
     (\<Union>a \<in> N. children_of h a) \<subseteq> dom (node_numbers st') \<and>
     edge_lines (phys_stream st') = edge_lines (phys_stream st) \<union> E \<union> (\<Union>a \<in> N. edges_of h st' a)"

lemma map_le_the: "m \<subseteq>\<^sub>m m' \<Longrightarrow> a \<in> dom m \<Longrightarrow> m' a = m a"
  by (auto simp: map_le_def)

lemma edges_of_extend:
  assumes "node_numbers st \<subseteq>\<^sub>m node_numbers st'" "base_col_node_ids st \<subseteq>\<^sub>m base_col_node_ids st'"
    and "insert a (children_of h a) \<subseteq> dom (node_numbers st)" "column_keys (p_base_columns (h ! a)) \<subseteq> dom (base_col_node_ids st)"
  shows "edges_of h st' a = edges_of h st a"
proof -
  have "node_numbers st' b = node_numbers st b" if "b \<in> insert a (children_of h a)" for b
    using that assms(3) by (intro map_le_the [OF assms(1)]) blast
  moreover have "base_col_node_ids st' k = base_col_node_ids st k" if "k \<in> column_keys (p_base_columns (h ! a))" for k
    using that assms(4) by (intro map_le_the [OF assms(2)]) blast
  ultimately show ?thesis by (simp add: edges_of_def cong: image_cong)
qed

lemma grew_refl: "grew h st st {} {} {}"
  by (simp add: grew_def)

lemmas grewD =
  grew_def [THEN iffD1, THEN conjunct1]
  grew_def [THEN iffD1, THEN conjunct2, THEN conjunct1]
  grew_def [THEN iffD1, THEN conjunct2, THEN conjunct2, THEN conjunct1]
  grew_def [THEN iffD1, THEN conjunct2, THEN conjunct2, THEN conjunct2, THEN conjunct1]
  grew_def [THEN iffD1, THEN conjunct2, THEN conjunct2, THEN conjunct2, THEN conjunct2, THEN conjunct1]
  grew_def [THEN iffD1, THEN conjunct2, THEN conjunct2, THEN conjunct2, THEN conjunct2, THEN conjunct2]

lemma grew_trans:
  assumes "grew h st st1 N1 K1 E1" "grew h st1 st2 N2 K2 E2"
  shows "grew h st st2 (N1 \<union> N2) (K1 \<union> K2) (E1 \<union> E2)"
proof -
  note g1 = grewD [OF assms(1)] and g2 = grewD [OF assms(2)]
  have "edges_of h st2 a = edges_of h st1 a" if "a \<in> N1" for a
  proof (rule edges_of_extend [OF g2(1,2)])
    show "insert a (children_of h a) \<subseteq> dom (node_numbers st1)" using g1(3,5) that by blast
    show "column_keys (p_base_columns (h ! a)) \<subseteq> dom (base_col_node_ids st1)" using g1(4) that by blast
  qed
  then have "(\<Union>a \<in> N1. edges_of h st1 a) = (\<Union>a \<in> N1. edges_of h st2 a)" by auto
  then have "edge_lines (phys_stream st2) = edge_lines (phys_stream st) \<union> (E1 \<union> E2) \<union> (\<Union>a \<in> N1 \<union> N2. edges_of h st2 a)"
    using g1(6) g2(6) by auto
  moreover have "(\<Union>a \<in> N1 \<union> N2. children_of h a) \<subseteq> dom (node_numbers st2)" using g1(5) g2(3,5) by auto
  moreover have "node_numbers st \<subseteq>\<^sub>m node_numbers st2" "base_col_node_ids st \<subseteq>\<^sub>m base_col_node_ids st2"
    using g1(1,2) g2(1,2) map_le_trans by blast+
  moreover have "dom (base_col_node_ids st2) =
      dom (base_col_node_ids st) \<union> (K1 \<union> K2) \<union> (\<Union>a \<in> N1 \<union> N2. column_keys (p_base_columns (h ! a)))"
    unfolding g2(4) g1(4) by blast
  ultimately show ?thesis unfolding grew_def using g1(3) g2(3) by (simp add: Un_assoc)
qed

lemma grew_edge: "is_edge l \<Longrightarrow> grew h st (st\<lparr>phys_stream := phys_stream st @ [l]\<rparr>) {} {} {l}"
  by (simp add: grew_def)

lemma column_keys_simps: "column_keys [] = {}" "column_keys (c # cs) = column_keys [c] \<union> column_keys cs"
  by (auto simp: column_keys_def)

lemma draw_base_grew:
  assumes "drawing_ok h st"
  shows "drawing_ok h (draw_base i col st) \<and> grew h st (draw_base i col st) {} (column_keys [col])
      ((\<lambda>k. Dashed i (the (base_col_node_ids (draw_base i col st) k))) ` column_keys [col])"
proof (cases "is_base col")
  case None
  then have "column_keys [col] = {}" by (auto simp: column_keys_def)
  then show ?thesis using None assms grew_refl by (simp add: draw_base_def)
next
  case base: (Some b)
  let ?k = "colref col"
  have keys: "column_keys [col] = {?k}" using base by (auto simp: column_keys_def)
  show ?thesis
  proof (cases "base_col_node_ids st ?k")
    case None
    let ?n = "id_counter st"
    let ?st = "st\<lparr>id_counter := ?n + 1, base_col_node_ids := (base_col_node_ids st)(?k \<mapsto> ?n),
      phys_stream := phys_stream st @ [Ellipse ?n (escapeHtml ?k)]\<rparr>"
    have db: "draw_base i col st = ?st\<lparr>phys_stream := phys_stream ?st @ [Dashed i ?n]\<rparr>"
      using base None by (simp add: draw_base_def Let_def)
    have "drawing_ok h ?st"
    proof (rule drawing_ok_declare [OF assms, of "Inr ?k"])
      show "number_of ?st = (number_of st)(Inr ?k \<mapsto> ?n)" by (auto simp: number_of_def fun_eq_iff split: sum.split)
    qed (use None in \<open>simp_all add: number_of_def decl_line_def\<close>)
    then have "drawing_ok h (draw_base i col st)" unfolding db by (subst drawing_ok_edge) simp_all
    moreover have "base_col_node_ids st \<subseteq>\<^sub>m (base_col_node_ids st)(?k \<mapsto> ?n)" using None by (auto simp: map_le_def)
    ultimately show ?thesis unfolding keys db by (simp add: grew_def)
  next
    case (Some j)
    then have db: "draw_base i col st = st\<lparr>phys_stream := phys_stream st @ [Dashed i j]\<rparr>"
      using base by (simp add: draw_base_def)
    show ?thesis unfolding keys db using assms Some by (auto simp: drawing_ok_edge grew_def)
  qed
qed

lemma draw_bases_grew:
  "drawing_ok h st \<Longrightarrow> st' = fold (draw_base i) cols st \<Longrightarrow>
   drawing_ok h st' \<and> grew h st st' {} (column_keys cols) ((\<lambda>k. Dashed i (the (base_col_node_ids st' k))) ` column_keys cols)"
proof (induction cols arbitrary: st)
  case Nil
  then show ?case by (simp add: grew_refl column_keys_simps)
next
  case (Cons c cols)
  let ?st = "draw_base i c st"
  note one = draw_base_grew [OF Cons.prems(1), of i c]
  have rest: "drawing_ok h st'" "grew h ?st st' {} (column_keys cols) ((\<lambda>k. Dashed i (the (base_col_node_ids st' k))) ` column_keys cols)"
    using Cons.IH [of ?st] one Cons.prems(2) by simp_all
  have "base_col_node_ids st' k = base_col_node_ids ?st k" if "k \<in> column_keys [c]" for k
    using that grewD(4) [OF conjunct2 [OF one]] by (intro map_le_the [OF grewD(2) [OF rest(2)]]) blast
  then have "(\<lambda>k. Dashed i (the (base_col_node_ids ?st k))) ` column_keys [c] = (\<lambda>k. Dashed i (the (base_col_node_ids st' k))) ` column_keys [c]"
    by (intro image_cong) simp_all
  then have "grew h st st' ({} \<union> {}) (column_keys [c] \<union> column_keys cols)
      ((\<lambda>k. Dashed i (the (base_col_node_ids st' k))) ` column_keys [c] \<union> (\<lambda>k. Dashed i (the (base_col_node_ids st' k))) ` column_keys cols)"
    using grew_trans [OF conjunct2 [OF one] rest(2)] by simp
  then show ?case using rest(1) by (simp add: column_keys_simps(2) [of c cols] image_Un del: column_keys_simps)
qed

abbreviation drawn_nodes :: "phys_drawing \<Rightarrow> nat set" where
  "drawn_nodes st \<equiv> dom (node_numbers st)"

definition child_edge :: "heap \<Rightarrow> phys_drawing \<Rightarrow> int \<Rightarrow> nat \<Rightarrow> dot_line" where
  "child_edge h st i c = Edge i (the (node_numbers st c)) (phys_formatColumns (result_columns (h ! c)))"

text \<open>What a visit of one child does.\<close>

definition visits :: "(ptr \<Rightarrow> phys_drawing \<Rightarrow> (int \<times> phys_drawing) option) \<Rightarrow> heap \<Rightarrow> nat \<Rightarrow> bool" where
  "visits visit h c \<longleftrightarrow> (\<forall>st. drawing_ok h st \<longrightarrow> closed_below h (Suc c) (drawn_nodes st) \<longrightarrow>
     (\<exists>j st'. visit (Some c) st = Some (j, st') \<and> drawing_ok h st' \<and> node_numbers st' c = Some j \<and>
        grew h st st' (reach_set h c - drawn_nodes st) {} {}))"

lemma draw_child_grew:
  assumes "visits visit h c" "drawing_ok h st" "closed_below h (Suc c) (drawn_nodes st)"
  shows "\<exists>st'. draw_child visit h i (Some c) st = Some st' \<and> drawing_ok h st' \<and>
    grew h st st' (reach_set h c - drawn_nodes st) {} {child_edge h st' i c} \<and> c \<in> drawn_nodes st'"
proof -
  from assms obtain j st1 where st1: "visit (Some c) st = Some (j, st1)" "drawing_ok h st1" "node_numbers st1 c = Some j"
    "grew h st st1 (reach_set h c - drawn_nodes st) {} {}" unfolding visits_def by blast
  let ?e = "Edge i j (phys_formatColumns (result_columns (h ! c)))"
  let ?st = "st1\<lparr>phys_stream := phys_stream st1 @ [?e]\<rparr>"
  have "number_of st1 (Inl c) = Some j" using st1(3) by (simp add: number_of_def)
  then have "0 \<le> j" using st1(2) unfolding drawing_ok_def by blast
  then have "draw_child visit h i (Some c) st = Some ?st" using st1(1) by (simp add: draw_child_def)
  moreover have "drawing_ok h ?st" using st1(2) by (simp add: drawing_ok_edge)
  moreover have "grew h st ?st (reach_set h c - drawn_nodes st) {} {child_edge h ?st i c}"
    using grew_trans [OF st1(4) grew_edge [of ?e]] st1(3) by (simp add: child_edge_def)
  ultimately show ?thesis using st1(3) by (intro exI [of _ ?st]) auto
qed

lemma draw_children_grew:
  assumes "\<And>c. Some c \<in> set cs \<Longrightarrow> visits visit h c" "\<forall>p \<in> set cs. ptr_ok a p" "drawing_ok h st" "closed_below h a (drawn_nodes st)"
  shows "\<exists>st'. foldO (draw_child visit h i) cs st = Some st' \<and> drawing_ok h st' \<and>
    grew h st st' ((\<Union>c \<in> {c. Some c \<in> set cs}. reach_set h c) - drawn_nodes st) {} (child_edge h st' i ` {c. Some c \<in> set cs})"
  using assms
proof (induction cs arbitrary: st)
  case Nil
  then show ?case by (simp add: grew_refl)
next
  case (Cons p cs)
  show ?case
  proof (cases p)
    case None
    then show ?thesis using Cons.IH [of st] Cons.prems by (simp add: draw_child_def)
  next
    case (Some c)
    then have c: "c < a" using Cons.prems(2) by simp
    have v: "visits visit h c" using Cons.prems(1) Some by simp
    have cl: "closed_below h (Suc c) (drawn_nodes st)" using Cons.prems(4) c by (auto intro: closed_below_mono)
    obtain st1 where st1: "draw_child visit h i (Some c) st = Some st1" "drawing_ok h st1"
      "grew h st st1 (reach_set h c - drawn_nodes st) {} {child_edge h st1 i c}" "c \<in> drawn_nodes st1"
      using draw_child_grew [OF v Cons.prems(3) cl] by blast
    have dom1: "drawn_nodes st1 = drawn_nodes st \<union> reach_set h c" using grewD(3) [OF st1(3)] by blast
    have "closed_below h a (drawn_nodes st1)" unfolding dom1 using Cons.prems(4) by (rule closed_below_union)
    then obtain st2 where st2: "foldO (draw_child visit h i) cs st1 = Some st2" "drawing_ok h st2"
      "grew h st1 st2 ((\<Union>c \<in> {c. Some c \<in> set cs}. reach_set h c) - drawn_nodes st1) {} (child_edge h st2 i ` {c. Some c \<in> set cs})"
      using Cons.IH [OF Cons.prems(1) _ st1(2)] Cons.prems(2) by auto
    have "child_edge h st1 i c = child_edge h st2 i c"
      using map_le_the [OF grewD(1) [OF st2(3)] st1(4)] by (simp add: child_edge_def)
    moreover have cs: "{d. Some d \<in> set (p # cs)} = insert c {d. Some d \<in> set cs}" using Some by auto
    moreover have "reach_set h c - drawn_nodes st \<union> ((\<Union>c \<in> {c. Some c \<in> set cs}. reach_set h c) - drawn_nodes st1) =
        (\<Union>d \<in> {d. Some d \<in> set (p # cs)}. reach_set h d) - drawn_nodes st" unfolding dom1 cs by auto
    ultimately show ?thesis using grew_trans [OF st1(3) st2(3)] st1(1) st2(1,2) Some by simp
  qed
qed

lemma draw_node_grew:
  assumes "node_numbers st a = None" "i = id_counter st"
    and bases: "grew h (draw_box a (h ! a) st) st2 {} (column_keys (p_base_columns (h ! a)))
      ((\<lambda>k. Dashed i (the (base_col_node_ids st2 k))) ` column_keys (p_base_columns (h ! a)))"
    and children: "grew h st2 st3 ((\<Union>c \<in> children_of h a. reach_set h c) - drawn_nodes st2) {} (child_edge h st3 i ` children_of h a)"
  shows "node_numbers st3 a = Some i \<and> grew h st st3 (reach_set h a - drawn_nodes st) {} {}"
proof
  let ?st1 = "draw_box a (h ! a) st" and ?keys = "column_keys (p_base_columns (h ! a))"
  let ?N = "(\<Union>c \<in> children_of h a. reach_set h c) - drawn_nodes st2"
  note g2 = grewD [OF bases] and g3 = grewD [OF children]
  have st1: "node_numbers ?st1 = (node_numbers st)(a \<mapsto> i)" "base_col_node_ids ?st1 = base_col_node_ids st"
    "edge_lines (phys_stream ?st1) = edge_lines (phys_stream st)" using assms(2) by (simp_all add: draw_box_def)
  have le: "node_numbers ?st1 \<subseteq>\<^sub>m node_numbers st3" "base_col_node_ids ?st1 \<subseteq>\<^sub>m base_col_node_ids st3"
    using map_le_trans g2(1,2) g3(1,2) by blast+
  show num: "node_numbers st3 a = Some i" using map_le_the [OF le(1), of a] st1(1) by simp
  have dom2: "drawn_nodes st2 = insert a (drawn_nodes st)" using g2(3) st1(1) by simp
  have N: "reach_set h a - drawn_nodes st = insert a ?N"
    unfolding dom2 reach_set_unfold [of h a] children_of_def using assms(1) by auto
  have self: "a \<in> ?N \<union> {a}" "children_of h a \<subseteq> drawn_nodes st3"
    using g3(3) reach.self by (auto simp: reach_set_def)
  have "base_col_node_ids st3 k = base_col_node_ids st2 k" if "k \<in> ?keys" for k
    using that g2(4) by (intro map_le_the [OF g3(2)]) blast
  then have dashed: "(\<lambda>k. Dashed i (the (base_col_node_ids st2 k))) ` ?keys = (\<lambda>k. Dashed i (the (base_col_node_ids st3 k))) ` ?keys"
    by (intro image_cong) simp_all
  have "edges_of h st3 a = child_edge h st3 i ` children_of h a \<union> (\<lambda>k. Dashed i (the (base_col_node_ids st3 k))) ` ?keys"
    by (simp add: edges_of_def num child_edge_def)
  then have edges: "edge_lines (phys_stream st3) = edge_lines (phys_stream st) \<union> {} \<union> (\<Union>b \<in> insert a ?N. edges_of h st3 b)"
    using g3(6) g2(6) st1(3) dashed by auto
  have "node_numbers st \<subseteq>\<^sub>m node_numbers ?st1" using assms(1) st1(1) by (auto simp: map_le_def)
  then have "node_numbers st \<subseteq>\<^sub>m node_numbers st3" "base_col_node_ids st \<subseteq>\<^sub>m base_col_node_ids st3"
    using le map_le_trans st1(2) by (blast, simp)
  moreover have "drawn_nodes st3 = drawn_nodes st \<union> insert a ?N" using g3(3) dom2 by auto
  moreover have "dom (base_col_node_ids st3) = dom (base_col_node_ids st) \<union> {} \<union> (\<Union>b \<in> insert a ?N. column_keys (p_base_columns (h ! b)))"
    using g3(4) g2(4) st1(2) by auto
  moreover have "(\<Union>b \<in> insert a ?N. children_of h b) \<subseteq> drawn_nodes st3" using g3(5) self(2) by auto
  ultimately show "grew h st st3 (reach_set h a - drawn_nodes st) {} {}" unfolding grew_def N using edges by blast
qed

lemma phys_traverse_visits:
  assumes "heap_ok h" "a < length h" "a < fuel"
  shows "visits (phys_traverse fuel h) h a"
  using assms
proof (induction a arbitrary: fuel rule: less_induct)
  case (less a)
  then obtain k where k: "fuel = Suc k" by (cases fuel) auto
  show ?case unfolding visits_def
  proof (intro allI impI)
    fix st assume st: "drawing_ok h st" "closed_below h (Suc a) (drawn_nodes st)"
    show "\<exists>j st'. phys_traverse fuel h (Some a) st = Some (j, st') \<and> drawing_ok h st' \<and> node_numbers st' a = Some j \<and>
        grew h st st' (reach_set h a - drawn_nodes st) {} {}"
    proof (cases "node_numbers st a")
      case (Some i)
      then have eq: "reach_set h a - drawn_nodes st = {}"
        using closed_below_reach [OF st(2) less.prems(1,2)] by (auto simp: reach_set_def)
      show ?thesis unfolding eq using Some k st(1) grew_refl by simp
    next
      case None
      let ?i = "id_counter st" and ?n = "h ! a"
      let ?st1 = "draw_box a ?n st"
      have ok1: "drawing_ok h ?st1" by (rule drawing_ok_box [OF st(1) None])
      obtain st2 where st2: "st2 = fold (draw_base ?i) (p_base_columns ?n) ?st1" "drawing_ok h st2"
        "grew h ?st1 st2 {} (column_keys (p_base_columns ?n)) ((\<lambda>k. Dashed ?i (the (base_col_node_ids st2 k))) ` column_keys (p_base_columns ?n))"
        using draw_bases_grew [OF ok1 refl] by blast
      have dom2: "drawn_nodes st2 = insert a (drawn_nodes st)" using grewD(3) [OF st2(3)] by (simp add: draw_box_def)
      have "closed_below h a (drawn_nodes st2)" unfolding dom2 using st(2) by (auto simp: closed_below_def)
      moreover have "\<forall>p \<in> set (p_children ?n). ptr_ok a p" using less.prems(1,2) by (auto simp: heap_ok_def)
      moreover have "visits (phys_traverse k h) h c" if "Some c \<in> set (p_children ?n)" for c
      proof -
        have "c < a" using heap_ok_child [OF less.prems(1,2) that] .
        then show ?thesis using less.prems k by (intro less.IH) simp_all
      qed
      ultimately obtain st3 where st3: "foldO (draw_child (phys_traverse k h) h ?i) (p_children ?n) st2 = Some st3" "drawing_ok h st3"
        "grew h st2 st3 ((\<Union>c \<in> children_of h a. reach_set h c) - drawn_nodes st2) {} (child_edge h st3 ?i ` children_of h a)"
        using draw_children_grew [of "p_children ?n" "phys_traverse k h" h a st2 ?i] st2(2) unfolding children_of_def by blast
      have "phys_traverse fuel h (Some a) st = Some (?i, st3)" using None k st2(1) st3(1) by (simp add: Let_def)
      moreover have "node_numbers st3 a = Some ?i \<and> grew h st st3 (reach_set h a - drawn_nodes st) {} {}"
        by (rule draw_node_grew [OF None refl st2(3) st3(3)])
      ultimately show ?thesis using st3(2) by blast
    qed
  qed
qed

text \<open>
  C40. The drawing of a physical plan shows the plan. On an acyclic node store the visualizer returns, and its
  file declares the numbers 0, 1, 2, ... once each: one box per node reachable from the root, labelled with
  this node, and one ellipse per base column that such a node reads. The edges are exactly those from the box
  of a node to the boxes of its children, labelled with the result columns of the child, and to its base
  columns. Shared nodes are drawn once.
\<close>

theorem phys_visualize_correct:
  assumes "heap_ok h" "root < length h"
  shows "\<exists>number ls.
    phys_lines h (Some root) = Some ls \<and>
    (let nodes = reach_set h root; keys = (\<Union>a \<in> nodes. column_keys (p_base_columns (h ! a))) in
     inj_on number (Inl ` nodes \<union> Inr ` keys) \<and>
     declared ls = map int [0..<length (declared ls)] \<and>
     {l \<in> set ls. \<not> is_edge l} =
       (\<lambda>a. Box (number (Inl a)) (phys_label (h ! a))) ` nodes \<union> (\<lambda>k. Ellipse (number (Inr k)) (escapeHtml k)) ` keys \<and>
     {l \<in> set ls. is_edge l} = (\<Union>a \<in> nodes.
       (\<lambda>c. Edge (number (Inl a)) (number (Inl c)) (phys_formatColumns (result_columns (h ! c)))) ` children_of h a \<union>
       (\<lambda>k. Dashed (number (Inl a)) (number (Inr k))) ` column_keys (p_base_columns (h ! a))))"
proof -
  let ?st = "\<lparr>id_counter = 0, node_numbers = Map.empty, base_col_node_ids = Map.empty, phys_stream = []\<rparr>"
  have "drawing_ok h ?st" by (simp add: drawing_ok_def number_of_def split: sum.split)
  moreover have "closed_below h (Suc root) (drawn_nodes ?st)" by (simp add: closed_below_def)
  ultimately obtain j st where st: "phys_traverse (length h) h (Some root) ?st = Some (j, st)" "drawing_ok h st"
    "grew h ?st st (reach_set h root - drawn_nodes ?st) {} {}"
    using phys_traverse_visits [OF assms assms(2)] unfolding visits_def by blast
  let ?nodes = "reach_set h root" and ?number = "\<lambda>x. the (number_of st x)"
  let ?keys = "\<Union>a \<in> ?nodes. column_keys (p_base_columns (h ! a))"
  note ok = drawing_okD [OF st(2)] and g = grewD [OF st(3)]
  have dom: "drawn_nodes st = ?nodes" "dom (base_col_node_ids st) = ?keys" using g(3,4) by simp_all
  have num: "number_of st x = Some i \<longleftrightarrow> x \<in> Inl ` ?nodes \<union> Inr ` ?keys \<and> i = ?number x" for x i
  proof -
    have "number_of st x \<noteq> None \<longleftrightarrow> x \<in> Inl ` ?nodes \<union> Inr ` ?keys"
    proof (cases x)
      case (Inl a)
      then show ?thesis unfolding dom(1) [symmetric] by (auto simp: number_of_def)
    next
      case (Inr k)
      then show ?thesis unfolding dom(2) [symmetric] by (auto simp: number_of_def)
    qed
    then show ?thesis by (cases "number_of st x") auto
  qed
  have "inj_on ?number (Inl ` ?nodes \<union> Inr ` ?keys)" using ok(5) num by (intro inj_onI) metis
  moreover have "{l \<in> set (phys_stream st). \<not> is_edge l} =
      (\<lambda>a. Box (?number (Inl a)) (phys_label (h ! a))) ` ?nodes \<union> (\<lambda>k. Ellipse (?number (Inr k)) (escapeHtml k)) ` ?keys"
  proof -
    have "{l \<in> set (phys_stream st). \<not> is_edge l} = (\<lambda>x. decl_line h x (?number x)) ` (Inl ` ?nodes \<union> Inr ` ?keys)"
      unfolding ok(3) num by blast
    then show ?thesis by (simp add: image_Un image_image decl_line_def)
  qed
  moreover have "{l \<in> set (phys_stream st). is_edge l} = (\<Union>a \<in> ?nodes. edges_of h st a)"
    using g(6) by (simp add: edge_lines_def)
  moreover have "declared (phys_stream st) = map int [0..<length (declared (phys_stream st))]" unfolding ok(2) by simp
  ultimately show ?thesis using st(1)
    by (intro exI [of _ ?number] exI [of _ "phys_stream st"]) (simp add: phys_lines_def Let_def edges_of_def number_of_def)
qed

section \<open>A concrete drawing\<close>

text \<open>A filter on a base column, read by two aggregates below one result node.\<close>

definition demo_column :: Column where
  "demo_column = (mkColumn ''t'' ''a'' T_INTEGER None None)\<lparr>is_base := Some True\<rparr>"

definition drawn_heap :: heap where
  "drawn_heap = [(new_phys P_FILTER 1)\<lparr>p_base_columns := [demo_column]\<rparr>, (new_phys P_AGGREGATE 2)\<lparr>p_children := [Some 0]\<rparr>,
     (new_phys P_RESULT 3)\<lparr>p_children := [Some 0, None, Some 1]\<rparr>]"

lemma drawn_heap_ok: "heap_ok drawn_heap"
  by (auto simp: heap_ok_def drawn_heap_def less_Suc_eq)

theorem phys_visualize_correct_witness:
  "\<exists>ls. phys_lines drawn_heap (Some 2) = Some ls \<and> declared ls = map int [0..<length (declared ls)]"
  using phys_visualize_correct [OF drawn_heap_ok, of 2] by (auto simp: drawn_heap_def Let_def)

end
