(* ===== verification/ExamplePlans.thy ===== *)
theory ExamplePlans
  imports PlanFlow WorkItems
begin

text \<open>
  The hand-written physical plans of \<^verbatim>\<open>PhysicalPlanStructs.hpp\<close>, as node stores with children before their
  parents. The functions leave \<^verbatim>\<open>node_id\<close> uninitialised; its values are a parameter.
\<close>

definition example_node ::
  "PhysicalNodeType \<Rightarrow> int \<Rightarrow> Column list \<Rightarrow> Column list \<Rightarrow> Expression \<Rightarrow> nat list \<Rightarrow> PhysicalPlanNode" where
  "example_node ty i ins outs e cs =
     (new_phys ty i)\<lparr>p_base_columns := ins, result_columns := outs, p_expression := e, p_children := map Some cs\<rparr>"

definition int_col :: "string \<Rightarrow> string \<Rightarrow> Column" where
  "int_col t c = mkColumn t c T_INTEGER None None"

definition pos_col :: "string \<Rightarrow> Column" where
  "pos_col c = mkColumn ''intermediate'' c T_POSLIST None None"

definition sum_spec :: Expression where
  "sum_spec = Expression_default\<lparr>agg_specs := [\<lparr>agg_func = A_SUM, agg_input = None, result_alias = None, agg_is_star = False\<rparr>]\<rparr>"

definition compares :: "PlanCompType \<Rightarrow> string list \<Rightarrow> Expression" where
  "compares cmp vals = Expression_default\<lparr>comp_type := Some cmp, literals := vals\<rparr>"

abbreviation inter :: "string \<Rightarrow> Column" where
  "inter \<equiv> int_col ''intermediate''"

definition physicalPlanExample :: "(nat \<Rightarrow> int) \<Rightarrow> heap" where
  "physicalPlanExample ids =
     [example_node P_FILTER (ids 0) [int_col ''dates'' ''d_year''] [pos_col ''i1''] (compares C_GT [''1993'']) [],
       example_node P_MATERIALIZE (ids 1) [int_col ''dates'' ''d_datekey'', pos_col ''i1''] [inter ''i2''] Expression_default [0],
       example_node P_FILTER (ids 2) [int_col ''lineorder'' ''lo_quantity''] [pos_col ''i2''] (compares C_LT [''25'']) [],
       example_node P_FILTER (ids 3) [int_col ''dates'' ''d_year''] [pos_col ''i3''] (compares C_BETWEEN [''1'', ''3'']) [],
       example_node P_SETOPERATION (ids 4) [pos_col ''i2'', pos_col ''i3''] [pos_col ''i4'']
         (Expression_default\<lparr>logical_rel_op := Some R_INTERSECTION\<rparr>) [2, 3],
       example_node P_MATERIALIZE (ids 5) [int_col ''lineorder'' ''lo_orderdate'', pos_col ''i4''] [inter ''i5''] Expression_default [4],
       example_node P_HASHJOIN (ids 6) [inter ''i5'', inter ''i2''] [pos_col ''i6_i'', pos_col ''i6_o''] Expression_default [1, 5],
       example_node P_MATERIALIZE (ids 7) [int_col ''lineorder'' ''lo_extendetprice'', pos_col ''i4''] [inter ''i7''] Expression_default [4],
       example_node P_MATERIALIZE (ids 8) [int_col ''lineorder'' ''lo_discount'', pos_col ''i4''] [inter ''i8''] Expression_default [4],
       example_node P_MATERIALIZE (ids 9) [inter ''i7'', pos_col ''i6_o''] [inter ''i9''] Expression_default [6, 7],
       example_node P_MATERIALIZE (ids 10) [inter ''i8'', pos_col ''i6_o''] [inter ''i10''] Expression_default [8],
       example_node P_MAP (ids 11) [inter ''i10'', inter ''i9''] [inter ''i11''] (Expression_default\<lparr>arith_op := Some O_MUL\<rparr>) [10, 9],
       example_node P_AGGREGATE (ids 12) [inter ''i11''] [int_col ''result'' ''sum''] sum_spec [11],
       (example_node P_RESULT (ids 13) [] [mkColumn ''result'' ''sum'' T_INTEGER (Some ''revenue'') None] Expression_default [12])
         \<lparr>resultName := Some ''result_q_1_1''\<rparr>]"

definition physicalPlanMultiJoinExample :: "(nat \<Rightarrow> int) \<Rightarrow> heap" where
  "physicalPlanMultiJoinExample ids =
     [example_node P_HASHJOIN (ids 10) [int_col ''dates'' ''d_datekey'', int_col ''lineorder'' ''lo_orderdate'']
         [pos_col ''i1_i'', pos_col ''i1_o''] Expression_default [],
       example_node P_MATERIALIZE (ids 9) [int_col ''lineorder'' ''lo_partkey'', pos_col ''i1_o''] [inter ''i3''] Expression_default [0],
       example_node P_FILTER (ids 8) [mkColumn ''part'' ''p_category'' T_STRING None None] [pos_col ''i2''] (compares C_EQ [''MFGR#12'']) [],
       example_node P_MATERIALIZE (ids 7) [int_col ''part'' ''p_partkey'', pos_col ''i2''] [inter ''i4''] Expression_default [2],
       example_node P_HASHJOIN (ids 6) [inter ''i4'', inter ''i3''] [pos_col ''i5_i'', pos_col ''i5_o''] Expression_default [3, 1],
       example_node P_MATERIALIZE (ids 5) [int_col ''lineorder'' ''lo_suppkey'', pos_col ''i5_o''] [inter ''i7''] Expression_default [4],
       example_node P_FILTER (ids 4) [mkColumn ''supplier'' ''s_region'' T_STRING None None] [pos_col ''i6''] (compares C_EQ [''AMERICA'']) [],
       example_node P_MATERIALIZE (ids 3) [int_col ''supplier'' ''s_suppkey'', pos_col ''i6''] [inter ''i8''] Expression_default [6],
       example_node P_HASHJOIN (ids 2) [inter ''i8'', inter ''i7''] [pos_col ''i9_i'', pos_col ''i9_o''] Expression_default [7, 5],
       example_node P_MATERIALIZE (ids 1) [int_col ''lineorder'' ''lo_revenue'', pos_col ''i9_o''] [inter ''i10''] Expression_default [8],
       example_node P_AGGREGATE (ids 0) [inter ''i10''] [int_col ''result'' ''sum''] sum_spec [9]]"

lemmas example_defs = example_node_def int_col_def pos_col_def inputs_def derived_def produces_def colref_def

text \<open>The identifiers do not matter for the data flow.\<close>

lemma node_ok_code [code]:
  "node_ok tab h n \<longleftrightarrow> (\<forall>p \<in> set (p_children n). ptr_ok (length h) p) \<and>
     (\<forall>c \<in> inputs n. derived tab c \<longrightarrow> (\<exists>p \<in> set (p_children n). case p of Some a \<Rightarrow> colref c \<in> produces (h ! a) | None \<Rightarrow> False))"
  unfolding node_ok_def by (force split: option.split)

lemma multi_join_flow: "flow_ok ''intermediate'' (physicalPlanMultiJoinExample (\<lambda>_. 0))"
  by code_simp

definition same_but_ids :: "heap \<Rightarrow> heap \<Rightarrow> bool" where
  "same_but_ids = list_all2 (\<lambda>n n'. \<exists>i. n' = n\<lparr>node_id := i\<rparr>)"

lemma flow_ok_ids:
  assumes "flow_ok tab h" "same_but_ids h h'"
  shows "flow_ok tab h'"
  unfolding flow_ok_def
proof (intro allI impI)
  fix i assume i: "i < length h'"
  have len: "length h' = length h" using assms(2) by (simp add: same_but_ids_def list_all2_lengthD)
  have node: "\<exists>k. h' ! j = (h ! j)\<lparr>node_id := k\<rparr>" if "j < length h" for j
    using list_all2_nthD [OF assms(2) [unfolded same_but_ids_def] that] .
  have same: "inputs (h' ! j) = inputs (h ! j)" "produces (h' ! j) = produces (h ! j)" "p_children (h' ! j) = p_children (h ! j)"
    if "j < length h" for j using node [OF that] by (auto simp: inputs_def produces_def)
  have ok: "node_ok tab (take i h) (h ! i)" using assms(1) i len by (simp add: flow_ok_def)
  have "produces (take i h' ! a) = produces (take i h ! a)" if "Some a \<in> set (p_children (h ! i))" for a
  proof -
    have "a < i" using ok that i len unfolding node_ok_def by fastforce
    then show ?thesis using same(2) [of a] i len by simp
  qed
  then have "\<exists>a. Some a \<in> set (p_children (h ! i)) \<and> colref c \<in> produces (take i h' ! a)"
    if "c \<in> inputs (h ! i)" "derived tab c" for c using ok that unfolding node_ok_def by metis
  then show "node_ok tab (take i h') (h' ! i)" using ok same [of i] i len unfolding node_ok_def by simp
qed

lemma example_node_id: "example_node ty i ins outs e cs = (example_node ty 0 ins outs e cs)\<lparr>node_id := i\<rparr>"
  by (simp add: example_node_def new_phys_def)

text \<open>The multi-join example is a well-formed plan: every derived column is read from a child that produces it.\<close>

lemma multi_join_example_flows:
  "plan_flows ''intermediate'' (physicalPlanMultiJoinExample ids) 10"
proof (rule flow_ok_plan_flows)
  have "same_but_ids (physicalPlanMultiJoinExample (\<lambda>_. 0)) (physicalPlanMultiJoinExample ids)"
    unfolding same_but_ids_def physicalPlanMultiJoinExample_def
    by (intro list.rel_intros exI; rule example_node_id)
  then show "flow_ok ''intermediate'' (physicalPlanMultiJoinExample ids)" by (rule flow_ok_ids [OF multi_join_flow])
qed (simp add: physicalPlanMultiJoinExample_def)

text \<open>
  The first example is not: the materialization of \<open>i10\<close> reads the join output \<open>i6_o\<close>, but the join is not among
  its children.
\<close>

lemma example_nodes:
  "physicalPlanExample ids ! 10 = example_node P_MATERIALIZE (ids 10) [inter ''i8'', pos_col ''i6_o''] [inter ''i10''] Expression_default [8]"
  "physicalPlanExample ids ! 8 = example_node P_MATERIALIZE (ids 8) [int_col ''lineorder'' ''lo_discount'', pos_col ''i4''] [inter ''i8''] Expression_default [4]"
  "p_children (physicalPlanExample ids ! 11) = [Some 10, Some 9]"
  "p_children (physicalPlanExample ids ! 12) = [Some 11]"
  "p_children (physicalPlanExample ids ! 13) = [Some 12]"
  by (simp_all add: physicalPlanExample_def) (simp_all add: example_node_def)

lemma example_misses_join: "\<not> plan_flows ''intermediate'' (physicalPlanExample ids) 13"
proof
  let ?h = "physicalPlanExample ids"
  assume flows: "plan_flows ''intermediate'' ?h 13"
  have "reach ?h 11 10" by (rule reach.child [OF _ reach.self]) (simp add: example_nodes(3))
  then have "reach ?h 12 10" by (rule reach.child [rotated]) (simp add: example_nodes(4))
  then have "reach ?h 13 10" by (rule reach.child [rotated]) (simp add: example_nodes(5))
  moreover have "pos_col ''i6_o'' \<in> inputs (?h ! 10)" unfolding example_nodes by (simp add: example_node_def inputs_def)
  moreover have "derived ''intermediate'' (pos_col ''i6_o'')" by (simp add: derived_def pos_col_def)
  ultimately obtain b where b: "Some b \<in> set (p_children (?h ! 10))" "colref (pos_col ''i6_o'') \<in> produces (?h ! b)"
    using flows unfolding plan_flows_def by blast
  have "b = 8" using b(1) unfolding example_nodes by (simp add: example_node_def)
  then have "colref (pos_col ''i6_o'') = colref (inter ''i8'')" using b(2) example_nodes(2) by (simp add: produces_def example_node_def)
  then show False by (simp add: colref_def pos_col_def int_col_def)
qed

text \<open>
  Both examples keep the position list of a materialization among its base columns; the conversion to work items
  expects it in \<open>index\<close> and throws std::bad_optional_access.
\<close>

lemma example_materialize_throws: "materialize_data (physicalPlanExample ids ! 10) = Inl (RuntimeError ''bad optional access'')"
  unfolding example_nodes by (simp add: materialize_data_def example_node_def at_def)

end
